(* ===== verification/PkgPrelude.thy ===== *)
theory PkgPrelude
  imports Main "HOL-Library.Word"
begin

text \<open>
  Shared vocabulary of the development: C integers that wrap, flat byte memory and
  memcpy, C strings (without their terminating NUL), decimal conversion as
  strtoull and printf do it, and the fact collections the components use.
  Nothing here is a property of the program; the components import it.
\<close>

section \<open>Fact collections\<close>

named_theorems u64_simps \<open>arithmetic of unsigned 64-bit values that do not wrap\<close>
named_theorems mem_simps \<open>reading memory after memcpy\<close>
named_theorems cstr_simps \<open>evaluation of the C string functions\<close>

section \<open>Unsigned 64-bit arithmetic\<close>

text \<open>
  Values of uint64_t and size_t are natural numbers below 2^64; every operation that
  can wrap is written with one of the three functions below.
\<close>

definition u64_add :: "nat \<Rightarrow> nat \<Rightarrow> nat" where
  "u64_add a b = (a + b) mod 2 ^ 64"

definition u64_sub :: "nat \<Rightarrow> nat \<Rightarrow> nat" where
  "u64_sub a b = nat ((int a - int b) mod 2 ^ 64)"

definition u64_mul :: "nat \<Rightarrow> nat \<Rightarrow> nat" where
  "u64_mul a b = (a * b) mod 2 ^ 64"

lemma u64_add_small [u64_simps]: "a + b < 2 ^ 64 \<Longrightarrow> u64_add a b = a + b"
  by (simp add: u64_add_def)

lemma u64_mul_small [u64_simps]: "a * b < 2 ^ 64 \<Longrightarrow> u64_mul a b = a * b"
  by (simp add: u64_mul_def)

lemma u64_sub_small [u64_simps]:
  assumes "b \<le> a" and "a < 2 ^ 64"
  shows "u64_sub a b = a - b"
proof -
  have "(int a - int b) mod 2 ^ 64 = int a - int b"
    using assms by (intro mod_pos_pos_trivial) auto
  then have "u64_sub a b = nat (int a - int b)" by (simp add: u64_sub_def)
  also have "\<dots> = a - b" by (simp add: nat_minus_as_int)
  finally show ?thesis .
qed

lemma u64_add_less [simp]: "u64_add a b < 2 ^ 64"
  by (simp add: u64_add_def)

lemma u64_mul_less [simp]: "u64_mul a b < 2 ^ 64"
  by (simp add: u64_mul_def)

lemma u64_add_0_right: "a < 2 ^ 64 \<Longrightarrow> u64_add a 0 = a"
  by (simp add: u64_add_def)

lemma u64_add_le: "u64_add a b \<le> a + b"
  by (simp add: u64_add_def)

lemma u64_add_wrapped:
  assumes "a < 2 ^ 64" and "b < 2 ^ 64" and "2 ^ 64 \<le> a + b"
  shows "u64_add a b = a + b - 2 ^ 64" and "u64_add a b < a" and "u64_add a b < b"
proof -
  have "(a + b) mod 2 ^ 64 = a + b - 2 ^ 64"
    using assms by (simp add: le_mod_geq)
  then show e: "u64_add a b = a + b - 2 ^ 64" by (simp add: u64_add_def)
  show "u64_add a b < a" and "u64_add a b < b" using assms by (simp_all add: e)
qed

text \<open>The cast of an unsigned value to int (two's complement, 32 bits).\<close>

definition i32 :: "nat \<Rightarrow> int" where
  "i32 n = (int n + 2 ^ 31) mod 2 ^ 32 - 2 ^ 31"

lemma i32_small [u64_simps]: "n < 2 ^ 31 \<Longrightarrow> i32 n = int n"
  by (simp add: i32_def)

section \<open>Flat memory\<close>

type_synonym u8 = "8 word"
type_synonym u32 = "32 word"
type_synonym mem = "nat \<Rightarrow> u8"

text \<open>memcpy d dst src s n: n bytes of src from s on replace those of dst from d on.\<close>

definition memcpy :: "mem \<Rightarrow> nat \<Rightarrow> mem \<Rightarrow> nat \<Rightarrow> nat \<Rightarrow> mem" where
  "memcpy dst d src s n = (\<lambda>i. if d \<le> i \<and> i < d + n then src (s + (i - d)) else dst i)"

lemma memcpy_inside [mem_simps]: "d \<le> i \<Longrightarrow> i < d + n \<Longrightarrow> memcpy dst d src s n i = src (s + (i - d))"
  by (simp add: memcpy_def)

lemma memcpy_outside [mem_simps]: "i < d \<or> d + n \<le> i \<Longrightarrow> memcpy dst d src s n i = dst i"
  by (auto simp: memcpy_def)

lemma memcpy_0 [simp]: "memcpy dst d src s 0 = dst"
  by (auto simp: memcpy_def fun_eq_iff)

text \<open>A buffer given by its bytes, and the bytes of a region of memory.\<close>

definition mem_of :: "u8 list \<Rightarrow> mem" where
  "mem_of bs = (\<lambda>i. if i < length bs then bs ! i else 0)"

definition mem_bytes :: "mem \<Rightarrow> nat \<Rightarrow> nat \<Rightarrow> u8 list" where
  "mem_bytes m start n = map m [start..<start + n]"

lemma length_mem_bytes [simp]: "length (mem_bytes m s n) = n"
  by (simp add: mem_bytes_def)

lemma nth_mem_bytes [simp]: "i < n \<Longrightarrow> mem_bytes m s n ! i = m (s + i)"
  by (simp add: mem_bytes_def)

lemma mem_bytes_eqI:
  "(\<And>i. i < n \<Longrightarrow> m (s + i) = m' (s' + i)) \<Longrightarrow> mem_bytes m s n = mem_bytes m' s' n"
  by (rule nth_equalityI) simp_all

section \<open>C strings\<close>

text \<open>
  A C string is the list of its characters before the NUL; reading at or past the end
  gives the NUL (the code never reads further than one past the terminator).
\<close>

definition NUL :: char where
  "NUL = CHR 0x00"

definition c_at :: "string \<Rightarrow> nat \<Rightarrow> char" where
  "c_at s i = (if i < length s then s ! i else NUL)"

definition starts_with :: "string \<Rightarrow> string \<Rightarrow> bool" where
  "starts_with p s = (take (length p) s = p)"

lemma starts_with_append [simp]: "starts_with p (p @ s)"
  by (simp add: starts_with_def)

text \<open>strncpy/snprintf into a buffer of n bytes keep at most n - 1 characters.\<close>

definition c_trunc :: "nat \<Rightarrow> string \<Rightarrow> string" where
  "c_trunc n s = take (n - 1) s"

lemma c_trunc_short [cstr_simps]: "length s < n \<Longrightarrow> c_trunc n s = s"
  by (simp add: c_trunc_def)

lemma length_c_trunc: "0 < n \<Longrightarrow> length (c_trunc n s) < n"
  by (simp add: c_trunc_def)

text \<open>The part of a path after its last slash (strrchr), the whole of it without one.\<close>

fun base_name :: "string \<Rightarrow> string" where
  "base_name [] = []"
| "base_name (c # s) = (if CHR ''/'' \<in> set (c # s) then base_name s else c # s)"

lemma base_name_no_slash: "CHR ''/'' \<notin> set (base_name s)"
  by (induction s) auto

lemma base_name_id: "CHR ''/'' \<notin> set s \<Longrightarrow> base_name s = s"
  by (cases s) auto

lemma base_name_append: "base_name (d @ CHR ''/'' # s) = base_name s"
proof (induction d)
  case Nil
  show ?case by simp
next
  case (Cons c d)
  have "CHR ''/'' \<in> set ((c # d) @ CHR ''/'' # s)" by simp
  then have "base_name ((c # d) @ CHR ''/'' # s) = base_name (d @ CHR ''/'' # s)" by simp
  with Cons.IH show ?case by simp
qed

text \<open>ASCII case folding as tolower, strcasecmp and the header matchers do it.\<close>

definition lower :: "char \<Rightarrow> char" where
  "lower c = (if 65 \<le> (of_char c :: nat) \<and> (of_char c :: nat) \<le> 90
              then char_of (of_char c + 32 :: nat) else c)"

definition ieq :: "string \<Rightarrow> string \<Rightarrow> bool" where
  "ieq a b = (map lower a = map lower b)"

definition iprefix :: "string \<Rightarrow> string \<Rightarrow> bool" where
  "iprefix p s = (map lower p = map lower (take (length p) s))"

lemma ieq_refl [simp]: "ieq s s"
  by (simp add: ieq_def)

lemma iprefix_length: "iprefix p s \<Longrightarrow> length p \<le> length s"
  by (auto simp: iprefix_def dest: arg_cong [where f = length])

section \<open>Decimal numbers\<close>

definition is_digit :: "char \<Rightarrow> bool" where
  "is_digit c = (48 \<le> (of_char c :: nat) \<and> (of_char c :: nat) \<le> 57)"

definition digit_val :: "char \<Rightarrow> nat" where
  "digit_val c = of_char c - 48"

text \<open>isspace of the C locale.\<close>

definition is_space :: "char \<Rightarrow> bool" where
  "is_space c = ((of_char c :: nat) = 32 \<or> 9 \<le> (of_char c :: nat) \<and> (of_char c :: nat) \<le> 13)"

fun digits_val :: "nat \<Rightarrow> string \<Rightarrow> nat" where
  "digits_val acc [] = acc"
| "digits_val acc (c # s) = digits_val (10 * acc + digit_val c) s"

text \<open>
  strtoull(s, end, 10): leading blanks, an optional sign, digits. A value past 2^64 - 1
  saturates; a minus sign negates modulo 2^64; without a digit the result is 0 and end is
  the start. The pair is the value and the rest.
\<close>

definition strtoull :: "string \<Rightarrow> nat \<times> string" where
  "strtoull s =
     (let t = dropWhile is_space s;
          neg = (t \<noteq> [] \<and> hd t = CHR ''-'');
          u = (if t \<noteq> [] \<and> (hd t = CHR ''-'' \<or> hd t = CHR ''+'') then tl t else t);
          ds = takeWhile is_digit u; v = digits_val 0 ds
      in if ds = [] then (0, s)
         else (if 2 ^ 64 \<le> v then 2 ^ 64 - 1 else if neg then u64_sub 0 v else v,
               dropWhile is_digit u))"

text \<open>strtol(s, NULL, 10) on a 64-bit long: saturates at both ends.\<close>

definition strtol :: "string \<Rightarrow> int" where
  "strtol s =
     (let t = dropWhile is_space s;
          neg = (t \<noteq> [] \<and> hd t = CHR ''-'');
          u = (if t \<noteq> [] \<and> (hd t = CHR ''-'' \<or> hd t = CHR ''+'') then tl t else t);
          v = int (digits_val 0 (takeWhile is_digit u))
      in if neg then max (- (2 ^ 63)) (- v) else min (2 ^ 63 - 1) v)"

text \<open>printf's %llu.\<close>

fun show_nat :: "nat \<Rightarrow> string" where
  "show_nat n = (if n < 10 then [char_of (48 + n)]
                 else show_nat (n div 10) @ [char_of (48 + n mod 10)])"

declare show_nat.simps [simp del]

definition show_int :: "int \<Rightarrow> string" where
  "show_int i = (if i < 0 then CHR ''-'' # show_nat (nat (- i)) else show_nat (nat i))"

lemma digit_char: "n < 10 \<Longrightarrow> is_digit (char_of (48 + n)) \<and> digit_val (char_of (48 + n)) = n"
  by (auto simp: is_digit_def digit_val_def of_char_of)

lemma digits_val_append: "digits_val acc (a @ b) = digits_val (digits_val acc a) b"
  by (induction a arbitrary: acc) auto

lemma show_nat_digits: "show_nat n \<noteq> [] \<and> (\<forall>c \<in> set (show_nat n). is_digit c)"
proof (induction n rule: show_nat.induct)
  case (1 n)
  then show ?case
    using digit_char [of n] digit_char [of "n mod 10"]
    by (cases "n < 10") (auto simp: show_nat.simps [of n])
qed

lemma digits_val_show_nat: "digits_val 0 (show_nat n) = n"
proof (induction n rule: show_nat.induct)
  case (1 n)
  show ?case
  proof (cases "n < 10")
    case True
    then show ?thesis using digit_char [of n] by (simp add: show_nat.simps [of n])
  next
    case False
    with "1.IH" show ?thesis
      using digit_char [of "n mod 10"]
      by (simp add: show_nat.simps [of n] digits_val_append)
  qed
qed

lemma length_show_nat: "n < 10 ^ k \<Longrightarrow> 0 < k \<Longrightarrow> length (show_nat n) \<le> k"
proof (induction n arbitrary: k rule: show_nat.induct)
  case (1 n)
  show ?case
  proof (cases "n < 10")
    case True
    then show ?thesis using "1.prems" by (simp add: show_nat.simps [of n])
  next
    case False
    then obtain j where k: "k = Suc j" "0 < j" using "1.prems" by (cases k) (auto, metis gr0I less_one power_0 mult.right_neutral)
    have "n div 10 < 10 ^ j" using "1.prems" k by (simp add: less_mult_imp_div_less mult.commute)
    then show ?thesis using "1.IH" [OF False, of j] False k by (simp add: show_nat.simps [of n])
  qed
qed

lemma length_show_u64: "n < 2 ^ 64 \<Longrightarrow> length (show_nat n) \<le> 20"
  by (rule length_show_nat) simp_all

lemma is_digit_not_space: "is_digit c \<Longrightarrow> \<not> is_space c"
  by (auto simp: is_digit_def is_space_def)

lemma is_digit_not_sign: "is_digit c \<Longrightarrow> c \<noteq> CHR ''-'' \<and> c \<noteq> CHR ''+''"
  by (auto simp: is_digit_def)

text \<open>strtoull reads back what printf wrote, up to the first non-digit.\<close>

lemma strtoull_show_nat:
  assumes "n < 2 ^ 64" and "s = [] \<or> \<not> is_digit (hd s)"
  shows "strtoull (show_nat n @ s) = (n, s)"
proof -
  have ne: "show_nat n \<noteq> []" and d: "\<And>x. x \<in> set (show_nat n) \<Longrightarrow> is_digit x"
    using show_nat_digits [of n] by auto
  have h: "is_digit (hd (show_nat n @ s))" using ne d [of "hd (show_nat n)"] by simp
  then have dw: "dropWhile is_space (show_nat n @ s) = show_nat n @ s"
    by (cases "show_nat n @ s") (simp_all add: is_digit_not_space)
  have tw: "takeWhile is_digit (show_nat n @ s) = show_nat n"
    using assms(2) d by (cases s) (auto simp: takeWhile_append)
  have dd: "dropWhile is_digit (show_nat n @ s) = s"
    using assms(2) d by (cases s) (auto simp: dropWhile_append)
  have ns: "hd (show_nat n @ s) \<noteq> CHR ''-''" "hd (show_nat n @ s) \<noteq> CHR ''+''"
    using h is_digit_not_sign by blast+
  show ?thesis
    unfolding strtoull_def Let_def dw using assms(1) ns
    by (simp add: tw dd digits_val_show_nat ne)
qed

lemma strtoull_suffix: "strtoull s = (v, rest) \<Longrightarrow> \<exists>pre. s = pre @ rest"
proof -
  assume e: "strtoull s = (v, rest)"
  define t where "t = dropWhile is_space s"
  define u where "u = (if t \<noteq> [] \<and> (hd t = CHR ''-'' \<or> hd t = CHR ''+'') then tl t else t)"
  have "\<exists>p. s = p @ t" unfolding t_def by (metis takeWhile_dropWhile_id)
  moreover have "\<exists>p. t = p @ u" unfolding u_def by (cases t) auto
  moreover have "\<exists>p. u = p @ dropWhile is_digit u" by (metis takeWhile_dropWhile_id)
  moreover have "rest = s \<or> rest = dropWhile is_digit u"
    using e unfolding strtoull_def Let_def t_def [symmetric] u_def [symmetric] by (auto split: if_splits)
  ultimately show ?thesis by (metis append_Nil append_assoc)
qed

text \<open>Case folding leaves the characters below the letters alone.\<close>

lemma lower_punct: "lower c = d \<Longrightarrow> of_char d < (97::nat) \<Longrightarrow> c = d"
proof (rule ccontr)
  assume l: "lower c = d" "of_char d < (97::nat)" "c \<noteq> d"
  then have c: "65 \<le> (of_char c :: nat)" "(of_char c :: nat) \<le> 90" by (auto simp: lower_def split: if_splits)
  then have "d = char_of (of_char c + 32 :: nat)" using l by (simp add: lower_def)
  then have "(of_char d :: nat) = of_char c + 32" using c by (simp add: of_char_of)
  then show False using l(2) c by simp
qed

lemma nth_map_take: "j < k \<Longrightarrow> length (take k ys) = k \<Longrightarrow> map f (take k ys) ! j = f (ys ! j)"
  by simp

end
