(* ===== verification/HttpText.thy ===== *)
theory HttpText
  imports PkgPrelude
begin

text \<open>
  The HTTP text both servers read: lines, header values (src/src/ws_upload.c has_header and
  src/src/stream_server.c stream_header_value are the same code), the words of a request line,
  searching with strstr and strcasestr.
\<close>

section \<open>Blanks and bytes\<close>

definition is_blank :: "char \<Rightarrow> bool" where
  "is_blank c = (c = CHR '' '' \<or> c = CHR 0x09)"

definition is_tail_blank :: "char \<Rightarrow> bool" where
  "is_tail_blank c = (is_blank c \<or> c = CHR 0x0D \<or> c = CHR 0x0A)"

definition strip_tail :: "string \<Rightarrow> string" where
  "strip_tail s = rev (dropWhile is_tail_blank (rev s))"

definition chars_bytes :: "string \<Rightarrow> u8 list" where
  "chars_bytes s = map of_char s"

section \<open>Lines and headers\<close>

fun find_at :: "string \<Rightarrow> string \<Rightarrow> nat option" where
  "find_at pat [] = (if pat = [] then Some 0 else None)"
| "find_at pat (c # s) =
     (if starts_with pat (c # s) then Some 0 else map_option Suc (find_at pat s))"

definition CRLF :: string where
  "CRLF = [CHR 0x0D, CHR 0x0A]"

definition eol_at :: "string \<Rightarrow> nat" where
  "eol_at p = (case find_at CRLF p of Some i \<Rightarrow> i
               | None \<Rightarrow> (case find_at [CHR 0x0A] p of Some i \<Rightarrow> i | None \<Rightarrow> length p))"

definition header_match :: "string \<Rightarrow> string \<Rightarrow> string option" where
  "header_match line name =
     (if length line > length name + 1 \<and> iprefix name line \<and> line ! length name = CHR '':''
      then Some (dropWhile is_blank (drop (length name + 1) line)) else None)"

function has_header :: "string \<Rightarrow> string \<Rightarrow> nat \<Rightarrow> string option" where
  "has_header p name vmax =
     (if p = [] then None
      else let e = eol_at p in
      case header_match (take e p) name of
        Some v \<Rightarrow> Some (strip_tail (take (vmax - 1) v))
      | None \<Rightarrow>
          (if e \<ge> length p then None
           else let q = drop (if take 2 (drop e p) = CRLF then e + 2 else e + 1) p in
           if q = [] \<or> hd q = CHR 0x0D \<or> hd q = CHR 0x0A then None else has_header q name vmax))"
  by pat_completeness auto
termination by (relation "measure (\<lambda>(p, name, vmax). length p)") auto

declare has_header.simps [simp del]

text \<open>sscanf's %Ns: blanks skipped, then up to n characters that are not blank, and the rest.\<close>

definition scan_word :: "nat \<Rightarrow> string \<Rightarrow> string \<times> string" where
  "scan_word n s =
     (let t = dropWhile is_space s; w = take n (takeWhile (\<lambda>c. \<not> is_space c) t) in (w, drop (length w) t))"

fun icontains :: "string \<Rightarrow> string \<Rightarrow> bool" where
  "icontains pat [] = (pat = [])"
| "icontains pat (c # s) = (iprefix pat (c # s) \<or> icontains pat s)"

section \<open>Searching\<close>

lemma find_at_Some: "find_at pat s = Some i \<Longrightarrow> i + length pat \<le> length s \<and> take (length pat) (drop i s) = pat"
proof (induction pat s arbitrary: i rule: find_at.induct)
  case (2 pat c s)
  show ?case
  proof (cases "starts_with pat (c # s)")
    case True
    then show ?thesis using 2 by (auto simp: starts_with_def dest: arg_cong [where f = length])
  next
    case False
    then show ?thesis using 2 by auto
  qed
qed (auto split: if_splits)

lemma find_at_take: "find_at pat s = Some i \<Longrightarrow> find_at pat (take (i + length pat) s) = Some i"
proof (induction pat s arbitrary: i rule: find_at.induct)
  case (2 pat c s)
  show ?case
  proof (cases "starts_with pat (c # s)")
    case True
    then have "take (length pat) (c # s) = pat" "i = 0" using 2 by (auto simp: starts_with_def)
    moreover have "find_at pat pat = Some 0" by (cases pat) (simp_all add: starts_with_def)
    ultimately show ?thesis by simp
  next
    case False
    then obtain j where j: "find_at pat s = Some j" "i = Suc j" using 2 by auto
    have "length pat \<le> length (take (j + length pat) s)" using find_at_Some [OF j(1)] by simp
    then have "\<not> starts_with pat (c # take (j + length pat) s)"
      using False by (cases pat) (auto simp: starts_with_def min_def take_take)
    then show ?thesis using 2 j False by simp
  qed
qed (auto split: if_splits)

lemma takeWhile_take: "takeWhile P (take n s) = take n (takeWhile P s)"
proof (induction s arbitrary: n)
  case (Cons c s)
  then show ?case by (cases n) auto
qed simp

end
