(* ===== verification/WsCodec.thy ===== *)
theory WsCodec
  imports HttpText
begin

text \<open>
  The RFC 6455 helpers of src/src/ws_upload.c that touch no socket: SHA-1 and base64 for
  the handshake, the frame encoder and decoder, and the extractors for JSON control
  messages and HTTP headers. Byte buffers are lists of 8-bit words, C strings are
  character lists; an output buffer's size is an argument, a write that would not fit is
  the failing branch of the code.
\<close>

unbundle bit_operations_syntax

section \<open>SHA-1\<close>

record ws_sha1 =
  sh_h :: "u32 list"     \<comment> \<open>h[5]\<close>
  sh_len :: nat          \<comment> \<open>len, 64 bits\<close>
  sh_buf :: "u8 list"    \<comment> \<open>the first buflen bytes of buf\<close>

definition rol32 :: "u32 \<Rightarrow> nat \<Rightarrow> u32" where
  "rol32 v n = push_bit n v OR drop_bit (32 - n) v"

definition be32 :: "u8 \<Rightarrow> u8 \<Rightarrow> u8 \<Rightarrow> u8 \<Rightarrow> u32" where
  "be32 a b c d = push_bit 24 (ucast a) OR push_bit 16 (ucast b) OR push_bit 8 (ucast c) OR ucast d"

fun words_of :: "u8 list \<Rightarrow> u32 list" where
  "words_of (a # b # c # d # bs) = be32 a b c d # words_of bs"
| "words_of _ = []"

text \<open>The message schedule: w[i] from w[i-3], w[i-8], w[i-14], w[i-16], n more words.\<close>

fun sha1_expand :: "nat \<Rightarrow> u32 list \<Rightarrow> u32 list" where
  "sha1_expand 0 w = w"
| "sha1_expand (Suc n) w =
     sha1_expand n (w @ [rol32 (w ! (length w - 3) XOR w ! (length w - 8) XOR
                                w ! (length w - 14) XOR w ! (length w - 16)) 1])"

definition sha1_f :: "nat \<Rightarrow> u32 \<Rightarrow> u32 \<Rightarrow> u32 \<Rightarrow> u32" where
  "sha1_f i b c d =
     (if i < 20 then (b AND c) OR (NOT b AND d)
      else if i < 40 then b XOR c XOR d
      else if i < 60 then (b AND c) OR (b AND d) OR (c AND d)
      else b XOR c XOR d)"

definition sha1_k :: "nat \<Rightarrow> u32" where
  "sha1_k i = (if i < 20 then 0x5A827999 else if i < 40 then 0x6ED9EBA1
               else if i < 60 then 0x8F1BBCDC else 0xCA62C1D6)"

fun sha1_rounds :: "nat \<Rightarrow> u32 list \<Rightarrow> u32 \<times> u32 \<times> u32 \<times> u32 \<times> u32 \<Rightarrow> u32 \<times> u32 \<times> u32 \<times> u32 \<times> u32" where
  "sha1_rounds i [] s = s"
| "sha1_rounds i (w # ws) (a, b, c, d, e) =
     sha1_rounds (Suc i) ws (rol32 a 5 + sha1_f i b c d + e + sha1_k i + w, a, rol32 b 30, c, d)"

definition sha1_block :: "u32 list \<Rightarrow> u8 list \<Rightarrow> u32 list" where
  "sha1_block h p =
     (case sha1_rounds 0 (sha1_expand 64 (words_of p)) (h ! 0, h ! 1, h ! 2, h ! 3, h ! 4) of
        (a, b, c, d, e) \<Rightarrow> [h ! 0 + a, h ! 1 + b, h ! 2 + c, h ! 3 + d, h ! 4 + e])"

definition sha1_init :: ws_sha1 where
  "sha1_init = \<lparr>sh_h = [0x67452301, 0xEFCDAB89, 0x98BADCFE, 0x10325476, 0xC3D2E1F0],
                sh_len = 0, sh_buf = []\<rparr>"

text \<open>The loop of sha1_update: fill the buffer, hash it when it holds 64 bytes.\<close>

function sha1_feed :: "u32 list \<Rightarrow> u8 list \<Rightarrow> u8 list \<Rightarrow> u32 list \<times> u8 list" where
  "sha1_feed h buf data =
     (if data = [] \<or> 64 \<le> length buf then (h, buf)
      else let n = min (64 - length buf) (length data); b = buf @ take n data in
           if length b = 64 then sha1_feed (sha1_block h b) [] (drop n data)
           else sha1_feed h b (drop n data))"
  by pat_completeness auto
termination by (relation "measure (\<lambda>(h, buf, data). length data)") auto

declare sha1_feed.simps [simp del]

definition sha1_update :: "ws_sha1 \<Rightarrow> u8 list \<Rightarrow> ws_sha1" where
  "sha1_update c data =
     (case sha1_feed (sh_h c) (sh_buf c) data of
        (h, buf) \<Rightarrow> \<lparr>sh_h = h, sh_len = u64_add (sh_len c) (length data), sh_buf = buf\<rparr>)"

text \<open>The zero bytes of the padding, one update each until the buffer holds 56 bytes.\<close>

fun sha1_pad :: "nat \<Rightarrow> ws_sha1 \<Rightarrow> ws_sha1" where
  "sha1_pad 0 c = c"
| "sha1_pad (Suc fuel) c = (if length (sh_buf c) = 56 then c else sha1_pad fuel (sha1_update c [0]))"

fun be64 :: "nat \<Rightarrow> nat \<Rightarrow> u8 list" where
  "be64 0 v = []"
| "be64 (Suc n) v = word_of_nat (v div 2 ^ (8 * n)) # be64 n v"

definition be_bytes :: "u32 \<Rightarrow> u8 list" where
  "be_bytes w = [ucast (drop_bit 24 w), ucast (drop_bit 16 w), ucast (drop_bit 8 w), ucast w]"

definition sha1_final :: "ws_sha1 \<Rightarrow> u8 list" where
  "sha1_final c =
     (let bitlen = u64_mul (sh_len c) 8;
          c1 = sha1_update c [0x80];
          c2 = sha1_pad 64 c1;
          h = sha1_block (sh_h c2) (take 56 (sh_buf c2) @ be64 8 bitlen)
      in concat (map be_bytes h))"

section \<open>Base64\<close>

definition b64_tab :: string where
  "b64_tab = ''ABCDEFGHIJKLMNOPQRSTUVWXYZabcdefghijklmnopqrstuvwxyz0123456789+/''"

definition b64_quad :: "u8 \<Rightarrow> u8 option \<Rightarrow> u8 option \<Rightarrow> string" where
  "b64_quad a b c =
     (let v = unat a * 65536 + (case b of Some x \<Rightarrow> unat x * 256 | None \<Rightarrow> 0) +
              (case c of Some x \<Rightarrow> unat x | None \<Rightarrow> 0)
      in [b64_tab ! (v div 262144 mod 64), b64_tab ! (v div 4096 mod 64),
          if b \<noteq> None then b64_tab ! (v div 64 mod 64) else CHR ''='',
          if c \<noteq> None then b64_tab ! (v mod 64) else CHR ''=''])"

fun b64_chars :: "u8 list \<Rightarrow> string" where
  "b64_chars [] = []"
| "b64_chars [a] = b64_quad a None None"
| "b64_chars [a, b] = b64_quad a (Some b) None"
| "b64_chars (a # b # c # bs) = b64_quad a (Some b) (Some c) @ b64_chars bs"

definition b64_encode :: "u8 list \<Rightarrow> nat \<Rightarrow> string option" where
  "b64_encode bs cap =
     (if (length bs + 2) div 3 * 4 + 1 > cap then None else Some (b64_chars bs))"

section \<open>The handshake\<close>

definition WS_GUID :: string where
  "WS_GUID = ''258EAFA5-E914-47DA-95CA-C5AB0DC85B11''"

definition ws_direct_handshake_accept_key :: "string \<Rightarrow> nat \<Rightarrow> string option" where
  "ws_direct_handshake_accept_key client_key cap =
     (if client_key = [] \<or> cap < 32 then None
      else let key = strip_tail (c_trunc 256 (dropWhile is_blank client_key)) in
           if key = [] then None
           else b64_encode (sha1_final (sha1_update sha1_init (chars_bytes (c_trunc 320 (key @ WS_GUID))))) cap)"

section \<open>Frames\<close>

definition hi_byte :: "nat \<Rightarrow> nat \<Rightarrow> u8" where
  "hi_byte n i = word_of_nat (n div 2 ^ (8 * i))"

definition len_extra :: "nat \<Rightarrow> nat" where
  "len_extra plen = (if plen \<ge> 126 then (if plen > 65535 then 8 else 2) else 0)"

text \<open>The header bytes: FIN and opcode, the length with its mask flag, the long lengths.\<close>

definition frame_header :: "u8 \<Rightarrow> u8 \<Rightarrow> nat \<Rightarrow> u8 list" where
  "frame_header opcode maskbit plen =
     (0x80 OR (opcode AND 0x0F)) #
     (if plen < 126 then [maskbit OR word_of_nat plen]
      else if plen \<le> 65535 then [maskbit OR 126, hi_byte plen 1, hi_byte plen 0]
      else (maskbit OR 127) # map (hi_byte plen) [7, 6, 5, 4, 3, 2, 1, 0])"

text \<open>The frame and the returned length (an int), or -1 when it does not fit.\<close>

definition ws_direct_frame_encode_server :: "u8 \<Rightarrow> u8 list \<Rightarrow> nat \<Rightarrow> (u8 list \<times> int) option" where
  "ws_direct_frame_encode_server opcode payload out_max =
     (let plen = length payload in
      if 2 + plen + len_extra plen > out_max then None
      else let fr = frame_header opcode 0 plen @ payload in Some (fr, i32 (length fr)))"

definition xor_mask :: "u8 list \<Rightarrow> u8 list \<Rightarrow> u8 list" where
  "xor_mask mk payload = map (\<lambda>i. payload ! i XOR mk ! (i mod 4)) [0..<length payload]"

text \<open>The four mask bytes are the values of rand: an argument.\<close>

definition ws_direct_frame_encode_client ::
  "u8 \<Rightarrow> u8 list \<Rightarrow> u8 list \<Rightarrow> nat \<Rightarrow> (u8 list \<times> int) option" where
  "ws_direct_frame_encode_client opcode payload mk out_max =
     (let plen = length payload in
      if 2 + plen + len_extra plen + 4 > out_max then None
      else let fr = frame_header opcode 0x80 plen @ take 4 mk @ xor_mask mk payload
           in Some (fr, i32 (length fr)))"

text \<open>
  ws_direct_frame_decode: more bytes needed (0), a protocol error (-1), or a frame: opcode,
  fin, offset and length of the payload, the bytes used, and the buffer with the payload
  unmasked in place.
\<close>

record ws_frame =
  fr_opcode :: u8
  fr_fin :: bool
  fr_pay_off :: nat
  fr_pay_len :: nat
  fr_used :: int
  fr_buf :: "u8 list"

datatype decoded = NeedMore | BadFrame | Frame ws_frame

definition SIZE_MAX :: nat where
  "SIZE_MAX = 2 ^ 64 - 1"

text \<open>The payload length and the header size, or the early return.\<close>

definition frame_len :: "u8 list \<Rightarrow> decoded + nat \<times> nat" where
  "frame_len buf =
     (let l = unat (buf ! 1 AND 0x7F) in
      if l = 126 then
        (if length buf < 4 then Inl NeedMore
         else Inr (unat (buf ! 2) * 256 + unat (buf ! 3), 4))
      else if l = 127 then
        (if length buf < 10 then Inl NeedMore
         else if buf ! 2 AND 0x80 \<noteq> 0 then Inl BadFrame
         else Inr (foldl (\<lambda>v i. (v * 256 + unat (buf ! (2 + i))) mod 2 ^ 64) 0 [0..<8], 10))
      else Inr (l, 2))"

definition unmask_at :: "u8 list \<Rightarrow> nat \<Rightarrow> nat \<Rightarrow> u8 list" where
  "unmask_at buf hdr plen =
     take (hdr + 4) buf @ xor_mask (take 4 (drop hdr buf)) (take plen (drop (hdr + 4) buf)) @
     drop (hdr + 4 + plen) buf"

definition ws_direct_frame_decode :: "u8 list \<Rightarrow> decoded" where
  "ws_direct_frame_decode buf =
     (if length buf < 2 then NeedMore
      else if buf ! 0 AND 0x70 \<noteq> 0 then BadFrame
      else let opcode = buf ! 0 AND 0x0F;
               fin = (buf ! 0 AND 0x80 \<noteq> 0); masked = (buf ! 1 AND 0x80 \<noteq> 0) in
      if opcode > 0x0A \<or> opcode > 0x02 \<and> opcode < 0x08 then BadFrame
      else case frame_len buf of
        Inl d \<Rightarrow> d
      | Inr (plen, hdr) \<Rightarrow>
          (if opcode \<ge> 0x08 \<and> (\<not> fin \<or> plen > 125) then BadFrame
           else let masklen = (if masked then 4 else 0) in
           if plen > SIZE_MAX - hdr - masklen then BadFrame
           else if length buf < hdr + masklen + plen then NeedMore
           else Frame \<lparr>fr_opcode = opcode, fr_fin = fin, fr_pay_off = hdr + masklen,
                       fr_pay_len = plen, fr_used = i32 (hdr + masklen + plen),
                       fr_buf = (if masked then unmask_at buf hdr plen else buf)\<rparr>))"

definition frame_payload :: "ws_frame \<Rightarrow> u8 list" where
  "frame_payload f = take (fr_pay_len f) (drop (fr_pay_off f) (fr_buf f))"

section \<open>Control messages and headers\<close>

text \<open>strstr and strchr: the rest of the string from the match on.\<close>

fun strstr :: "string \<Rightarrow> string \<Rightarrow> string option" where
  "strstr [] pat = (if pat = [] then Some [] else None)"
| "strstr (c # s) pat = (if starts_with pat (c # s) then Some (c # s) else strstr s pat)"

definition strchr :: "string \<Rightarrow> char \<Rightarrow> string option" where
  "strchr s c = (case dropWhile (\<lambda>x. x \<noteq> c) s of [] \<Rightarrow> None | t \<Rightarrow> Some t)"

definition json_key :: "string \<Rightarrow> string" where
  "json_key key = c_trunc 96 (CHR 0x22 # key @ [CHR 0x22])"

text \<open>The copy loop of wsj_string; n is the room left, the NUL included.\<close>

fun unescape :: "nat \<Rightarrow> string \<Rightarrow> string" where
  "unescape n [] = []"
| "unescape n (c # s) =
     (if c = CHR 0x22 \<or> n \<le> 1 then []
      else if c = CHR 0x5C then (case s of [] \<Rightarrow> [c] | d # s' \<Rightarrow> d # unescape (n - 1) s')
      else c # unescape (n - 1) s)"

definition wsj_string :: "string \<Rightarrow> string \<Rightarrow> nat \<Rightarrow> string option" where
  "wsj_string json key cap =
     (case strstr json (json_key key) of None \<Rightarrow> None
      | Some p \<Rightarrow>
        (case strchr (drop (length (json_key key)) p) (CHR '':'') of None \<Rightarrow> None
         | Some q \<Rightarrow>
           (case strchr q (CHR 0x22) of None \<Rightarrow> None
            | Some r \<Rightarrow> Some (unescape cap (tl r)))))"

definition wsj_u64 :: "string \<Rightarrow> string \<Rightarrow> nat option" where
  "wsj_u64 json key =
     (case strstr json (json_key key) of None \<Rightarrow> None
      | Some p \<Rightarrow>
        (case strchr (drop (length (json_key key)) p) (CHR '':'') of None \<Rightarrow> None
         | Some q \<Rightarrow>
             let v = dropWhile is_blank (tl q);
                 u = (if v \<noteq> [] \<and> hd v = CHR 0x22 then tl v else v)
             in Some (fst (strtoull u))))"

end
