(* ===== verification/WsFrames.thy ===== *)
theory WsFrames
  imports WsCodec
begin

text \<open>
  Correctness of the frame codec and of the handshake helpers of src/src/ws_upload.c: the
  decoder inverts both encoders, its answer does not depend on how the bytes arrived, and
  the buffered SHA-1 is the SHA-1 of the whole message.
\<close>

section \<open>Header bytes\<close>

lemma opcode_byte:
  fixes x :: u8
  shows "(0x80 OR (x AND 0x0F)) AND 0x70 = 0" "(0x80 OR (x AND 0x0F)) AND 0x0F = x AND 0x0F"
    "(0x80 OR (x AND 0x0F)) AND 0x80 \<noteq> 0"
proof -
  show "(0x80 OR (x AND 0x0F)) AND 0x70 = 0" "(0x80 OR (x AND 0x0F)) AND 0x0F = x AND 0x0F"
    by (simp_all add: bit.conj_disj_distrib2 and.assoc)
  have "(0x80 OR (x AND 0x0F)) AND 0x80 = 0x80"
    by (simp add: bit.conj_disj_distrib2 and.assoc)
  then show "(0x80 OR (x AND 0x0F)) AND 0x80 \<noteq> 0" by simp
qed

lemma small_len_byte:
  assumes "n < 128"
  shows "(word_of_nat n :: u8) AND 0x7F = word_of_nat n" and "(word_of_nat n :: u8) AND 0x80 = 0"
    and "unat (word_of_nat n :: u8) = n"
proof -
  have "take_bit 7 (word_of_nat n :: u8) = word_of_nat (take_bit 7 n)"
    by (simp add: take_bit_of_nat)
  also have "take_bit 7 n = n" using assms by (simp add: take_bit_nat_eq_self_iff)
  finally have t: "take_bit 7 (word_of_nat n :: u8) = word_of_nat n" .
  moreover have "(0x7F :: u8) = mask 7" by (simp add: mask_eq_exp_minus_1)
  ultimately show a: "(word_of_nat n :: u8) AND 0x7F = word_of_nat n" by (simp add: take_bit_eq_mask)
  have "(word_of_nat n :: u8) AND 0x80 = (word_of_nat n AND 0x7F) AND 0x80" by (simp only: a)
  also have "\<dots> = 0" by (simp add: and.assoc)
  finally show "(word_of_nat n :: u8) AND 0x80 = 0" .
  show "unat (word_of_nat n :: u8) = n" using assms by (simp add: unat_of_nat)
qed

lemma len_byte:
  assumes "n < 128" and "m = 0 \<or> m = 0x80"
  shows "unat ((m OR word_of_nat n) AND 0x7F :: u8) = n"
    and "((m OR word_of_nat n) AND 0x80 :: u8) = m"
  using small_len_byte [OF assms(1)] assms(2)
  by (auto simp: bit.conj_disj_distrib2)

lemma unat_hi_byte [simp]: "unat (hi_byte n i) = n div 2 ^ (8 * i) mod 256"
  by (simp add: hi_byte_def unat_of_nat)

lemma shift_in:
  assumes "n < 2 ^ 63"
  shows "(n div 2 ^ (8 * Suc k) * 256 + unat (hi_byte n k)) mod 2 ^ 64 = n div 2 ^ (8 * k)"
proof -
  have "(2::nat) ^ (8 * Suc k) = 2 ^ (8 * k) * 256" by (simp add: power_add)
  then have "n div 2 ^ (8 * Suc k) = n div 2 ^ (8 * k) div 256" by (simp only: div_mult2_eq)
  then have "n div 2 ^ (8 * Suc k) * 256 + unat (hi_byte n k) = n div 2 ^ (8 * k)" by simp
  moreover have "n div 2 ^ (8 * k) < 2 ^ 64"
    by (rule le_less_trans [OF div_le_dividend]) (use assms in simp)
  ultimately show ?thesis by simp
qed

definition be_value :: "u8 list \<Rightarrow> nat" where
  "be_value bs = foldl (\<lambda>v b. (v * 256 + unat b) mod 2 ^ 64) 0 bs"

lemma be_value_from:
  assumes "n < 2 ^ 63"
  shows "foldl (\<lambda>v b. (v * 256 + unat b) mod 2 ^ 64) (n div 2 ^ (8 * k)) (map (hi_byte n) (rev [0..<k])) = n"
proof (induction k)
  case 0
  then show ?case by simp
next
  case (Suc k)
  then show ?case using shift_in [OF assms, of k] by simp
qed

lemma be_value_bytes:
  assumes "n < 2 ^ 63"
  shows "be_value (map (hi_byte n) [7, 6, 5, 4, 3, 2, 1, 0]) = n"
proof -
  have "rev [0..<8] = [7, 6, 5, 4, 3, 2, 1, 0 :: nat]" by (simp add: upt_rec)
  moreover have "n div 2 ^ (8 * 8) = 0" using assms by simp
  ultimately show ?thesis using be_value_from [OF assms, of 8] unfolding be_value_def by metis
qed

lemma frame_len_long:
  "length bs = 8 \<Longrightarrow> b1 AND 0x7F = (127 :: u8) \<Longrightarrow> bs ! 0 AND 0x80 = 0 \<Longrightarrow>
   frame_len (b0 # b1 # bs @ rest) = Inr (be_value bs, 10)"
proof -
  assume l: "length bs = 8" and b1: "b1 AND 0x7F = (127 :: u8)" and m: "bs ! 0 AND 0x80 = 0"
  let ?buf = "b0 # b1 # bs @ rest"
  have m8: "map (\<lambda>i. ?buf ! (2 + i)) [0..<8] = bs"
    using l by (intro nth_equalityI) (auto simp: nth_append)
  have "be_value (map (\<lambda>i. ?buf ! (2 + i)) [0..<8]) =
      foldl (\<lambda>v i. (v * 256 + unat (?buf ! (2 + i))) mod 2 ^ 64) 0 [0..<8]"
    unfolding be_value_def by (simp only: foldl_map)
  then have "be_value bs = foldl (\<lambda>v i. (v * 256 + unat (?buf ! (2 + i))) mod 2 ^ 64) 0 [0..<8]"
    by (simp only: m8)
  moreover have "?buf ! 2 = bs ! 0" using l by (simp add: nth_append)
  ultimately show ?thesis using l b1 m by (simp add: frame_len_def)
qed

lemma frame_len_header:
  assumes n: "n < 2 ^ 63" and m: "m = 0 \<or> m = 0x80"
  shows "frame_len (frame_header opcode m n @ rest) = Inr (n, 2 + len_extra n)"
    and "(frame_header opcode m n @ rest) ! 1 AND 0x80 = m"
    and "(frame_header opcode m n @ rest) ! 0 = 0x80 OR (opcode AND 0x0F)"
    and "length (frame_header opcode m n) = 2 + len_extra n"
proof -
  consider "n < 126" | "126 \<le> n" "n \<le> 65535" | "65535 < n" by linarith
  then have "frame_len (frame_header opcode m n @ rest) = Inr (n, 2 + len_extra n) \<and>
    (frame_header opcode m n @ rest) ! 1 AND 0x80 = m \<and>
    length (frame_header opcode m n) = 2 + len_extra n"
  proof cases
    case 1
    then show ?thesis using len_byte [OF _ m, of n]
      by (simp add: frame_header_def frame_len_def len_extra_def Let_def)
  next
    case 2
    have "unat ((m OR 126) AND 0x7F :: u8) = 126" "((m OR 126) AND 0x80 :: u8) = m"
      using m by auto
    moreover have "n div 256 mod 256 * 256 + n mod 256 = n" using 2 by simp
    ultimately show ?thesis using 2
      by (simp add: frame_header_def frame_len_def len_extra_def Let_def)
  next
    case 3
    have b: "(m OR 127) AND 0x7F = (127 :: u8)" "((m OR 127) AND 0x80 :: u8) = m"
      using m by auto
    let ?bs = "map (hi_byte n) [7, 6, 5, 4, 3, 2, 1, 0]"
    have "n div 2 ^ (8 * 7) < 128" using n by (simp add: less_mult_imp_div_less)
    then have "hi_byte n 7 AND 0x80 = 0" unfolding hi_byte_def by (rule small_len_byte(2))
    then have "?bs ! 0 AND 0x80 = 0" by simp
    from frame_len_long [OF _ b(1) this, of "0x80 OR (opcode AND 0x0F)" rest]
    have "frame_len (frame_header opcode m n @ rest) = Inr (n, 10)"
      using 3 be_value_bytes [OF n] by (simp add: frame_header_def)
    then show ?thesis using 3 b by (simp add: len_extra_def frame_header_def)
  qed
  then show "frame_len (frame_header opcode m n @ rest) = Inr (n, 2 + len_extra n)"
    and "(frame_header opcode m n @ rest) ! 1 AND 0x80 = m"
    and "length (frame_header opcode m n) = 2 + len_extra n" by auto
  show "(frame_header opcode m n @ rest) ! 0 = 0x80 OR (opcode AND 0x0F)"
    by (simp add: frame_header_def)
qed

section \<open>Decoding what was encoded\<close>

definition valid_opcode :: "u8 \<Rightarrow> bool" where
  "valid_opcode b = (let o4 = b AND 0x0F in \<not> (o4 > 0x0A \<or> o4 > 0x02 \<and> o4 < 0x08))"

lemma length_xor_mask [simp]: "length (xor_mask m p) = length p"
  by (simp add: xor_mask_def)

lemma xor_mask_twice [simp]: "xor_mask m (xor_mask m p) = p"
  by (rule nth_equalityI) (simp_all add: xor_mask_def xor.assoc)

lemma unmask_frame:
  assumes "length mk = 4" and "length h = hdr"
  shows "unmask_at (h @ mk @ xor_mask mk p @ rest) hdr (length p) = h @ mk @ p @ rest"
  using assms by (simp add: unmask_at_def)

lemma decode_frame:
  assumes op: "valid_opcode opcode" "opcode AND 0x0F \<ge> 0x08 \<Longrightarrow> length payload \<le> 125"
    and n: "length payload < 2 ^ 63" and mk: "m = 0x80 \<and> length mk = 4 \<or> m = 0 \<and> mk = []"
  shows "ws_direct_frame_decode (frame_header opcode m (length payload) @ mk @
      (if m = 0 then payload else xor_mask mk payload) @ rest) =
    Frame \<lparr>fr_opcode = opcode AND 0x0F, fr_fin = True,
      fr_pay_off = 2 + len_extra (length payload) + length mk, fr_pay_len = length payload,
      fr_used = i32 (2 + len_extra (length payload) + length mk + length payload),
      fr_buf = frame_header opcode m (length payload) @ mk @ payload @ rest\<rparr>"
proof -
  let ?h = "frame_header opcode m (length payload)"
  let ?tail = "mk @ (if m = 0 then payload else xor_mask mk payload) @ rest"
  let ?buf = "?h @ ?tail"
  have m: "m = 0 \<or> m = 0x80" using mk by blast
  note H = frame_len_header [OF n m, of opcode]
  have len: "length ?buf = 2 + len_extra (length payload) + length mk + length payload + length rest"
    by (simp add: H(4))
  have ml: "(if ?buf ! 1 AND 0x80 \<noteq> 0 then 4 else 0) = length mk"
    unfolding H(2) using mk by auto
  have big: "\<not> length payload > SIZE_MAX - (2 + len_extra (length payload)) - length mk"
    using n mk by (auto simp: SIZE_MAX_def len_extra_def)
  have un: "(if ?buf ! 1 AND 0x80 \<noteq> 0 then unmask_at ?buf (2 + len_extra (length payload)) (length payload) else ?buf) =
      ?h @ mk @ payload @ rest"
    unfolding H(2) using mk unmask_frame [of mk ?h _ payload rest] by (auto simp: H(4))
  have b0: "?buf ! 0 AND 0x70 = 0" "?buf ! 0 AND 0x0F = opcode AND 0x0F" "?buf ! 0 AND 0x80 \<noteq> 0"
    unfolding H(3) by (rule opcode_byte)+
  have v: "\<not> (opcode AND 0x0F > 0x0A \<or> opcode AND 0x0F > 0x02 \<and> opcode AND 0x0F < 0x08)"
    using op(1) by (simp only: valid_opcode_def Let_def not_False_eq_True)
  have c: "\<not> (opcode AND 0x0F \<ge> 0x08 \<and> (\<not> True \<or> length payload > 125))" using op(2) by auto
  have l2: "\<not> length ?buf < 2" using len by simp
  have enough: "\<not> length ?buf < 2 + len_extra (length payload) + length mk + length payload"
    using len by simp
  show ?thesis
    unfolding ws_direct_frame_decode_def Let_def H(1) ml un b0(2) if_not_P [OF l2] if_not_P [OF v]
      sum.case prod.case if_not_P [OF big] if_not_P [OF enough]
    using b0(1,3) c by simp
qed

text \<open>C40: Decoding inverts the client encoder: for every opcode the decoder admits,
  every payload (up to 125 bytes for control frames) and every mask, the bytes that
  ws_direct_frame_encode_client writes, followed by anything, decode to that opcode with FIN
  set and, unmasked, to that payload, and the decoder consumes exactly the encoder's length.\<close>

theorem decode_client_frame:
  assumes "ws_direct_frame_encode_client opcode payload mk out_max = Some (fr, n)"
    and "valid_opcode opcode" and "opcode AND 0x0F \<ge> 0x08 \<Longrightarrow> length payload \<le> 125"
    and "length payload < 2 ^ 63" and "length mk = 4"
  shows "\<exists>f. ws_direct_frame_decode (fr @ rest) = Frame f \<and> fr_opcode f = opcode AND 0x0F \<and> fr_fin f \<and>
    frame_payload f = payload \<and> fr_used f = n \<and> fr_pay_off f + fr_pay_len f = length fr"
proof -
  have fr: "fr = frame_header opcode 0x80 (length payload) @ mk @ xor_mask mk payload" "n = i32 (length fr)"
    using assms(1,5) by (auto simp: ws_direct_frame_encode_client_def Let_def split: if_splits)
  have l: "length (frame_header opcode 0x80 (length payload)) = 2 + len_extra (length payload)"
    by (rule frame_len_header(4)) (use assms(4) in auto)
  show ?thesis
    using decode_frame [OF assms(2,3,4), of "0x80" mk rest] assms(5)
    by (simp add: fr l frame_payload_def add.assoc)
qed

theorem decode_client_frame_witness:
  "\<exists>f. ws_direct_frame_decode (fst (the (ws_direct_frame_encode_client 1 [104, 105] [1, 2, 3, 4] 64)) @ [7]) = Frame f \<and>
     frame_payload f = [104, 105]"
proof -
  have "ws_direct_frame_encode_client 1 [104, 105] [1, 2, 3, 4] 64 =
      Some (fst (the (ws_direct_frame_encode_client 1 [104, 105] [1, 2, 3, 4] 64)), 8)"
    by (simp add: ws_direct_frame_encode_client_def len_extra_def frame_header_def i32_def xor_mask_def upt_rec)
  from decode_client_frame [OF this, of "[7]"] show ?thesis by (auto simp: valid_opcode_def)
qed

text \<open>Decoding inverts the server encoder, for every opcode the decoder admits
  and every payload (up to 125 bytes for control frames).\<close>

theorem decode_server_frame:
  assumes "ws_direct_frame_encode_server opcode payload out_max = Some (fr, n)"
    and "valid_opcode opcode" and "opcode AND 0x0F \<ge> 0x08 \<Longrightarrow> length payload \<le> 125"
    and "length payload < 2 ^ 63"
  shows "\<exists>f. ws_direct_frame_decode (fr @ rest) = Frame f \<and> fr_opcode f = opcode AND 0x0F \<and> fr_fin f \<and>
    frame_payload f = payload \<and> fr_used f = n \<and> fr_pay_off f + fr_pay_len f = length fr"
proof -
  have fr: "fr = frame_header opcode 0 (length payload) @ payload" "n = i32 (length fr)"
    using assms(1) by (auto simp: ws_direct_frame_encode_server_def Let_def split: if_splits)
  have l: "length (frame_header opcode 0 (length payload)) = 2 + len_extra (length payload)"
    by (rule frame_len_header(4)) (use assms(4) in auto)
  show ?thesis
    using decode_frame [OF assms(2,3,4), of 0 "[]" rest] by (simp add: fr l frame_payload_def)
qed

theorem decode_server_frame_witness:
  "\<exists>f. ws_direct_frame_decode (fst (the (ws_direct_frame_encode_server 8 [3, 232] 16))) = Frame f \<and>
     frame_payload f = [3, 232]"
proof -
  have "ws_direct_frame_encode_server 8 [3, 232] 16 =
      Some (fst (the (ws_direct_frame_encode_server 8 [3, 232] 16)), 4)"
    by (simp add: ws_direct_frame_encode_server_def len_extra_def frame_header_def i32_def)
  from decode_server_frame [OF this, of "[]"] show ?thesis by (auto simp: valid_opcode_def)
qed

section \<open>Bytes arriving in pieces\<close>

lemma frame_len_append:
  assumes "2 \<le> length buf" and "frame_len buf \<noteq> Inl NeedMore"
  shows "frame_len (buf @ rest) = frame_len buf"
proof -
  have "(buf @ rest) ! i = buf ! i" if "i < length buf" for i using that by (simp add: nth_append)
  moreover have "foldl (\<lambda>v i. (v * 256 + unat ((buf @ rest) ! (2 + i))) mod 2 ^ 64) 0 [0..<8] =
      foldl (\<lambda>v i. (v * 256 + unat (buf ! (2 + i))) mod 2 ^ 64) 0 [0..<8]" if "10 \<le> length buf"
    by (rule foldl_cong) (use that in \<open>auto simp: nth_append\<close>)
  ultimately show ?thesis using assms unfolding frame_len_def Let_def by (auto split: if_splits)
qed

lemma frame_len_Inl: "frame_len buf = Inl d \<Longrightarrow> d = NeedMore \<or> d = BadFrame"
  by (auto simp: frame_len_def Let_def split: if_splits)

lemma frame_len_bound:
  assumes "frame_len buf = Inr (plen, hdr)" and "2 \<le> length buf"
  shows "2 \<le> hdr \<and> hdr \<le> 10 \<and> hdr \<le> length buf"
  using assms by (auto simp: frame_len_def Let_def split: if_splits)

lemma unmask_append:
  assumes "hdr + 4 + plen \<le> length buf"
  shows "unmask_at (buf @ rest) hdr plen = unmask_at buf hdr plen @ rest"
  using assms by (simp add: unmask_at_def)

lemma length_unmask: "hdr + 4 + plen \<le> length buf \<Longrightarrow> length (unmask_at buf hdr plen) = length buf"
  by (simp add: unmask_at_def)

lemma decode_FrameD:
  assumes "ws_direct_frame_decode buf = Frame f"
  obtains plen hdr mlen where "2 \<le> length buf" "frame_len buf = Inr (plen, hdr)" "mlen = (if buf ! 1 AND 0x80 \<noteq> 0 then 4 else 0)"
    "hdr + mlen + plen \<le> length buf" "fr_pay_off f = hdr + mlen" "fr_pay_len f = plen"
    "fr_used f = i32 (hdr + mlen + plen)" "fr_buf f = (if mlen = 4 then unmask_at buf hdr plen else buf)"
  using assms by (auto simp: ws_direct_frame_decode_def Let_def dest: frame_len_Inl split: if_splits sum.splits prod.splits)

lemma decode_append:
  assumes "ws_direct_frame_decode buf \<noteq> NeedMore"
  shows "ws_direct_frame_decode (buf @ rest) =
    (case ws_direct_frame_decode buf of Frame f \<Rightarrow> Frame (f\<lparr>fr_buf := fr_buf f @ rest\<rparr>) | d \<Rightarrow> d)"
proof -
  have l: "2 \<le> length buf"
  proof (rule ccontr)
    assume "\<not> ?thesis"
    then have "ws_direct_frame_decode buf = NeedMore" unfolding ws_direct_frame_decode_def by simp
    with assms show False by simp
  qed
  have n: "(buf @ rest) ! 0 = buf ! 0" "(buf @ rest) ! 1 = buf ! 1" using l by (auto simp: nth_append)
  have ll: "\<not> length buf < 2" "\<not> length (buf @ rest) < 2" using l by auto
  show ?thesis
  proof (cases "buf ! 0 AND 0x70 \<noteq> 0 \<or> \<not> valid_opcode (buf ! 0)")
    case True
    then have "ws_direct_frame_decode (buf @ rest) = BadFrame" "ws_direct_frame_decode buf = BadFrame"
      using ll n by (auto simp: ws_direct_frame_decode_def valid_opcode_def Let_def)
    then show ?thesis by simp
  next
    case False
    then have nm: "frame_len buf \<noteq> Inl NeedMore"
      using assms ll by (auto simp: ws_direct_frame_decode_def valid_opcode_def Let_def)
    then have y: "frame_len (buf @ rest) = frame_len buf" by (rule frame_len_append [OF l])
    show ?thesis
      using assms nm unfolding ws_direct_frame_decode_def if_not_P [OF ll(1)] if_not_P [OF ll(2)] y n Let_def
      by (auto simp: unmask_append dest!: frame_len_Inl split: if_splits sum.splits)
  qed
qed

text \<open>The decoder is incremental: once it has answered on a buffer (a frame or a
  protocol error), more bytes behind that buffer never change the answer, the opcode, the
  payload or the bytes consumed; and the frame it reports lies inside the buffer, so the
  connection loop may feed it any split of the byte stream.\<close>

theorem decode_stable:
  assumes "ws_direct_frame_decode buf = d" and "d \<noteq> NeedMore"
  shows "case d of
      Frame f \<Rightarrow> (\<exists>g. ws_direct_frame_decode (buf @ later) = Frame g \<and> fr_opcode g = fr_opcode f \<and>
          fr_fin g = fr_fin f \<and> frame_payload g = frame_payload f \<and> fr_used g = fr_used f) \<and>
        fr_pay_off f + fr_pay_len f \<le> length buf \<and> length (fr_buf f) = length buf \<and>
        fr_used f = i32 (fr_pay_off f + fr_pay_len f)
    | _ \<Rightarrow> ws_direct_frame_decode (buf @ later) = BadFrame"
proof (cases d)
  case (Frame f)
  then have f: "ws_direct_frame_decode buf = Frame f" using assms(1) by simp
  have "ws_direct_frame_decode (buf @ later) = Frame (f\<lparr>fr_buf := fr_buf f @ later\<rparr>)"
    using decode_append [of buf later] f by simp
  moreover have b: "fr_pay_off f + fr_pay_len f \<le> length buf \<and> length (fr_buf f) = length buf \<and>
      fr_used f = i32 (fr_pay_off f + fr_pay_len f)"
    by (rule decode_FrameD [OF f]) (auto simp: length_unmask split: if_splits)
  then have "frame_payload (f\<lparr>fr_buf := fr_buf f @ later\<rparr>) = frame_payload f"
    by (simp add: frame_payload_def)
  ultimately show ?thesis using Frame b by simp
qed (use assms decode_append [of buf later] in auto)

theorem decode_stable_witness:
  "ws_direct_frame_decode ([0xF1, 0] @ [1, 2, 3]) = BadFrame"
  using decode_stable [of "[0xF1, 0]" BadFrame "[1, 2, 3]"] by (simp add: ws_direct_frame_decode_def)

text \<open>A frame that has not arrived completely is waited for: on every proper prefix
  of an encoded client frame the decoder asks for more bytes; it neither reports an error nor
  a shorter frame.\<close>

theorem decode_partial:
  assumes "ws_direct_frame_encode_client opcode payload mk out_max = Some (fr, n)"
    and "valid_opcode opcode" and "opcode AND 0x0F \<ge> 0x08 \<Longrightarrow> length payload \<le> 125"
    and "length payload < 2 ^ 63" and "length mk = 4" and "k < length fr"
  shows "ws_direct_frame_decode (take k fr) = NeedMore"
proof (rule ccontr)
  assume nm: "\<not> ?thesis"
  obtain f where f: "ws_direct_frame_decode fr = Frame f" "fr_pay_off f + fr_pay_len f = length fr"
    using decode_frame [OF assms(2,3,4), of "0x80" mk "[]"] assms(1,5)
      frame_len_header(4) [OF assms(4), of "0x80" opcode]
    by (auto simp: ws_direct_frame_encode_client_def Let_def split: if_splits)
  have split: "fr = take k fr @ drop k fr" by simp
  have e: "ws_direct_frame_decode fr = (case ws_direct_frame_decode (take k fr) of
      Frame g \<Rightarrow> Frame (g\<lparr>fr_buf := fr_buf g @ drop k fr\<rparr>) | d \<Rightarrow> d)"
    using decode_append [OF nm, of "drop k fr"] by simp
  then obtain g where g: "ws_direct_frame_decode (take k fr) = Frame g"
    and fg: "f = g\<lparr>fr_buf := fr_buf g @ drop k fr\<rparr>"
    using f(1) nm by (cases "ws_direct_frame_decode (take k fr)") auto
  have "fr_pay_off g + fr_pay_len g \<le> length (take k fr)"
    by (rule decode_FrameD [OF g]) auto
  then show False using f(2) fg assms(6) by simp
qed

theorem decode_partial_witness:
  "ws_direct_frame_decode (take 7 (fst (the (ws_direct_frame_encode_client 1 [104, 105] [1, 2, 3, 4] 64)))) = NeedMore"
proof -
  have "ws_direct_frame_encode_client 1 [104, 105] [1, 2, 3, 4] 64 =
      Some (fst (the (ws_direct_frame_encode_client 1 [104, 105] [1, 2, 3, 4] 64)), 8)"
    "length (fst (the (ws_direct_frame_encode_client 1 [104, 105] [1, 2, 3, 4] 64))) = 8"
    by (simp_all add: ws_direct_frame_encode_client_def len_extra_def frame_header_def i32_def xor_mask_def upt_rec)
  then show ?thesis using decode_partial [of 1 "[104, 105]" "[1, 2, 3, 4]" 64 _ 8 7]
    by (auto simp: valid_opcode_def)
qed

section \<open>SHA-1\<close>

lemma sha1_feed_nil [simp]: "sha1_feed h buf [] = (h, buf)"
  by (simp add: sha1_feed.simps)

lemma sha1_feed_full:
  assumes "length buf < 64" "data \<noteq> []" "64 \<le> length buf + length data"
  shows "sha1_feed h buf data =
    sha1_feed (sha1_block h (buf @ take (64 - length buf) data)) [] (drop (64 - length buf) data)"
proof -
  have m: "min (64 - length buf) (length data) = 64 - length buf" using assms by simp
  have l: "length (buf @ take (64 - length buf) data) = 64" using assms by simp
  show ?thesis using assms l by (subst sha1_feed.simps) (simp only: Let_def m, simp)
qed

lemma sha1_feed_short:
  assumes "length buf + length data < 64"
  shows "sha1_feed h buf data = (h, buf @ data)"
proof (cases "data = []")
  case False
  then show ?thesis using assms by (subst sha1_feed.simps) (simp add: Let_def)
qed simp

text \<open>Feeding buffered bytes is feeding the message: only what was fed so far matters.\<close>

lemma sha1_feed_buffered:
  assumes "length buf < 64"
  shows "sha1_feed h buf data = sha1_feed h [] (buf @ data)"
proof (cases "64 \<le> length buf + length data")
  case True
  then have "data \<noteq> []" using assms by auto
  then show ?thesis
    using True assms by (simp add: sha1_feed_full [of buf] sha1_feed_full [of "[]" "buf @ data"])
next
  case False
  then show ?thesis by (simp add: sha1_feed_short)
qed

lemma sha1_feed_buf_less: "length buf < 64 \<Longrightarrow> length (snd (sha1_feed h buf data)) < 64"
proof (induction "length data" arbitrary: h buf data rule: less_induct)
  case less
  show ?case
  proof (cases "64 \<le> length buf + length data")
    case True
    then have "data \<noteq> []" using less.prems by auto
    then show ?thesis
      using True less.prems less.hyps [of "drop (64 - length buf) data" "[]"]
      by (simp add: sha1_feed_full)
  next
    case False
    then show ?thesis by (simp add: sha1_feed_short)
  qed
qed

lemma sha1_feed_append:
  "length buf < 64 \<Longrightarrow>
   sha1_feed h buf (a @ b) = (case sha1_feed h buf a of (h', buf') \<Rightarrow> sha1_feed h' buf' b)"
proof (induction "length a" arbitrary: h buf a rule: less_induct)
  case less
  show ?case
  proof (cases "64 \<le> length buf + length a")
    case True
    then have "a \<noteq> []" using less.prems by auto
    then show ?thesis
      using True less.prems less.hyps [of "drop (64 - length buf) a" "[]"]
      by (simp add: sha1_feed_full)
  next
    case False
    then have s: "sha1_feed h buf a = (h, buf @ a)" and l: "length (buf @ a) < 64"
      by (auto simp: sha1_feed_short)
    show ?thesis unfolding s prod.case
      by (subst sha1_feed_buffered [OF less.prems], subst sha1_feed_buffered [OF l]) simp
  qed
qed

text \<open>The SHA-1 of a message as FIPS 180-4 states it: pad, cut into blocks, compress.\<close>

function sha1_blocks :: "u32 list \<Rightarrow> u8 list \<Rightarrow> u32 list" where
  "sha1_blocks h m = (if length m < 64 then h else sha1_blocks (sha1_block h (take 64 m)) (drop 64 m))"
  by pat_completeness auto
termination by (relation "measure (\<lambda>(h, m). length m)") auto

declare sha1_blocks.simps [simp del]

definition sha1_zeros :: "nat \<Rightarrow> nat" where
  "sha1_zeros n = (119 - n mod 64) mod 64"

definition sha1_padded :: "u8 list \<Rightarrow> u8 list" where
  "sha1_padded m = m @ [0x80] @ replicate (sha1_zeros (length m)) 0 @ be64 8 (8 * length m)"

definition sha1_digest :: "u8 list \<Rightarrow> u8 list" where
  "sha1_digest m = concat (map be_bytes (sha1_blocks (sh_h sha1_init) (sha1_padded m)))"

lemma sha1_feed_blocks:
  "fst (sha1_feed h [] m) = sha1_blocks h m \<and> length (snd (sha1_feed h [] m)) = length m mod 64"
proof (induction h m rule: sha1_blocks.induct)
  case (1 h m)
  show ?case
  proof (cases "length m < 64")
    case True
    then show ?thesis by (simp add: sha1_feed_short sha1_blocks.simps [of h m])
  next
    case False
    then have "m \<noteq> []" by auto
    then show ?thesis
      using "1.IH" [OF False] False
      by (simp add: sha1_feed_full sha1_blocks.simps [of h m] le_mod_geq)
  qed
qed

text \<open>A context that has absorbed m.\<close>

definition absorbed :: "ws_sha1 \<Rightarrow> u8 list \<Rightarrow> bool" where
  "absorbed c m = ((sh_h c, sh_buf c) = sha1_feed (sh_h sha1_init) [] m)"

lemma absorbed_buf: "absorbed c m \<Longrightarrow> length (sh_buf c) = length m mod 64"
  by (metis absorbed_def sha1_feed_blocks snd_conv)

lemma absorbed_init: "absorbed sha1_init []"
  by (simp add: absorbed_def) (simp add: sha1_init_def)

lemma absorbed_update:
  assumes "absorbed c m"
  shows "absorbed (sha1_update c d) (m @ d)"
proof -
  have "sha1_feed (sh_h sha1_init) [] (m @ d) = sha1_feed (sh_h c) (sh_buf c) d"
    using assms unfolding absorbed_def by (subst sha1_feed_append) (auto split: prod.split)
  then show ?thesis
    by (cases "sha1_feed (sh_h c) (sh_buf c) d") (simp add: absorbed_def sha1_update_def)
qed

lemma absorbed_pad:
  assumes "absorbed c m" and "(length m + k) mod 64 = 56" and "k < 64" and "k \<le> fuel"
  shows "absorbed (sha1_pad fuel c) (m @ replicate k 0)"
  using assms
proof (induction k arbitrary: c m fuel)
  case 0
  then have "length (sh_buf c) = 56" using absorbed_buf by simp
  then show ?case using 0 by (cases fuel) simp_all
next
  case (Suc k)
  then obtain f where f: "fuel = Suc f" by (cases fuel) auto
  have "length m mod 64 \<noteq> 56"
  proof
    assume "length m mod 64 = 56"
    then have "(56 + Suc k) mod 64 = 56" using Suc.prems(2) by (metis mod_add_left_eq)
    then show False using Suc.prems(3) by (cases "Suc k < 8") (auto simp: mod_if split: if_splits)
  qed
  then have "length (sh_buf c) \<noteq> 56" using absorbed_buf [OF Suc.prems(1)] by simp
  moreover have "absorbed (sha1_pad f (sha1_update c [0])) ((m @ [0]) @ replicate k 0)"
    using Suc.prems f by (intro Suc.IH absorbed_update) auto
  ultimately show ?case by (simp add: f)
qed

lemma sha1_zeros_fit: "(Suc n + sha1_zeros n) mod 64 = 56" "sha1_zeros n < 64"
proof -
  have z: "sha1_zeros n = (if n mod 64 \<le> 55 then 55 - n mod 64 else 119 - n mod 64)"
  proof (cases "n mod 64 \<le> 55")
    case True
    then have "119 - n mod 64 = 64 + (55 - n mod 64)" by simp
    then have "sha1_zeros n = (55 - n mod 64) mod 64" by (simp only: sha1_zeros_def mod_add_self1)
    then show ?thesis using True by simp
  next
    case False
    then show ?thesis by (simp add: sha1_zeros_def)
  qed
  have "n mod 64 < 64" by simp
  then have "Suc (n mod 64) + sha1_zeros n = 56 \<or> Suc (n mod 64) + sha1_zeros n = 120"
    using z by (simp split: if_splits)
  then have "(Suc (n mod 64) + sha1_zeros n) mod 64 = 56" by auto
  then show "(Suc n + sha1_zeros n) mod 64 = 56" by (metis mod_Suc_eq add_Suc mod_add_left_eq)
  show "sha1_zeros n < 64" by (simp add: sha1_zeros_def)
qed

lemma length_be64 [simp]: "length (be64 n v) = n"
  by (induction n) auto

lemma sha1_update_len: "sh_len (sha1_update c d) = u64_add (sh_len c) (length d)"
  by (simp add: sha1_update_def split: prod.split)

lemma sha1_all:
  assumes "length (concat ds) < 2 ^ 61"
  shows "sha1_final (foldl sha1_update sha1_init ds) = sha1_digest (concat ds)"
proof -
  let ?m = "concat ds" and ?c = "foldl sha1_update sha1_init ds"
  have a: "absorbed (foldl sha1_update c xs) (m @ concat xs)" if "absorbed c m" for c m xs
    using that
  proof (induction xs arbitrary: c m)
    case (Cons x xs)
    from Cons.IH [OF absorbed_update [OF Cons.prems, of x]] show ?case by simp
  qed simp
  have n: "sh_len (foldl sha1_update c xs) = (sh_len c + length (concat xs)) mod 2 ^ 64"
    if "sh_len c < 2 ^ 64" for c xs
    using that
  proof (induction xs arbitrary: c)
    case (Cons d xs)
    have "sh_len (sha1_update c d) < 2 ^ 64" by (simp only: sha1_update_len u64_add_less)
    from Cons.IH [OF this] show ?case by (simp add: sha1_update_len u64_add_def mod_simps add.assoc)
  qed simp
  have bits: "u64_mul (sh_len ?c) 8 = 8 * length ?m"
    using n [of sha1_init ds] assms by (simp add: sha1_init_def u64_mul_def)
  have "absorbed (sha1_update ?c [0x80]) (?m @ [0x80])"
    using a [OF absorbed_init, of ds] absorbed_update by fastforce
  from absorbed_pad [OF this, of "sha1_zeros (length ?m)" 64]
  have p: "absorbed (sha1_pad 64 (sha1_update ?c [0x80])) (?m @ [0x80] @ replicate (sha1_zeros (length ?m)) 0)"
    using sha1_zeros_fit [of "length ?m"] by simp
  let ?c2 = "sha1_pad 64 (sha1_update ?c [0x80])"
  have l: "length (sh_buf ?c2) = 56"
    using absorbed_buf [OF p] sha1_zeros_fit [of "length ?m"] by simp
  have "sha1_feed (sh_h sha1_init) [] (sha1_padded ?m) = sha1_feed (sh_h ?c2) (sh_buf ?c2) (be64 8 (8 * length ?m))"
    using p unfolding absorbed_def sha1_padded_def append_assoc [symmetric]
    by (subst sha1_feed_append) (auto split: prod.split)
  also have "\<dots> = (sha1_block (sh_h ?c2) (sh_buf ?c2 @ be64 8 (8 * length ?m)), [])"
    using l length_be64 [of 8 "8 * length ?m"] by (subst sha1_feed_full) (auto simp del: length_be64)
  finally have "sha1_blocks (sh_h sha1_init) (sha1_padded ?m) =
      sha1_block (sh_h ?c2) (sh_buf ?c2 @ be64 8 (8 * length ?m))"
    using sha1_feed_blocks by (metis fst_conv)
  then show ?thesis using l by (simp add: sha1_final_def sha1_digest_def Let_def bits)
qed

lemma sha1_whole: "length d < 2 ^ 61 \<Longrightarrow> sha1_final (sha1_update sha1_init d) = sha1_digest d"
  using sha1_all [of "[d]"] by simp

text \<open>The buffered SHA-1 of the handshake computes SHA-1: feeding a message of fewer
  than 2^61 bytes through sha1_update in any pieces and finishing gives the digest of the whole
  message as the standard defines it (message, 0x80, zeros to 56 modulo 64, the bit length).\<close>

theorem sha1_pieces:
  assumes "length (concat ds) < 2 ^ 61"
  shows "sha1_final (foldl sha1_update sha1_init ds) = sha1_digest (concat ds)"
  by (rule sha1_all [OF assms])

theorem sha1_pieces_witness:
  "sha1_final (foldl sha1_update sha1_init [[97], [98, 99]]) = sha1_digest [97, 98, 99]"
  using sha1_pieces [of "[[97], [98, 99]]"] by simp

section \<open>Base64 and the handshake\<close>

definition b64_val :: "char \<Rightarrow> nat" where
  "b64_val c = (if c = CHR ''='' then 0 else length (takeWhile (\<lambda>x. x \<noteq> c) b64_tab))"

text \<open>A reference decoder.\<close>

fun b64_decode :: "string \<Rightarrow> u8 list" where
  "b64_decode (a # b # c # d # s) =
     (let v = b64_val a * 262144 + b64_val b * 4096 + b64_val c * 64 + b64_val d
      in (word_of_nat (v div 65536) # (if c = CHR ''='' then [] else [word_of_nat (v div 256)]) @
          (if d = CHR ''='' then [] else [word_of_nat v])) @ b64_decode s)"
| "b64_decode _ = []"

lemma b64_tab_ok: "i < 64 \<Longrightarrow> b64_val (b64_tab ! i) = i \<and> b64_tab ! i \<noteq> CHR ''=''"
proof -
  have "list_all (\<lambda>i. b64_val (b64_tab ! i) = i \<and> b64_tab ! i \<noteq> CHR ''='') [0..<64]"
    by code_simp
  then show "i < 64 \<Longrightarrow> ?thesis" by (simp add: list_all_iff)
qed

lemma base64_digits:
  "(v :: nat) = q1 * 64 + r0 \<Longrightarrow> q1 = q2 * 64 + r1 \<Longrightarrow> q2 = q3 * 64 + r2 \<Longrightarrow>
   q3 * 262144 + r2 * 4096 + r1 * 64 + r0 = v"
  by simp

lemma split_24:
  assumes "(v :: nat) < 2 ^ 24"
  shows "v div 262144 mod 64 * 262144 + v div 4096 mod 64 * 4096 + v div 64 mod 64 * 64 + v mod 64 = v"
proof -
  have d: "v div 4096 = v div 64 div 64" "v div 262144 = v div 64 div 64 div 64"
    by (simp_all add: div_mult2_eq [symmetric])
  have "v div 262144 < 64" using assms by (simp add: less_mult_imp_div_less)
  then have "v div 262144 mod 64 = v div 64 div 64 div 64" by (simp add: d(2))
  then show ?thesis unfolding d(1)
    using base64_digits [OF div_mult_mod_eq [symmetric] div_mult_mod_eq [symmetric] div_mult_mod_eq [symmetric]]
    by metis
qed

lemma unat_lt_256: "unat (x :: u8) < 256"
  by (rule order_less_le_trans [OF unsigned_less]) simp

definition quad_value :: "u8 \<Rightarrow> u8 \<Rightarrow> u8 \<Rightarrow> nat" where
  "quad_value a b c = unat a * 65536 + unat b * 256 + unat c"

lemma quad_value_less: "quad_value a b c < 2 ^ 24"
  using unat_lt_256 [of a] unat_lt_256 [of b] unat_lt_256 [of c] by (simp add: quad_value_def)

lemma byte_of_nat: "(word_of_nat (n * 256 + unat x) :: u8) = x"
proof -
  have "unat (word_of_nat (n * 256 + unat x) :: u8) = (n * 256 + unat x) mod 256"
    by (simp only: unat_of_nat) simp
  also have "\<dots> = unat x" using unat_lt_256 [of x] by simp
  finally show ?thesis by (simp only: word_unat_eq_iff)
qed

lemma quad_value_bytes:
  "word_of_nat (quad_value a b c div 65536) = a" "word_of_nat (quad_value a b c div 256) = b"
  "word_of_nat (quad_value a b c) = c"
proof -
  have l: "unat b * 256 + unat c < 65536" using unat_lt_256 [of b] unat_lt_256 [of c] by simp
  have "quad_value a b c = unat a * 65536 + (unat b * 256 + unat c)" by (simp add: quad_value_def)
  then have "quad_value a b c div 65536 = unat a"
    using l by (metis div_mult_self3 div_less add.right_neutral zero_neq_numeral)
  then show "word_of_nat (quad_value a b c div 65536) = a" by simp
  have e: "quad_value a b c = (unat a * 256 + unat b) * 256 + unat c" by (simp add: quad_value_def)
  then show "word_of_nat (quad_value a b c) = c" by (simp only: byte_of_nat)
  have "quad_value a b c div 256 = unat a * 256 + unat b"
    unfolding e using unat_lt_256 [of c] by (metis div_mult_self3 div_less add.right_neutral zero_neq_numeral)
  then show "word_of_nat (quad_value a b c div 256) = b" by (simp only: byte_of_nat)
qed

lemma quad_value_0:
  "quad_value a b 0 mod 64 = 0" "quad_value a 0 0 div 64 mod 64 = 0"
proof -
  have "quad_value a b 0 = 64 * (unat a * 1024 + unat b * 4)" by (simp add: quad_value_def)
  then show "quad_value a b 0 mod 64 = 0" by (metis mod_mult_self1_is_0)
  have "quad_value a 0 0 = 64 * (64 * (unat a * 16))" by (simp add: quad_value_def)
  then show "quad_value a 0 0 div 64 mod 64 = 0"
    by (metis mod_mult_self1_is_0 nonzero_mult_div_cancel_left zero_neq_numeral)
qed

lemma b64_quad_eq:
  "b64_quad a b c =
     (let v = quad_value a (case b of Some x \<Rightarrow> x | None \<Rightarrow> 0) (case c of Some x \<Rightarrow> x | None \<Rightarrow> 0)
      in [b64_tab ! (v div 262144 mod 64), b64_tab ! (v div 4096 mod 64),
          if b \<noteq> None then b64_tab ! (v div 64 mod 64) else CHR ''='',
          if c \<noteq> None then b64_tab ! (v mod 64) else CHR ''=''])"
  by (cases b; cases c) (simp_all add: b64_quad_def quad_value_def)

lemma b64_decode_vals:
  assumes "b64_val a * 262144 + b64_val b * 4096 + b64_val c * 64 + b64_val d = v"
  shows "b64_decode (a # b # c # d # s) =
    (word_of_nat (v div 65536) # (if c = CHR ''='' then [] else [word_of_nat (v div 256)]) @
      (if d = CHR ''='' then [] else [word_of_nat v])) @ b64_decode s"
  using assms by (simp add: Let_def)

lemma b64_decode_quad:
  "b64_decode (b64_quad a None None @ s) = [a] @ b64_decode s"
  "b64_decode (b64_quad a (Some b) None @ s) = [a, b] @ b64_decode s"
  "b64_decode (b64_quad a (Some b) (Some c) @ s) = [a, b, c] @ b64_decode s"
proof -
  have m: "k mod 64 < 64" for k :: nat by simp
  have tab: "b64_val (b64_tab ! (k mod 64)) = k mod 64" "b64_tab ! (k mod 64) \<noteq> CHR ''=''" for k
    using b64_tab_ok [OF m] by auto
  have pad: "b64_val (CHR ''='') = 0" by (simp add: b64_val_def)
  let ?t = "\<lambda>k. b64_tab ! (k mod 64)"
  have q: "b64_decode (?t (v div 262144) # ?t (v div 4096) # ?t (v div 64) # ?t v # s) =
      [word_of_nat (v div 65536), word_of_nat (v div 256), word_of_nat v] @ b64_decode s"
    if "v < 2 ^ 24" for v
    using b64_decode_vals [of "?t (v div 262144)" "?t (v div 4096)" "?t (v div 64)" "?t v" v s]
      split_24 [OF that] unfolding tab(1) by (simp only: tab(2) if_False append_Cons append_Nil)
  have q1: "b64_decode (?t (v div 262144) # ?t (v div 4096) # ?t (v div 64) # CHR ''='' # s) =
      [word_of_nat (v div 65536), word_of_nat (v div 256)] @ b64_decode s"
    if "v < 2 ^ 24" "v mod 64 = 0" for v
    using b64_decode_vals [of "?t (v div 262144)" "?t (v div 4096)" "?t (v div 64)" "CHR ''=''" v s]
      split_24 [OF that(1)] that(2) unfolding tab(1) pad
    by (simp only: tab(2) if_False if_True append_Cons append_Nil) simp
  have q2: "b64_decode (?t (v div 262144) # ?t (v div 4096) # CHR ''='' # CHR ''='' # s) =
      [word_of_nat (v div 65536)] @ b64_decode s"
    if "v < 2 ^ 24" "v mod 64 = 0" "v div 64 mod 64 = 0" for v
    using b64_decode_vals [of "?t (v div 262144)" "?t (v div 4096)" "CHR ''=''" "CHR ''=''" v s]
      split_24 [OF that(1)] that(2,3) unfolding tab(1) pad
    by (simp only: mult_0 if_True append_Cons append_Nil) simp
  show "b64_decode (b64_quad a None None @ s) = [a] @ b64_decode s"
    using q2 [OF quad_value_less quad_value_0] unfolding quad_value_bytes by (simp add: b64_quad_eq Let_def)
  show "b64_decode (b64_quad a (Some b) None @ s) = [a, b] @ b64_decode s"
    using q1 [OF quad_value_less quad_value_0(1)] unfolding quad_value_bytes by (simp add: b64_quad_eq Let_def)
  show "b64_decode (b64_quad a (Some b) (Some c) @ s) = [a, b, c] @ b64_decode s"
    using q [OF quad_value_less] unfolding quad_value_bytes by (simp add: b64_quad_eq Let_def)
qed

lemma b64_decode_chars: "b64_decode (b64_chars bs) = bs"
  by (induction bs rule: b64_chars.induct)
    (simp_all add: b64_decode_quad b64_decode_quad(1) [of _ "[]", simplified]
      b64_decode_quad(2) [of _ _ "[]", simplified])

lemma length_b64_quad [simp]: "length (b64_quad a b c) = 4"
  by (simp add: b64_quad_def Let_def)

lemma three_more: "(5 + n) div 3 = Suc (Suc (Suc n) div 3)"
proof -
  have "5 + n = Suc (Suc n) + 3" by simp
  then have "(5 + n) div 3 = (Suc (Suc n) + 3) div 3" by (simp only:)
  also have "\<dots> = Suc (Suc (Suc n) div 3)" by simp
  finally show ?thesis .
qed

lemma length_b64_chars: "length (b64_chars bs) = (length bs + 2) div 3 * 4"
  by (induction bs rule: b64_chars.induct) (simp_all add: three_more)

text \<open>b64_encode fails exactly when the text and its NUL do not fit; what it writes
  has 4 characters for every 3 bytes begun and decodes (by a reference base64 decoder) to the
  bytes it was given, padding included.\<close>

theorem b64_roundtrip:
  "b64_encode bs cap =
     (if (length bs + 2) div 3 * 4 < cap then Some (b64_chars bs) else None) \<and>
   length (b64_chars bs) = (length bs + 2) div 3 * 4 \<and> b64_decode (b64_chars bs) = bs"
  by (auto simp: b64_encode_def b64_decode_chars length_b64_chars)

lemma length_be_bytes: "length (concat (map be_bytes h)) = 4 * length h"
  by (induction h) (simp_all add: be_bytes_def)

lemma length_sha1_blocks: "length h = 5 \<Longrightarrow> length (sha1_blocks h m) = 5"
proof (induction h m rule: sha1_blocks.induct)
  case (1 h m)
  have "length (sha1_block h (take 64 m)) = 5"
    by (simp add: sha1_block_def split: prod.split)
  then show ?case using 1 by (simp add: sha1_blocks.simps [of h m])
qed

lemma length_sha1_digest: "length (sha1_digest m) = 20"
  by (simp add: sha1_digest_def length_be_bytes length_sha1_blocks sha1_init_def)

text \<open>The Sec-WebSocket-Accept value: for any client key that is not blank, cut to
  255 characters and stripped of blanks, the answer is the 28-character base64 text of the
  SHA-1 of the key followed by the RFC 6455 GUID; a blank key or a buffer below 32 bytes is
  refused.\<close>

theorem accept_key_rfc6455:
  "ws_direct_handshake_accept_key key cap =
     (let k = strip_tail (take 255 (dropWhile is_blank key)) in
      if key = [] \<or> cap < 32 \<or> k = [] then None
      else Some (b64_chars (sha1_digest (chars_bytes (k @ WS_GUID))))) \<and>
   length (b64_chars (sha1_digest (chars_bytes (k @ WS_GUID)))) = 28"
proof -
  let ?k = "strip_tail (take 255 (dropWhile is_blank key))"
  have "length ?k \<le> 255"
    by (simp add: strip_tail_def) (metis length_dropWhile_le length_rev length_take min.cobounded2 order_trans)
  then have l: "length (?k @ WS_GUID) < 320" by (simp add: WS_GUID_def)
  have k: "c_trunc 256 (dropWhile is_blank key) = take 255 (dropWhile is_blank key)" by (simp add: c_trunc_def)
  from l have t: "c_trunc 320 (?k @ WS_GUID) = ?k @ WS_GUID" by (rule c_trunc_short)
  have "sha1_final (sha1_update sha1_init d) = sha1_digest d" if "length d < 320" for d
    using sha1_whole that by simp
  then have s: "sha1_final (sha1_update sha1_init (chars_bytes (?k @ WS_GUID))) = sha1_digest (chars_bytes (?k @ WS_GUID))"
    using l by (simp add: chars_bytes_def)
  have b: "b64_encode (sha1_digest d) cap = Some (b64_chars (sha1_digest d))" if "32 \<le> cap" for d
    using that by (simp add: b64_encode_def length_sha1_digest)
  show ?thesis
    unfolding ws_direct_handshake_accept_key_def Let_def k t s
    by (auto simp: b length_b64_chars length_sha1_digest)
qed

end
