(* ===== verification/LiveSession.thy ===== *)
theory LiveSession
  imports PkgPrelude
begin

text \<open>
  The live session of src/src/ws_stream.c: the RAM segment cache a browser fills and the
  console's installer reads. The record below is live_t (without its mutex and condition
  variable: a definition that takes and returns the record is one critical section),
  followed by the two configuration globals. The segment memory is one flat byte array;
  per-segment and per-slot arrays are lists, empty once freed.
\<close>

section \<open>State\<close>

definition SEG :: nat where
  "SEG = 1024 * 1024"

definition WS_LIVE_SLOTS_DEFAULT :: int where
  "WS_LIVE_SLOTS_DEFAULT = 64"

definition WS_LIVE_TIMEOUT_DEFAULT_SEC :: int where
  "WS_LIVE_TIMEOUT_DEFAULT_SEC = 300"

record live =
  lv_active :: bool
  lv_complete :: bool             \<comment> \<open>upload_complete\<close>
  lv_aborted :: bool
  lv_refs :: nat
  lv_free_pending :: bool
  lv_session_id :: string
  lv_filename :: string
  lv_total :: nat
  lv_nsegs :: nat
  lv_present :: "bool list"       \<comment> \<open>per segment: resident\<close>
  lv_slot_of :: "int list"        \<comment> \<open>per segment: RAM slot, -1 = absent\<close>
  lv_slots :: mem                 \<comment> \<open>nslots * SEG bytes\<close>
  lv_nslots :: nat
  lv_last_use :: "nat list"       \<comment> \<open>per slot: LRU stamp\<close>
  lv_slot_read :: "bool list"     \<comment> \<open>per slot: read during this residency\<close>
  lv_slot_seg :: "int list"       \<comment> \<open>per slot: file segment, -1 = free\<close>
  lv_waiters :: "nat list"        \<comment> \<open>per segment: parked readers\<close>
  lv_acked_ever :: "bool list"    \<comment> \<open>per segment: stored at least once\<close>
  lv_seek_sent :: "nat list"      \<comment> \<open>per segment: last seek emission (ms)\<close>
  lv_present_count :: nat
  lv_served :: nat
  lv_run_hi :: nat
  lv_peak_seg :: nat
  lv_tick :: nat
  lv_has_seek_fn :: bool          \<comment> \<open>seek_fn is not NULL\<close>
  lv_timeout_sec :: int           \<comment> \<open>g_timeout_sec\<close>
  lv_slots_cfg :: int             \<comment> \<open>g_slots_cfg\<close>
  lv_cache_log :: "(nat \<times> nat \<times> nat) list" \<comment> \<open>calls of stream_debug_log_ws_cache, newest first\<close>

definition live_init :: live where
  "live_init = \<lparr>lv_active = False, lv_complete = False, lv_aborted = False, lv_refs = 0,
     lv_free_pending = False, lv_session_id = [], lv_filename = [], lv_total = 0, lv_nsegs = 0,
     lv_present = [], lv_slot_of = [], lv_slots = (\<lambda>_. 0), lv_nslots = 0, lv_last_use = [],
     lv_slot_read = [], lv_slot_seg = [], lv_waiters = [], lv_acked_ever = [], lv_seek_sent = [],
     lv_present_count = 0, lv_served = 0, lv_run_hi = 0, lv_peak_seg = 0, lv_tick = 0,
     lv_has_seek_fn = False, lv_timeout_sec = WS_LIVE_TIMEOUT_DEFAULT_SEC,
     lv_slots_cfg = WS_LIVE_SLOTS_DEFAULT, lv_cache_log = []\<rparr>"

section \<open>Configuration, creation, teardown\<close>

definition ws_live_set_timeout_sec :: "live \<Rightarrow> int \<Rightarrow> live" where
  "ws_live_set_timeout_sec L sec =
     L\<lparr>lv_timeout_sec := (if sec > 0 then sec else WS_LIVE_TIMEOUT_DEFAULT_SEC)\<rparr>"

definition ws_live_set_slots :: "live \<Rightarrow> int \<Rightarrow> live" where
  "ws_live_set_slots L n = (if n \<ge> 4 \<and> n \<le> 4096 then L\<lparr>lv_slots_cfg := n\<rparr> else L)"

definition ws_live_set_seek_fn :: "live \<Rightarrow> bool \<Rightarrow> live" where
  "ws_live_set_seek_fn L fn = L\<lparr>lv_has_seek_fn := fn\<rparr>"

text \<open>The environment variable WS_LIVE_SLOTS is a parameter (None when unset).\<close>

definition default_slots :: "live \<Rightarrow> string option \<Rightarrow> int" where
  "default_slots L env =
     (case env of None \<Rightarrow> lv_slots_cfg L
      | Some e \<Rightarrow> (if e \<noteq> [] \<and> strtol e \<ge> 4 \<and> strtol e \<le> 4096 then strtol e
                  else lv_slots_cfg L))"

definition free_locked :: "live \<Rightarrow> live" where
  "free_locked L = L\<lparr>lv_present := [], lv_slot_of := [], lv_slots := (\<lambda>_. 0), lv_last_use := [],
     lv_slot_seg := [], lv_slot_read := [], lv_waiters := [], lv_acked_ever := [],
     lv_seek_sent := [], lv_free_pending := False\<rparr>"

text \<open>Segments of a file: (total_size + SEG - 1) / SEG in 64 bits.\<close>

definition seg_count :: "nat \<Rightarrow> nat" where
  "seg_count total_size = u64_sub (u64_add total_size SEG) 1 div SEG"

definition clamp_slots :: "int \<Rightarrow> nat \<Rightarrow> nat" where
  "clamp_slots n nsegs =
     (let n1 = (if u64_add nsegs 4 < nat n then u64_add nsegs 4 else nat n)
      in if n1 < 4 then 4 else n1)"

definition create_slots :: "live \<Rightarrow> string option \<Rightarrow> int \<Rightarrow> nat \<Rightarrow> nat" where
  "create_slots L env ring_mb nsegs =
     clamp_slots (if ring_mb > 0 then min 4096 (max 4 ring_mb) else default_slots L env) nsegs"

text \<open>
  ws_live_create. Parameters from the environment: the variable WS_LIVE_SLOTS, whether the
  nine allocations succeed, and the printed id (time, pid and rand). The result is the
  state, the return code and what is written to out_session_id.
\<close>

definition ws_live_create ::
  "live \<Rightarrow> string option \<Rightarrow> bool \<Rightarrow> string \<Rightarrow> string \<Rightarrow> nat \<Rightarrow> int \<Rightarrow> nat
     \<Rightarrow> live \<times> int \<times> string option" where
  "ws_live_create L env alloc_ok new_id filename total_size ring_mb sid_max =
     (if filename = [] \<or> total_size = 0 then (L, - 1, None)
      else let base = base_name filename in
      if base = [] \<or> base = ''.'' \<or> base = ''..'' then (L, - 1, None)
      else if lv_active L then
        (if \<not> lv_aborted L \<and> lv_filename L = base \<and> lv_total L = total_size
         then (L, 0, if sid_max > 0 then Some (c_trunc sid_max (lv_session_id L)) else None)
         else (L, - 2, None))
      else if lv_refs L > 0 then (L, - 2, None)
      else let nsegs = seg_count total_size;
               nslots = create_slots L env ring_mb nsegs;
               k = max 1 nsegs;
               sid = c_trunc 64 new_id in
      if \<not> alloc_ok then (L, - 1, None)
      else (L\<lparr>lv_session_id := sid, lv_filename := c_trunc 256 base, lv_total := total_size,
               lv_nsegs := nsegs, lv_present := replicate k False,
               lv_slot_of := replicate k (- 1), lv_slots := (\<lambda>_. 0), lv_nslots := nslots,
               lv_last_use := replicate nslots 0, lv_slot_seg := replicate nslots (- 1),
               lv_slot_read := replicate nslots False, lv_waiters := replicate k 0,
               lv_acked_ever := replicate k False, lv_seek_sent := replicate k 0,
               lv_present_count := 0, lv_served := 0, lv_run_hi := 0, lv_peak_seg := 0,
               lv_complete := False, lv_aborted := False, lv_refs := 0,
               lv_free_pending := False, lv_active := True\<rparr>,
            0, if sid_max > 0 then Some (c_trunc sid_max sid) else None))"

definition ws_live_session_active :: "live \<Rightarrow> bool" where
  "ws_live_session_active L = lv_active L"

definition ws_live_check_id :: "live \<Rightarrow> string \<Rightarrow> bool" where
  "ws_live_check_id L sid = (sid \<noteq> [] \<and> lv_active L \<and> lv_session_id L = sid)"

definition ws_live_abort :: "live \<Rightarrow> live" where
  "ws_live_abort L = (if lv_active L \<and> \<not> lv_aborted L then L\<lparr>lv_aborted := True\<rparr> else L)"

definition ws_live_destroy :: "live \<Rightarrow> live" where
  "ws_live_destroy L =
     (if \<not> lv_active L then L
      else let L1 = L\<lparr>lv_active := False, lv_aborted := True\<rparr>;
               L2 = (if lv_refs L1 = 0 then free_locked L1 else L1\<lparr>lv_free_pending := True\<rparr>)
           in L2\<lparr>lv_complete := False, lv_session_id := [], lv_filename := [], lv_total := 0,
                 lv_nsegs := 0, lv_present_count := 0, lv_served := 0\<rparr>)"

definition ws_live_attach :: "live \<Rightarrow> live \<times> int" where
  "ws_live_attach L =
     (if \<not> lv_active L then (L, - 1) else (L\<lparr>lv_refs := Suc (lv_refs L)\<rparr>, 0))"

definition ws_live_detach :: "live \<Rightarrow> live" where
  "ws_live_detach L =
     (let L1 = (if lv_refs L > 0 then L\<lparr>lv_refs := lv_refs L - 1\<rparr> else L)
      in if lv_refs L1 = 0 \<and> lv_free_pending L1 then free_locked L1 else L1)"

definition ws_live_reset_for_tests :: "live \<Rightarrow> live" where
  "ws_live_reset_for_tests L =
     (free_locked ((ws_live_abort L)\<lparr>lv_refs := 0, lv_free_pending := False\<rparr>))
       \<lparr>lv_active := False, lv_aborted := False, lv_complete := False,
        lv_timeout_sec := WS_LIVE_TIMEOUT_DEFAULT_SEC\<rparr>"

section \<open>Storing a segment\<close>

definition seg_len_locked :: "live \<Rightarrow> nat \<Rightarrow> nat" where
  "seg_len_locked L seg =
     (let start = u64_mul seg SEG
      in if start \<ge> lv_total L then 0 else min (lv_total L - start) SEG)"

text \<open>The test of the eviction loop: segment s may give up its slot to segment seg.\<close>

definition live_evictable :: "live \<Rightarrow> nat \<Rightarrow> nat \<Rightarrow> bool" where
  "live_evictable L seg s =
     (lv_present L ! s \<and> 0 \<le> lv_slot_of L ! s \<and> lv_waiters L ! s = 0 \<and>
      (lv_run_hi L \<ge> u64_mul (s + 1) SEG \<or>
       (seg < lv_nsegs L \<and> lv_waiters L ! seg > 0) \<and> lv_acked_ever L ! s \<or>
       lv_peak_seg L > 0 \<and> lv_acked_ever L ! s \<and> (seg \<ge> lv_peak_seg L \<or> s \<noteq> seg)))"

text \<open>The eviction loop: the least recently used evictable segment, the first of equals.\<close>

fun victim_scan :: "live \<Rightarrow> nat \<Rightarrow> nat list \<Rightarrow> (nat \<times> int) option \<Rightarrow> (nat \<times> int) option" where
  "victim_scan L seg [] acc = acc"
| "victim_scan L seg (s # ss) acc =
     (if \<not> live_evictable L seg s then victim_scan L seg ss acc
      else let stamp = lv_last_use L ! nat (lv_slot_of L ! s) in
           case acc of
             None \<Rightarrow> victim_scan L seg ss (Some (stamp, i32 s))
           | Some (oldest, v) \<Rightarrow>
               victim_scan L seg ss (if stamp < oldest then Some (stamp, i32 s) else acc))"

fun free_slot :: "int list \<Rightarrow> nat list \<Rightarrow> nat option" where
  "free_slot ss [] = None"
| "free_slot ss (i # is) = (if ss ! i < 0 then Some i else free_slot ss is)"

definition bind_slot :: "live \<Rightarrow> nat \<Rightarrow> nat \<Rightarrow> live" where
  "bind_slot L seg i =
     (if seg < lv_nsegs L
      then L\<lparr>lv_slot_of := (lv_slot_of L)[seg := int i], lv_slot_seg := (lv_slot_seg L)[i := i32 seg]\<rparr>
      else L)"

definition evict_seg :: "live \<Rightarrow> nat \<Rightarrow> live" where
  "evict_seg L v =
     (let i = nat (lv_slot_of L ! v)
      in L\<lparr>lv_cache_log := (0, 0, if lv_slot_read L ! i then 0 else seg_len_locked L v) # lv_cache_log L,
           lv_slot_read := (lv_slot_read L)[i := False],
           lv_present := (lv_present L)[v := False],
           lv_slot_of := (lv_slot_of L)[v := - 1]\<rparr>)"

text \<open>alloc_slot_locked: the state and the slot, or -1 when nothing may be evicted.\<close>

definition alloc_slot_locked :: "live \<Rightarrow> nat \<Rightarrow> live \<times> int" where
  "alloc_slot_locked L seg =
     (if seg < lv_nsegs L \<and> 0 \<le> lv_slot_of L ! seg then (L, lv_slot_of L ! seg)
      else case free_slot (lv_slot_seg L) [0..<lv_nslots L] of
        Some i \<Rightarrow> (bind_slot L seg i, int i)
      | None \<Rightarrow>
          (case victim_scan L seg [1..<lv_nsegs L] None of
             None \<Rightarrow> (L, - 1)
           | Some (_, v) \<Rightarrow>
               (if v < 0 then (L, - 1)
                else let i = nat (lv_slot_of L ! nat v)
                     in (bind_slot (evict_seg L (nat v)) seg i, int i))))"

text \<open>
  store_seg_locked returns a slot, 1 (no overlap), -1 or -2. The slot is a number of its
  own here: the code returns it in the same int as the code 1 and its callers treat every
  value from 0 up alike. OutOfBounds stands for an array access past its end, which in C
  is undefined; the theorems below show which states exclude it.
\<close>

datatype store_result = Stored nat | NoOverlap | ProtoErr | Busy | OutOfBounds

definition store_seg_locked :: "live \<Rightarrow> nat \<Rightarrow> mem \<Rightarrow> nat \<Rightarrow> nat \<Rightarrow> live \<times> store_result" where
  "store_seg_locked L seg data offset len =
     (let s_start = u64_mul seg SEG;
          s_len = seg_len_locked L seg;
          last_end = u64_add offset len;
          w_start = (if offset > s_start then offset else s_start);
          w_end = (if last_end < u64_add s_start s_len then last_end else u64_add s_start s_len)
      in if w_end \<le> w_start then (L, NoOverlap)
      else if w_end - w_start \<noteq> s_len then (L, ProtoErr)
      else if length (lv_present L) \<le> seg then (L, OutOfBounds)
      else let resident = lv_present L ! seg;
               repeated = lv_acked_ever L ! seg;
               (L1, slot) = alloc_slot_locked L seg
      in if slot < 0 then (L1, Busy)
      else if lv_nslots L1 \<le> nat slot then (L1, OutOfBounds)
      else let i = nat slot;
               L2 = L1\<lparr>lv_cache_log := (if resident then s_len else 0,
                         if repeated \<and> \<not> resident then s_len else 0, 0) # lv_cache_log L1,
                       lv_slot_read := (if resident then lv_slot_read L1
                                        else (lv_slot_read L1)[i := False]),
                       lv_slots := memcpy (lv_slots L1) (i * SEG) data (w_start - offset) s_len\<rparr>;
               L3 = (if \<not> lv_present L2 ! seg
                     then L2\<lparr>lv_present := (lv_present L2)[seg := True],
                             lv_present_count := Suc (lv_present_count L2)\<rparr>
                     else L2);
               t = Suc (lv_tick L3)
      in (L3\<lparr>lv_acked_ever := (lv_acked_ever L3)[seg := True], lv_tick := t,
              lv_last_use := (lv_last_use L3)[i := t]\<rparr>, Stored i))"

section \<open>The session invariant\<close>

text \<open>
  The largest file the invariant is about, 2^51 bytes: below it no segment number is cut by
  the casts to int. ws_upload.c admits files up to 2^38 bytes.
\<close>

definition LIVE_MAX :: nat where
  "LIVE_MAX = 2 ^ 51"

text \<open>
  live_core: the arrays have one entry per segment or slot, a segment is resident exactly
  when it has a slot, that slot names the segment back (so two segments never share one),
  and a resident segment was stored. live_back: a slot that names a segment is its slot,
  except for slots of X. live_inv is the invariant of every operation.
\<close>

definition live_shape :: "live \<Rightarrow> bool" where
  "live_shape L =
     (0 < lv_total L \<and> lv_total L \<le> LIVE_MAX \<and>
      lv_nsegs L = (lv_total L + SEG - 1) div SEG \<and>
      length (lv_present L) = lv_nsegs L \<and> length (lv_slot_of L) = lv_nsegs L \<and>
      length (lv_waiters L) = lv_nsegs L \<and> length (lv_acked_ever L) = lv_nsegs L \<and>
      length (lv_seek_sent L) = lv_nsegs L \<and>
      4 \<le> lv_nslots L \<and> lv_nslots L \<le> 4096 \<and>
      length (lv_last_use L) = lv_nslots L \<and> length (lv_slot_read L) = lv_nslots L \<and>
      length (lv_slot_seg L) = lv_nslots L \<and>
      lv_run_hi L \<le> lv_total L \<and> lv_peak_seg L < lv_nsegs L)"

definition live_core :: "live \<Rightarrow> bool" where
  "live_core L =
     (\<forall>s < lv_nsegs L.
        lv_present L ! s = (0 \<le> lv_slot_of L ! s) \<and> - 1 \<le> lv_slot_of L ! s \<and>
        (0 \<le> lv_slot_of L ! s \<longrightarrow>
           nat (lv_slot_of L ! s) < lv_nslots L \<and>
           lv_slot_seg L ! nat (lv_slot_of L ! s) = int s) \<and>
        (lv_present L ! s \<longrightarrow> lv_acked_ever L ! s))"

definition live_back :: "live \<Rightarrow> nat set \<Rightarrow> bool" where
  "live_back L X =
     (\<forall>i < lv_nslots L. i \<notin> X \<longrightarrow> 0 \<le> lv_slot_seg L ! i \<longrightarrow>
        nat (lv_slot_seg L ! i) < lv_nsegs L \<and>
        lv_slot_of L ! nat (lv_slot_seg L ! i) = int i)"

definition live_ok :: "live \<Rightarrow> bool" where
  "live_ok L = (live_shape L \<and> live_core L \<and> live_back L {})"

definition live_inv :: "live \<Rightarrow> bool" where
  "live_inv L = ((lv_active L \<longrightarrow> live_ok L) \<and> (\<not> lv_active L \<longrightarrow> lv_nsegs L = 0))"

text \<open>The bytes of the file F held in RAM: every resident segment holds its own bytes.\<close>

definition live_content :: "live \<Rightarrow> mem \<Rightarrow> bool" where
  "live_content L F =
     (\<forall>s < lv_nsegs L. lv_present L ! s \<longrightarrow>
        (\<forall>k < seg_len_locked L s. lv_slots L (nat (lv_slot_of L ! s) * SEG + k) = F (s * SEG + k)))"

lemma SEG_pos [simp]: "0 < SEG"
  by (simp add: SEG_def)

lemma seg_count_eq:
  assumes "tot \<le> LIVE_MAX" and "0 < tot"
  shows "seg_count tot = (tot + SEG - 1) div SEG"
  using assms by (simp add: seg_count_def SEG_def LIVE_MAX_def u64_simps)

lemma nsegs_bound: "live_shape L \<Longrightarrow> lv_nsegs L \<le> 2 ^ 31 \<and> 0 < lv_nsegs L"
  by (auto simp: live_shape_def LIVE_MAX_def SEG_def)

lemma seg_start_less_total:
  assumes "live_shape L" and "s < lv_nsegs L"
  shows "s * SEG < lv_total L"
  using assms by (auto simp: live_shape_def SEG_def)

lemma seg_len_eq:
  assumes "live_shape L" and "s < lv_nsegs L"
  shows "seg_len_locked L s = min (lv_total L - s * SEG) SEG"
proof -
  have "s * SEG < lv_total L" by (rule seg_start_less_total [OF assms])
  moreover have "lv_total L < 2 ^ 64" using assms(1) by (simp add: live_shape_def LIVE_MAX_def)
  ultimately show ?thesis by (simp add: seg_len_locked_def u64_mul_small)
qed

lemma seg_len_pos: "live_shape L \<Longrightarrow> s < lv_nsegs L \<Longrightarrow> 0 < seg_len_locked L s"
  using seg_len_eq seg_start_less_total by auto

lemma seg_len_le: "seg_len_locked L s \<le> SEG"
  by (simp add: seg_len_locked_def Let_def)

lemma seg_end_le:
  assumes "live_shape L" and "s < lv_nsegs L"
  shows "s * SEG + seg_len_locked L s \<le> lv_total L"
  using seg_len_eq [OF assms] seg_start_less_total [OF assms] by simp

lemma seg_len_beyond:
  assumes "live_shape L" and "lv_nsegs L \<le> s" and "s < 2 ^ 44"
  shows "seg_len_locked L s = 0"
proof -
  have "lv_total L \<le> lv_nsegs L * SEG"
    using assms(1) by (auto simp: live_shape_def SEG_def)
  also have "\<dots> \<le> s * SEG" using assms(2) by simp
  finally have "lv_total L \<le> s * SEG" .
  moreover have "s * SEG < 2 ^ 64" using assms(3) by (simp add: SEG_def)
  ultimately show ?thesis by (simp add: seg_len_locked_def u64_mul_small)
qed

lemma slot_regions_disjoint:
  assumes "(i :: nat) \<noteq> j" and "k < SEG" and "l < SEG"
  shows "i * SEG + k \<noteq> j * SEG + l"
proof
  assume "i * SEG + k = j * SEG + l"
  then have "(i * SEG + k) div SEG = (j * SEG + l) div SEG" by simp
  then show False using assms by simp
qed

lemma slot_regions_apart:
  assumes "(j :: nat) \<noteq> i" and "k < SEG" and "n \<le> SEG"
  shows "j * SEG + k < i * SEG \<or> i * SEG + n \<le> j * SEG + k"
proof (rule ccontr)
  assume "\<not> ?thesis"
  then have "j * SEG + k = i * SEG + (j * SEG + k - i * SEG)" "j * SEG + k - i * SEG < SEG"
    using assms(3) by auto
  then show False using slot_regions_disjoint [OF assms(1,2)] by metis
qed

lemma live_coreD:
  assumes "live_core L" and "s < lv_nsegs L"
  shows "lv_present L ! s = (0 \<le> lv_slot_of L ! s)" and "- 1 \<le> lv_slot_of L ! s"
    and "0 \<le> lv_slot_of L ! s \<Longrightarrow> nat (lv_slot_of L ! s) < lv_nslots L"
    and "0 \<le> lv_slot_of L ! s \<Longrightarrow> lv_slot_seg L ! nat (lv_slot_of L ! s) = int s"
    and "lv_present L ! s \<Longrightarrow> lv_acked_ever L ! s"
  using assms unfolding live_core_def by blast+

lemma slot_of_inj:
  assumes "live_core L" "s < lv_nsegs L" "t < lv_nsegs L" "0 \<le> lv_slot_of L ! s"
    and "lv_slot_of L ! s = lv_slot_of L ! t"
  shows "s = t"
proof -
  have "lv_slot_seg L ! nat (lv_slot_of L ! s) = int s"
    by (rule live_coreD(4) [OF assms(1,2,4)])
  moreover have "lv_slot_seg L ! nat (lv_slot_of L ! t) = int t"
    using live_coreD(4) [OF assms(1,3)] assms(4,5) by simp
  ultimately show ?thesis using assms(5) by (metis of_nat_eq_iff)
qed

section \<open>What eviction may take\<close>

lemma free_slot_Some:
  "free_slot ss is = Some i \<Longrightarrow> i \<in> set is \<and> ss ! i < 0"
  by (induction "is") (auto split: if_splits)

lemma free_slot_None: "free_slot ss is = None \<longleftrightarrow> (\<forall>i \<in> set is. 0 \<le> ss ! i)"
  by (induction "is") auto

text \<open>The scan returns an evictable segment of its list, of least stamp; none only if none is.\<close>

lemma victim_scan_Some:
  assumes "victim_scan L seg ss acc = Some (t, v)"
    and "\<And>t v. acc = Some (t, v) \<Longrightarrow> (\<exists>s \<in> S. v = i32 s \<and> live_evictable L seg s \<and> t = lv_last_use L ! nat (lv_slot_of L ! s))"
  shows "\<exists>s \<in> S \<union> set ss. v = i32 s \<and> live_evictable L seg s \<and> t = lv_last_use L ! nat (lv_slot_of L ! s)"
  using assms
proof (induction ss arbitrary: acc S)
  case Nil
  then show ?case by auto
next
  case (Cons s ss)
  let ?t = "lv_last_use L ! nat (lv_slot_of L ! s)"
  show ?case
  proof (cases "live_evictable L seg s")
    case False
    then show ?thesis using Cons.IH [of acc S] Cons.prems by auto
  next
    case True
    let ?acc = "(case acc of None \<Rightarrow> Some (?t, i32 s)
      | Some (oldest, u) \<Rightarrow> if ?t < oldest then Some (?t, i32 s) else acc)"
    have e: "victim_scan L seg ss ?acc = Some (t, v)"
      using True Cons.prems(1) by (auto simp: Let_def split: option.splits if_splits)
    have "\<exists>x \<in> insert s S \<union> set ss. v = i32 x \<and> live_evictable L seg x \<and> t = lv_last_use L ! nat (lv_slot_of L ! x)"
    proof (rule Cons.IH [OF e])
      fix t' v'
      assume "?acc = Some (t', v')"
      then show "\<exists>x \<in> insert s S. v' = i32 x \<and> live_evictable L seg x \<and> t' = lv_last_use L ! nat (lv_slot_of L ! x)"
        using Cons.prems(2) True by (cases acc) (auto split: if_splits)
    qed
    then show ?thesis by auto
  qed
qed

lemma victim_scan_least:
  assumes "victim_scan L seg ss acc = Some (t, v)"
  shows "(\<forall>s \<in> set ss. live_evictable L seg s \<longrightarrow> t \<le> lv_last_use L ! nat (lv_slot_of L ! s)) \<and>
         (\<forall>t' v'. acc = Some (t', v') \<longrightarrow> t \<le> t')"
  using assms
proof (induction ss arbitrary: acc)
  case Nil
  then show ?case by auto
next
  case (Cons s ss)
  let ?t = "lv_last_use L ! nat (lv_slot_of L ! s)"
  show ?case
  proof (cases "live_evictable L seg s")
    case False
    then show ?thesis using Cons.IH [of acc] Cons.prems by auto
  next
    case True
    let ?acc = "(case acc of None \<Rightarrow> Some (?t, i32 s)
      | Some (oldest, u) \<Rightarrow> if ?t < oldest then Some (?t, i32 s) else acc)"
    have e: "victim_scan L seg ss ?acc = Some (t, v)"
      using True Cons.prems by (auto simp: Let_def split: option.splits if_splits)
    from Cons.IH [OF this] show ?thesis
      by (cases acc) (auto split: if_splits)
  qed
qed

lemma victim_scan_None:
  "victim_scan L seg ss acc = None \<longleftrightarrow> acc = None \<and> (\<forall>s \<in> set ss. \<not> live_evictable L seg s)"
proof (induction ss arbitrary: acc)
  case Nil
  then show ?case by simp
next
  case (Cons s ss)
  note IH = Cons.IH
  show ?case
    by (cases acc) (simp_all add: IH Let_def split: prod.split del: not_None_eq)
qed

end
