(* ===== verification/LiveStore.thy ===== *)
theory LiveStore
  imports LiveSession
begin

text \<open>
  Storing into the live session: which slot alloc_slot_locked finds, what eviction can and
  cannot take, and that store_seg_locked keeps the session invariant and the bytes of the
  file in RAM. Everything here holds for any message a writer can pass.
\<close>

section \<open>Operations that leave the cache alone\<close>

lemmas live_ok_defs = live_ok_def live_shape_def live_core_def live_back_def

text \<open>The fields the invariant does not mention.\<close>

lemma live_ok_frame [simp]:
  shows "live_ok (L\<lparr>lv_active := x0\<rparr>) = live_ok L"
    and "live_ok (L\<lparr>lv_aborted := x1\<rparr>) = live_ok L"
    and "live_ok (L\<lparr>lv_refs := x2\<rparr>) = live_ok L"
    and "live_ok (L\<lparr>lv_free_pending := x3\<rparr>) = live_ok L"
    and "live_ok (L\<lparr>lv_has_seek_fn := x4\<rparr>) = live_ok L"
    and "live_ok (L\<lparr>lv_timeout_sec := x5\<rparr>) = live_ok L"
    and "live_ok (L\<lparr>lv_slots_cfg := x6\<rparr>) = live_ok L"
    and "live_ok (L\<lparr>lv_complete := x7\<rparr>) = live_ok L"
    and "live_ok (L\<lparr>lv_served := x8\<rparr>) = live_ok L"
    and "live_ok (L\<lparr>lv_tick := x9\<rparr>) = live_ok L"
    and "live_ok (L\<lparr>lv_cache_log := x10\<rparr>) = live_ok L"
    and "live_ok (L\<lparr>lv_present_count := x11\<rparr>) = live_ok L"
    and "live_ok (L\<lparr>lv_slots := x12\<rparr>) = live_ok L"
  by (simp_all add: live_ok_defs)

lemma live_inv_init: "live_inv live_init"
  by (simp add: live_inv_def live_init_def)

lemma set_timeout_inv: "live_inv L \<Longrightarrow> live_inv (ws_live_set_timeout_sec L n)"
  by (simp add: live_inv_def ws_live_set_timeout_sec_def)

lemma set_slots_inv: "live_inv L \<Longrightarrow> live_inv (ws_live_set_slots L n)"
  by (simp add: live_inv_def ws_live_set_slots_def)

lemma set_seek_inv: "live_inv L \<Longrightarrow> live_inv (ws_live_set_seek_fn L b)"
  by (simp add: live_inv_def ws_live_set_seek_fn_def)

lemma abort_inv: "live_inv L \<Longrightarrow> live_inv (ws_live_abort L)"
  by (simp add: live_inv_def ws_live_abort_def)

lemma attach_inv: "live_inv L \<Longrightarrow> live_inv (fst (ws_live_attach L))"
  by (simp add: live_inv_def ws_live_attach_def)

lemma destroy_inv: "live_inv L \<Longrightarrow> live_inv (ws_live_destroy L)"
  by (simp add: live_inv_def ws_live_destroy_def free_locked_def Let_def)

lemma detach_inv:
  assumes "live_inv L" and "lv_active L \<Longrightarrow> \<not> lv_free_pending L"
  shows "live_inv (ws_live_detach L)"
  using assms by (cases "lv_active L") (simp_all add: live_inv_def ws_live_detach_def free_locked_def Let_def)

lemma clamp_slots_range: "n \<le> 4096 \<Longrightarrow> 4 \<le> clamp_slots n k \<and> clamp_slots n k \<le> 4096"
  by (auto simp: clamp_slots_def Let_def)

lemma default_slots_le: "lv_slots_cfg L \<le> 4096 \<Longrightarrow> default_slots L env \<le> 4096"
  by (auto simp: default_slots_def split: option.split)

lemma create_slots_range:
  "lv_slots_cfg L \<le> 4096 \<Longrightarrow> 4 \<le> create_slots L env ring k \<and> create_slots L env ring k \<le> 4096"
  unfolding create_slots_def by (rule clamp_slots_range) (simp add: default_slots_le)

lemma create_inv:
  assumes "live_inv L" and "lv_slots_cfg L \<le> 4096" and "total_size \<le> LIVE_MAX"
    and "ws_live_create L env ok new_id fname total_size ring sid_max = (L', rc, out)"
  shows "live_inv L'"
proof (cases "L' = L")
  case True
  with assms(1) show ?thesis by simp
next
  case False
  define k where "k = create_slots L env ring (seg_count total_size)"
  have pos: "0 < total_size" and L': "L' = L\<lparr>lv_session_id := c_trunc 64 new_id, lv_filename := c_trunc 256 (base_name fname),
      lv_total := total_size, lv_nsegs := seg_count total_size, lv_present := replicate (max 1 (seg_count total_size)) False,
      lv_slot_of := replicate (max 1 (seg_count total_size)) (- 1), lv_slots := (\<lambda>_. 0), lv_nslots := k,
      lv_last_use := replicate k 0, lv_slot_seg := replicate k (- 1), lv_slot_read := replicate k False,
      lv_waiters := replicate (max 1 (seg_count total_size)) 0, lv_acked_ever := replicate (max 1 (seg_count total_size)) False,
      lv_seek_sent := replicate (max 1 (seg_count total_size)) 0, lv_present_count := 0, lv_served := 0, lv_run_hi := 0,
      lv_peak_seg := 0, lv_complete := False, lv_aborted := False, lv_refs := 0, lv_free_pending := False,
      lv_active := True\<rparr>"
    using assms(4) False unfolding ws_live_create_def Let_def k_def
    by (auto split: if_splits)
  have n: "seg_count total_size = (total_size + SEG - 1) div SEG" "0 < seg_count total_size"
    using seg_count_eq [OF assms(3) pos] pos by (auto simp: SEG_def)
  have "4 \<le> k" "k \<le> 4096" using create_slots_range [OF assms(2)] by (auto simp: k_def)
  then have "live_ok L'"
    using n pos assms(3) by (simp add: L' live_ok_defs)
  then show ?thesis by (simp add: live_inv_def L')
qed

section \<open>The slot found\<close>

text \<open>
  The four outcomes of alloc_slot_locked: the segment is resident, a slot is free, the least
  recently used evictable segment gives its slot, or nothing can be evicted.
\<close>

lemma alloc_cases:
  assumes ok: "live_ok L" and seg: "seg < lv_nsegs L"
  obtains (resident) i where "alloc_slot_locked L seg = (L, int i)" "lv_slot_of L ! seg = int i"
      "i < lv_nslots L" "lv_slot_seg L ! i = int seg"
  | (free) i where "alloc_slot_locked L seg = (bind_slot L seg i, int i)" "lv_slot_of L ! seg = - 1"
      "i < lv_nslots L" "lv_slot_seg L ! i < 0"
  | (evict) i v where "alloc_slot_locked L seg = (bind_slot (evict_seg L v) seg i, int i)"
      "lv_slot_of L ! seg = - 1" "i < lv_nslots L" "lv_slot_of L ! v = int i" "1 \<le> v"
      "v < lv_nsegs L" "v \<noteq> seg" "live_evictable L seg v"
      "\<And>s. 1 \<le> s \<Longrightarrow> s < lv_nsegs L \<Longrightarrow> live_evictable L seg s \<Longrightarrow>
         lv_last_use L ! i \<le> lv_last_use L ! nat (lv_slot_of L ! s)"
      "\<And>j. j < lv_nslots L \<Longrightarrow> 0 \<le> lv_slot_seg L ! j"
  | (busy) "alloc_slot_locked L seg = (L, - 1)" "lv_slot_of L ! seg = - 1"
      "\<And>s. 1 \<le> s \<Longrightarrow> s < lv_nsegs L \<Longrightarrow> \<not> live_evictable L seg s"
      "\<And>j. j < lv_nslots L \<Longrightarrow> 0 \<le> lv_slot_seg L ! j"
proof -
  have core: "live_core L" and shape: "live_shape L" using ok by (auto simp: live_ok_def)
  show thesis
  proof (cases "0 \<le> lv_slot_of L ! seg")
    case True
    then have "lv_slot_of L ! seg = int (nat (lv_slot_of L ! seg))" by simp
    then show thesis
      using resident [of "nat (lv_slot_of L ! seg)"] live_coreD(3,4) [OF core seg] True seg
      by (simp add: alloc_slot_locked_def)
  next
    case False
    then have neg: "lv_slot_of L ! seg = - 1" using live_coreD(2) [OF core seg] by simp
    show thesis
    proof (cases "free_slot (lv_slot_seg L) [0..<lv_nslots L]")
      case (Some i)
      from free_slot_Some [OF Some] show thesis
        using Some neg free [of i] by (simp add: alloc_slot_locked_def)
    next
      case None
      then have full: "\<And>j. j < lv_nslots L \<Longrightarrow> 0 \<le> lv_slot_seg L ! j"
        by (simp add: free_slot_None)
      show thesis
      proof (cases "victim_scan L seg [1..<lv_nsegs L] None")
        case vnone: None
        then have "\<And>s. 1 \<le> s \<Longrightarrow> s < lv_nsegs L \<Longrightarrow> \<not> live_evictable L seg s"
          by (simp add: victim_scan_None)
        then show thesis using None vnone neg full busy by (simp add: alloc_slot_locked_def)
      next
        case (Some p)
        obtain t w where p: "p = (t, w)" by (cases p)
        have sc: "victim_scan L seg [1..<lv_nsegs L] None = Some (t, w)" using Some p by simp
        from victim_scan_Some [OF sc, of "{}"]
        obtain v where v: "1 \<le> v" "v < lv_nsegs L" and w: "w = i32 v"
          and ev: "live_evictable L seg v" and t: "t = lv_last_use L ! nat (lv_slot_of L ! v)"
          by auto
        have "v < 2 ^ 31" using v nsegs_bound [OF shape] by linarith
        then have wv: "w = int v" using w by (simp add: i32_small)
        have sl: "0 \<le> lv_slot_of L ! v" using ev by (simp add: live_evictable_def)
        have "v \<noteq> seg" using ev neg by (auto simp: live_evictable_def)
        moreover have "\<And>s. 1 \<le> s \<Longrightarrow> s < lv_nsegs L \<Longrightarrow> live_evictable L seg s \<Longrightarrow>
            t \<le> lv_last_use L ! nat (lv_slot_of L ! s)"
          using victim_scan_least [OF sc] by auto
        ultimately show thesis
          using None sc neg full v ev t sl wv live_coreD(3) [OF core v(2) sl]
            evict [where i = "nat (lv_slot_of L ! v)" and v = v]
          by (simp add: alloc_slot_locked_def)
      qed
    qed
  qed
qed

section \<open>The states a store passes through\<close>

text \<open>
  put_seg: segment seg takes slot i with n bytes of the message; renew_seg: a resident
  segment is overwritten in its slot. A successful store ends in one of the two.
\<close>

definition put_seg :: "live \<Rightarrow> nat \<Rightarrow> nat \<Rightarrow> mem \<Rightarrow> nat \<Rightarrow> nat \<Rightarrow> nat \<times> nat \<times> nat \<Rightarrow> live" where
  "put_seg L seg i data src n c = L\<lparr>
     lv_slot_of := (lv_slot_of L)[seg := int i], lv_slot_seg := (lv_slot_seg L)[i := int seg],
     lv_cache_log := c # lv_cache_log L, lv_slot_read := (lv_slot_read L)[i := False],
     lv_slots := memcpy (lv_slots L) (i * SEG) data src n,
     lv_present := (lv_present L)[seg := True], lv_present_count := Suc (lv_present_count L),
     lv_acked_ever := (lv_acked_ever L)[seg := True], lv_tick := Suc (lv_tick L),
     lv_last_use := (lv_last_use L)[i := Suc (lv_tick L)]\<rparr>"

definition renew_seg :: "live \<Rightarrow> nat \<Rightarrow> nat \<Rightarrow> mem \<Rightarrow> nat \<Rightarrow> nat \<Rightarrow> nat \<times> nat \<times> nat \<Rightarrow> live" where
  "renew_seg L seg i data src n c = L\<lparr>
     lv_cache_log := c # lv_cache_log L,
     lv_slots := memcpy (lv_slots L) (i * SEG) data src n,
     lv_acked_ever := (lv_acked_ever L)[seg := True], lv_tick := Suc (lv_tick L),
     lv_last_use := (lv_last_use L)[i := Suc (lv_tick L)]\<rparr>"

text \<open>A state ready to give slot i to segment seg: nobody uses the slot.\<close>

definition slot_ready :: "live \<Rightarrow> nat \<Rightarrow> nat \<Rightarrow> bool" where
  "slot_ready L seg i =
     (live_shape L \<and> live_core L \<and> live_back L {i} \<and> seg < lv_nsegs L \<and> i < lv_nslots L \<and>
      lv_slot_of L ! seg = - 1 \<and> (\<forall>s < lv_nsegs L. lv_slot_of L ! s \<noteq> int i))"

lemma free_slot_ready:
  assumes "live_ok L" "seg < lv_nsegs L" "lv_slot_of L ! seg = - 1" "i < lv_nslots L"
    and "lv_slot_seg L ! i < 0"
  shows "slot_ready L seg i"
proof -
  have core: "live_core L" using assms(1) by (simp add: live_ok_def)
  have "lv_slot_of L ! s \<noteq> int i" if "s < lv_nsegs L" for s
    using live_coreD(4) [OF core that] assms(5) by auto
  then show ?thesis using assms by (simp add: slot_ready_def live_ok_def live_back_def)
qed

lemma evict_slot_ready:
  assumes ok: "live_ok L" and seg: "seg < lv_nsegs L" "lv_slot_of L ! seg = - 1"
    and i: "i < lv_nslots L" "lv_slot_of L ! v = int i" and v: "v < lv_nsegs L" "v \<noteq> seg"
  shows "slot_ready (evict_seg L v) seg i"
proof -
  let ?E = "evict_seg L v"
  have core: "live_core L" and shape: "live_shape L" and bk: "live_back L {}"
    using ok by (auto simp: live_ok_def)
  have iv: "lv_slot_seg L ! i = int v" using live_coreD(4) [OF core v(1)] i(2) by simp
  have other: "lv_slot_of L ! s \<noteq> int i" if "s < lv_nsegs L" "s \<noteq> v" for s
    using live_coreD(4) [OF core that(1)] iv that(2) by auto
  have f: "lv_nsegs ?E = lv_nsegs L" "lv_nslots ?E = lv_nslots L" "lv_slot_seg ?E = lv_slot_seg L"
    "lv_slot_of ?E = (lv_slot_of L)[v := - 1]" "lv_present ?E = (lv_present L)[v := False]"
    "lv_acked_ever ?E = lv_acked_ever L"
    by (simp_all add: evict_seg_def Let_def)
  have len: "length (lv_slot_of L) = lv_nsegs L" "length (lv_present L) = lv_nsegs L"
    using shape by (simp_all add: live_shape_def)
  have "live_shape ?E" using shape unfolding live_shape_def by (simp add: evict_seg_def Let_def)
  moreover have "live_core ?E"
    unfolding live_core_def f using live_coreD [OF core] len v(1)
    by (auto simp: nth_list_update)
  moreover have "live_back ?E {i}"
  proof -
    have "nat (lv_slot_seg L ! j) \<noteq> v" if "j < lv_nslots L" "j \<noteq> i" "0 \<le> lv_slot_seg L ! j" for j
      using bk that i by (auto simp: live_back_def)
    then show ?thesis using bk len v(1) unfolding live_back_def f by (auto simp: nth_list_update)
  qed
  ultimately show ?thesis
    using seg i v len other unfolding slot_ready_def f by (simp add: nth_list_update)
qed

lemma put_seg_ok:
  assumes "slot_ready L seg i"
  shows "live_ok (put_seg L seg i data src n c)"
proof -
  let ?P = "put_seg L seg i data src n c"
  have shape: "live_shape L" and core: "live_core L" and bk: "live_back L {i}"
    and seg: "seg < lv_nsegs L" "lv_slot_of L ! seg = - 1" and i: "i < lv_nslots L"
    and free: "\<And>s. s < lv_nsegs L \<Longrightarrow> lv_slot_of L ! s \<noteq> int i"
    using assms by (auto simp: slot_ready_def)
  have f: "lv_nsegs ?P = lv_nsegs L" "lv_nslots ?P = lv_nslots L"
    "lv_slot_seg ?P = (lv_slot_seg L)[i := int seg]"
    "lv_slot_of ?P = (lv_slot_of L)[seg := int i]" "lv_present ?P = (lv_present L)[seg := True]"
    "lv_acked_ever ?P = (lv_acked_ever L)[seg := True]"
    by (simp_all add: put_seg_def)
  have len: "length (lv_slot_of L) = lv_nsegs L" "length (lv_present L) = lv_nsegs L"
    "length (lv_acked_ever L) = lv_nsegs L" "length (lv_slot_seg L) = lv_nslots L"
    using shape by (simp_all add: live_shape_def)
  have "live_shape ?P" using shape unfolding live_shape_def by (simp add: put_seg_def)
  moreover have "live_core ?P"
  proof -
    have "nat (lv_slot_of L ! s) \<noteq> i" if "s < lv_nsegs L" "0 \<le> lv_slot_of L ! s" for s
      using free [OF that(1)] that(2) by auto
    then show ?thesis
      unfolding live_core_def f using live_coreD [OF core] len seg(1) i
      by (auto simp: nth_list_update)
  qed
  moreover have "live_back ?P {}"
  proof -
    have "nat (lv_slot_seg L ! j) \<noteq> seg" if "j < lv_nslots L" "j \<noteq> i" "0 \<le> lv_slot_seg L ! j" for j
      using bk that seg by (auto simp: live_back_def)
    then show ?thesis using bk len seg i unfolding live_back_def f by (auto simp: nth_list_update)
  qed
  ultimately show ?thesis by (simp add: live_ok_def)
qed

lemma renew_seg_ok:
  assumes "live_ok L" "seg < lv_nsegs L"
  shows "live_ok (renew_seg L seg i data src n c)"
proof -
  let ?R = "renew_seg L seg i data src n c"
  have f: "lv_nsegs ?R = lv_nsegs L" "lv_nslots ?R = lv_nslots L" "lv_slot_seg ?R = lv_slot_seg L"
    "lv_slot_of ?R = lv_slot_of L" "lv_present ?R = lv_present L"
    "lv_acked_ever ?R = (lv_acked_ever L)[seg := True]"
    by (simp_all add: renew_seg_def)
  have shape: "live_shape L" and core: "live_core L" and bk: "live_back L {}"
    using assms(1) by (auto simp: live_ok_def)
  have "length (lv_acked_ever L) = lv_nsegs L" using shape by (simp add: live_shape_def)
  then have "live_core ?R"
    unfolding live_core_def f using live_coreD [OF core] assms(2) by (simp add: nth_list_update)
  moreover have "live_shape ?R" using shape unfolding live_shape_def by (simp add: renew_seg_def)
  moreover have "live_back ?R {}" using bk unfolding live_back_def f .
  ultimately show ?thesis by (simp add: live_ok_def)
qed

section \<open>What store_seg_locked does\<close>

text \<open>
  The message reaches exactly over the segment: this is what the two comparisons of
  store_seg_locked amount to, for every offset and length below 2^64.
\<close>

definition covers :: "live \<Rightarrow> nat \<Rightarrow> nat \<Rightarrow> nat \<Rightarrow> bool" where
  "covers L seg offset len =
     (seg < lv_nsegs L \<and> offset \<le> seg * SEG \<and>
      seg * SEG + seg_len_locked L seg \<le> offset + len \<and> offset + len < 2 ^ 64)"

text \<open>The slot search reduced to what a store needs from it.\<close>

lemma alloc_ready:
  assumes ok: "live_ok L" and seg: "seg < lv_nsegs L"
  obtains (resident) i where "alloc_slot_locked L seg = (L, int i)" "lv_slot_of L ! seg = int i"
      "i < lv_nslots L"
  | (place) L0 i where "alloc_slot_locked L seg = (bind_slot L0 seg i, int i)" "slot_ready L0 seg i"
      "lv_slot_of L ! seg = - 1" "L0 = L \<or> (\<exists>v. L0 = evict_seg L v \<and> lv_slot_of L ! v = int i \<and>
         1 \<le> v \<and> v < lv_nsegs L \<and> v \<noteq> seg \<and> live_evictable L seg v)"
  | (busy) "alloc_slot_locked L seg = (L, - 1)" "lv_slot_of L ! seg = - 1"
proof (cases rule: alloc_cases [OF ok seg])
  case (1 i)
  then show ?thesis using that(1) by blast
next
  case (2 i)
  then show ?thesis using that(2) [of L i] free_slot_ready [OF ok seg] by simp
next
  case (3 i v)
  then show ?thesis
    using that(2) [of "evict_seg L v" i] evict_slot_ready [OF ok seg] by auto
next
  case 4
  then show ?thesis using that(3) by simp
qed

text \<open>A covering message: the arithmetic of store_seg_locked is done, the slot search is left.\<close>

lemma store_seg_covering:
  assumes ok: "live_ok L" and cov: "covers L seg offset len"
  shows "store_seg_locked L seg data offset len =
    (case alloc_slot_locked L seg of (L1, slot) \<Rightarrow>
       if slot < 0 then (L1, Busy)
       else if lv_nslots L1 \<le> nat slot then (L1, OutOfBounds)
       else let n = seg_len_locked L seg; res = lv_present L ! seg; i = nat slot;
                L2 = L1\<lparr>lv_cache_log := (if res then n else 0,
                          if lv_acked_ever L ! seg \<and> \<not> res then n else 0, 0) # lv_cache_log L1,
                        lv_slot_read := (if res then lv_slot_read L1 else (lv_slot_read L1)[i := False]),
                        lv_slots := memcpy (lv_slots L1) (i * SEG) data (seg * SEG - offset) n\<rparr>;
                L3 = (if \<not> lv_present L2 ! seg
                      then L2\<lparr>lv_present := (lv_present L2)[seg := True],
                              lv_present_count := Suc (lv_present_count L2)\<rparr>
                      else L2)
            in (L3\<lparr>lv_acked_ever := (lv_acked_ever L3)[seg := True], lv_tick := Suc (lv_tick L3),
                    lv_last_use := (lv_last_use L3)[i := Suc (lv_tick L3)]\<rparr>, Stored i))"
proof -
  have shape: "live_shape L" using ok by (auto simp: live_ok_def)
  have seg: "seg < lv_nsegs L" using cov by (simp add: covers_def)
  have len: "length (lv_present L) = lv_nsegs L" using shape by (simp add: live_shape_def)
  have c: "offset \<le> seg * SEG" "seg * SEG + seg_len_locked L seg \<le> offset + len" "offset + len < 2 ^ 64"
    using cov by (auto simp: covers_def)
  have m: "u64_mul seg SEG = seg * SEG" "u64_add offset len = offset + len"
    "u64_add (seg * SEG) (seg_len_locked L seg) = seg * SEG + seg_len_locked L seg"
    using c by (auto intro!: u64_mul_small u64_add_small)
  have ws: "(if offset > seg * SEG then offset else seg * SEG) = seg * SEG" using c(1) by simp
  have we: "(if offset + len < seg * SEG + seg_len_locked L seg then offset + len
      else seg * SEG + seg_len_locked L seg) = seg * SEG + seg_len_locked L seg"
    using c(2) by simp
  have n: "\<not> seg * SEG + seg_len_locked L seg \<le> seg * SEG" using seg_len_pos [OF shape seg] by simp
  have b: "\<not> length (lv_present L) \<le> seg" using len seg by simp
  show ?thesis
    unfolding store_seg_locked_def Let_def m ws we if_not_P [OF n] if_not_P [OF b]
    by (simp split: prod.split)
qed

lemma store_seg_resident:
  assumes ok: "live_ok L" and al: "alloc_slot_locked L seg = (L, int i)" and i: "i < lv_nslots L"
    and cov: "covers L seg offset len" and own: "lv_slot_of L ! seg = int i"
  shows "store_seg_locked L seg data offset len =
    (renew_seg L seg i data (seg * SEG - offset) (seg_len_locked L seg) (seg_len_locked L seg, 0, 0), Stored i)"
proof -
  have core: "live_core L" using ok by (auto simp: live_ok_def)
  have "seg < lv_nsegs L" using cov by (simp add: covers_def)
  then have "lv_present L ! seg" using live_coreD(1) [OF core] own by simp
  then show ?thesis
    using i unfolding store_seg_covering [OF ok cov] al by (simp add: Let_def renew_seg_def)
qed

lemma store_seg_place:
  assumes ok: "live_ok L" and al: "alloc_slot_locked L seg = (bind_slot L0 seg i, int i)"
    and ready: "slot_ready L0 seg i" and own: "lv_slot_of L ! seg = - 1"
    and L0: "L0 = L \<or> (\<exists>v. L0 = evict_seg L v \<and> v \<noteq> seg)"
    and cov: "covers L seg offset len"
  shows "\<exists>c. store_seg_locked L seg data offset len =
    (put_seg L0 seg i data (seg * SEG - offset) (seg_len_locked L seg) c, Stored i)"
proof -
  have shape: "live_shape L" and core: "live_core L" using ok by (auto simp: live_ok_def)
  have seg: "seg < lv_nsegs L" and seg0: "seg < lv_nsegs L0" and i: "i < lv_nslots L0"
    using cov ready by (simp_all add: covers_def slot_ready_def)
  have sl: "i32 seg = int seg"
    using seg nsegs_bound [OF shape] by (simp add: i32_small)
  have pres: "\<not> lv_present L ! seg" "\<not> lv_present L0 ! seg"
    using live_coreD(1) [OF core seg] own L0 by (auto simp: evict_seg_def Let_def)
  have bd: "bind_slot L0 seg i = L0\<lparr>lv_slot_of := (lv_slot_of L0)[seg := int i],
      lv_slot_seg := (lv_slot_seg L0)[i := int seg]\<rparr>"
    using seg0 by (simp add: bind_slot_def sl)
  show ?thesis
    using i pres unfolding store_seg_covering [OF ok cov] al bd
    by (intro exI) (simp add: Let_def put_seg_def)
qed

lemma store_seg_not_covering:
  assumes ok: "live_ok L" and seg: "seg < 2 ^ 44" and off: "offset < 2 ^ 64" "len < 2 ^ 64"
    and nc: "\<not> covers L seg offset len"
  shows "store_seg_locked L seg data offset len \<in> {(L, NoOverlap), (L, ProtoErr)}"
proof -
  have shape: "live_shape L" using ok by (simp add: live_ok_def)
  let ?st = "seg * SEG" and ?n = "seg_len_locked L seg" and ?e = "u64_add offset len"
  have lt: "?st < 2 ^ 64" using seg by (simp add: SEG_def)
  show ?thesis
  proof (cases "seg < lv_nsegs L")
    case False
    then have "?n = 0" using seg_len_beyond [OF shape] seg by simp
    then show ?thesis using lt
      by (simp add: store_seg_locked_def Let_def u64_mul_small u64_add_0_right)
  next
    case True
    have end64: "?st + ?n < 2 ^ 64"
      using seg_end_le [OF shape True] shape by (simp add: live_shape_def LIVE_MAX_def)
    let ?ws = "max offset ?st" and ?we = "min ?e (?st + ?n)"
    have "?we \<le> ?ws \<or> ?we - ?ws \<noteq> ?n"
    proof (rule ccontr)
      assume "\<not> ?thesis"
      then have a: "offset \<le> ?st" "?st + ?n \<le> ?e" "0 < ?n" by (auto split: if_splits)
      have "offset + len < 2 ^ 64"
        using u64_add_wrapped(2) [OF off] a by (cases "offset + len < 2 ^ 64") auto
      then show False using nc True a by (simp add: covers_def u64_add_small)
    qed
    then show ?thesis using lt end64
      by (auto simp: store_seg_locked_def Let_def u64_mul_small u64_add_small max_def min_def split: if_splits)
  qed
qed

text \<open>The outcomes of a store, for every message a caller can pass.\<close>

lemma store_seg_cases:
  assumes ok: "live_ok L" and seg: "seg < 2 ^ 44" and off: "offset < 2 ^ 64" "len < 2 ^ 64"
    and st: "store_seg_locked L seg data offset len = (L', r)"
  obtains (nothing) "L' = L" "r \<in> {NoOverlap, ProtoErr}" "\<not> covers L seg offset len"
  | (busy) "L' = L" "r = Busy" "covers L seg offset len" "alloc_slot_locked L seg = (L, - 1)"
  | (renew) i c where "r = Stored i" "covers L seg offset len" "i < lv_nslots L"
      "lv_slot_of L ! seg = int i"
      "L' = renew_seg L seg i data (seg * SEG - offset) (seg_len_locked L seg) c"
  | (put) L0 i c where "r = Stored i" "covers L seg offset len" "slot_ready L0 seg i"
      "lv_slot_of L ! seg = - 1"
      "L0 = L \<or> (\<exists>v. L0 = evict_seg L v \<and> lv_slot_of L ! v = int i \<and> 1 \<le> v \<and>
         v < lv_nsegs L \<and> v \<noteq> seg \<and> live_evictable L seg v)"
      "L' = put_seg L0 seg i data (seg * SEG - offset) (seg_len_locked L seg) c"
proof (cases "covers L seg offset len")
  case False
  have "L' = L" "r \<in> {NoOverlap, ProtoErr}"
    using store_seg_not_covering [OF ok seg off False, of data] st by auto
  then show thesis using False by (rule nothing)
next
  case True
  then have s: "seg < lv_nsegs L" by (simp add: covers_def)
  show thesis
  proof (cases rule: alloc_ready [OF ok s])
    case res: (1 i)
    from store_seg_resident [OF ok res(1,3) True res(2), of data] st
    show thesis using renew True res by auto
  next
    case place: (2 L0 i)
    have L0: "L0 = L \<or> (\<exists>v. L0 = evict_seg L v \<and> v \<noteq> seg)" using place(4) by blast
    from store_seg_place [OF ok place(1,2,3) L0 True, of data] st
    obtain c where "L' = put_seg L0 seg i data (seg * SEG - offset) (seg_len_locked L seg) c" "r = Stored i"
      by auto
    with True place show thesis using put [of i L0 c] by blast
  next
    case b: 3
    have "store_seg_locked L seg data offset len = (L, Busy)"
      unfolding store_seg_covering [OF ok True] b(1) by simp
    with st show thesis using busy True b by auto
  qed
qed

section \<open>What a store keeps\<close>

definition live_same_session :: "live \<Rightarrow> live \<Rightarrow> bool" where
  "live_same_session L L' =
     (lv_active L' = lv_active L \<and> lv_aborted L' = lv_aborted L \<and> lv_complete L' = lv_complete L \<and>
      lv_refs L' = lv_refs L \<and> lv_free_pending L' = lv_free_pending L \<and>
      lv_session_id L' = lv_session_id L \<and> lv_filename L' = lv_filename L \<and>
      lv_total L' = lv_total L \<and> lv_nsegs L' = lv_nsegs L \<and> lv_nslots L' = lv_nslots L \<and>
      lv_slots_cfg L' = lv_slots_cfg L)"

lemma same_session_refl [simp]: "live_same_session L L"
  by (simp add: live_same_session_def)

lemma same_session_trans:
  "live_same_session L M \<Longrightarrow> live_same_session M N \<Longrightarrow> live_same_session L N"
  by (simp add: live_same_session_def)

lemma same_session_seg_len: "live_same_session L M \<Longrightarrow> seg_len_locked M s = seg_len_locked L s"
  by (simp add: live_same_session_def seg_len_locked_def Let_def)

text \<open>Fields only readers change.\<close>

definition live_same_reads :: "live \<Rightarrow> live \<Rightarrow> bool" where
  "live_same_reads L L' =
     (lv_waiters L' = lv_waiters L \<and> lv_run_hi L' = lv_run_hi L \<and> lv_peak_seg L' = lv_peak_seg L \<and>
      lv_seek_sent L' = lv_seek_sent L \<and> lv_served L' = lv_served L)"

lemma put_seg_same: "live_same_session L (put_seg L seg i d o' n c)" "live_same_reads L (put_seg L seg i d o' n c)"
  by (simp_all add: live_same_session_def live_same_reads_def put_seg_def)

lemma renew_seg_same: "live_same_session L (renew_seg L seg i d o' n c)" "live_same_reads L (renew_seg L seg i d o' n c)"
  by (simp_all add: live_same_session_def live_same_reads_def renew_seg_def)

lemma evict_seg_same: "live_same_session L (evict_seg L v)" "live_same_reads L (evict_seg L v)"
  by (simp_all add: live_same_session_def live_same_reads_def evict_seg_def Let_def)

lemma evict_seg_content:
  assumes "live_shape L" and "v < lv_nsegs L" and "live_content L F"
  shows "live_content (evict_seg L v) F"
proof -
  let ?E = "evict_seg L v"
  have f: "lv_nsegs ?E = lv_nsegs L" "lv_slots ?E = lv_slots L"
    "lv_slot_of ?E = (lv_slot_of L)[v := - 1]" "lv_present ?E = (lv_present L)[v := False]"
    "\<And>s. seg_len_locked ?E s = seg_len_locked L s"
    using same_session_seg_len [OF evict_seg_same(1)] by (simp_all add: evict_seg_def Let_def)
  show ?thesis
    using assms unfolding live_content_def f by (auto simp: live_shape_def nth_list_update)
qed

lemma put_seg_content:
  assumes ready: "slot_ready L seg i" and n: "n = seg_len_locked L seg"
    and cont: "live_content L F"
    and data: "\<And>k. k < n \<Longrightarrow> data (src + k) = F (seg * SEG + k)"
  shows "live_content (put_seg L seg i data src n c) F"
  unfolding live_content_def
proof (intro allI impI)
  let ?P = "put_seg L seg i data src n c"
  fix s k
  assume s: "s < lv_nsegs ?P" and pres: "lv_present ?P ! s" and k: "k < seg_len_locked ?P s"
  have shape: "live_shape L" and core: "live_core L" and seg: "seg < lv_nsegs L"
    and free: "\<And>t. t < lv_nsegs L \<Longrightarrow> lv_slot_of L ! t \<noteq> int i"
    using ready by (auto simp: slot_ready_def)
  have s': "s < lv_nsegs L" using s by (simp add: put_seg_def)
  have len: "length (lv_slot_of L) = lv_nsegs L" "length (lv_present L) = lv_nsegs L"
    using shape by (simp_all add: live_shape_def)
  have k': "k < seg_len_locked L s" using k same_session_seg_len [OF put_seg_same(1)] by simp
  then have kS: "k < SEG" using seg_len_le [of L s] by simp
  have nS: "n \<le> SEG" using n seg_len_le by simp
  show "lv_slots ?P (nat (lv_slot_of ?P ! s) * SEG + k) = F (s * SEG + k)"
  proof (cases "s = seg")
    case True
    then show ?thesis using k' n len seg data [of k] by (simp add: put_seg_def mem_simps)
  next
    case False
    then have ps: "lv_present L ! s" using pres len s' by (simp add: put_seg_def)
    let ?j = "nat (lv_slot_of L ! s)"
    have "0 \<le> lv_slot_of L ! s" using live_coreD(1) [OF core s'] ps by simp
    then have ji: "?j \<noteq> i" using free [OF s'] by auto
    have "?j * SEG + k < i * SEG \<or> i * SEG + n \<le> ?j * SEG + k"
      by (rule slot_regions_apart [OF ji kS nS])
    then have "lv_slots ?P (?j * SEG + k) = lv_slots L (?j * SEG + k)"
      by (simp add: put_seg_def mem_simps)
    moreover have "lv_slot_of ?P ! s = lv_slot_of L ! s"
      using False len s' by (simp add: put_seg_def)
    ultimately show ?thesis using cont s' ps k' by (simp add: live_content_def)
  qed
qed

lemma renew_seg_content:
  assumes ok: "live_ok L" and seg: "seg < lv_nsegs L" and i: "lv_slot_of L ! seg = int i"
    and n: "n = seg_len_locked L seg" and cont: "live_content L F"
    and data: "\<And>k. k < n \<Longrightarrow> data (src + k) = F (seg * SEG + k)"
  shows "live_content (renew_seg L seg i data src n c) F"
  unfolding live_content_def
proof (intro allI impI)
  let ?P = "renew_seg L seg i data src n c"
  fix s k
  assume s: "s < lv_nsegs ?P" and pres: "lv_present ?P ! s" and k: "k < seg_len_locked ?P s"
  have core: "live_core L" using ok by (simp add: live_ok_def)
  have s': "s < lv_nsegs L" and ps: "lv_present L ! s" and k': "k < seg_len_locked L s"
    using s pres k same_session_seg_len [OF renew_seg_same(1)] by (simp_all add: renew_seg_def)
  then have kS: "k < SEG" using seg_len_le [of L s] by simp
  have nS: "n \<le> SEG" using n seg_len_le by simp
  have so: "0 \<le> lv_slot_of L ! s" using live_coreD(1) [OF core s'] ps by simp
  let ?j = "nat (lv_slot_of L ! s)"
  show "lv_slots ?P (nat (lv_slot_of ?P ! s) * SEG + k) = F (s * SEG + k)"
  proof (cases "s = seg")
    case True
    then show ?thesis using k' n i data [of k] by (simp add: renew_seg_def mem_simps)
  next
    case False
    have "?j \<noteq> i"
    proof
      assume "?j = i"
      then have "lv_slot_of L ! s = lv_slot_of L ! seg" using so i by simp
      with slot_of_inj [OF core s' seg so] False show False by simp
    qed
    have "?j * SEG + k < i * SEG \<or> i * SEG + n \<le> ?j * SEG + k"
      by (rule slot_regions_apart [OF \<open>?j \<noteq> i\<close> kS nS])
    then have "lv_slots ?P (?j * SEG + k) = lv_slots L (?j * SEG + k)"
      by (simp add: renew_seg_def mem_simps)
    then show ?thesis using cont s' ps k' by (simp add: live_content_def renew_seg_def)
  qed
qed

section \<open>Summary of a store\<close>

text \<open>What every caller uses of store_seg_locked.\<close>

lemma store_seg_ok:
  assumes ok: "live_ok L" and seg: "seg < 2 ^ 44" and off: "offset < 2 ^ 64" "len < 2 ^ 64"
    and st: "store_seg_locked L seg data offset len = (L', r)"
  shows "live_ok L' \<and> live_same_session L L' \<and> live_same_reads L L' \<and> r \<noteq> OutOfBounds"
proof (cases rule: store_seg_cases [OF ok seg off st])
  case 1
  then show ?thesis using ok by (auto simp: live_same_reads_def)
next
  case 2
  then show ?thesis using ok by (auto simp: live_same_reads_def)
next
  case (3 i c)
  then show ?thesis
    using renew_seg_ok [OF ok] renew_seg_same [of L] by (simp add: covers_def)
next
  case (4 L0 i c)
  have "live_same_session L L0 \<and> live_same_reads L L0"
    using 4(5) evict_seg_same by (auto simp: live_same_reads_def)
  then show ?thesis
    using 4 put_seg_ok [OF 4(3)] put_seg_same [of L0]
    by (auto simp: live_same_session_def live_same_reads_def)
qed

lemma covers_data:
  assumes "covers L seg offset len" and "\<And>k. k < len \<Longrightarrow> data k = F (offset + k)"
    and "k < seg_len_locked L seg"
  shows "data (seg * SEG - offset + k) = F (seg * SEG + k)"
proof -
  have c: "offset \<le> seg * SEG" "seg * SEG + seg_len_locked L seg \<le> offset + len"
    using assms(1) by (simp_all add: covers_def)
  have "seg * SEG - offset + k < len" using c assms(3) by linarith
  from assms(2) [OF this] show ?thesis using c(1) by simp
qed

lemma store_seg_content:
  assumes ok: "live_ok L" and seg: "seg < 2 ^ 44" and off: "offset < 2 ^ 64" "len < 2 ^ 64"
    and st: "store_seg_locked L seg data offset len = (L', r)" and cont: "live_content L F"
    and data: "\<And>k. k < len \<Longrightarrow> data k = F (offset + k)"
  shows "live_content L' F"
proof (cases rule: store_seg_cases [OF ok seg off st])
  case (3 i c)
  have "seg < lv_nsegs L" using 3(2) by (simp add: covers_def)
  then show ?thesis
    unfolding 3(5) using covers_data [OF 3(2), of data F] data
    by (intro renew_seg_content [OF ok _ 3(4) refl cont]) auto
next
  case (4 L0 i c)
  have shape: "live_shape L" using ok by (simp add: live_ok_def)
  have same: "seg_len_locked L seg = seg_len_locked L0 seg"
    using 4(5) same_session_seg_len [OF evict_seg_same(1)] by auto
  have cont0: "live_content L0 F" using 4(5) cont evict_seg_content [OF shape] by auto
  show ?thesis
    unfolding 4(6) using covers_data [OF 4(2), of data F] data
    by (intro put_seg_content [OF 4(3) same cont0]) auto
qed (use cont in auto)

text \<open>
  Which segments are resident and stored afterwards. The pinned header and a segment a
  reader waits for survive; a segment that is lost was evictable.
\<close>

lemma store_seg_present:
  assumes ok: "live_ok L" and seg: "seg < 2 ^ 44" and off: "offset < 2 ^ 64" "len < 2 ^ 64"
    and st: "store_seg_locked L seg data offset len = (L', r)" and s: "s < lv_nsegs L"
  shows "lv_present L ! s \<Longrightarrow> \<not> lv_present L' ! s \<Longrightarrow> s \<noteq> 0 \<and> s \<noteq> seg \<and> live_evictable L seg s"
    and "lv_present L' ! s \<Longrightarrow> lv_present L ! s \<or> s = seg"
    and "lv_acked_ever L' ! s = (lv_acked_ever L ! s \<or> (s = seg \<and> (\<exists>i. r = Stored i)))"
    and "r = Stored i \<Longrightarrow> seg < lv_nsegs L \<and> lv_present L' ! seg"
proof -
  have shape: "live_shape L" and core: "live_core L" using ok by (auto simp: live_ok_def)
  have len: "length (lv_present L) = lv_nsegs L" "length (lv_acked_ever L) = lv_nsegs L"
    using shape by (simp_all add: live_shape_def)
  have "(lv_present L ! s \<longrightarrow> \<not> lv_present L' ! s \<longrightarrow> s \<noteq> 0 \<and> s \<noteq> seg \<and> live_evictable L seg s) \<and>
    (lv_present L' ! s \<longrightarrow> lv_present L ! s \<or> s = seg) \<and>
    (lv_acked_ever L' ! s = (lv_acked_ever L ! s \<or> (s = seg \<and> (\<exists>i. r = Stored i)))) \<and>
    (r = Stored i \<longrightarrow> seg < lv_nsegs L \<and> lv_present L' ! seg)"
  proof (cases rule: store_seg_cases [OF ok seg off st])
    case (3 j c)
    have "lv_present L ! seg"
      using live_coreD(1) [OF core, of seg] 3(2,4) by (simp add: covers_def)
    then show ?thesis using 3 s len by (auto simp: renew_seg_def covers_def nth_list_update)
  next
    case (4 L0 j c)
    have a: "lv_acked_ever L0 = lv_acked_ever L"
      using 4(5) by (auto simp: evict_seg_def Let_def)
    have p: "\<exists>v. (lv_present L0 = lv_present L \<or> lv_present L0 = (lv_present L)[v := False] \<and>
        v < lv_nsegs L \<and> v \<noteq> 0 \<and> v \<noteq> seg \<and> live_evictable L seg v)"
      using 4(5) by (auto simp: evict_seg_def Let_def)
    have "lv_present L' = (lv_present L0)[seg := True]" "lv_acked_ever L' = (lv_acked_ever L)[seg := True]"
      using 4(6) a by (simp_all add: put_seg_def)
    then show ?thesis using p 4(1,2) s len
      by (auto simp: covers_def nth_list_update split: if_splits)
  qed auto
  then show "lv_present L ! s \<Longrightarrow> \<not> lv_present L' ! s \<Longrightarrow> s \<noteq> 0 \<and> s \<noteq> seg \<and> live_evictable L seg s"
    and "lv_present L' ! s \<Longrightarrow> lv_present L ! s \<or> s = seg"
    and "lv_acked_ever L' ! s = (lv_acked_ever L ! s \<or> (s = seg \<and> (\<exists>i. r = Stored i)))"
    and "r = Stored i \<Longrightarrow> seg < lv_nsegs L \<and> lv_present L' ! seg"
    by blast+
qed

end
