(* ===== verification/LiveIO.thy ===== *)
theory LiveIO
  imports LiveStore
begin

text \<open>
  Writers, readers and observers of the live session (src/src/ws_stream.c). A writer or
  reader that must wait gives the lock back: each definition below is the code run under
  one lock hold, and the places where the code waits are values of its result. The wait
  itself (tick_wait) has no effect on the state; whether it expired is an argument of the
  definition that continues after it.
\<close>

section \<open>Writers\<close>

text \<open>A returned value, or an access outside an array (undefined in C).\<close>

datatype 'a c_result = Ret 'a | UB

definition seg_range :: "nat \<Rightarrow> nat \<Rightarrow> nat list" where
  "seg_range offset len = [offset div SEG ..< Suc (u64_sub (u64_add offset len) 1 div SEG)]"

fun try_write_segs :: "live \<Rightarrow> mem \<Rightarrow> nat \<Rightarrow> nat \<Rightarrow> nat list \<Rightarrow> live \<times> int c_result" where
  "try_write_segs L data offset len [] = (L, Ret 0)"
| "try_write_segs L data offset len (s # ss) =
     (case store_seg_locked L s data offset len of
        (L', NoOverlap) \<Rightarrow> try_write_segs L' data offset len ss
      | (L', ProtoErr) \<Rightarrow> (L', Ret (- 1))
      | (L', Busy) \<Rightarrow> (L', Ret (- 2))
      | (L', Stored _) \<Rightarrow> try_write_segs L' data offset len ss
      | (L', OutOfBounds) \<Rightarrow> (L', UB))"

definition ws_live_try_write :: "live \<Rightarrow> nat \<Rightarrow> mem option \<Rightarrow> nat \<Rightarrow> live \<times> int c_result" where
  "ws_live_try_write L offset data len =
     (if data = None \<and> len > 0 then (L, Ret (- 1))
      else if \<not> lv_active L \<or> lv_aborted L then (L, Ret (- 1))
      else if len = 0 then (L, Ret 0)
      else if u64_add offset len > lv_total L \<or> offset mod SEG \<noteq> 0 then (L, Ret (- 1))
      else try_write_segs L (the data) offset len (seg_range offset len))"

text \<open>The blocking writer: done, or parked with the segments still to store.\<close>

datatype write_step = WRet int | WWait "nat list" | WUB

fun write_segs :: "live \<Rightarrow> mem \<Rightarrow> nat \<Rightarrow> nat \<Rightarrow> nat list \<Rightarrow> live \<times> write_step" where
  "write_segs L data offset len [] = (L, WRet 0)"
| "write_segs L data offset len (s # ss) =
     (if lv_aborted L then (L, WRet (- 1))
      else case store_seg_locked L s data offset len of
        (L', NoOverlap) \<Rightarrow> write_segs L' data offset len ss
      | (L', ProtoErr) \<Rightarrow> (L', WRet (- 1))
      | (L', Busy) \<Rightarrow> (L', WWait (s # ss))
      | (L', Stored _) \<Rightarrow> write_segs L' data offset len ss
      | (L', OutOfBounds) \<Rightarrow> (L', WUB))"

definition ws_live_write :: "live \<Rightarrow> nat \<Rightarrow> mem option \<Rightarrow> nat \<Rightarrow> live \<times> write_step" where
  "ws_live_write L offset data len =
     (if data = None \<and> len > 0 then (L, WRet (- 1))
      else if \<not> lv_active L \<or> lv_aborted L then (L, WRet (- 1))
      else if len = 0 then (L, WRet 0)
      else if u64_add offset len > lv_total L \<or> offset mod SEG \<noteq> 0 then (L, WRet (- 1))
      else write_segs L (the data) offset len (seg_range offset len))"

definition write_wake :: "live \<Rightarrow> nat \<Rightarrow> mem \<Rightarrow> nat \<Rightarrow> nat list \<Rightarrow> bool \<Rightarrow> live \<times> write_step" where
  "write_wake L offset data len pending expired =
     (if expired then (L, WRet (- 1)) else write_segs L data offset len pending)"

section \<open>Readers\<close>

text \<open>The locals of ws_live_read and its buffer.\<close>

record reader =
  rd_off :: nat
  rd_got :: nat
  rd_count :: nat
  rd_start :: nat     \<comment> \<open>read_start\<close>
  rd_end :: nat       \<comment> \<open>served_end\<close>
  rd_dst :: mem

text \<open>The code before the loop: the value returned at once, or the reader.\<close>

definition read_begin :: "live \<Rightarrow> nat \<Rightarrow> mem \<Rightarrow> nat \<Rightarrow> int + reader" where
  "read_begin L off buf count =
     (if count = 0 then Inl 0
      else if \<not> lv_active L then Inl (- 1)
      else if off \<ge> lv_total L then Inl 0
      else let n = (if count > lv_total L - off then lv_total L - off else count)
           in Inr \<lparr>rd_off = off, rd_got = 0, rd_count = n, rd_start = off,
                   rd_end = u64_add off n, rd_dst = buf\<rparr>)"

text \<open>The first byte of [p, e) whose segment is not resident, e when there is none.\<close>

function first_missing :: "live \<Rightarrow> nat \<Rightarrow> nat \<Rightarrow> nat" where
  "first_missing L p e =
     (if p < e then
        (let s = p div SEG in
         if s \<ge> lv_nsegs L \<or> \<not> lv_present L ! s then p
         else let s_end = min (u64_mul (s + 1) SEG) (lv_total L);
                  q = (if s_end > p then s_end else p + 1)
              in if q \<ge> e then e else first_missing L q e)
      else e)"
  by pat_completeness auto
termination
  by (relation "measure (\<lambda>(L, p, e). e - p)") (auto simp: Let_def)

declare first_missing.simps [simp del]

text \<open>
  One round of the copy loop: it stops when the segment has no slot or no bytes left, or
  copies up to the end of the segment.
\<close>

datatype copy_round = CStop | CStep live reader | CUB

definition copy_len :: "live \<Rightarrow> reader \<Rightarrow> nat" where
  "copy_len L r =
     (let s = rd_off r div SEG; so = rd_off r - s * SEG;
          m1 = min (SEG - so) (rd_count r - rd_got r); seg_left = seg_len_locked L s
      in if so + m1 > seg_left then u64_sub seg_left so else m1)"

definition copy_advance :: "live \<Rightarrow> reader \<Rightarrow> nat \<Rightarrow> nat \<Rightarrow> live \<times> reader" where
  "copy_advance L r i m =
     (L\<lparr>lv_last_use := (lv_last_use L)[i := Suc (lv_tick L)],
        lv_tick := Suc (lv_tick L),
        lv_slot_read := (lv_slot_read L)[i := True],
        lv_served := u64_add (lv_served L) m\<rparr>,
      r\<lparr>rd_dst := memcpy (rd_dst r) (rd_got r) (lv_slots L) (i * SEG + rd_off r mod SEG) m,
        rd_off := u64_add (rd_off r) m, rd_got := rd_got r + m\<rparr>)"

definition copy_seg :: "live \<Rightarrow> reader \<Rightarrow> copy_round" where
  "copy_seg L r =
     (let s = rd_off r div SEG;
          slot = (if s < lv_nsegs L then lv_slot_of L ! s else - 1);
          m = copy_len L r in
      if slot < 0 then CStop
      else if m = 0 then CStop
      else if lv_nslots L \<le> nat slot \<or> SEG < rd_off r mod SEG + m \<or> rd_count r < rd_got r + m then CUB
      else (case copy_advance L r (nat slot) m of (L', r') \<Rightarrow> CStep L' r'))"

lemma copy_seg_CStep:
  assumes "copy_seg L r = CStep L' r'"
  shows "(L', r') = copy_advance L r (nat (lv_slot_of L ! (rd_off r div SEG))) (copy_len L r) \<and>
    0 < copy_len L r \<and> rd_got r + copy_len L r \<le> rd_count r"
proof (cases "rd_off r div SEG < lv_nsegs L")
  case True
  then show ?thesis using assms by (simp add: copy_seg_def Let_def split: if_splits prod.splits)
next
  case False
  then show ?thesis using assms by (simp add: copy_seg_def Let_def)
qed

lemma copy_seg_progress:
  assumes "copy_seg L r = CStep L' r'"
  shows "rd_count r' = rd_count r \<and> rd_got r < rd_got r' \<and> rd_got r' \<le> rd_count r"
  using copy_seg_CStep [OF assms] by (simp add: copy_advance_def)

datatype copy_result = Copied live reader | CopyUB

function read_copy :: "live \<Rightarrow> reader \<Rightarrow> copy_result" where
  "read_copy L r =
     (if rd_got r < rd_count r then
        (case copy_seg L r of
           CStop \<Rightarrow> Copied L r
         | CUB \<Rightarrow> CopyUB
         | CStep L' r' \<Rightarrow> read_copy L' r')
      else Copied L r)"
  by pat_completeness auto
termination
proof (relation "measure (\<lambda>(L, r). rd_count r - rd_got r)", simp)
  fix L L' r r'
  assume "rd_got r < rd_count r" and "copy_seg L r = CStep L' r'"
  then show "((L', r'), L, r) \<in> measure (\<lambda>(L, r). rd_count r - rd_got r)"
    using copy_seg_progress [of L r L' r'] by auto
qed

declare read_copy.simps [simp del]

definition emit_seek_locked :: "live \<Rightarrow> nat \<Rightarrow> nat \<Rightarrow> live \<times> nat option" where
  "emit_seek_locked L seg now =
     (if seg < lv_nsegs L \<and> u64_sub now (lv_seek_sent L ! seg) > 2000
      then (L\<lparr>lv_seek_sent := (lv_seek_sent L)[seg := now]\<rparr>,
            if lv_has_seek_fn L then Some seg else None)
      else (L, None))"

definition park :: "live \<Rightarrow> nat \<Rightarrow> live" where
  "park L seg =
     (if seg < lv_nsegs L then L\<lparr>lv_waiters := (lv_waiters L)[seg := Suc (lv_waiters L ! seg)]\<rparr> else L)"

definition unpark :: "live \<Rightarrow> nat \<Rightarrow> live" where
  "unpark L seg =
     (if seg < lv_nsegs L \<and> lv_waiters L ! seg > 0
      then L\<lparr>lv_waiters := (lv_waiters L)[seg := lv_waiters L ! seg - 1]\<rparr> else L)"

text \<open>
  One pass of the loop of ws_live_read: it returns, goes round again under the same lock
  hold, or parks on a segment (with the seek request to send, if one is due).
\<close>

datatype read_step = RRet int | RAgain | RPark nat "nat option" | RWait nat | RUB

definition raise_peak :: "live \<Rightarrow> nat \<Rightarrow> live" where
  "raise_peak L seg =
     (if seg > lv_peak_seg L \<and> seg < lv_nsegs L then L\<lparr>lv_peak_seg := seg\<rparr> else L)"

definition advance_run :: "live \<Rightarrow> reader \<Rightarrow> live" where
  "advance_run L r =
     (if rd_start r \<le> u64_add (lv_run_hi L) SEG \<and> rd_end r > lv_run_hi L
      then L\<lparr>lv_run_hi := rd_end r\<rparr> else L)"

definition read_pass :: "live \<Rightarrow> reader \<Rightarrow> nat \<Rightarrow> live \<times> reader \<times> read_step" where
  "read_pass L r now =
     (if lv_aborted L then (L, r, RRet (- 1))
      else let e = u64_add (rd_off r) (rd_count r - rd_got r);
               miss = first_missing L (rd_off r) e in
      if miss \<ge> e then
        (case read_copy L r of
           CopyUB \<Rightarrow> (L, r, RUB)
         | Copied L' r' \<Rightarrow>
             (if rd_got r' \<ge> rd_count r' then (advance_run L' r', r', RRet (int (rd_got r')))
              else (L', r', RAgain)))
      else let need = miss div SEG;
               L1 = park (raise_peak L need) need;
               (L2, seek) = (if need > 0 then emit_seek_locked L1 need now else (L1, None))
           in (L2, r, case seek of None \<Rightarrow> RWait need | Some f \<Rightarrow> RPark need (Some f)))"

text \<open>After the seek request was sent (with the lock released) the lock is taken again.\<close>

definition read_relock :: "live \<Rightarrow> nat \<Rightarrow> live \<times> read_step" where
  "read_relock L need =
     (if \<not> lv_active L \<or> lv_aborted L then (unpark L need, RRet (- 1))
      else if need < lv_nsegs L \<and> lv_present L ! need then (unpark L need, RAgain)
      else (L, RWait need))"

definition read_wake :: "live \<Rightarrow> nat \<Rightarrow> bool \<Rightarrow> live \<times> read_step" where
  "read_wake L need expired =
     (unpark L need, if expired then RRet (- 1) else RAgain)"

section \<open>Observers\<close>

definition ws_live_demand_window :: "live \<Rightarrow> nat" where
  "ws_live_demand_window L =
     (let w = lv_nslots L div 4; w1 = (if w < 1 then 1 else w) in if w1 > 8 then 8 else w1)"

definition ws_live_waiter_count :: "live \<Rightarrow> int" where
  "ws_live_waiter_count L =
     (if lv_active L \<and> lv_waiters L \<noteq> []
      then i32 (sum_list (map (\<lambda>s. lv_waiters L ! s) [0..<lv_nsegs L])) else 0)"

definition ws_live_finish :: "live \<Rightarrow> live \<times> int" where
  "ws_live_finish L =
     (let acked = length (filter (\<lambda>s. lv_acked_ever L ! s) [0..<lv_nsegs L]) in
      if \<not> lv_active L \<or> lv_aborted L \<or> acked \<noteq> lv_nsegs L then (L, - 1)
      else (L\<lparr>lv_complete := True\<rparr>, 0))"

text \<open>One look of ws_live_wait_header: its return value, or None while it waits.\<close>

definition wait_header_pass :: "live \<Rightarrow> int option" where
  "wait_header_pass L =
     (if \<not> lv_active L \<or> lv_aborted L then Some (- 1)
      else if lv_nsegs L > 0 \<and> lv_present L ! 0 then Some 0 else None)"

definition ws_live_get_header :: "live \<Rightarrow> mem \<Rightarrow> nat \<Rightarrow> mem \<times> nat" where
  "ws_live_get_header L out len =
     (if len = 0 then (out, 0)
      else if lv_active L \<and> lv_nsegs L > 0 \<and> lv_present L ! 0
      then let full = seg_len_locked L 0; got = (if len < full then len else full)
           in (memcpy out 0 (lv_slots L) (nat (lv_slot_of L ! 0) * SEG) got, got)
      else (out, 0))"

definition bytes_where :: "live \<Rightarrow> bool list \<Rightarrow> nat" where
  "bytes_where L flags =
     sum_list (map (\<lambda>s. if flags ! s then seg_len_locked L s else 0) [0..<lv_nsegs L])"

definition ws_live_get_total :: "live \<Rightarrow> nat" where
  "ws_live_get_total L = (if lv_active L then lv_total L else 0)"

definition ws_live_get_counters :: "live \<Rightarrow> nat \<times> nat" where
  "ws_live_get_counters L =
     (if lv_active L \<and> lv_present L \<noteq> [] then bytes_where L (lv_present L) else 0,
      if lv_active L then lv_total L else 0)"

fun acked_prefix :: "live \<Rightarrow> nat list \<Rightarrow> nat" where
  "acked_prefix L [] = 0"
| "acked_prefix L (s # ss) = (if lv_acked_ever L ! s then Suc (acked_prefix L ss) else 0)"

definition ws_live_get_resume_offset :: "live \<Rightarrow> nat" where
  "ws_live_get_resume_offset L =
     (let s = (if lv_active L \<and> lv_acked_ever L \<noteq> [] then acked_prefix L [0..<lv_nsegs L] else 0);
          bytes = u64_mul s SEG
      in if bytes > lv_total L then lv_total L else bytes)"

section \<open>The status document\<close>

text \<open>Text with back quotes for the double quotes of JSON.\<close>

definition json :: "string \<Rightarrow> string" where
  "json s = map (\<lambda>c. if c = CHR 0x60 then CHR 0x22 else c) s"

definition hex_digit :: "nat \<Rightarrow> char" where
  "hex_digit n = ''0123456789abcdef'' ! n"

definition json_char :: "char \<Rightarrow> string" where
  "json_char c =
     (if c = CHR 0x22 \<or> c = CHR 0x5C then [CHR 0x5C, c]
      else if (of_char c :: nat) < 0x20
      then CHR 0x5C # ''u00'' @ [hex_digit (of_char c div 16), hex_digit (of_char c mod 16)]
      else [c])"

text \<open>The loop of json_filename, n characters written so far into cap bytes.\<close>

fun json_fill :: "nat \<Rightarrow> nat \<Rightarrow> string \<Rightarrow> string" where
  "json_fill cap n [] = []"
| "json_fill cap n (c # s) =
     (if n + 7 < cap then json_char c @ json_fill cap (n + length (json_char c)) s else [])"

definition json_filename :: "string \<Rightarrow> nat \<Rightarrow> string" where
  "json_filename src cap = (if cap = 0 then [] else json_fill cap 0 src)"

definition show_bool :: "bool \<Rightarrow> string" where
  "show_bool b = (if b then ''true'' else ''false'')"

definition slots_used :: "live \<Rightarrow> nat" where
  "slots_used L = length (filter (\<lambda>i. lv_slot_seg L ! i \<ge> 0) [0..<lv_nslots L])"

text \<open>ws_live_get_status: the return code and the document, cut to the buffer.\<close>

definition live_status_text :: "live \<Rightarrow> string" where
  "live_status_text L =
     json ''{`active`:'' @ show_bool (lv_active L) @ json '',`aborted`:'' @ show_bool (lv_aborted L) @
     json '',`session_id`:`'' @ lv_session_id L @ json ''`,`filename`:`'' @ json_filename (lv_filename L) 512 @
     json ''`,`total`:'' @ show_nat (lv_total L) @
     json '',`received`:'' @ show_nat (bytes_where L (lv_acked_ever L)) @
     json '',`served`:'' @ show_nat (lv_served L) @
     json '',`complete`:'' @ show_bool (lv_active L \<and> lv_complete L) @
     json '',`header_ready`:'' @
       show_bool (lv_active L \<and> \<not> lv_aborted L \<and> lv_nsegs L > 0 \<and> lv_present L ! 0) @
     json '',`resident`:'' @ show_nat (bytes_where L (lv_present L)) @
     json '',`slots_used`:'' @ show_nat (slots_used L) @ json '',`slots`:'' @ show_nat (lv_nslots L) @ ''}''"

definition ws_live_get_status :: "live \<Rightarrow> nat \<Rightarrow> int \<times> string" where
  "ws_live_get_status L cap =
     (if cap = 0 then (- 1, [])
      else if \<not> lv_active L
      then (0, c_trunc cap (json ''{`active`:false,`aborted`:'' @ show_bool (lv_aborted L) @
        json '',`session_id`:``,`filename`:``,`total`:0,`received`:0,`served`:0,`complete`:false,'' @
        json ''`header_ready`:false,`slots_used`:0,`slots`:0}''))
      else let s = live_status_text L
           in (if s \<noteq> [] \<and> length s < cap then 0 else - 1, c_trunc cap s))"

end
