(* ===== verification/LiveRead.thy ===== *)
theory LiveRead
  imports LiveIO
begin

text \<open>
  Correctness of the writers and readers of the live session: no call leaves its arrays,
  every call keeps the session invariant, a writer that follows the file keeps the RAM
  copy equal to it, and a read that returns bytes returns the bytes of the file.
\<close>

section \<open>Writers\<close>

lemma seg_range_bound:
  assumes "s \<in> set (seg_range offset len)"
  shows "s < 2 ^ 44"
proof -
  have "u64_sub (u64_add offset len) 1 < 2 ^ 64" by (simp add: u64_sub_def)
  then have "u64_sub (u64_add offset len) 1 div SEG < 2 ^ 44" by (simp add: SEG_def)
  with assms show ?thesis by (auto simp: seg_range_def)
qed

lemma ok_not_aborted_same: "live_same_session L L' \<Longrightarrow> lv_aborted L' = lv_aborted L"
  by (simp add: live_same_session_def)

lemma try_write_segs_ok:
  assumes "live_ok L" "\<forall>s \<in> set ss. s < 2 ^ 44" "offset < 2 ^ 64" "len < 2 ^ 64"
    and "try_write_segs L data offset len ss = (L', r)"
  shows "live_ok L' \<and> live_same_session L L' \<and> live_same_reads L L' \<and> r \<in> {Ret 0, Ret (- 1), Ret (- 2)}"
  using assms
proof (induction ss arbitrary: L)
  case Nil
  then show ?case by (auto simp: live_same_reads_def)
next
  case (Cons s ss)
  obtain M q where st: "store_seg_locked L s data offset len = (M, q)" by fastforce
  have M: "live_ok M \<and> live_same_session L M \<and> live_same_reads L M \<and> q \<noteq> OutOfBounds"
    using store_seg_ok [OF Cons.prems(1) _ Cons.prems(3,4) st] Cons.prems(2) by simp
  have go: "live_ok L' \<and> live_same_session L L' \<and> live_same_reads L L' \<and> r \<in> {Ret 0, Ret (- 1), Ret (- 2)}"
    if "try_write_segs M data offset len ss = (L', r)"
    using Cons.IH [of M] M Cons.prems that by (auto simp: live_same_session_def live_same_reads_def)
  show ?case using go M Cons.prems(5) st by (cases q) auto
qed

lemma try_write_segs_content:
  assumes "live_ok L" "\<forall>s \<in> set ss. s < 2 ^ 44" "offset < 2 ^ 64" "len < 2 ^ 64"
    and "try_write_segs L data offset len ss = (L', r)"
    and "live_content L F" and "\<And>k. k < len \<Longrightarrow> data k = F (offset + k)"
  shows "live_content L' F"
  using assms
proof (induction ss arbitrary: L)
  case Nil
  then show ?case by simp
next
  case (Cons s ss)
  obtain M q where st: "store_seg_locked L s data offset len = (M, q)" by fastforce
  have s: "s < 2 ^ 44" using Cons.prems(2) by simp
  have M: "live_ok M" using store_seg_ok [OF Cons.prems(1) s Cons.prems(3,4) st] by simp
  have C: "live_content M F"
    by (rule store_seg_content [OF Cons.prems(1) s Cons.prems(3,4) st Cons.prems(6,7)])
  show ?case using Cons.IH [of M] M C Cons.prems st by (cases q) auto
qed

text \<open>What may be lost while a message is stored, and what is stored when it succeeds.\<close>

lemma try_write_segs_acked:
  assumes "live_ok L" "\<forall>s \<in> set ss. s < 2 ^ 44" "offset < 2 ^ 64" "len < 2 ^ 64"
    and "try_write_segs L data offset len ss = (L', r)" and "t < lv_nsegs L"
  shows "lv_acked_ever L ! t \<Longrightarrow> lv_acked_ever L' ! t"
    and "r = Ret 0 \<Longrightarrow> t \<in> set ss \<Longrightarrow> covers L t offset len \<Longrightarrow> lv_acked_ever L' ! t"
proof -
  have "(lv_acked_ever L ! t \<longrightarrow> lv_acked_ever L' ! t) \<and>
    (r = Ret 0 \<longrightarrow> t \<in> set ss \<longrightarrow> covers L t offset len \<longrightarrow> lv_acked_ever L' ! t)"
    using assms
  proof (induction ss arbitrary: L)
    case Nil
    then show ?case by auto
  next
    case (Cons s ss)
    obtain M q where st: "store_seg_locked L s data offset len = (M, q)" by fastforce
    have s: "s < 2 ^ 44" using Cons.prems(2) by simp
    have M: "live_ok M" "live_same_session L M"
      using store_seg_ok [OF Cons.prems(1) s Cons.prems(3,4) st] by auto
    have n: "lv_nsegs M = lv_nsegs L" using M(2) by (simp add: live_same_session_def)
    have cov: "covers M t offset len = covers L t offset len"
      using n same_session_seg_len [OF M(2)] by (simp add: covers_def)
    have ack: "lv_acked_ever M ! t = (lv_acked_ever L ! t \<or> t = s \<and> (\<exists>i. q = Stored i))"
      by (rule store_seg_present(3) [OF Cons.prems(1) s Cons.prems(3,4) st Cons.prems(6)])
    have nc: "\<not> covers L s offset len" if "q = NoOverlap"
      by (cases rule: store_seg_cases [OF Cons.prems(1) s Cons.prems(3,4) st]) (use that in auto)
    have rec: ?case if "try_write_segs M data offset len ss = (L', r)" "q = NoOverlap \<or> (\<exists>i. q = Stored i)"
    proof -
      have "(lv_acked_ever M ! t \<longrightarrow> lv_acked_ever L' ! t) \<and>
        (r = Ret 0 \<longrightarrow> t \<in> set ss \<longrightarrow> covers M t offset len \<longrightarrow> lv_acked_ever L' ! t)"
        using Cons.IH [of M] M(1) Cons.prems that n by simp
      then show ?thesis using cov ack nc that(2) by auto
    qed
    show ?case
      using rec Cons.prems(5) st ack by (cases q) auto
  qed
  then show "lv_acked_ever L ! t \<Longrightarrow> lv_acked_ever L' ! t"
    and "r = Ret 0 \<Longrightarrow> t \<in> set ss \<Longrightarrow> covers L t offset len \<Longrightarrow> lv_acked_ever L' ! t"
    by blast+
qed

lemma write_segs_ok:
  assumes "live_ok L" "\<forall>s \<in> set ss. s < 2 ^ 44" "offset < 2 ^ 64" "len < 2 ^ 64"
    and "write_segs L data offset len ss = (L', r)"
  shows "live_ok L' \<and> live_same_session L L' \<and> live_same_reads L L' \<and> r \<noteq> WUB \<and>
    (\<forall>p. r = WWait p \<longrightarrow> set p \<subseteq> set ss)"
  using assms
proof (induction ss arbitrary: L)
  case Nil
  then show ?case by (auto simp: live_same_reads_def)
next
  case (Cons s ss)
  obtain M q where st: "store_seg_locked L s data offset len = (M, q)" by fastforce
  have M: "live_ok M \<and> live_same_session L M \<and> live_same_reads L M \<and> q \<noteq> OutOfBounds"
    using store_seg_ok [OF Cons.prems(1) _ Cons.prems(3,4) st] Cons.prems(2) by simp
  have go: ?case if "write_segs M data offset len ss = (L', r)"
    using Cons.IH [of M] M Cons.prems that by (auto simp: live_same_session_def live_same_reads_def)
  show ?case
  proof (cases "lv_aborted L")
    case True
    then show ?thesis using Cons.prems by (auto simp: live_same_reads_def)
  next
    case False
    then show ?thesis using go M Cons.prems(5) st by (cases q) auto
  qed
qed

lemma write_segs_content:
  assumes "live_ok L" "\<forall>s \<in> set ss. s < 2 ^ 44" "offset < 2 ^ 64" "len < 2 ^ 64"
    and "write_segs L data offset len ss = (L', r)"
    and "live_content L F" and "\<And>k. k < len \<Longrightarrow> data k = F (offset + k)"
  shows "live_content L' F"
  using assms
proof (induction ss arbitrary: L)
  case Nil
  then show ?case by simp
next
  case (Cons s ss)
  obtain M q where st: "store_seg_locked L s data offset len = (M, q)" by fastforce
  have s: "s < 2 ^ 44" using Cons.prems(2) by simp
  have M: "live_ok M" using store_seg_ok [OF Cons.prems(1) s Cons.prems(3,4) st] by simp
  have C: "live_content M F"
    by (rule store_seg_content [OF Cons.prems(1) s Cons.prems(3,4) st Cons.prems(6,7)])
  show ?case using Cons.IH [of M] M C Cons.prems st by (cases "lv_aborted L"; cases q) auto
qed

section \<open>Finding the first missing byte\<close>

lemma live_total_small: "live_shape L \<Longrightarrow> lv_total L < 2 ^ 52"
  by (simp add: live_shape_def LIVE_MAX_def)

lemma seg_of_byte:
  assumes "live_shape L" and "x < lv_total L"
  shows "x div SEG < lv_nsegs L"
  using assms by (auto simp: live_shape_def SEG_def)

lemma next_seg_end:
  assumes "live_shape L" and "s < lv_nsegs L"
  shows "u64_mul (s + 1) SEG = (s + 1) * SEG"
proof -
  have "s * SEG < 2 ^ 52" using seg_start_less_total [OF assms] live_total_small [OF assms(1)] by simp
  then show ?thesis by (simp add: u64_mul_small SEG_def)
qed

text \<open>Every byte before the result has a resident segment; the result itself, if short of e, has not.\<close>

lemma first_missing_spec:
  assumes "live_shape L" and "p \<le> e" and "e \<le> lv_total L"
  shows "p \<le> first_missing L p e \<and> first_missing L p e \<le> e \<and>
    (\<forall>x. p \<le> x \<and> x < first_missing L p e \<longrightarrow> lv_present L ! (x div SEG)) \<and>
    (first_missing L p e < e \<longrightarrow> \<not> lv_present L ! (first_missing L p e div SEG))"
  using assms
proof (induction L p e rule: first_missing.induct)
  case (1 L p e)
  note simp = first_missing.simps [of L p e]
  show ?case
  proof (cases "p < e \<and> lv_present L ! (p div SEG)")
    case False
    have "first_missing L p e = p \<and> (p < e \<longrightarrow> \<not> lv_present L ! (p div SEG))"
      using False "1.prems" seg_of_byte [of L p] by (auto simp: simp Let_def)
    then show ?thesis using "1.prems" by auto
  next
    case True
    define s where "s = p div SEG"
    have s: "s < lv_nsegs L" using seg_of_byte [of L p] "1.prems" True by (simp add: s_def)
    define t where "t = min ((s + 1) * SEG) (lv_total L)"
    have pt: "p < t"
      using True "1.prems" unfolding t_def s_def by (auto simp: SEG_def)
    have inseg: "x div SEG = s" if "p \<le> x" "x < t" for x
    proof -
      have "s * SEG \<le> x" using that(1) unfolding s_def by (meson div_times_less_eq_dividend le_trans)
      then have "s \<le> x div SEG" by (simp add: less_eq_div_iff_mult_less_eq)
      moreover have "x < (s + 1) * SEG" using that(2) by (simp add: t_def)
      then have "x div SEG < s + 1" by (rule less_mult_imp_div_less)
      ultimately show ?thesis by simp
    qed
    have u: "min (u64_mul (s + 1) SEG) (lv_total L) = t"
      by (simp only: next_seg_end [OF "1.prems"(1) s] t_def)
    have eq: "first_missing L p e = (if t \<ge> e then e else first_missing L t e)"
      using True s pt unfolding simp Let_def s_def [symmetric] u by simp
    have here: "lv_present L ! (x div SEG)" if "p \<le> x" "x < t" for x
      using True inseg [OF that] unfolding s_def by simp
    show ?thesis
    proof (cases "e \<le> t")
      case True
      then have "first_missing L p e = e" using eq by simp
      then show ?thesis using "1.prems" here True by simp
    next
      case False
      have "t \<le> first_missing L t e \<and> first_missing L t e \<le> e \<and>
        (\<forall>x. t \<le> x \<and> x < first_missing L t e \<longrightarrow> lv_present L ! (x div SEG)) \<and>
        (first_missing L t e < e \<longrightarrow> \<not> lv_present L ! (first_missing L t e div SEG))"
      proof -
        have q: "t = (if t > p then t else p + 1)" using pt by simp
        have ns: "\<not> (s \<ge> lv_nsegs L \<or> \<not> lv_present L ! s)" using s True unfolding s_def by simp
        show ?thesis
          by (rule "1.IH" [OF conjunct1 [OF True] s_def ns u [symmetric] q False \<open>live_shape L\<close>])
            (use False "1.prems" in simp_all)
      qed
      moreover have "first_missing L p e = first_missing L t e" using eq False by simp
      ultimately show ?thesis using pt here by (metis less_imp_le not_le order.trans)
    qed
  qed
qed

section \<open>Copying\<close>

text \<open>
  The state of a read in progress: got bytes were copied, they are the bytes of F from
  read_start on, and the rest of the range lies inside the file.
\<close>

definition reading :: "live \<Rightarrow> mem \<Rightarrow> reader \<Rightarrow> bool" where
  "reading L F r =
     (rd_got r \<le> rd_count r \<and> rd_off r = rd_start r + rd_got r \<and>
      rd_end r = rd_start r + rd_count r \<and> rd_end r \<le> lv_total L \<and>
      (\<forall>i < rd_got r. rd_dst r i = F (rd_start r + i)))"

lemma copy_len_eq:
  assumes "live_shape L" and "rd_off r + (rd_count r - rd_got r) \<le> lv_total L"
    and "rd_got r < rd_count r"
  shows "copy_len L r = min (SEG - rd_off r mod SEG) (rd_count r - rd_got r)"
    and "0 < copy_len L r" and "rd_off r mod SEG + copy_len L r \<le> seg_len_locked L (rd_off r div SEG)"
proof -
  let ?s = "rd_off r div SEG" and ?so = "rd_off r mod SEG"
  have s: "?s < lv_nsegs L" using assms by (intro seg_of_byte) auto
  have o: "rd_off r = ?s * SEG + ?so" by simp
  have so: "?so < SEG" by simp
  have sl: "seg_len_locked L ?s = min (lv_total L - ?s * SEG) SEG" by (rule seg_len_eq [OF assms(1) s])
  let ?m = "min (SEG - ?so) (rd_count r - rd_got r)"
  have fit: "?so + ?m \<le> seg_len_locked L ?s"
    using assms(2) o so unfolding sl by linarith
  then show e: "copy_len L r = ?m"
    by (simp add: copy_len_def Let_def minus_div_mult_eq_mod)
  show "0 < copy_len L r" using assms(3) so unfolding e by simp
  show "?so + copy_len L r \<le> seg_len_locked L ?s" unfolding e by (rule fit)
qed

lemma copy_advance_ok:
  assumes "live_ok L" and "copy_advance L r i m = (L', r')"
  shows "live_ok L' \<and> live_same_session L L' \<and> lv_present L' = lv_present L \<and>
    lv_slot_of L' = lv_slot_of L \<and> lv_slots L' = lv_slots L \<and> lv_waiters L' = lv_waiters L \<and>
    lv_run_hi L' = lv_run_hi L \<and> lv_acked_ever L' = lv_acked_ever L"
proof -
  have L': "L' = L\<lparr>lv_last_use := (lv_last_use L)[i := Suc (lv_tick L)], lv_tick := Suc (lv_tick L),
      lv_slot_read := (lv_slot_read L)[i := True], lv_served := u64_add (lv_served L) m\<rparr>"
    using assms(2) by (simp add: copy_advance_def)
  have "live_shape L'" using assms(1) unfolding live_ok_def live_shape_def L' by simp
  moreover have "live_core L'" "live_back L' {}"
    using assms(1) unfolding live_ok_def live_core_def live_back_def L' by simp_all
  ultimately show ?thesis by (simp add: live_ok_def L' live_same_session_def)
qed

lemma live_content_cong:
  assumes "live_same_session L M" "lv_present M = lv_present L" "lv_slot_of M = lv_slot_of L"
    and "lv_slots M = lv_slots L"
  shows "live_content M F = live_content L F"
  using assms same_session_seg_len [OF assms(1)]
  by (simp add: live_content_def live_same_session_def)

text \<open>One round copies bytes of the file and stays inside every array.\<close>

lemma copy_seg_spec:
  assumes ok: "live_ok L" and cont: "live_content L F" and rd: "reading L F r"
    and more: "rd_got r < rd_count r" and pres: "lv_present L ! (rd_off r div SEG)"
  shows "\<exists>L' r'. copy_seg L r = CStep L' r' \<and>
    copy_advance L r (nat (lv_slot_of L ! (rd_off r div SEG))) (copy_len L r) = (L', r') \<and>
    reading L' F r' \<and> rd_start r' = rd_start r \<and> rd_count r' = rd_count r \<and> rd_end r' = rd_end r"
proof -
  have shape: "live_shape L" and core: "live_core L" using ok by (auto simp: live_ok_def)
  let ?s = "rd_off r div SEG" and ?so = "rd_off r mod SEG" and ?m = "copy_len L r"
  have r: "rd_got r \<le> rd_count r" "rd_off r = rd_start r + rd_got r" "rd_end r \<le> lv_total L"
    "rd_end r = rd_start r + rd_count r" "\<And>i. i < rd_got r \<Longrightarrow> rd_dst r i = F (rd_start r + i)"
    using rd by (auto simp: reading_def)
  have inside: "rd_off r + (rd_count r - rd_got r) \<le> lv_total L" using r by simp
  have s: "?s < lv_nsegs L" using r more by (intro seg_of_byte [OF shape]) simp
  note m = copy_len_eq [OF shape inside more]
  have sl: "0 \<le> lv_slot_of L ! ?s" using live_coreD(1) [OF core s] pres by simp
  have ns: "\<not> lv_nslots L \<le> nat (lv_slot_of L ! ?s)" using live_coreD(3) [OF core s sl] by simp
  have b: "\<not> SEG < ?so + ?m" using m(3) seg_len_le [of L ?s] by simp
  have c: "\<not> rd_count r < rd_got r + ?m" using m(1) more by simp
  obtain L' r' where adv: "copy_advance L r (nat (lv_slot_of L ! ?s)) ?m = (L', r')" by fastforce
  have step: "copy_seg L r = CStep L' r'"
    using s sl ns b c m(2) adv by (simp add: copy_seg_def Let_def)
  have r': "rd_dst r' = memcpy (rd_dst r) (rd_got r) (lv_slots L) (nat (lv_slot_of L ! ?s) * SEG + ?so) ?m"
    "rd_off r' = u64_add (rd_off r) ?m" "rd_got r' = rd_got r + ?m" "rd_start r' = rd_start r"
    "rd_count r' = rd_count r" "rd_end r' = rd_end r"
    using adv by (auto simp: copy_advance_def)
  have tot: "lv_total L' = lv_total L" using adv by (auto simp: copy_advance_def)
  have off: "rd_off r' = rd_start r + (rd_got r + ?m)"
    using inside c live_total_small [OF shape] r(2) by (simp add: r'(2) u64_add_small)
  have new: "lv_slots L (nat (lv_slot_of L ! ?s) * SEG + ?so + k) = F (rd_off r + k)" if "k < ?m" for k
  proof -
    have "?so + k < seg_len_locked L ?s" using m(3) that by simp
    then have "lv_slots L (nat (lv_slot_of L ! ?s) * SEG + (?so + k)) = F (?s * SEG + (?so + k))"
      using cont s pres by (simp add: live_content_def)
    moreover have "?s * SEG + (?so + k) = rd_off r + k"
      by (metis add.assoc div_mult_mod_eq)
    ultimately show ?thesis by (simp add: add.assoc)
  qed
  have bytes: "rd_dst r' i = F (rd_start r + i)" if "i < rd_got r + ?m" for i
  proof (cases "i < rd_got r")
    case True
    then show ?thesis using r(5) by (simp add: r'(1) mem_simps)
  next
    case False
    then have "i - rd_got r < ?m" using that by simp
    from new [OF this] False that show ?thesis by (simp add: r'(1) mem_simps r(2))
  qed
  have "reading L' F r'"
    using r c bytes off by (simp add: reading_def r'(3-6) tot)
  with step adv r' show ?thesis by auto
qed

lemma read_copy_spec:
  assumes "live_ok L" "live_content L F" "reading L F r"
    and "\<And>x. rd_off r \<le> x \<Longrightarrow> x < rd_end r \<Longrightarrow> lv_present L ! (x div SEG)"
  shows "\<exists>L' r'. read_copy L r = Copied L' r' \<and> live_ok L' \<and> live_content L' F \<and>
    live_same_session L L' \<and> lv_present L' = lv_present L \<and> lv_waiters L' = lv_waiters L \<and>
    lv_run_hi L' = lv_run_hi L \<and> lv_acked_ever L' = lv_acked_ever L \<and>
    reading L' F r' \<and> rd_got r' = rd_count r \<and> rd_count r' = rd_count r \<and>
    rd_start r' = rd_start r \<and> rd_end r' = rd_end r"
  using assms
proof (induction L r rule: read_copy.induct)
  case (1 L r)
  note unf = read_copy.simps [of L r]
  show ?case
  proof (cases "rd_got r < rd_count r")
    case False
    then have "rd_got r = rd_count r" using "1.prems"(3) by (simp add: reading_def)
    then show ?thesis using "1.prems" unf by simp
  next
    case True
    have off: "rd_off r < rd_end r" using "1.prems"(3) True by (simp add: reading_def)
    obtain L' r' where st: "copy_seg L r = CStep L' r'"
      and adv: "copy_advance L r (nat (lv_slot_of L ! (rd_off r div SEG))) (copy_len L r) = (L', r')"
      and r': "reading L' F r'" "rd_start r' = rd_start r" "rd_count r' = rd_count r" "rd_end r' = rd_end r"
      using copy_seg_spec [OF "1.prems"(1,2,3) True "1.prems"(4) [OF order_refl off]] by blast
    note L' = copy_advance_ok [OF "1.prems"(1) adv]
    have c: "live_content L' F" using live_content_cong L' "1.prems"(2) by blast
    have "rd_got r < rd_got r'" using copy_seg_progress [OF st] by simp
    then have "rd_off r \<le> rd_off r'" using r' "1.prems"(3) by (simp add: reading_def)
    then have p: "lv_present L' ! (x div SEG)" if "rd_off r' \<le> x" "x < rd_end r'" for x
      using "1.prems"(4) that L' r'(4) by simp
    have "\<exists>L'' r''. read_copy L' r' = Copied L'' r'' \<and> live_ok L'' \<and> live_content L'' F \<and>
      live_same_session L' L'' \<and> lv_present L'' = lv_present L' \<and> lv_waiters L'' = lv_waiters L' \<and>
      lv_run_hi L'' = lv_run_hi L' \<and> lv_acked_ever L'' = lv_acked_ever L' \<and>
      reading L'' F r'' \<and> rd_got r'' = rd_count r' \<and> rd_count r'' = rd_count r' \<and>
      rd_start r'' = rd_start r' \<and> rd_end r'' = rd_end r'"
      using "1.IH" [OF True st] L' c r'(1) p by blast
    then show ?thesis using unf st True L' r' same_session_trans by (auto simp del: read_copy.simps)
  qed
qed

section \<open>One pass of the read loop\<close>

lemma live_core_back_frame [simp]:
  "live_core (L\<lparr>lv_waiters := ws\<rparr>) = live_core L" "live_back (L\<lparr>lv_waiters := ws\<rparr>) X = live_back L X"
  "live_core (L\<lparr>lv_peak_seg := s\<rparr>) = live_core L" "live_back (L\<lparr>lv_peak_seg := s\<rparr>) X = live_back L X"
  "live_core (L\<lparr>lv_run_hi := s\<rparr>) = live_core L" "live_back (L\<lparr>lv_run_hi := s\<rparr>) X = live_back L X"
  "live_core (L\<lparr>lv_seek_sent := ws\<rparr>) = live_core L" "live_back (L\<lparr>lv_seek_sent := ws\<rparr>) X = live_back L X"
  by (simp_all add: live_core_def live_back_def)

lemma live_ok_waiters: "live_ok L \<Longrightarrow> length ws = length (lv_waiters L) \<Longrightarrow> live_ok (L\<lparr>lv_waiters := ws\<rparr>)"
  by (auto simp: live_ok_def live_shape_def)

lemma live_ok_peak: "live_ok L \<Longrightarrow> s < lv_nsegs L \<Longrightarrow> live_ok (L\<lparr>lv_peak_seg := s\<rparr>)"
  by (auto simp: live_ok_def live_shape_def)

lemma live_ok_run_hi: "live_ok L \<Longrightarrow> h \<le> lv_total L \<Longrightarrow> live_ok (L\<lparr>lv_run_hi := h\<rparr>)"
  by (auto simp: live_ok_def live_shape_def)

lemma live_ok_seek: "live_ok L \<Longrightarrow> length ts = length (lv_seek_sent L) \<Longrightarrow> live_ok (L\<lparr>lv_seek_sent := ts\<rparr>)"
  by (auto simp: live_ok_def live_shape_def)

lemma park_frame:
  "live_same_session L (park L s)" "lv_present (park L s) = lv_present L"
  "lv_slot_of (park L s) = lv_slot_of L" "lv_slots (park L s) = lv_slots L"
  "lv_acked_ever (park L s) = lv_acked_ever L" "live_ok L \<Longrightarrow> live_ok (park L s)"
  "s < lv_nsegs L \<Longrightarrow> lv_waiters (park L s) = (lv_waiters L)[s := Suc (lv_waiters L ! s)]"
  by (simp_all add: park_def live_same_session_def live_ok_waiters)

lemma unpark_frame:
  "live_same_session L (unpark L s)" "lv_present (unpark L s) = lv_present L"
  "lv_slot_of (unpark L s) = lv_slot_of L" "lv_slots (unpark L s) = lv_slots L"
  "lv_acked_ever (unpark L s) = lv_acked_ever L" "live_ok L \<Longrightarrow> live_ok (unpark L s)"
  by (simp_all add: unpark_def live_same_session_def live_ok_waiters)

lemma unpark_waiters:
  "s < lv_nsegs L \<Longrightarrow> lv_waiters (unpark L s) = (lv_waiters L)[s := lv_waiters L ! s - 1]"
  by (cases "lv_waiters L ! s > 0") (simp_all add: unpark_def list_update_beyond, metis list_update_id)

lemma raise_peak_frame:
  "live_same_session L (raise_peak L s)" "lv_present (raise_peak L s) = lv_present L"
  "lv_slot_of (raise_peak L s) = lv_slot_of L" "lv_slots (raise_peak L s) = lv_slots L"
  "lv_acked_ever (raise_peak L s) = lv_acked_ever L" "live_ok L \<Longrightarrow> live_ok (raise_peak L s)"
  "lv_waiters (raise_peak L s) = lv_waiters L"
  by (simp_all add: raise_peak_def live_same_session_def live_ok_peak)

lemma emit_seek_frame:
  assumes "emit_seek_locked L s now = (M, f)"
  shows "live_same_session L M \<and> lv_present M = lv_present L \<and> lv_slot_of M = lv_slot_of L \<and>
    lv_slots M = lv_slots L \<and> lv_acked_ever M = lv_acked_ever L \<and> lv_waiters M = lv_waiters L \<and>
    (live_ok L \<longrightarrow> live_ok M) \<and> (\<forall>g. f = Some g \<longrightarrow> g = s)"
  using assms
  by (auto simp: emit_seek_locked_def live_same_session_def live_ok_seek split: if_splits)

lemma advance_run_frame:
  "live_same_session L (advance_run L r)" "lv_present (advance_run L r) = lv_present L"
  "lv_slot_of (advance_run L r) = lv_slot_of L" "lv_slots (advance_run L r) = lv_slots L"
  "lv_acked_ever (advance_run L r) = lv_acked_ever L" "lv_waiters (advance_run L r) = lv_waiters L"
  "live_ok L \<Longrightarrow> rd_end r \<le> lv_total L \<Longrightarrow> live_ok (advance_run L r)"
  by (simp_all add: advance_run_def live_same_session_def live_ok_run_hi)

lemmas park_simps = park_frame(2-5) unpark_frame(2-5) raise_peak_frame(2-5,7) advance_run_frame(2-6)

text \<open>
  What a pass does for a read in progress: it fails only on an aborted session, it
  returns the whole range with the bytes of F, or it parks on a segment of the range that
  is not resident. It never goes round in vain and never leaves an array.
\<close>

definition pass_outcome :: "live \<Rightarrow> mem \<Rightarrow> reader \<Rightarrow> live \<Rightarrow> reader \<Rightarrow> read_step \<Rightarrow> bool" where
  "pass_outcome L F r L' r' res =
     (case res of
        RRet n \<Rightarrow> lv_waiters L' = lv_waiters L \<and>
          (n = - 1 \<and> lv_aborted L \<or>
           n = int (rd_count r) \<and> rd_count r' = rd_count r \<and> rd_start r' = rd_start r \<and>
           (\<forall>i < rd_count r. rd_dst r' i = F (rd_start r + i)))
      | RPark need f \<Rightarrow> f = Some need \<and> r' = r \<and> need < lv_nsegs L \<and> \<not> lv_present L ! need \<and>
          lv_waiters L' = (lv_waiters L)[need := Suc (lv_waiters L ! need)]
      | RWait need \<Rightarrow> r' = r \<and> need < lv_nsegs L \<and> \<not> lv_present L ! need \<and>
          lv_waiters L' = (lv_waiters L)[need := Suc (lv_waiters L ! need)]
      | _ \<Rightarrow> False)"

lemma read_pass_parks:
  assumes ok: "live_ok L" and cont: "live_content L F" and need: "need < lv_nsegs L" "\<not> lv_present L ! need"
    and L2: "(if need > 0 then emit_seek_locked (park (raise_peak L need) need) need now
              else (park (raise_peak L need) need, None)) = (L2, f)"
  shows "live_ok L2 \<and> live_content L2 F \<and> live_same_session L L2 \<and> lv_acked_ever L2 = lv_acked_ever L \<and>
    pass_outcome L F r L2 r (case f of None \<Rightarrow> RWait need | Some g \<Rightarrow> RPark need (Some g))"
proof -
  let ?P = "park (raise_peak L need) need"
  have P: "live_same_session L ?P" "live_ok ?P"
    using same_session_trans [OF raise_peak_frame(1) park_frame(1)] raise_peak_frame(6) [OF ok] park_frame(6) by auto
  have "lv_nsegs (raise_peak L need) = lv_nsegs L"
    using raise_peak_frame(1) by (simp add: live_same_session_def)
  then have w: "lv_waiters ?P = (lv_waiters L)[need := Suc (lv_waiters L ! need)]"
    using need(1) by (simp add: park_frame(7) park_simps)
  have c: "live_content ?P F" using live_content_cong [OF P(1)] cont by (simp add: park_simps)
  show ?thesis
  proof (cases "need > 0")
    case True
    then have e: "emit_seek_locked ?P need now = (L2, f)" using L2 by simp
    note E = emit_seek_frame [OF e]
    have "live_content L2 F" using live_content_cong [of ?P L2] E c by blast
    moreover have "live_same_session L L2" using E P(1) same_session_trans by blast
    ultimately show ?thesis
      using E P(2) w need by (cases f) (auto simp: pass_outcome_def park_simps)
  next
    case False
    then have "L2 = ?P" "f = None" using L2 by auto
    then show ?thesis using P c w need by (simp add: pass_outcome_def park_simps)
  qed
qed

lemma read_pass_spec:
  assumes ok: "live_ok L" and cont: "live_content L F" and rd: "reading L F r"
    and st: "read_pass L r now = (L', r', res)"
  shows "live_ok L' \<and> live_content L' F \<and> live_same_session L L' \<and> lv_acked_ever L' = lv_acked_ever L \<and>
    pass_outcome L F r L' r' res"
proof (cases "lv_aborted L")
  case True
  then have "L' = L" "res = RRet (- 1)" using st by (auto simp: read_pass_def)
  then show ?thesis using ok cont True by (simp add: pass_outcome_def)
next
  case False
  have shape: "live_shape L" using ok by (simp add: live_ok_def)
  have r: "rd_off r \<le> rd_end r" "rd_end r \<le> lv_total L" "rd_off r + (rd_count r - rd_got r) = rd_end r"
    using rd by (auto simp: reading_def)
  have e: "u64_add (rd_off r) (rd_count r - rd_got r) = rd_end r"
    using r live_total_small [OF shape] by (simp add: u64_add_small)
  let ?miss = "first_missing L (rd_off r) (rd_end r)"
  note fm = first_missing_spec [OF shape r(1,2)]
  show ?thesis
  proof (cases "?miss \<ge> rd_end r")
    case True
    then have "\<And>x. rd_off r \<le> x \<Longrightarrow> x < rd_end r \<Longrightarrow> lv_present L ! (x div SEG)" using fm by auto
    from read_copy_spec [OF ok cont rd this] obtain M r2 where
      cp: "read_copy L r = Copied M r2" and M: "live_ok M" "live_content M F" "live_same_session L M"
        "lv_waiters M = lv_waiters L" "lv_acked_ever M = lv_acked_ever L"
      and r2: "reading M F r2" "rd_got r2 = rd_count r" "rd_count r2 = rd_count r" "rd_start r2 = rd_start r"
      by blast
    have res: "L' = advance_run M r2" "r' = r2" "res = RRet (int (rd_count r))"
      using st \<open>\<not> lv_aborted L\<close> True cp r2 by (auto simp: read_pass_def Let_def e)
    have "live_ok L'" using advance_run_frame(7) [OF M(1)] r2(1) by (simp add: res reading_def)
    moreover have "live_content L' F"
      using live_content_cong [OF advance_run_frame(1)] M(2) by (simp add: res park_simps)
    moreover have "live_same_session L L'" using same_session_trans [OF M(3) advance_run_frame(1)] res by simp
    ultimately show ?thesis using res r2 M by (simp add: pass_outcome_def park_simps reading_def)
  next
    case False
    then have m: "\<not> lv_present L ! (?miss div SEG)" "?miss < lv_total L" using fm r by auto
    have need: "?miss div SEG < lv_nsegs L" by (rule seg_of_byte [OF shape m(2)])
    obtain L2 f where p: "(if ?miss div SEG > 0
        then emit_seek_locked (park (raise_peak L (?miss div SEG)) (?miss div SEG)) (?miss div SEG) now
        else (park (raise_peak L (?miss div SEG)) (?miss div SEG), None)) = (L2, f)" by fastforce
    have "L' = L2" "r' = r" "res = (case f of None \<Rightarrow> RWait (?miss div SEG) | Some g \<Rightarrow> RPark (?miss div SEG) (Some g))"
      using st False \<open>\<not> lv_aborted L\<close> p by (auto simp: read_pass_def Let_def e)
    with read_pass_parks [OF ok cont need m(1) p] show ?thesis by simp
  qed
qed

end
