(* ===== verification/LiveSystem.thy ===== *)
theory LiveSystem
  imports LiveRead
begin

text \<open>
  The live session with everything that runs against it: one step is one critical section
  of ws_stream.c, executed for the uploader, for the owner of the session or for one of
  the attached readers, in any order. The system carries two ghosts, the bytes F of the
  file that the browser uploads (chosen when the session is created) and the phase of
  every attached reader. The theorems are about every reachable state.
\<close>

section \<open>States and steps\<close>

text \<open>
  A reader between attach and detach: outside ws_live_read, about to run a pass of its
  loop, sending a seek request for a segment with the lock released, waiting for a
  segment, or just returned a value.
\<close>

datatype phase = Idle | Looping reader | Seeking reader nat | Waiting reader nat | Returned reader int

fun parked_at :: "phase \<Rightarrow> nat option" where
  "parked_at (Seeking r s) = Some s"
| "parked_at (Waiting r s) = Some s"
| "parked_at _ = None"

fun read_phase :: "reader \<Rightarrow> read_step \<Rightarrow> phase" where
  "read_phase r (RRet n) = Returned r n"
| "read_phase r RAgain = Looping r"
| "read_phase r (RPark s f) = Seeking r s"
| "read_phase r (RWait s) = Waiting r s"
| "read_phase r RUB = Idle"

record sys =
  sy_live :: live
  sy_file :: mem
  sy_readers :: "phase list"

definition sys_init :: sys where
  "sys_init = \<lparr>sy_live = live_init, sy_file = (\<lambda>_. 0), sy_readers = []\<rparr>"

text \<open>
  Every chunk the uploader passes is a chunk of the file; its offset and length are any
  64-bit values. A woken blocking writer resumes in the session it parked in, which may
  have been destroyed meanwhile; the segments it still has to store are any at all.
\<close>

inductive live_step :: "sys \<Rightarrow> sys \<Rightarrow> bool" where
  step_create:
    "ws_live_create (sy_live S) env ok new_id fname tot ring sid_max = (L', rc, out) \<Longrightarrow>
     tot \<le> LIVE_MAX \<Longrightarrow>
     live_step S (S\<lparr>sy_live := L', sy_file := (if lv_active (sy_live S) \<or> L' = sy_live S then sy_file S else F)\<rparr>)"
| step_try_write:
    "offset < 2 ^ 64 \<Longrightarrow> len < 2 ^ 64 \<Longrightarrow> (\<And>k. k < len \<Longrightarrow> data k = sy_file S (offset + k)) \<Longrightarrow>
     live_step S (S\<lparr>sy_live := fst (ws_live_try_write (sy_live S) offset (Some data) len)\<rparr>)"
| step_write:
    "offset < 2 ^ 64 \<Longrightarrow> len < 2 ^ 64 \<Longrightarrow> (\<And>k. k < len \<Longrightarrow> data k = sy_file S (offset + k)) \<Longrightarrow>
     live_step S (S\<lparr>sy_live := fst (ws_live_write (sy_live S) offset (Some data) len)\<rparr>)"
| step_write_wake:
    "offset < 2 ^ 64 \<Longrightarrow> len < 2 ^ 64 \<Longrightarrow> (\<And>k. k < len \<Longrightarrow> data k = sy_file S (offset + k)) \<Longrightarrow>
     (\<forall>s \<in> set pending. s < 2 ^ 44) \<Longrightarrow> lv_active (sy_live S) \<or> lv_aborted (sy_live S) \<Longrightarrow>
     live_step S (S\<lparr>sy_live := fst (write_wake (sy_live S) offset data len pending expired)\<rparr>)"
| step_finish: "live_step S (S\<lparr>sy_live := fst (ws_live_finish (sy_live S))\<rparr>)"
| step_abort: "live_step S (S\<lparr>sy_live := ws_live_abort (sy_live S)\<rparr>)"
| step_destroy: "live_step S (S\<lparr>sy_live := ws_live_destroy (sy_live S)\<rparr>)"
| step_timeout: "live_step S (S\<lparr>sy_live := ws_live_set_timeout_sec (sy_live S) n\<rparr>)"
| step_slots: "live_step S (S\<lparr>sy_live := ws_live_set_slots (sy_live S) n\<rparr>)"
| step_seek_fn: "live_step S (S\<lparr>sy_live := ws_live_set_seek_fn (sy_live S) b\<rparr>)"
| step_attach:
    "ws_live_attach (sy_live S) = (L', 0) \<Longrightarrow>
     live_step S (S\<lparr>sy_live := L', sy_readers := sy_readers S @ [Idle]\<rparr>)"
| step_detach:
    "sy_readers S = rs @ Idle # rs' \<Longrightarrow>
     live_step S (S\<lparr>sy_live := ws_live_detach (sy_live S), sy_readers := rs @ rs'\<rparr>)"
| step_read_begin:
    "sy_readers S = rs @ Idle # rs' \<Longrightarrow> read_begin (sy_live S) off buf count = Inr r \<Longrightarrow>
     live_step S (S\<lparr>sy_readers := rs @ Looping r # rs'\<rparr>)"
| step_read_pass:
    "sy_readers S = rs @ Looping r # rs' \<Longrightarrow> read_pass (sy_live S) r now = (L', r', res) \<Longrightarrow>
     live_step S (S\<lparr>sy_live := L', sy_readers := rs @ read_phase r' res # rs'\<rparr>)"
| step_relock:
    "sy_readers S = rs @ Seeking r s # rs' \<Longrightarrow> read_relock (sy_live S) s = (L', res) \<Longrightarrow>
     live_step S (S\<lparr>sy_live := L', sy_readers := rs @ read_phase r res # rs'\<rparr>)"
| step_wake:
    "sy_readers S = rs @ Waiting r s # rs' \<Longrightarrow> read_wake (sy_live S) s expired = (L', res) \<Longrightarrow>
     live_step S (S\<lparr>sy_live := L', sy_readers := rs @ read_phase r res # rs'\<rparr>)"
| step_return:
    "sy_readers S = rs @ Returned r n # rs' \<Longrightarrow> live_step S (S\<lparr>sy_readers := rs @ Idle # rs'\<rparr>)"

inductive live_reach :: "sys \<Rightarrow> bool" where
  reach_init: "live_reach sys_init"
| reach_step: "live_reach S \<Longrightarrow> live_step S S' \<Longrightarrow> live_reach S'"

inductive_cases live_stepE: "live_step S S'"

section \<open>The system invariant\<close>

text \<open>
  What holds of a reader: while the session is alive, a read in progress holds bytes of
  the file, a parked reader's segment exists, and a returned read holds the bytes it
  reports.
\<close>

fun phase_ok :: "live \<Rightarrow> mem \<Rightarrow> phase \<Rightarrow> bool" where
  "phase_ok L F Idle = True"
| "phase_ok L F (Looping r) = (lv_active L \<longrightarrow> reading L F r)"
| "phase_ok L F (Seeking r s) = (lv_active L \<longrightarrow> reading L F r \<and> s < lv_nsegs L)"
| "phase_ok L F (Waiting r s) = (lv_active L \<longrightarrow> reading L F r \<and> s < lv_nsegs L)"
| "phase_ok L F (Returned r n) =
     (n = - 1 \<or> n = int (rd_count r) \<and> (\<forall>i < rd_count r. rd_dst r i = F (rd_start r + i)))"

definition parked_count :: "phase list \<Rightarrow> nat \<Rightarrow> nat" where
  "parked_count rs s = length (filter (\<lambda>p. parked_at p = Some s) rs)"

definition sys_inv :: "sys \<Rightarrow> bool" where
  "sys_inv S =
     (live_inv (sy_live S) \<and> 4 \<le> lv_slots_cfg (sy_live S) \<and> lv_slots_cfg (sy_live S) \<le> 4096 \<and>
      lv_refs (sy_live S) = length (sy_readers S) \<and>
      (lv_active (sy_live S) \<longrightarrow> \<not> lv_free_pending (sy_live S) \<and> live_content (sy_live S) (sy_file S) \<and>
         (\<forall>s < lv_nsegs (sy_live S). lv_waiters (sy_live S) ! s = parked_count (sy_readers S) s)) \<and>
      (\<not> lv_active (sy_live S) \<longrightarrow> lv_aborted (sy_live S) \<or> sy_readers S = []) \<and>
      (\<not> lv_active (sy_live S) \<longrightarrow> lv_free_pending (sy_live S) = (sy_readers S \<noteq> []) \<and>
         (sy_readers S = [] \<longrightarrow> lv_present (sy_live S) = [])) \<and>
      (\<forall>p \<in> set (sy_readers S). phase_ok (sy_live S) (sy_file S) p))"

lemma parked_count_simps [simp]:
  "parked_count [] s = 0"
  "parked_count (p # rs) s = (if parked_at p = Some s then 1 else 0) + parked_count rs s"
  "parked_count (rs @ rs') s = parked_count rs s + parked_count rs' s"
  by (simp_all add: parked_count_def)

lemma sys_inv_init: "sys_inv sys_init"
  by (simp add: sys_inv_def sys_init_def live_inv_init)
    (simp add: live_init_def WS_LIVE_SLOTS_DEFAULT_def)

lemma phase_ok_cong:
  assumes "live_same_session L M"
  shows "phase_ok M F p = phase_ok L F p"
  using assms by (cases p) (simp_all add: live_same_session_def reading_def)

lemma phase_ok_frame:
  assumes "lv_active M = lv_active L" "lv_total M = lv_total L" "lv_nsegs M = lv_nsegs L"
  shows "phase_ok M F p = phase_ok L F p"
  using assms by (cases p) (simp_all add: reading_def)

text \<open>A step of the uploader: the session, its readers and its waiters stay as they are.\<close>

lemma sys_inv_store:
  assumes inv: "sys_inv S"
    and same: "live_same_session (sy_live S) L'"
    and w: "lv_waiters L' = lv_waiters (sy_live S)"
    and ok: "live_inv L'" and cont: "lv_active (sy_live S) \<Longrightarrow> live_content L' (sy_file S)"
    and pr: "\<not> lv_active (sy_live S) \<Longrightarrow> lv_present L' = lv_present (sy_live S)"
  shows "sys_inv (S\<lparr>sy_live := L'\<rparr>)"
proof -
  have "phase_ok L' (sy_file S) p" if "p \<in> set (sy_readers S)" for p
    using inv that phase_ok_cong [OF same] by (simp add: sys_inv_def)
  moreover have "lv_refs L' = lv_refs (sy_live S)" "lv_active L' = lv_active (sy_live S)"
    "lv_aborted L' = lv_aborted (sy_live S)" "lv_slots_cfg L' = lv_slots_cfg (sy_live S)"
    "lv_free_pending L' = lv_free_pending (sy_live S)" "lv_nsegs L' = lv_nsegs (sy_live S)"
    using same by (simp_all add: live_same_session_def)
  ultimately show ?thesis using inv ok cont w pr by (simp add: sys_inv_def)
qed

lemma live_inv_active: "live_inv L \<Longrightarrow> lv_active L \<Longrightarrow> live_ok L"
  by (simp add: live_inv_def)

lemma live_inv_of_ok: "live_ok L \<Longrightarrow> lv_active L \<Longrightarrow> live_inv L"
  by (simp add: live_inv_def)

section \<open>Every step keeps it\<close>

lemma same_inv:
  "live_inv L \<Longrightarrow> live_same_session L L' \<Longrightarrow> (lv_active L \<Longrightarrow> live_ok L') \<Longrightarrow> live_inv L'"
  by (simp add: live_inv_def live_same_session_def)

lemma try_write_frame:
  assumes "live_inv L" "offset < 2 ^ 64" "len < 2 ^ 64" "ws_live_try_write L offset (Some data) len = (L', r)"
  shows "live_inv L' \<and> live_same_session L L' \<and> live_same_reads L L' \<and> r \<in> {Ret 0, Ret (- 1), Ret (- 2)} \<and>
    (lv_active L \<and> live_content L F \<and> (\<forall>k < len. data k = F (offset + k)) \<longrightarrow> live_content L' F) \<and>
    (\<not> lv_active L \<longrightarrow> L' = L)"
proof (cases "L' = L \<and> r \<in> {Ret 0, Ret (- 1)}")
  case True
  then show ?thesis using assms(1) by (auto simp: live_same_reads_def)
next
  case False
  then have a: "lv_active L" and w: "try_write_segs L data offset len (seg_range offset len) = (L', r)"
    using assms(4) by (auto simp: ws_live_try_write_def split: if_splits)
  have ok: "live_ok L" using assms(1) a by (rule live_inv_active)
  have b: "\<forall>s \<in> set (seg_range offset len). s < 2 ^ 44" using seg_range_bound by blast
  note try_write_segs_ok [OF ok b assms(2,3) w]
  moreover have "live_content L' F" if "live_content L F" "\<forall>k < len. data k = F (offset + k)"
    using try_write_segs_content [OF ok b assms(2,3) w that(1)] that(2) by blast
  ultimately show ?thesis using a same_inv [OF assms(1)] by blast
qed

lemma write_segs_frame:
  assumes "live_ok L" "lv_active L" "offset < 2 ^ 64" "len < 2 ^ 64" "\<forall>s \<in> set ss. s < 2 ^ 44"
    and w: "write_segs L data offset len ss = (L', r)"
  shows "live_inv L' \<and> live_same_session L L' \<and> live_same_reads L L' \<and> r \<noteq> WUB \<and>
    (live_content L F \<and> (\<forall>k < len. data k = F (offset + k)) \<longrightarrow> live_content L' F)"
proof -
  note f = write_segs_ok [OF assms(1,5,3,4) w]
  have "live_inv L'" using f assms(2) by (simp add: live_inv_def live_same_session_def)
  then show ?thesis using f write_segs_content [OF assms(1,5,3,4) w] by blast
qed

lemma write_frame:
  assumes "live_inv L" "offset < 2 ^ 64" "len < 2 ^ 64" "ws_live_write L offset (Some data) len = (L', r)"
  shows "live_inv L' \<and> live_same_session L L' \<and> live_same_reads L L' \<and> r \<noteq> WUB \<and>
    (lv_active L \<and> live_content L F \<and> (\<forall>k < len. data k = F (offset + k)) \<longrightarrow> live_content L' F) \<and>
    (\<not> lv_active L \<longrightarrow> L' = L)"
proof (cases "L' = L \<and> r \<in> {WRet 0, WRet (- 1)}")
  case True
  then show ?thesis using assms(1) by (auto simp: live_same_reads_def)
next
  case False
  then have a: "lv_active L" and w: "write_segs L data offset len (seg_range offset len) = (L', r)"
    using assms(4) by (auto simp: ws_live_write_def split: if_splits)
  have b: "\<forall>s \<in> set (seg_range offset len). s < 2 ^ 44" using seg_range_bound by blast
  show ?thesis
    using write_segs_frame [OF live_inv_active [OF assms(1) a] a assms(2,3) b w] a by blast
qed

text \<open>A woken writer whose session was destroyed meanwhile finds it aborted and leaves.\<close>

lemma write_wake_frame:
  assumes "live_inv L" "offset < 2 ^ 64" "len < 2 ^ 64" "\<forall>s \<in> set pending. s < 2 ^ 44"
    and "write_wake L offset data len pending expired = (L', r)" and "lv_active L \<or> lv_aborted L"
  shows "live_inv L' \<and> live_same_session L L' \<and> live_same_reads L L' \<and> r \<noteq> WUB \<and>
    (lv_active L \<and> live_content L F \<and> (\<forall>k < len. data k = F (offset + k)) \<longrightarrow> live_content L' F) \<and>
    (\<not> lv_active L \<longrightarrow> L' = L)"
proof (cases "\<not> expired \<and> lv_active L")
  case True
  then have w: "write_segs L data offset len pending = (L', r)" using assms(5) by (simp add: write_wake_def)
  show ?thesis using write_segs_frame [OF live_inv_active [OF assms(1)] _ assms(2,3,4) w] True by blast
next
  case False
  have "L' = L \<and> r \<noteq> WUB"
    using False assms(5,6) by (cases pending; cases expired) (auto simp: write_wake_def)
  then show ?thesis using assms(1) by (auto simp: live_same_reads_def)
qed

text \<open>One reader moves from phase p to p', and the waiter counts move with it.\<close>

definition parked_one :: "phase \<Rightarrow> nat \<Rightarrow> nat" where
  "parked_one p s = (if parked_at p = Some s then 1 else 0)"

lemma sys_inv_reader:
  assumes inv: "sys_inv S" and rs: "sy_readers S = rs @ p # rs'"
    and same: "live_same_session (sy_live S) L'" and ok: "live_inv L'"
    and cont: "lv_active (sy_live S) \<Longrightarrow> live_content L' (sy_file S)"
    and pr: "\<not> lv_active (sy_live S) \<Longrightarrow> lv_present L' = lv_present (sy_live S)"
    and w: "\<And>s. lv_active (sy_live S) \<Longrightarrow> s < lv_nsegs (sy_live S) \<Longrightarrow>
      lv_waiters L' ! s + parked_one p s = lv_waiters (sy_live S) ! s + parked_one p' s"
    and ph: "phase_ok L' (sy_file S) p'"
  shows "sys_inv (S\<lparr>sy_live := L', sy_readers := rs @ p' # rs'\<rparr>)"
proof -
  have others: "phase_ok L' (sy_file S) q" if "q \<in> set rs \<or> q \<in> set rs'" for q
    using inv that phase_ok_cong [OF same] rs by (auto simp: sys_inv_def)
  have counts: "lv_waiters L' ! s = parked_count (rs @ p' # rs') s"
    if "lv_active (sy_live S)" "s < lv_nsegs (sy_live S)" for s
  proof -
    have "lv_waiters (sy_live S) ! s = parked_count (rs @ p # rs') s"
      using inv that rs by (simp add: sys_inv_def)
    then show ?thesis using w [OF that] by (simp add: parked_one_def split: if_splits)
  qed
  have "lv_refs L' = lv_refs (sy_live S)" "lv_active L' = lv_active (sy_live S)"
    "lv_aborted L' = lv_aborted (sy_live S)" "lv_slots_cfg L' = lv_slots_cfg (sy_live S)"
    "lv_free_pending L' = lv_free_pending (sy_live S)" "lv_nsegs L' = lv_nsegs (sy_live S)"
    using same by (simp_all add: live_same_session_def)
  then show ?thesis using inv ok cont pr ph others counts rs by (auto simp: sys_inv_def)
qed

lemma read_pass_inactive:
  "lv_aborted L \<Longrightarrow> read_pass L r now = (L', r', res) \<Longrightarrow> L' = L \<and> r' = r \<and> res = RRet (- 1)"
  by (simp add: read_pass_def)

lemma outcome_phase:
  assumes out: "pass_outcome L F r L' r' res" and same: "live_same_session L L'" and rd: "reading L F r"
  shows "phase_ok L' F (read_phase r' res)"
    and "\<And>s. s < lv_nsegs L \<Longrightarrow> length (lv_waiters L) = lv_nsegs L \<Longrightarrow>
           lv_waiters L' ! s = lv_waiters L ! s + parked_one (read_phase r' res) s"
proof -
  have n: "lv_nsegs L' = lv_nsegs L" "lv_total L' = lv_total L" using same by (simp_all add: live_same_session_def)
  have cnt: "rd_count r' = rd_count r \<and> rd_start r' = rd_start r" if "res = RRet n" "n \<noteq> - 1" for n
    using out that by (simp add: pass_outcome_def)
  show "phase_ok L' F (read_phase r' res)"
    using out rd n cnt by (cases res) (auto simp: pass_outcome_def reading_def)
  show "lv_waiters L' ! s = lv_waiters L ! s + parked_one (read_phase r' res) s"
    if "s < lv_nsegs L" "length (lv_waiters L) = lv_nsegs L" for s
    using out that by (cases res) (auto simp: pass_outcome_def parked_one_def nth_list_update)
qed

lemma create_fresh:
  assumes "ws_live_create L env ok new_id fname tot ring sid_max = (L', rc, out)" and "L' \<noteq> L"
  shows "\<not> lv_active L \<and> lv_refs L = 0 \<and> lv_active L' \<and> \<not> lv_free_pending L' \<and> lv_refs L' = 0 \<and>
    lv_slots_cfg L' = lv_slots_cfg L \<and> lv_nsegs L' = seg_count tot \<and>
    lv_present L' = replicate (max 1 (seg_count tot)) False \<and>
    lv_waiters L' = replicate (max 1 (seg_count tot)) 0"
  using assms by (auto simp: ws_live_create_def Let_def split: if_splits)

lemma sys_inv_create:
  assumes inv: "sys_inv S"
    and cr: "ws_live_create (sy_live S) env ok new_id fname tot ring sid_max = (L', rc, out)"
    and tot: "tot \<le> LIVE_MAX"
  shows "sys_inv (S\<lparr>sy_live := L', sy_file := (if lv_active (sy_live S) \<or> L' = sy_live S then sy_file S else F)\<rparr>)"
proof (cases "L' = sy_live S")
  case True
  then show ?thesis using inv by simp
next
  case False
  note c = create_fresh [OF cr False]
  have "live_inv L'"
    using create_inv [OF _ _ tot cr] inv by (simp add: sys_inv_def)
  moreover have "live_content L' F" using c by (simp add: live_content_def)
  moreover have "sy_readers S = []" using inv c by (simp add: sys_inv_def)
  ultimately show ?thesis using c inv False by (simp add: sys_inv_def)
qed

lemma sys_inv_write:
  assumes inv: "sys_inv S"
    and f: "live_inv L' \<and> live_same_session (sy_live S) L' \<and> live_same_reads (sy_live S) L' \<and> Q \<and>
      (lv_active (sy_live S) \<and> live_content (sy_live S) (sy_file S) \<and> (\<forall>k < len. data k = sy_file S (offset + k)) \<longrightarrow>
         live_content L' (sy_file S)) \<and> (\<not> lv_active (sy_live S) \<longrightarrow> L' = sy_live S)"
    and data: "\<And>k. k < len \<Longrightarrow> data k = sy_file S (offset + k)"
  shows "sys_inv (S\<lparr>sy_live := L'\<rparr>)"
proof (rule sys_inv_store [OF inv])
  show "lv_active (sy_live S) \<Longrightarrow> live_content L' (sy_file S)"
    using f data inv by (simp add: sys_inv_def)
qed (use f in \<open>auto simp: live_same_reads_def\<close>)

lemma sys_inv_destroy:
  assumes "sys_inv S"
  shows "sys_inv (S\<lparr>sy_live := ws_live_destroy (sy_live S)\<rparr>)"
proof (cases "lv_active (sy_live S)")
  case True
  have i: "live_inv (ws_live_destroy (sy_live S))" using assms destroy_inv by (simp add: sys_inv_def)
  have "phase_ok (ws_live_destroy (sy_live S)) (sy_file S) p" if "p \<in> set (sy_readers S)" for p
    using assms that True by (cases p) (auto simp: sys_inv_def ws_live_destroy_def free_locked_def Let_def)
  then show ?thesis using assms True i
    by (simp add: sys_inv_def) (simp add: ws_live_destroy_def free_locked_def Let_def)
next
  case False
  then show ?thesis using assms by (simp add: ws_live_destroy_def)
qed

lemma sys_inv_plain:
  assumes inv: "sys_inv S" and "L' \<in> {fst (ws_live_finish (sy_live S)), ws_live_abort (sy_live S),
    ws_live_set_timeout_sec (sy_live S) n, ws_live_set_slots (sy_live S) n, ws_live_set_seek_fn (sy_live S) b}"
  shows "sys_inv (S\<lparr>sy_live := L'\<rparr>)"
proof -
  let ?L = "sy_live S"
  have f: "live_inv L' \<and> lv_active L' = lv_active ?L \<and> (lv_aborted ?L \<longrightarrow> lv_aborted L') \<and> lv_refs L' = lv_refs ?L \<and>
    lv_free_pending L' = lv_free_pending ?L \<and> lv_waiters L' = lv_waiters ?L \<and> lv_nsegs L' = lv_nsegs ?L \<and>
    lv_total L' = lv_total ?L \<and> lv_present L' = lv_present ?L \<and> lv_slot_of L' = lv_slot_of ?L \<and>
    lv_slots L' = lv_slots ?L \<and> 4 \<le> lv_slots_cfg L' \<and> lv_slots_cfg L' \<le> 4096"
    using assms unfolding sys_inv_def insert_iff empty_iff
    by (elim disjE conjE)
      (simp_all add: abort_inv set_timeout_inv set_slots_inv set_seek_inv ws_live_finish_def Let_def
        ws_live_abort_def ws_live_set_timeout_sec_def ws_live_set_slots_def ws_live_set_seek_fn_def live_inv_def)
  have ph: "phase_ok L' (sy_file S) p" if "p \<in> set (sy_readers S)" for p
    using inv that f by (cases p) (auto simp: sys_inv_def reading_def)
  have "live_content L' G = live_content ?L G" for G
    using f by (simp add: live_content_def seg_len_locked_def cong: if_cong)
  then show ?thesis using inv f ph by (auto simp: sys_inv_def)
qed

lemma live_content_refs [simp]: "live_content (L\<lparr>lv_refs := k\<rparr>) G = live_content L G"
  by (simp add: live_content_def seg_len_locked_def cong: if_cong)

lemma sys_inv_attach:
  assumes inv: "sys_inv S" and a: "ws_live_attach (sy_live S) = (L', 0)"
  shows "sys_inv (S\<lparr>sy_live := L', sy_readers := sy_readers S @ [Idle]\<rparr>)"
proof -
  have L': "lv_active (sy_live S)" "L' = (sy_live S)\<lparr>lv_refs := Suc (lv_refs (sy_live S))\<rparr>"
    using a by (auto simp: ws_live_attach_def split: if_splits)
  have "live_inv L'" using attach_inv [of "sy_live S"] inv a by (simp add: sys_inv_def)
  moreover have "phase_ok L' (sy_file S) p = phase_ok (sy_live S) (sy_file S) p" for p
    by (cases p) (simp_all add: L' reading_def)
  moreover have "live_content L' (sy_file S) = live_content (sy_live S) (sy_file S)"
    by (simp add: L')
  ultimately show ?thesis using inv L'(1) by (simp add: sys_inv_def) (simp add: L'(2))
qed

lemma sys_inv_detach:
  assumes inv: "sys_inv S" and rs: "sy_readers S = rs @ Idle # rs'"
  shows "sys_inv (S\<lparr>sy_live := ws_live_detach (sy_live S), sy_readers := rs @ rs'\<rparr>)"
proof -
  let ?L = "sy_live S" and ?L' = "ws_live_detach (sy_live S)"
  have refs: "lv_refs ?L = Suc (length (rs @ rs'))" using inv rs by (simp add: sys_inv_def)
  have i: "live_inv ?L'" using detach_inv inv by (simp add: sys_inv_def)
  have f: "lv_refs ?L' = length (rs @ rs')" "lv_active ?L' = lv_active ?L" "lv_aborted ?L' = lv_aborted ?L"
      "lv_slots_cfg ?L' = lv_slots_cfg ?L" "lv_nsegs ?L' = lv_nsegs ?L" "lv_total ?L' = lv_total ?L"
    using refs by (simp_all add: ws_live_detach_def Let_def free_locked_def)
  have act: "lv_active ?L \<Longrightarrow> ?L' = ?L\<lparr>lv_refs := length (rs @ rs')\<rparr>"
    using refs inv rs by (simp add: ws_live_detach_def Let_def sys_inv_def)
  have inact: "\<not> lv_active ?L \<Longrightarrow> lv_free_pending ?L' = (rs @ rs' \<noteq> []) \<and> (rs @ rs' = [] \<longrightarrow> lv_present ?L' = [])"
    using refs inv rs by (simp add: ws_live_detach_def Let_def free_locked_def sys_inv_def)
  have ph: "phase_ok ?L' (sy_file S) p" if "p \<in> set (rs @ rs')" for p
  proof -
    have "phase_ok ?L (sy_file S) p" using inv that rs by (auto simp: sys_inv_def)
    then show ?thesis using phase_ok_frame [OF f(2,6,5)] by simp
  qed
  show ?thesis
    using inv i f ph inact act rs by (cases "lv_active ?L") (auto simp: sys_inv_def)
qed

lemma sys_inv_read_pass:
  assumes inv: "sys_inv S" and rs: "sy_readers S = rs @ Looping r # rs'"
    and st: "read_pass (sy_live S) r now = (L', r', res)"
  shows "sys_inv (S\<lparr>sy_live := L', sy_readers := rs @ read_phase r' res # rs'\<rparr>)"
proof (cases "lv_active (sy_live S)")
  case True
  have ok: "live_ok (sy_live S)" using inv True live_inv_active by (simp add: sys_inv_def)
  have cont: "live_content (sy_live S) (sy_file S)" using inv True by (simp add: sys_inv_def)
  have rd: "reading (sy_live S) (sy_file S) r" using inv rs True by (auto simp: sys_inv_def)
  have len: "length (lv_waiters (sy_live S)) = lv_nsegs (sy_live S)"
    using ok by (simp add: live_ok_def live_shape_def)
  note f = read_pass_spec [OF ok cont rd st]
  have same: "live_same_session (sy_live S) L'" using f by simp
  have i: "live_inv L'" using f True by (simp add: live_inv_def live_same_session_def)
  show ?thesis
  proof (rule sys_inv_reader [OF inv rs same i])
    show "phase_ok L' (sy_file S) (read_phase r' res)"
      using outcome_phase(1) [OF _ same rd] f by blast
    show "lv_waiters L' ! s + parked_one (Looping r) s = lv_waiters (sy_live S) ! s + parked_one (read_phase r' res) s"
      if "s < lv_nsegs (sy_live S)" for s
      using outcome_phase(2) [OF _ same rd that len, of r' res] f by (simp add: parked_one_def)
  qed (use f True in auto)
next
  case False
  then have "lv_aborted (sy_live S)" using inv rs by (auto simp: sys_inv_def)
  from read_pass_inactive [OF this st] have "L' = sy_live S" "res = RRet (- 1)" by auto
  then show ?thesis using False inv by (intro sys_inv_reader [OF inv rs]) (auto simp: sys_inv_def)
qed

lemma unpark_sys:
  assumes inv: "sys_inv S" and rs: "sy_readers S = rs @ p # rs'" and at: "parked_at p = Some s"
    and s: "lv_active (sy_live S) \<Longrightarrow> s < lv_nsegs (sy_live S)" and at': "parked_at p' = None"
    and ph: "phase_ok (unpark (sy_live S) s) (sy_file S) p'"
  shows "sys_inv (S\<lparr>sy_live := unpark (sy_live S) s, sy_readers := rs @ p' # rs'\<rparr>)"
proof (rule sys_inv_reader [OF inv rs])
  let ?L = "sy_live S"
  show same: "live_same_session ?L (unpark ?L s)" by (rule unpark_frame(1))
  show "live_inv (unpark ?L s)"
    using inv by (intro same_inv [OF _ same]) (auto simp: sys_inv_def live_inv_active unpark_frame(6))
  show "live_content (unpark ?L s) (sy_file S)" if "lv_active ?L"
    using inv that live_content_cong [OF same] by (simp add: sys_inv_def park_simps)
  show "lv_waiters (unpark ?L s) ! t + parked_one p t = lv_waiters ?L ! t + parked_one p' t"
    if a: "lv_active ?L" and t: "t < lv_nsegs ?L" for t
  proof -
    have "live_ok ?L" using inv a live_inv_active by (simp add: sys_inv_def)
    then have l: "length (lv_waiters ?L) = lv_nsegs ?L" by (simp add: live_ok_def live_shape_def)
    have "lv_waiters ?L ! s = parked_count (rs @ p # rs') s" using inv a s rs by (simp add: sys_inv_def)
    then have "0 < lv_waiters ?L ! s" using at by simp
    then show ?thesis using at at' t l s [OF a] unpark_waiters [OF s [OF a]]
      by (auto simp: parked_one_def nth_list_update)
  qed
qed (use ph in \<open>simp_all add: park_simps\<close>)

lemma sys_inv_relock:
  assumes inv: "sys_inv S" and rs: "sy_readers S = rs @ Seeking r s # rs'"
    and st: "read_relock (sy_live S) s = (L', res)"
  shows "sys_inv (S\<lparr>sy_live := L', sy_readers := rs @ read_phase r res # rs'\<rparr>)"
proof -
  have ph: "phase_ok (sy_live S) (sy_file S) (Seeking r s)" using inv rs by (auto simp: sys_inv_def)
  have lp: "phase_ok (unpark (sy_live S) s) (sy_file S) (Looping r)"
    using ph unfolding phase_ok_cong [OF unpark_frame(1)] by simp
  from st consider
      "L' = unpark (sy_live S) s" "res = RRet (- 1)"
    | "L' = unpark (sy_live S) s" "res = RAgain"
    | "L' = sy_live S" "res = RWait s"
    by (auto simp: read_relock_def split: if_splits)
  then show ?thesis
  proof cases
    case 1
    then show ?thesis using ph by (simp, intro unpark_sys [OF inv rs]) auto
  next
    case 2
    then show ?thesis using ph lp unpark_sys [OF inv rs _ _ _ lp] by simp
  next
    case 3
    have "sys_inv (S\<lparr>sy_live := sy_live S, sy_readers := rs @ Waiting r s # rs'\<rparr>)"
      using ph inv by (intro sys_inv_reader [OF inv rs]) (auto simp: sys_inv_def parked_one_def)
    with 3 show ?thesis by simp
  qed
qed

lemma sys_inv_wake:
  assumes inv: "sys_inv S" and rs: "sy_readers S = rs @ Waiting r s # rs'"
    and st: "read_wake (sy_live S) s expired = (L', res)"
  shows "sys_inv (S\<lparr>sy_live := L', sy_readers := rs @ read_phase r res # rs'\<rparr>)"
proof -
  have ph: "phase_ok (sy_live S) (sy_file S) (Waiting r s)" using inv rs by (auto simp: sys_inv_def)
  have lp: "phase_ok (unpark (sy_live S) s) (sy_file S) (Looping r)"
    using ph unfolding phase_ok_cong [OF unpark_frame(1)] by simp
  have "L' = unpark (sy_live S) s" "res = RRet (- 1) \<or> res = RAgain"
    using st by (auto simp: read_wake_def split: if_splits)
  then show ?thesis using ph unpark_sys [OF inv rs _ _ _ lp] unpark_sys [OF inv rs, of s "Returned r (- 1)"] by auto
qed

lemma sys_inv_read_begin:
  assumes inv: "sys_inv S" and rs: "sy_readers S = rs @ Idle # rs'"
    and b: "read_begin (sy_live S) off buf count = Inr r"
  shows "sys_inv (S\<lparr>sy_readers := rs @ Looping r # rs'\<rparr>)"
proof -
  have a: "lv_active (sy_live S)" using b by (simp add: read_begin_def split: if_splits)
  have "live_ok (sy_live S)" using inv a live_inv_active by (simp add: sys_inv_def)
  then have "lv_total (sy_live S) < 2 ^ 52" using live_total_small by (simp add: live_ok_def)
  then have "reading (sy_live S) (sy_file S) r"
    using b by (auto simp: read_begin_def reading_def Let_def u64_add_small split: if_splits)
  then have "sys_inv (S\<lparr>sy_live := sy_live S, sy_readers := rs @ Looping r # rs'\<rparr>)"
    using inv by (intro sys_inv_reader [OF inv rs]) (auto simp: sys_inv_def parked_one_def)
  then show ?thesis by simp
qed

lemma sys_inv_return:
  assumes inv: "sys_inv S" and rs: "sy_readers S = rs @ Returned r n # rs'"
  shows "sys_inv (S\<lparr>sy_readers := rs @ Idle # rs'\<rparr>)"
proof -
  have "sys_inv (S\<lparr>sy_live := sy_live S, sy_readers := rs @ Idle # rs'\<rparr>)"
    using inv by (intro sys_inv_reader [OF inv rs]) (auto simp: sys_inv_def parked_one_def)
  then show ?thesis by simp
qed

lemma sys_inv_step:
  assumes "live_step S S'" and inv: "sys_inv S"
  shows "sys_inv S'"
  using assms(1)
proof cases
  case (step_create env ok new_id fname tot ring sid_max L' rc out F)
  then show ?thesis using sys_inv_create [OF inv] by blast
next
  case (step_try_write offset len data)
  have "live_inv (sy_live S)" using inv by (simp add: sys_inv_def)
  from try_write_frame [OF this step_try_write(2,3) surjective_pairing]
  show ?thesis unfolding step_try_write(1) by (intro sys_inv_write [OF inv _ step_try_write(4)]) blast
next
  case (step_write offset len data)
  have "live_inv (sy_live S)" using inv by (simp add: sys_inv_def)
  from write_frame [OF this step_write(2,3) surjective_pairing]
  show ?thesis unfolding step_write(1) by (intro sys_inv_write [OF inv _ step_write(4)]) blast
next
  case (step_write_wake offset len data pending expired)
  have "live_inv (sy_live S)" using inv by (simp add: sys_inv_def)
  from write_wake_frame [OF this step_write_wake(2,3,5) surjective_pairing step_write_wake(6)]
  show ?thesis unfolding step_write_wake(1) by (intro sys_inv_write [OF inv _ step_write_wake(4)]) blast
next
  case step_destroy
  then show ?thesis using sys_inv_destroy [OF inv] by simp
next
  case step_finish
  then show ?thesis using sys_inv_plain [OF inv] by blast
next
  case step_abort
  then show ?thesis using sys_inv_plain [OF inv] by blast
next
  case (step_timeout n)
  then show ?thesis using sys_inv_plain [OF inv] by blast
next
  case (step_slots n)
  then show ?thesis using sys_inv_plain [OF inv] by blast
next
  case (step_seek_fn b)
  then show ?thesis using sys_inv_plain [OF inv] by blast
qed (use sys_inv_attach [OF inv] sys_inv_detach [OF inv] sys_inv_read_begin [OF inv]
    sys_inv_read_pass [OF inv] sys_inv_relock [OF inv] sys_inv_wake [OF inv] sys_inv_return [OF inv] in simp_all)

lemma reach_sys_inv: "live_reach S \<Longrightarrow> sys_inv S"
  by (induction rule: live_reach.induct) (auto intro: sys_inv_init sys_inv_step)

end
