(* ===== verification/LiveClaims.thy ===== *)
theory LiveClaims
  imports LiveSystem
begin

text \<open>
  What the live session promises: the properties of src/src/ws_stream.c that its callers
  rely on, with concrete sessions at which they are applied.
\<close>

section \<open>Concrete sessions\<close>

text \<open>
  A session for a file of ten bytes: created, its only chunk stored, a reader attached,
  a read of bytes 2 to 5 begun and run.
\<close>

definition demo_file :: mem where
  "demo_file = (\<lambda>i. word_of_nat (3 * i + 1))"

definition demo_created :: live where
  "demo_created = fst (ws_live_create live_init None True ''live1'' ''/data/a.pkg'' 10 0 64)"

definition demo_stored :: live where
  "demo_stored = fst (ws_live_try_write demo_created 0 (Some demo_file) 10)"

definition demo_reader :: reader where
  "demo_reader = \<lparr>rd_off = 2, rd_got = 0, rd_count = 4, rd_start = 2, rd_end = 6, rd_dst = (\<lambda>_. 0)\<rparr>"

lemma demo_created_eq:
  "demo_created = live_init\<lparr>lv_session_id := ''live1'', lv_filename := ''a.pkg'', lv_total := 10,
     lv_nsegs := 1, lv_present := [False], lv_slot_of := [- 1], lv_nslots := 5,
     lv_last_use := [0, 0, 0, 0, 0], lv_slot_seg := [- 1, - 1, - 1, - 1, - 1],
     lv_slot_read := [False, False, False, False, False], lv_waiters := [0], lv_acked_ever := [False],
     lv_seek_sent := [0], lv_active := True\<rparr>"
proof -
  have n: "seg_count 10 = 1" by (simp add: seg_count_def u64_simps SEG_def)
  have k: "create_slots live_init None 0 1 = 5"
    by (simp add: create_slots_def clamp_slots_def default_slots_def u64_simps live_init_def
        WS_LIVE_SLOTS_DEFAULT_def)
  have r: "replicate 5 x = [x, x, x, x, x]" for x :: 'a by (simp add: numeral_eq_Suc)
  have s: "max 1 (1::nat) = 1" "c_trunc 64 ''live1'' = ''live1''" "c_trunc 256 ''a.pkg'' = ''a.pkg''"
    by (simp_all add: c_trunc_def)
  show ?thesis
    unfolding demo_created_def ws_live_create_def Let_def n k s r
    by (simp add: live_init_def s)
qed

lemma seg_range_demo: "seg_range 0 10 = [0]"
  by (simp add: seg_range_def SEG_def u64_simps)

lemma demo_stored_eq:
  "demo_stored = demo_created\<lparr>lv_slot_of := [0], lv_slot_seg := [0, - 1, - 1, - 1, - 1],
     lv_cache_log := [(0, 0, 0)], lv_slots := memcpy (\<lambda>_. 0) 0 demo_file 0 10,
     lv_present := [True], lv_present_count := 1, lv_acked_ever := [True], lv_tick := 1,
     lv_last_use := [1, 0, 0, 0, 0]\<rparr>"
proof -
  have "store_seg_locked demo_created 0 demo_file 0 10 = (demo_created\<lparr>lv_slot_of := [0],
     lv_slot_seg := [0, - 1, - 1, - 1, - 1],
     lv_cache_log := [(0, 0, 0)], lv_slots := memcpy (\<lambda>_. 0) 0 demo_file 0 10,
     lv_present := [True], lv_present_count := 1, lv_acked_ever := [True], lv_tick := 1,
     lv_last_use := [1, 0, 0, 0, 0]\<rparr>, Stored 0)"
    by (simp add: demo_created_eq live_init_def store_seg_locked_def seg_len_locked_def u64_simps
        alloc_slot_locked_def bind_slot_def i32_def Let_def SEG_def upt_rec)
  then show ?thesis
    by (simp add: demo_stored_def ws_live_try_write_def seg_range_demo)
      (simp add: demo_created_eq live_init_def u64_simps)
qed

definition demo_sys :: sys where
  "demo_sys = \<lparr>sy_live = demo_stored\<lparr>lv_refs := 1\<rparr>, sy_file = demo_file, sy_readers = [Looping demo_reader]\<rparr>"

lemma demo_created_reach: "live_reach (sys_init\<lparr>sy_live := demo_created, sy_file := demo_file\<rparr>)"
proof -
  let ?S1 = "sys_init\<lparr>sy_live := demo_created, sy_file := demo_file\<rparr>"
  have "live_step sys_init (sys_init\<lparr>sy_live := demo_created,
      sy_file := (if lv_active (sy_live sys_init) \<or> demo_created = sy_live sys_init then sy_file sys_init else demo_file)\<rparr>)"
    by (rule step_create [where env = None and ok = True and new_id = "''live1''" and
          fname = "''/data/a.pkg''" and tot = 10 and ring = 0 and sid_max = 64])
      (simp_all add: demo_created_def sys_init_def prod_eq_iff LIVE_MAX_def)
  moreover have i: "\<not> lv_active live_init" by (simp add: live_init_def)
  moreover have "lv_active demo_created" by (simp add: demo_created_eq)
  with i have "demo_created \<noteq> live_init" by auto
  ultimately have "live_step sys_init ?S1" by (simp add: sys_init_def)
  then show ?thesis by (rule reach_step [OF reach_init])
qed

lemma demo_sys_reach: "live_reach demo_sys"
proof -
  let ?S1 = "sys_init\<lparr>sy_live := demo_created, sy_file := demo_file\<rparr>"
  note r1 = demo_created_reach
  let ?S2 = "?S1\<lparr>sy_live := demo_stored\<rparr>"
  have "live_step ?S1 (?S1\<lparr>sy_live := fst (ws_live_try_write (sy_live ?S1) 0 (Some demo_file) 10)\<rparr>)"
    by (rule step_try_write) simp_all
  then have r2: "live_reach ?S2" using reach_step [OF r1] by (simp add: demo_stored_def)
  let ?L3 = "demo_stored\<lparr>lv_refs := 1\<rparr>"
  let ?S3 = "?S2\<lparr>sy_live := ?L3, sy_readers := sy_readers ?S2 @ [Idle]\<rparr>"
  have "ws_live_attach (sy_live ?S2) = (?L3, 0)"
    by (simp add: ws_live_attach_def demo_stored_eq demo_created_eq) (simp add: live_init_def)
  then have r3: "live_reach ?S3" by (intro reach_step [OF r2] step_attach)
  have b: "read_begin (sy_live ?S3) 2 (\<lambda>_. 0) 4 = Inr demo_reader"
    by (simp add: read_begin_def demo_stored_eq demo_created_eq demo_reader_def u64_simps)
  have "live_step ?S3 (?S3\<lparr>sy_readers := [] @ Looping demo_reader # []\<rparr>)"
    by (rule step_read_begin [OF _ b]) (simp add: sys_init_def)
  then show ?thesis using reach_step [OF r3] by (simp add: demo_sys_def sys_init_def)
qed

text \<open>The read of the demo, run: bytes 2 to 5 of the file.\<close>

definition demo_done :: reader where
  "demo_done = demo_reader\<lparr>rd_dst := memcpy (\<lambda>_. 0) 0 (lv_slots demo_stored) 2 4, rd_off := 6, rd_got := 4\<rparr>"

lemma demo_read:
  "\<exists>L'. read_pass (sy_live demo_sys) demo_reader 0 = (L', demo_done, RRet 4)"
proof -
  let ?L = "sy_live demo_sys"
  have L: "lv_nsegs ?L = 1" "lv_present ?L = [True]" "lv_total ?L = 10" "lv_slot_of ?L = [0]"
    "lv_nslots ?L = 5" "\<not> lv_aborted ?L" "lv_slots ?L = lv_slots demo_stored"
    by (simp_all add: demo_sys_def demo_stored_eq demo_created_eq live_init_def)
  have m: "first_missing ?L 2 6 = 6"
    by (simp add: first_missing.simps [of _ 2] L Let_def SEG_def u64_simps)
  have len: "copy_len ?L demo_reader = 4"
    by (simp add: copy_len_def demo_reader_def SEG_def Let_def seg_len_locked_def L u64_simps)
  obtain M where a: "copy_advance ?L demo_reader 0 4 = (M, demo_done)"
    by (simp add: copy_advance_def demo_done_def demo_reader_def SEG_def u64_simps L flip: numeral_2_eq_2)
  then have "copy_seg ?L demo_reader = CStep M demo_done"
    by (simp add: copy_seg_def len L) (simp add: demo_reader_def SEG_def Let_def L)
  then have c: "read_copy ?L demo_reader = Copied M demo_done"
    by (simp add: read_copy.simps [of _ demo_reader] read_copy.simps [of _ demo_done])
      (simp add: demo_done_def demo_reader_def)
  show ?thesis
    using c m by (simp add: read_pass_def L u64_simps demo_reader_def demo_done_def)
qed

lemma demo_done_reach:
  "\<exists>L'. live_reach (demo_sys\<lparr>sy_live := L', sy_readers := [Returned demo_done 4]\<rparr>)"
proof -
  obtain L' where "read_pass (sy_live demo_sys) demo_reader 0 = (L', demo_done, RRet 4)"
    using demo_read by blast
  then have "live_step demo_sys (demo_sys\<lparr>sy_live := L', sy_readers := [] @ read_phase demo_done (RRet 4) # []\<rparr>)"
    by (intro step_read_pass) (simp_all add: demo_sys_def)
  from reach_step [OF demo_sys_reach this] show ?thesis by (intro exI) simp
qed

section \<open>Reads return the file\<close>

text \<open>C32: In every reachable state of the session with its writers and readers, in any
  order of their steps (segments evicted and uploaded again, aborts, seeks, timeouts), a call of
  ws_live_read that has returned either failed with -1 or returned exactly the
  clamped count it was asked for, and its buffer holds those bytes of the uploaded file.\<close>

theorem live_read_exact:
  assumes "live_reach S" and "Returned r n \<in> set (sy_readers S)"
  shows "n = - 1 \<or>
    (n = int (rd_count r) \<and> mem_bytes (rd_dst r) 0 (rd_count r) = mem_bytes (sy_file S) (rd_start r) (rd_count r))"
proof -
  have "phase_ok (sy_live S) (sy_file S) (Returned r n)"
    using reach_sys_inv [OF assms(1)] assms(2) unfolding sys_inv_def by blast
  then show ?thesis by (auto intro!: mem_bytes_eqI)
qed

theorem live_read_exact_witness:
  "mem_bytes (rd_dst demo_done) 0 4 = mem_bytes demo_file 2 4"
proof -
  obtain L' where r: "live_reach (demo_sys\<lparr>sy_live := L', sy_readers := [Returned demo_done 4]\<rparr>)"
    using demo_done_reach by blast
  show ?thesis
    using live_read_exact [OF r, of demo_done 4] by (simp add: demo_done_def demo_reader_def demo_sys_def)
qed

text \<open>C33: In every reachable state the session invariant holds (every array has its
  length, a segment is resident exactly when one slot names it and it names that slot),
  the reference count is the number of attached readers, and once the session is destroyed
  its arrays are freed exactly when the last reader has detached.\<close>

theorem live_reach_consistent:
  assumes "live_reach S"
  shows "live_inv (sy_live S) \<and> lv_refs (sy_live S) = length (sy_readers S) \<and>
    (lv_active (sy_live S) \<or> lv_free_pending (sy_live S) = (sy_readers S \<noteq> [])) \<and>
    (lv_active (sy_live S) \<or> sy_readers S \<noteq> [] \<or> lv_present (sy_live S) = [])"
  using reach_sys_inv [OF assms] unfolding sys_inv_def by blast

theorem live_reach_consistent_witness:
  "live_inv (sy_live demo_sys) \<and> lv_refs (sy_live demo_sys) = 1"
  using live_reach_consistent [OF demo_sys_reach] by (simp add: demo_sys_def)

section \<open>Waiters\<close>

lemma waiters_parked:
  assumes "live_reach S" "lv_active (sy_live S)" "s < lv_nsegs (sy_live S)"
  shows "lv_waiters (sy_live S) ! s = parked_count (sy_readers S) s"
  using reach_sys_inv [OF assms(1)] assms(2,3) unfolding sys_inv_def by blast

lemma sum_parked:
  assumes "\<And>p s. p \<in> set rs \<Longrightarrow> parked_at p = Some s \<Longrightarrow> s < n"
  shows "(\<Sum>s < n. parked_count rs s) = length (filter (\<lambda>p. parked_at p \<noteq> None) rs)"
  using assms
proof (induction rs)
  case Nil
  then show ?case by simp
next
  case (Cons p rs)
  have IH: "(\<Sum>s < n. parked_count rs s) = length (filter (\<lambda>p. parked_at p \<noteq> None) rs)"
    using Cons.prems by (intro Cons.IH) (meson list.set_intros(2))
  have "(\<Sum>s < n. if parked_at p = Some s then 1 else 0) = (if parked_at p \<noteq> None then 1 else (0 :: nat))"
  proof (cases "parked_at p")
    case (Some k)
    then have "k < n" using Cons.prems [of p k] by simp
    then have "(\<Sum>s < n. if k = s then 1 else 0) = (1 :: nat)" by simp
    then show ?thesis using Some by simp
  qed simp
  then show ?case using IH by (simp add: sum.distrib)
qed

lemma parked_in_range:
  assumes "sys_inv S" "lv_active (sy_live S)" "p \<in> set (sy_readers S)" "parked_at p = Some s"
  shows "s < lv_nsegs (sy_live S)"
proof -
  have "phase_ok (sy_live S) (sy_file S) p" using assms(1,3) unfolding sys_inv_def by blast
  then show ?thesis using assms(2,4) by (cases p) auto
qed

text \<open>ws_live_waiter_count, the demand signal that the uplink polls, is the number
  of readers parked in ws_live_read in every reachable state with a live session (as long as
  that number fits an int): no wake-up, timeout or seek path loses or doubles a waiter.\<close>

theorem waiter_count_exact:
  assumes "live_reach S" and "lv_active (sy_live S)" and "length (sy_readers S) < 2 ^ 31"
  shows "ws_live_waiter_count (sy_live S) = int (length (filter (\<lambda>p. parked_at p \<noteq> None) (sy_readers S)))"
proof -
  let ?L = "sy_live S"
  have inv: "sys_inv S" by (rule reach_sys_inv [OF assms(1)])
  then have "live_ok ?L" using assms(2) live_inv_active unfolding sys_inv_def by blast
  then have len: "length (lv_waiters ?L) = lv_nsegs ?L" "0 < lv_nsegs ?L"
    using nsegs_bound by (auto simp: live_ok_def live_shape_def)
  have "sum_list (map (\<lambda>s. lv_waiters ?L ! s) [0..<lv_nsegs ?L]) = (\<Sum>s < lv_nsegs ?L. lv_waiters ?L ! s)"
    by (simp add: sum_list_sum_nth atLeast0LessThan)
  also have "\<dots> = (\<Sum>s < lv_nsegs ?L. parked_count (sy_readers S) s)"
    using waiters_parked [OF assms(1,2)] by (intro sum.cong) auto
  also have "\<dots> = length (filter (\<lambda>p. parked_at p \<noteq> None) (sy_readers S))"
    using parked_in_range [OF inv assms(2)] by (intro sum_parked) blast
  finally have e: "sum_list (map (\<lambda>s. lv_waiters ?L ! s) [0..<lv_nsegs ?L]) =
    length (filter (\<lambda>p. parked_at p \<noteq> None) (sy_readers S))" .
  have "length (filter (\<lambda>p. parked_at p \<noteq> None) (sy_readers S)) < 2 ^ 31"
    using assms(3) length_filter_le le_less_trans by blast
  moreover have "lv_waiters ?L \<noteq> []" using len by auto
  ultimately show ?thesis using assms(2) e by (simp add: ws_live_waiter_count_def i32_small)
qed

theorem waiter_count_exact_witness:
  "ws_live_waiter_count (sy_live demo_sys) = 0"
proof -
  have "lv_active (sy_live demo_sys)" by (simp add: demo_sys_def demo_stored_eq demo_created_eq)
  from waiter_count_exact [OF demo_sys_reach this] show ?thesis by (simp add: demo_sys_def)
qed

section \<open>A waited-on segment finds a slot\<close>

lemma full_slots:
  assumes ok: "live_ok L" and full: "\<And>j. j < lv_nslots L \<Longrightarrow> 0 \<le> lv_slot_seg L ! j"
  shows "lv_nslots L \<le> card {s. s < lv_nsegs L \<and> lv_present L ! s}"
proof -
  have core: "live_core L" and bk: "live_back L {}" using ok by (auto simp: live_ok_def)
  let ?f = "\<lambda>j. nat (lv_slot_seg L ! j)"
  have b: "?f j < lv_nsegs L \<and> lv_slot_of L ! ?f j = int j" if "j < lv_nslots L" for j
    using bk that full [OF that] by (simp add: live_back_def)
  have "inj_on ?f {..< lv_nslots L}"
    by (rule inj_onI) (metis b lessThan_iff of_nat_eq_iff)
  moreover have "?f ` {..< lv_nslots L} \<subseteq> {s. s < lv_nsegs L \<and> lv_present L ! s}"
    using b live_coreD(1) [OF core] by auto
  ultimately have "card {..< lv_nslots L} \<le> card {s. s < lv_nsegs L \<and> lv_present L ! s}"
    by (rule card_inj_on_le) simp
  then show ?thesis by simp
qed

lemma awaited_evicts:
  assumes ok: "live_ok L" and seg: "seg < lv_nsegs L" and w: "0 < lv_waiters L ! seg"
    and s: "s < lv_nsegs L" "lv_present L ! s" "lv_waiters L ! s = 0"
  shows "live_evictable L seg s"
proof -
  have core: "live_core L" using ok by (simp add: live_ok_def)
  show ?thesis
    using live_coreD(1,5) [OF core s(1)] s seg w by (simp add: live_evictable_def)
qed

lemma awaited_alloc:
  assumes ok: "live_ok L" and seg: "seg < lv_nsegs L" and w: "0 < lv_waiters L ! seg"
    and few: "Suc (card {s. s < lv_nsegs L \<and> 0 < lv_waiters L ! s}) < lv_nslots L"
  shows "alloc_slot_locked L seg \<noteq> (L, - 1)"
proof
  assume busy: "alloc_slot_locked L seg = (L, - 1)"
  show False
  proof (cases rule: alloc_cases [OF ok seg])
    case 4
    let ?A = "{s. s < lv_nsegs L \<and> 0 < lv_waiters L ! s}"
    have "s \<in> insert 0 ?A" if "s < lv_nsegs L" "lv_present L ! s" for s
      using 4(3) [of s] awaited_evicts [OF ok seg w that] that by (cases "s = 0") auto
    then have "{s. s < lv_nsegs L \<and> lv_present L ! s} \<subseteq> insert 0 ?A" by blast
    then have "card {s. s < lv_nsegs L \<and> lv_present L ! s} \<le> card (insert 0 ?A)"
      by (intro card_mono) simp_all
    also have "\<dots> \<le> Suc (card ?A)" by (simp add: card_insert_if)
    finally have "card {s. s < lv_nsegs L \<and> lv_present L ! s} \<le> Suc (card ?A)" .
    then show False using full_slots [OF ok 4(4)] few by linarith
  qed (use busy in auto)
qed

lemma seg_range_one:
  assumes "live_shape L" and "s < lv_nsegs L"
  shows "seg_range (s * SEG) (seg_len_locked L s) = [s]"
    and "u64_add (s * SEG) (seg_len_locked L s) = s * SEG + seg_len_locked L s"
proof -
  let ?n = "seg_len_locked L s"
  have n: "0 < ?n" "?n \<le> SEG" using seg_len_pos [OF assms] seg_len_le by auto
  have small: "s * SEG + ?n < 2 ^ 64"
    using seg_end_le [OF assms] live_total_small [OF assms(1)] by simp
  then show a: "u64_add (s * SEG) ?n = s * SEG + ?n" by (rule u64_add_small)
  have "u64_sub (s * SEG + ?n) 1 = s * SEG + (?n - 1)"
    using n small by (subst u64_sub_small) auto
  moreover have "(s * SEG + (?n - 1)) div SEG = s" using n by (simp add: SEG_def)
  ultimately show "seg_range (s * SEG) ?n = [s]" by (simp add: seg_range_def a)
qed

lemma store_covering_result:
  assumes ok: "live_ok L" and cov: "covers L seg offset len" and st: "store_seg_locked L seg data offset len = (L', r)"
    and free: "alloc_slot_locked L seg \<noteq> (L, - 1)"
  shows "\<exists>i. r = Stored i"
proof -
  have seg: "seg < lv_nsegs L" "offset + len < 2 ^ 64" using cov by (simp_all add: covers_def)
  have s44: "seg < 2 ^ 44" using seg nsegs_bound [of L] ok by (simp add: live_ok_def)
  show ?thesis
    by (cases rule: store_seg_cases [OF ok s44 _ _ st]) (use cov free seg in auto)
qed

lemma awaited_card:
  assumes "live_reach S" and "lv_active (sy_live S)"
  shows "card {s. s < lv_nsegs (sy_live S) \<and> 0 < lv_waiters (sy_live S) ! s} \<le> length (sy_readers S)"
proof -
  let ?A = "{s. s < lv_nsegs (sy_live S) \<and> 0 < lv_waiters (sy_live S) ! s}"
  have "s \<in> (the \<circ> parked_at) ` set (sy_readers S)" if "s \<in> ?A" for s
  proof -
    have "0 < parked_count (sy_readers S) s" using that waiters_parked [OF assms] by auto
    then obtain p where "p \<in> set (sy_readers S)" "parked_at p = Some s"
      by (auto simp: parked_count_def filter_empty_conv)
    then show ?thesis by (metis comp_apply image_eqI option.sel)
  qed
  then have "?A \<subseteq> (the \<circ> parked_at) ` set (sy_readers S)" by blast
  then have "card ?A \<le> card ((the \<circ> parked_at) ` set (sy_readers S))"
    by (intro card_mono) auto
  also have "\<dots> \<le> card (set (sy_readers S))" by (rule card_image_le) simp
  also have "\<dots> \<le> length (sy_readers S)" by (rule card_length)
  finally show ?thesis .
qed

text \<open>C37: A segment that some reader waits for can always be stored: in every
  reachable state of a live session with at least two RAM slots more than attached readers,
  ws_live_try_write of that whole segment answers 0, never busy, whatever is resident. So a
  parked reader whose segment arrives is never starved by the cache.\<close>

theorem awaited_write_succeeds:
  assumes reach: "live_reach S" and act: "lv_active (sy_live S)" and na: "\<not> lv_aborted (sy_live S)"
    and p: "p \<in> set (sy_readers S)" "parked_at p = Some s"
    and few: "length (sy_readers S) + 1 < lv_nslots (sy_live S)"
  shows "snd (ws_live_try_write (sy_live S) (s * SEG) (Some data) (seg_len_locked (sy_live S) s)) = Ret 0"
proof -
  let ?L = "sy_live S"
  have inv: "sys_inv S" by (rule reach_sys_inv [OF reach])
  have ok: "live_ok ?L" using inv act live_inv_active unfolding sys_inv_def by blast
  then have shape: "live_shape ?L" by (simp add: live_ok_def)
  have s: "s < lv_nsegs ?L" by (rule parked_in_range [OF inv act p])
  have w: "0 < lv_waiters ?L ! s"
    using p waiters_parked [OF reach act s] by (auto simp: parked_count_def filter_empty_conv)
  have al: "alloc_slot_locked ?L s \<noteq> (?L, - 1)"
    using awaited_card [OF reach act] few by (intro awaited_alloc [OF ok s w]) simp
  note one = seg_range_one [OF shape s]
  have cov: "covers ?L s (s * SEG) (seg_len_locked ?L s)"
    using s seg_end_le [OF shape s] live_total_small [OF shape] by (simp add: covers_def)
  obtain M r where st: "store_seg_locked ?L s data (s * SEG) (seg_len_locked ?L s) = (M, r)" by fastforce
  obtain i where "r = Stored i" using store_covering_result [OF ok cov st al] by blast
  then show ?thesis
    using act na seg_end_le [OF shape s] seg_len_pos [OF shape s] st
    by (simp add: ws_live_try_write_def one)
qed

definition demo_parked :: sys where
  "demo_parked = \<lparr>sy_live = demo_created\<lparr>lv_refs := 1, lv_waiters := [1]\<rparr>, sy_file = demo_file,
     sy_readers = [Waiting demo_reader 0]\<rparr>"

lemma demo_parked_reach: "live_reach demo_parked"
proof -
  let ?S1 = "sys_init\<lparr>sy_live := demo_created, sy_file := demo_file\<rparr>"
  let ?L = "demo_created\<lparr>lv_refs := 1\<rparr>"
  let ?S2 = "?S1\<lparr>sy_live := ?L, sy_readers := sy_readers ?S1 @ [Idle]\<rparr>"
  have "ws_live_attach (sy_live ?S1) = (?L, 0)"
    by (simp add: ws_live_attach_def demo_created_eq) (simp add: live_init_def)
  then have r2: "live_reach ?S2" by (intro reach_step [OF demo_created_reach] step_attach)
  have b: "read_begin (sy_live ?S2) 2 (\<lambda>_. 0) 4 = Inr demo_reader"
    by (simp add: read_begin_def demo_created_eq demo_reader_def u64_simps)
  let ?S3 = "?S2\<lparr>sy_readers := [] @ Looping demo_reader # []\<rparr>"
  have r3: "live_reach ?S3"
    by (rule reach_step [OF r2], rule step_read_begin [OF _ b]) (simp add: sys_init_def)
  have m: "first_missing ?L 2 6 = 2"
    by (simp add: first_missing.simps [of _ 2] Let_def SEG_def demo_created_eq)
  have "read_pass ?L demo_reader 0 = (?L\<lparr>lv_waiters := [1]\<rparr>, demo_reader, RWait 0)"
    using m by (simp add: read_pass_def demo_reader_def u64_simps SEG_def park_def raise_peak_def)
      (simp add: demo_created_eq live_init_def)
  then have "live_step ?S3 (?S3\<lparr>sy_live := ?L\<lparr>lv_waiters := [1]\<rparr>, sy_readers := [] @ read_phase demo_reader (RWait 0) # []\<rparr>)"
    by (intro step_read_pass) simp_all
  from reach_step [OF r3 this] show ?thesis by (simp add: demo_parked_def sys_init_def)
qed

theorem awaited_write_succeeds_witness:
  "snd (ws_live_try_write (sy_live demo_parked) 0 (Some demo_file) 10) = Ret 0"
proof -
  have a: "lv_active (sy_live demo_parked)" "\<not> lv_aborted (sy_live demo_parked)"
    "length (sy_readers demo_parked) + 1 < lv_nslots (sy_live demo_parked)"
    by (simp_all add: demo_parked_def demo_created_eq) (simp add: live_init_def)
  have "seg_len_locked (sy_live demo_parked) 0 = 10"
    by (simp add: seg_len_locked_def demo_parked_def demo_created_eq u64_simps SEG_def)
  then show ?thesis
    using awaited_write_succeeds [OF demo_parked_reach a(1,2) _ _ a(3), of "Waiting demo_reader 0" 0]
    by (simp add: demo_parked_def)
qed

section \<open>What a store may evict\<close>

lemma store_present_cases:
  assumes ok: "live_ok L" and seg: "seg < 2 ^ 44" and off: "offset < 2 ^ 64" "len < 2 ^ 64"
    and st: "store_seg_locked L seg data offset len = (L', r)"
  obtains (same) "\<And>s. s < lv_nsegs L \<Longrightarrow> lv_present L ! s \<Longrightarrow> lv_present L' ! s"
  | (evicted) v where "1 \<le> v" "v < lv_nsegs L" "v \<noteq> seg" "live_evictable L seg v"
      "\<And>s. s < lv_nsegs L \<Longrightarrow> s \<noteq> v \<Longrightarrow> lv_present L ! s \<Longrightarrow> lv_present L' ! s"
      "\<And>t. 1 \<le> t \<Longrightarrow> t < lv_nsegs L \<Longrightarrow> live_evictable L seg t \<Longrightarrow>
         lv_last_use L ! nat (lv_slot_of L ! v) \<le> lv_last_use L ! nat (lv_slot_of L ! t)"
      "\<And>j. j < lv_nslots L \<Longrightarrow> 0 \<le> lv_slot_seg L ! j"
proof (cases "covers L seg offset len")
  case False
  then show ?thesis using store_seg_not_covering [OF ok seg off False, of data] st same by auto
next
  case cov: True
  then have s: "seg < lv_nsegs L" by (simp add: covers_def)
  have len: "length (lv_present L) = lv_nsegs L" using ok by (simp add: live_ok_def live_shape_def)
  show ?thesis
  proof (cases rule: alloc_cases [OF ok s])
    case (1 i)
    then show ?thesis
      using store_seg_resident [OF ok 1(1,3) cov 1(2), of data] st same
      by (auto simp: renew_seg_def)
  next
    case (2 i)
    obtain c where "L' = put_seg L seg i data (seg * SEG - offset) (seg_len_locked L seg) c"
      using store_seg_place [OF ok 2(1) free_slot_ready [OF ok s 2(2,3,4)] 2(2) _ cov, of data] st by auto
    then show ?thesis using same len s by (auto simp: put_seg_def nth_list_update)
  next
    case (3 i v)
    obtain c where "L' = put_seg (evict_seg L v) seg i data (seg * SEG - offset) (seg_len_locked L seg) c"
      using store_seg_place [OF ok 3(1) evict_slot_ready [OF ok s 3(2,3,4,6,7)] 3(2) _ cov, of data] st 3(7) by auto
    then have "lv_present L' ! t" if "t < lv_nsegs L" "t \<noteq> v" "lv_present L ! t" for t
      using that len s by (auto simp: put_seg_def evict_seg_def Let_def nth_list_update)
    then show ?thesis using evicted [of v] 3 by simp
  next
    case 4
    then show ?thesis using store_seg_covering [OF ok cov, of data] st same by simp
  qed
qed

text \<open>C38: Storing a segment evicts at most one other segment, and only when every RAM
  slot is taken. The victim is never segment 0 (the pinned header), never a segment a reader
  waits for, never one whose bytes the browser has not already delivered; and it was consumed
  by the sequential read run, or the store serves a parked reader, or the reader has shown
  that it seeks. Among the segments that may go, none was used less recently.\<close>

theorem store_eviction_policy:
  assumes ok: "live_ok L" and seg: "seg < 2 ^ 44" and off: "offset < 2 ^ 64" "len < 2 ^ 64"
    and st: "store_seg_locked L seg data offset len = (L', r)"
    and s: "s < lv_nsegs L" "lv_present L ! s" "\<not> lv_present L' ! s"
  shows "s \<noteq> 0 \<and> s \<noteq> seg \<and> lv_waiters L ! s = 0 \<and> lv_acked_ever L ! s \<and>
    ((s + 1) * SEG \<le> lv_run_hi L \<or> seg < lv_nsegs L \<and> 0 < lv_waiters L ! seg \<or> 0 < lv_peak_seg L) \<and>
    (\<forall>j < lv_nslots L. 0 \<le> lv_slot_seg L ! j) \<and>
    (\<forall>t < lv_nsegs L. t \<noteq> s \<and> lv_present L ! t \<longrightarrow> lv_present L' ! t) \<and>
    (\<forall>t < lv_nsegs L. 1 \<le> t \<and> live_evictable L seg t \<longrightarrow>
       lv_last_use L ! nat (lv_slot_of L ! s) \<le> lv_last_use L ! nat (lv_slot_of L ! t))"
proof (cases rule: store_present_cases [OF ok seg off st])
  case 1
  then show ?thesis using s by blast
next
  case (2 v)
  have v: "v = s" using 2(5) s by blast
  have shape: "live_shape L" and core: "live_core L" using ok by (auto simp: live_ok_def)
  have "lv_acked_ever L ! s" using live_coreD(5) [OF core s(1,2)] .
  moreover have "u64_mul (s + 1) SEG = (s + 1) * SEG" by (rule next_seg_end [OF shape s(1)])
  ultimately show ?thesis using 2 unfolding v live_evictable_def by auto
qed

text \<open>While the installer reads sequentially (no reader has parked beyond segment 0
  and none waits for the segment being stored) the ring never drops unread data: a segment
  that loses its slot lies wholly below the high-water mark of the bytes already served.\<close>

theorem sequential_keeps_unread:
  assumes ok: "live_ok L" and seg: "seg < lv_nsegs L" and off: "offset < 2 ^ 64" "len < 2 ^ 64"
    and st: "store_seg_locked L seg data offset len = (L', r)"
    and seq: "lv_peak_seg L = 0" "lv_waiters L ! seg = 0"
    and b: "b < lv_total L" "lv_run_hi L \<le> b" "lv_present L ! (b div SEG)"
  shows "lv_present L' ! (b div SEG)"
proof (rule ccontr)
  assume gone: "\<not> ?thesis"
  have shape: "live_shape L" using ok by (simp add: live_ok_def)
  have s44: "seg < 2 ^ 44" using seg nsegs_bound [OF shape] by simp
  have s: "b div SEG < lv_nsegs L" by (rule seg_of_byte [OF shape b(1)])
  have "u64_mul (b div SEG + 1) SEG = (b div SEG + 1) * SEG" by (rule next_seg_end [OF shape s])
  moreover have "live_evictable L seg (b div SEG)"
    using store_seg_present(1) [OF ok s44 off st s b(3) gone] by simp
  ultimately have "(b div SEG + 1) * SEG \<le> lv_run_hi L" using seq by (simp add: live_evictable_def)
  moreover have "b < (b div SEG + 1) * SEG" by (simp add: SEG_def)
  ultimately show False using b(2) by simp
qed

text \<open>
  A full cache: a file of six segments, four slots holding segments 0 to 3; the sequential
  run has served all of segments 0 and 1, and segment 1 was used least recently.
\<close>

definition demo_full :: live where
  "demo_full = live_init\<lparr>lv_active := True, lv_total := 6 * SEG, lv_nsegs := 6,
     lv_present := [True, True, True, True, False, False], lv_slot_of := [0, 1, 2, 3, - 1, - 1],
     lv_nslots := 4, lv_last_use := [5, 2, 3, 4], lv_slot_read := [True, True, False, False],
     lv_slot_seg := [0, 1, 2, 3], lv_waiters := [0, 0, 0, 0, 0, 0],
     lv_acked_ever := [True, True, True, True, False, False], lv_seek_sent := [0, 0, 0, 0, 0, 0],
     lv_present_count := 4, lv_run_hi := 2 * SEG, lv_tick := 5\<rparr>"

lemma all_less_list: "(\<forall>s < n. P s) \<longleftrightarrow> list_all P [0..<n]"
  by (auto simp: list_all_iff)

lemma demo_full_ok: "live_ok demo_full"
proof -
  have "live_shape demo_full" by (simp add: live_shape_def demo_full_def SEG_def LIVE_MAX_def live_init_def)
  moreover have "live_core demo_full"
    by (simp add: live_core_def all_less_list demo_full_def upt_rec)
  moreover have "live_back demo_full {}"
    by (simp add: live_back_def all_less_list demo_full_def upt_rec)
  ultimately show ?thesis by (simp add: live_ok_def)
qed

lemma demo_full_store:
  "\<exists>L'. store_seg_locked demo_full 4 d (4 * SEG) SEG = (L', Stored 1) \<and> \<not> lv_present L' ! 1 \<and> lv_nsegs L' = 6"
proof -
  have n: "[1..<lv_nsegs demo_full] = [1, 2, 3, 4, 5]" "[0..<lv_nslots demo_full] = [0, 1, 2, 3]"
    by (simp_all add: demo_full_def upt_rec)
  have al: "alloc_slot_locked demo_full 4 = (bind_slot (evict_seg demo_full 1) 4 1, 1)"
    unfolding alloc_slot_locked_def n
    by (simp add: demo_full_def live_evictable_def SEG_def u64_simps live_init_def)
  have cov: "covers demo_full 4 (4 * SEG) SEG"
    by (simp add: covers_def seg_len_locked_def demo_full_def SEG_def u64_simps)
  show ?thesis
    unfolding store_seg_covering [OF demo_full_ok cov] al
    by (simp add: Let_def bind_slot_def evict_seg_def demo_full_def i32_small)
qed

theorem store_eviction_policy_witness:
  "\<exists>L'. store_seg_locked demo_full 4 (\<lambda>_. 0) (4 * SEG) SEG = (L', Stored 1) \<and> \<not> lv_present L' ! 1 \<and>
     lv_waiters demo_full ! 1 = 0 \<and> lv_acked_ever demo_full ! 1 \<and> lv_present L' ! 2"
proof -
  obtain L' where st: "store_seg_locked demo_full 4 (\<lambda>_. 0) (4 * SEG) SEG = (L', Stored 1)"
    and gone: "\<not> lv_present L' ! 1" using demo_full_store by blast
  moreover have "(1::nat) < lv_nsegs demo_full" "lv_present demo_full ! 1" "lv_present demo_full ! 2"
    "nat (lv_slot_of demo_full ! 1) = 1" "lv_nsegs demo_full = 6" by (simp_all add: demo_full_def)
  ultimately show ?thesis
    using store_eviction_policy [OF demo_full_ok _ _ _ st, of 1] by (simp add: SEG_def)
qed

theorem sequential_keeps_unread_witness:
  "\<exists>L'. store_seg_locked demo_full 4 (\<lambda>_. 0) (4 * SEG) SEG = (L', Stored 1) \<and> lv_present L' ! 2"
proof -
  obtain L' where st: "store_seg_locked demo_full 4 (\<lambda>_. 0) (4 * SEG) SEG = (L', Stored 1)"
    using demo_full_store by blast
  have "lv_present L' ! (2 * SEG div SEG)"
    by (rule sequential_keeps_unread [OF demo_full_ok _ _ _ st]) (simp_all add: demo_full_def SEG_def live_init_def)
  with st show ?thesis by auto
qed

section \<open>The non-blocking writer\<close>

text \<open>ws_live_try_write is total and memory-safe: for every 64-bit offset and
  length a peer can send (wrapping sums included), with any data or none, from every
  consistent session, alive or not, it answers 0, -1 or -2, touches nothing outside the
  session's arrays and leaves the session consistent.\<close>

theorem try_write_safe:
  assumes "live_inv L" and "offset < 2 ^ 64" and "len < 2 ^ 64"
    and "ws_live_try_write L offset data len = (L', r)"
  shows "r \<in> {Ret 0, Ret (- 1), Ret (- 2)} \<and> live_inv L' \<and> lv_waiters L' = lv_waiters L"
proof (cases data)
  case None
  then have "L' = L \<and> r \<in> {Ret 0, Ret (- 1)}"
    using assms(4) by (cases "len = 0") (auto simp: ws_live_try_write_def split: if_splits)
  then show ?thesis using assms(1) by auto
next
  case (Some d)
  then show ?thesis using try_write_frame [OF assms(1,2,3)] assms(4) by (auto simp: live_same_reads_def)
qed

lemma demo_stored_inv: "live_inv demo_stored"
proof -
  have "live_inv (sy_live demo_sys)" using reach_sys_inv [OF demo_sys_reach] by (simp add: sys_inv_def)
  moreover have "live_ok demo_stored \<longleftrightarrow> live_ok (demo_stored\<lparr>lv_refs := 1\<rparr>)" by simp
  ultimately show ?thesis by (simp add: live_inv_def demo_sys_def demo_stored_eq demo_created_eq)
qed

theorem try_write_safe_witness:
  "snd (ws_live_try_write demo_stored (2 ^ 64 - 1) None (2 ^ 64 - 1)) \<in> {Ret 0, Ret (- 1), Ret (- 2)}"
  using try_write_safe [OF demo_stored_inv _ _ surjective_pairing, of "2 ^ 64 - 1" "2 ^ 64 - 1" None] by simp

lemma try_write_ret0:
  assumes "live_ok L" "\<forall>s \<in> set ss. s < 2 ^ 44" "offset < 2 ^ 64" "len < 2 ^ 64"
    and "try_write_segs L data offset len ss = (L', Ret 0)" and "t \<in> set ss"
  shows "\<exists>M M' q. live_same_session L M \<and> live_ok M \<and> store_seg_locked M t data offset len = (M', q) \<and> q \<noteq> ProtoErr"
  using assms
proof (induction ss arbitrary: L)
  case Nil
  then show ?case by simp
next
  case (Cons s ss)
  obtain M q where st: "store_seg_locked L s data offset len = (M, q)" by fastforce
  have M: "live_ok M" "live_same_session L M"
    using store_seg_ok [OF Cons.prems(1) _ Cons.prems(3,4) st] Cons.prems(2) by auto
  have q: "q \<noteq> ProtoErr" "try_write_segs M data offset len ss = (L', Ret 0)"
    using Cons.prems(5) st by (cases q; auto)+
  show ?case
  proof (cases "t = s")
    case True
    then show ?thesis using st q Cons.prems(1) same_session_refl by blast
  next
    case False
    then show ?thesis using Cons.IH [OF M(1) _ Cons.prems(3,4) q(2)] Cons.prems(2,6) M(2) same_session_trans
      by (metis list.set_intros(2) set_ConsD)
  qed
qed

lemma not_proto_covers:
  assumes ok: "live_ok L" and s: "s < lv_nsegs L" and ov: "offset \<le> s * SEG" "s * SEG < offset + len"
    and small: "offset + len < 2 ^ 64"
    and st: "store_seg_locked L s data offset len = (L', q)" and np: "q \<noteq> ProtoErr"
  shows "s * SEG + seg_len_locked L s \<le> offset + len"
proof (rule ccontr)
  assume short: "\<not> ?thesis"
  have shape: "live_shape L" using ok by (simp add: live_ok_def)
  have e: "s * SEG + seg_len_locked L s < 2 ^ 64"
    using seg_end_le [OF shape s] live_total_small [OF shape] by simp
  have "store_seg_locked L s data offset len = (L, ProtoErr)"
    using ov small short e by (auto simp: store_seg_locked_def Let_def u64_simps)
  then show False using st np by simp
qed

text \<open>A chunk that ws_live_try_write accepts (answer 0, not past 2^64) starts on a
  segment boundary, lies inside the file and consists of whole segments, the last one of the
  file included; afterwards every segment it covers counts as received. A partial segment is
  never accepted.\<close>

theorem try_write_accepts:
  assumes ok: "live_ok L" and act: "lv_active L" and len: "0 < len" and small: "offset + len < 2 ^ 64"
    and w: "ws_live_try_write L offset (Some data) len = (L', Ret 0)"
  shows "offset mod SEG = 0 \<and> offset + len \<le> lv_total L \<and> (len mod SEG = 0 \<or> offset + len = lv_total L) \<and>
    (\<forall>s < lv_nsegs L. offset \<le> s * SEG \<and> s * SEG < offset + len \<longrightarrow> lv_acked_ever L' ! s)"
proof -
  have shape: "live_shape L" using ok by (simp add: live_ok_def)
  have o64: "offset < 2 ^ 64" "len < 2 ^ 64" using small by auto
  have g: "offset mod SEG = 0" "offset + len \<le> lv_total L"
    and ws: "try_write_segs L data offset len (seg_range offset len) = (L', Ret 0)"
    using w act len small by (auto simp: ws_live_try_write_def u64_add_small split: if_splits)
  have b: "\<forall>s \<in> set (seg_range offset len). s < 2 ^ 44" using seg_range_bound by blast
  have e1: "u64_sub (u64_add offset len) 1 = offset + len - 1"
    using len small by (simp add: u64_add_small u64_sub_small)
  have in_range: "s \<in> set (seg_range offset len)" if "offset \<le> s * SEG" "s * SEG < offset + len" for s
  proof -
    have "offset div SEG \<le> s" using that(1) by (metis div_le_mono nonzero_mult_div_cancel_right SEG_pos not_gr0)
    moreover have "s \<le> (offset + len - 1) div SEG"
      using that(2) by (simp add: less_eq_div_iff_mult_less_eq)
    ultimately show ?thesis unfolding seg_range_def e1 by auto
  qed
  have cov: "s * SEG + seg_len_locked L s \<le> offset + len" if "s < lv_nsegs L" "offset \<le> s * SEG" "s * SEG < offset + len" for s
  proof -
    note inr = in_range [OF that(2,3)]
    obtain M M' q where M: "live_same_session L M" "live_ok M" "store_seg_locked M s data offset len = (M', q)" "q \<noteq> ProtoErr"
      using try_write_ret0 [OF ok b o64 ws inr] by blast
    have "s < lv_nsegs M" using M(1) that(1) by (simp add: live_same_session_def)
    from not_proto_covers [OF M(2) this that(2,3) small M(3,4)] show ?thesis
      using same_session_seg_len [OF M(1)] by simp
  qed
  let ?last = "(offset + len - 1) div SEG"
  have k: "offset = offset div SEG * SEG" using g(1) by (metis mod_0_imp_dvd dvd_div_mult_self)
  have "offset div SEG \<le> ?last" by (rule div_le_mono) (use len in simp)
  then have l1: "offset \<le> ?last * SEG" using k by (metis mult_le_mono1)
  have l2: "?last * SEG < offset + len" using len div_times_less_eq_dividend [of "offset + len - 1" SEG] by linarith
  have l3: "?last < lv_nsegs L" using g(2) len by (intro seg_of_byte [OF shape]) simp
  have top: "?last * SEG + seg_len_locked L ?last \<le> offset + len" by (rule cov [OF l3 l1 l2])
  have up: "offset + len \<le> ?last * SEG + SEG"
    using len mod_less_divisor [OF SEG_pos, of "offset + len - 1"] div_mult_mod_eq [of "offset + len - 1" SEG] by linarith
  have "len mod SEG = 0 \<or> offset + len = lv_total L"
  proof (cases "lv_total L \<le> ?last * SEG + SEG")
    case True
    then show ?thesis using top seg_len_eq [OF shape l3] seg_start_less_total [OF shape l3] g(2) by auto
  next
    case False
    then have "offset + len = ?last * SEG + SEG" using top up seg_len_eq [OF shape l3] by simp
    then have "(offset + len) mod SEG = 0" by (metis mod_add_self2 mod_mult_self2_is_0)
    then show ?thesis using g(1) by (metis add_cancel_left_left mod_add_left_eq)
  qed
  moreover have "lv_acked_ever L' ! s" if "s < lv_nsegs L" "offset \<le> s * SEG" "s * SEG < offset + len" for s
    using try_write_segs_acked(2) [OF ok b o64 ws that(1) refl in_range [OF that(2,3)]] cov [OF that] that small
    by (simp add: covers_def)
  ultimately show ?thesis using g by blast
qed

theorem try_write_accepts_witness:
  "\<exists>L'. ws_live_try_write demo_created 0 (Some demo_file) 10 = (L', Ret 0) \<and> lv_acked_ever L' ! 0"
proof -
  have ok: "live_ok demo_created"
    using reach_sys_inv [OF demo_created_reach] by (simp add: sys_inv_def live_inv_def demo_created_eq)
  have a: "lv_active demo_created" "lv_nsegs demo_created = 1" by (simp_all add: demo_created_eq)
  have "snd (ws_live_try_write demo_created 0 (Some demo_file) 10) = Ret 0"
    by (simp add: ws_live_try_write_def seg_range_demo)
      (simp add: demo_created_eq live_init_def u64_simps store_seg_locked_def seg_len_locked_def
        alloc_slot_locked_def bind_slot_def i32_def Let_def SEG_def upt_rec)
  then obtain L' where w: "ws_live_try_write demo_created 0 (Some demo_file) 10 = (L', Ret 0)"
    by (metis surjective_pairing)
  with try_write_accepts [OF ok a(1) _ _ w] a(2) show ?thesis by auto
qed

section \<open>Completion and resumption\<close>

text \<open>ws_live_finish succeeds exactly when the session is alive, was not aborted
  and every segment of the file has been received at least once (also those evicted since);
  it then marks the upload complete and changes nothing else, otherwise it changes nothing.\<close>

theorem finish_iff_received:
  "ws_live_finish L =
     (if lv_active L \<and> \<not> lv_aborted L \<and> (\<forall>s < lv_nsegs L. lv_acked_ever L ! s)
      then (L\<lparr>lv_complete := True\<rparr>, 0) else (L, - 1))"
proof -
  have "length (filter (\<lambda>s. lv_acked_ever L ! s) [0..<n]) = n \<longleftrightarrow> (\<forall>s < n. lv_acked_ever L ! s)" for n
    by (metis (no_types, lifting) atLeastLessThan_iff diff_zero filter_id_conv le0 length_filter_less
        length_upt nat_neq_iff set_upt)
  then show ?thesis by (auto simp: ws_live_finish_def Let_def)
qed

lemma acked_prefix_spec:
  "acked_prefix L [i..<n] \<le> n - i \<and> (\<forall>s. i \<le> s \<and> s < i + acked_prefix L [i..<n] \<longrightarrow> lv_acked_ever L ! s) \<and>
   (i + acked_prefix L [i..<n] < n \<longrightarrow> \<not> lv_acked_ever L ! (i + acked_prefix L [i..<n]))"
proof (induction "n - i" arbitrary: i)
  case 0
  then show ?case by auto
next
  case (Suc k)
  then have u: "[i..<n] = i # [Suc i..<n]" by (simp add: upt_rec)
  have IH: "acked_prefix L [Suc i..<n] \<le> n - Suc i \<and>
      (\<forall>s. Suc i \<le> s \<and> s < Suc i + acked_prefix L [Suc i..<n] \<longrightarrow> lv_acked_ever L ! s) \<and>
      (Suc i + acked_prefix L [Suc i..<n] < n \<longrightarrow> \<not> lv_acked_ever L ! (Suc i + acked_prefix L [Suc i..<n]))"
    by (rule Suc.hyps(1)) (use Suc.hyps(2) in simp)
  show ?case
  proof (cases "lv_acked_ever L ! i")
    case True
    have "lv_acked_ever L ! s" if "i \<le> s" "s < Suc i + acked_prefix L [Suc i..<n]" for s
      using True IH that by (cases "s = i") auto
    then show ?thesis using IH Suc.hyps(2) True unfolding u by auto
  next
    case False
    then show ?thesis unfolding u by auto
  qed
qed

text \<open>The resume offset sent to a reconnecting browser is the length of the
  longest received prefix of the file: all bytes before it were received, it is the file
  size or the start of a segment never received, so a browser that continues there neither
  skips nor repeats a segment of that prefix.\<close>

theorem resume_offset_prefix:
  assumes ok: "live_ok L" and act: "lv_active L"
  shows "ws_live_get_resume_offset L \<le> lv_total L \<and>
    (\<forall>b < ws_live_get_resume_offset L. lv_acked_ever L ! (b div SEG)) \<and>
    (ws_live_get_resume_offset L < lv_total L \<longrightarrow>
       SEG dvd ws_live_get_resume_offset L \<and>
       \<not> lv_acked_ever L ! (ws_live_get_resume_offset L div SEG))"
proof -
  have shape: "live_shape L" using ok by (simp add: live_ok_def)
  let ?k = "acked_prefix L [0..<lv_nsegs L]"
  have k: "?k \<le> lv_nsegs L" "\<And>s. s < ?k \<Longrightarrow> lv_acked_ever L ! s"
    "?k < lv_nsegs L \<Longrightarrow> \<not> lv_acked_ever L ! ?k"
    using acked_prefix_spec [of L 0 "lv_nsegs L"] by auto
  have ne: "lv_acked_ever L \<noteq> []" using shape nsegs_bound [OF shape] by (auto simp: live_shape_def)
  have "?k \<le> 2 ^ 31" using k(1) nsegs_bound [OF shape] by linarith
  then have m: "u64_mul ?k SEG = ?k * SEG" by (simp add: u64_mul_small SEG_def)
  have r: "ws_live_get_resume_offset L = min (?k * SEG) (lv_total L)"
    using act ne by (simp add: ws_live_get_resume_offset_def m Let_def min_def)
  have "lv_acked_ever L ! (b div SEG)" if "b < ?k * SEG" for b
    using k(2) [of "b div SEG"] that by (simp add: less_mult_imp_div_less)
  moreover have "?k < lv_nsegs L" if "?k * SEG < lv_total L"
    using seg_of_byte [OF shape that] by simp
  ultimately show ?thesis unfolding r using k(3) by (auto simp: min_def)
qed

theorem resume_offset_prefix_witness:
  "SEG dvd ws_live_get_resume_offset demo_full \<or> ws_live_get_resume_offset demo_full = 6 * SEG"
proof -
  have "lv_active demo_full" "lv_total demo_full = 6 * SEG" by (simp_all add: demo_full_def)
  then show ?thesis using resume_offset_prefix [OF demo_full_ok] by auto
qed

lemma demo_stored_content: "live_content demo_stored demo_file"
proof -
  have "live_content (demo_stored\<lparr>lv_refs := 1\<rparr>) demo_file"
    using reach_sys_inv [OF demo_sys_reach]
    by (simp add: sys_inv_def demo_sys_def demo_stored_eq demo_created_eq)
  then show ?thesis by simp
qed

text \<open>ws_live_get_header copies the first min(len, length of segment 0) bytes of
  the file when segment 0 has arrived, and otherwise leaves the caller's buffer alone and
  reports 0; nothing is written past the reported length.\<close>

theorem header_bytes_exact:
  assumes ok: "live_ok L" and cont: "live_content L F"
  shows "ws_live_get_header L out len =
    (if 0 < len \<and> lv_active L \<and> lv_present L ! 0
     then (memcpy out 0 F 0 (min len (min (lv_total L) SEG)), min len (min (lv_total L) SEG)) else (out, 0))"
proof -
  have shape: "live_shape L" using ok by (simp add: live_ok_def)
  have n: "0 < lv_nsegs L" using nsegs_bound [OF shape] by simp
  have l: "seg_len_locked L 0 = min (lv_total L) SEG" using seg_len_eq [OF shape n] by simp
  have g: "(if len < min (lv_total L) SEG then len else min (lv_total L) SEG) = min len (min (lv_total L) SEG)"
    by (simp add: min_def)
  have "memcpy out 0 (lv_slots L) (nat (lv_slot_of L ! 0) * SEG) (min len (seg_len_locked L 0)) =
    memcpy out 0 F 0 (min len (seg_len_locked L 0))" if "lv_present L ! 0"
    using cont n that by (auto simp: live_content_def memcpy_def fun_eq_iff)
  then show ?thesis using n unfolding ws_live_get_header_def Let_def l g by auto
qed

theorem header_bytes_exact_witness:
  "ws_live_get_header demo_stored (\<lambda>_. 0) 4 = (memcpy (\<lambda>_. 0) 0 demo_file 0 4, 4)"
proof -
  have a: "lv_active demo_stored" "lv_present demo_stored ! 0" "lv_total demo_stored = 10"
    by (simp_all add: demo_stored_eq demo_created_eq)
  then have ok: "live_ok demo_stored" using demo_stored_inv by (simp add: live_inv_def)
  from header_bytes_exact [OF ok demo_stored_content, of "\<lambda>_. 0" 4] a show ?thesis by (simp add: SEG_def)
qed

section \<open>One session at a time\<close>

text \<open>ws_live_create never disturbs a session in use: while one is alive it either
  refuses (-2, or -1 for bad arguments) or, for the same file name and size of a session that
  was not aborted, hands out the running session's id; while readers of a destroyed session
  are still attached it refuses too. It installs a session only when none is alive and no
  reader is attached, and then the session is consistent and empty.\<close>

theorem create_exclusive:
  assumes "live_inv L" and "4 \<le> lv_slots_cfg L \<and> lv_slots_cfg L \<le> 4096" and "total_size \<le> LIVE_MAX"
    and c: "ws_live_create L env ok new_id fname total_size ring_mb sid_max = (L', rc, out)"
  shows "rc \<in> {0, - 1, - 2} \<and> live_inv L' \<and> (rc \<noteq> 0 \<longrightarrow> L' = L \<and> out = None) \<and>
    (rc = 0 \<and> lv_active L \<longrightarrow> L' = L \<and> \<not> lv_aborted L \<and> lv_filename L = base_name fname \<and>
       lv_total L = total_size \<and> out = (if 0 < sid_max then Some (c_trunc sid_max (lv_session_id L)) else None)) \<and>
    (rc = 0 \<and> \<not> lv_active L \<longrightarrow> lv_refs L = 0 \<and> lv_active L' \<and> \<not> lv_aborted L' \<and> lv_total L' = total_size \<and>
       (\<forall>s < lv_nsegs L'. \<not> lv_present L' ! s \<and> \<not> lv_acked_ever L' ! s \<and> lv_waiters L' ! s = 0))"
proof -
  have "live_inv L'" using create_inv [OF assms(1) _ assms(3) c] assms(2) by simp
  then show ?thesis using c by (auto simp: ws_live_create_def Let_def split: if_splits)
qed

theorem create_exclusive_witness:
  "fst (snd (ws_live_create demo_stored None True ''live2'' ''b.pkg'' 10 0 64)) \<in> {0, - 1, - 2}"
proof -
  have "4 \<le> lv_slots_cfg demo_stored \<and> lv_slots_cfg demo_stored \<le> 4096"
    by (simp add: demo_stored_eq demo_created_eq) (simp add: live_init_def WS_LIVE_SLOTS_DEFAULT_def)
  then show ?thesis
    using create_exclusive [OF demo_stored_inv, of 10 None True "''live2''" "''b.pkg''" 0 64]
    by (simp add: LIVE_MAX_def split_paired_all) (metis prod.collapse)
qed

section \<open>Reads and seeks\<close>

text \<open>A read of a range whose segments are all resident is served at once: on a
  live, not aborted session ws_live_read returns min(count, total - off) without parking,
  and the buffer holds exactly those bytes of the file; at or past the end it returns 0.\<close>

theorem resident_read:
  assumes ok: "live_ok L" and act: "lv_active L" and na: "\<not> lv_aborted L" and cont: "live_content L F"
    and n: "0 < count" and resident: "\<forall>x. off \<le> x \<and> x < off + count \<and> x < lv_total L \<longrightarrow> lv_present L ! (x div SEG)"
  shows "case read_begin L off buf count of
      Inl v \<Rightarrow> v = 0 \<and> lv_total L \<le> off
    | Inr r \<Rightarrow> off < lv_total L \<and>
        (\<exists>L' r'. read_pass L r now = (L', r', RRet (int (min count (lv_total L - off)))) \<and> live_ok L' \<and>
           mem_bytes (rd_dst r') 0 (min count (lv_total L - off)) = mem_bytes F off (min count (lv_total L - off)))"
proof (cases "lv_total L \<le> off")
  case True
  then show ?thesis using n act by (simp add: read_begin_def)
next
  case False
  have shape: "live_shape L" using ok by (simp add: live_ok_def)
  let ?n = "min count (lv_total L - off)"
  let ?r = "\<lparr>rd_off = off, rd_got = 0, rd_count = ?n, rd_start = off, rd_end = off + ?n, rd_dst = buf\<rparr>"
  have e: "u64_add off ?n = off + ?n" using False live_total_small [OF shape] by (intro u64_add_small) simp
  have m: "(if count > lv_total L - off then lv_total L - off else count) = ?n" by simp
  have b: "read_begin L off buf count = Inr ?r"
    using False n act unfolding read_begin_def m Let_def e by simp
  have rd: "reading L F ?r" using False by (simp add: reading_def)
  obtain L' r' res where p: "read_pass L ?r now = (L', r', res)" by (metis prod_cases3)
  note s = read_pass_spec [OF ok cont rd p]
  have "\<And>x. off \<le> x \<Longrightarrow> x < off + ?n \<Longrightarrow> lv_present L ! (x div SEG)"
    using resident by (auto simp: min_def split: if_splits)
  moreover have "first_missing L off (off + ?n) \<ge> off + ?n"
  proof (rule ccontr)
    assume "\<not> ?thesis"
    moreover have "off \<le> off + ?n" "off + ?n \<le> lv_total L" using False by auto
    note fm = first_missing_spec [OF shape this]
    ultimately show False using resident fm by (auto simp: not_le)
  qed
  then have "\<exists>v. res = RRet v"
    using p na read_copy_spec [OF ok cont rd] calculation
    by (auto simp: read_pass_def Let_def e split: copy_result.splits)
  then obtain v where v: "res = RRet v" by blast
  then have "v = int ?n" "\<And>i. i < ?n \<Longrightarrow> rd_dst r' i = F (off + i)"
    using s na by (auto simp: pass_outcome_def)
  then have "mem_bytes (rd_dst r') 0 ?n = mem_bytes F off ?n" by (intro mem_bytes_eqI) simp
  then show ?thesis using b p v \<open>v = int ?n\<close> s False by simp
qed

theorem resident_read_witness:
  "case read_begin demo_stored 7 (\<lambda>_. 0) 100 of
      Inl v \<Rightarrow> False
    | Inr r \<Rightarrow> (\<exists>L' r'. read_pass demo_stored r 0 = (L', r', RRet 3) \<and>
        mem_bytes (rd_dst r') 0 3 = mem_bytes demo_file 7 3)"
proof -
  have a: "lv_active demo_stored" "\<not> lv_aborted demo_stored" "lv_total demo_stored = 10" "lv_present demo_stored = [True]"
    by (simp_all add: demo_stored_eq demo_created_eq live_init_def)
  then have ok: "live_ok demo_stored" using demo_stored_inv by (simp add: live_inv_def)
  have res: "\<forall>x. 7 \<le> x \<and> x < 7 + 100 \<and> x < lv_total demo_stored \<longrightarrow> lv_present demo_stored ! (x div SEG)"
    by (auto simp: a SEG_def)
  show ?thesis
    using resident_read [OF ok a(1,2) demo_stored_content _ res, where buf = "\<lambda>_. 0" and now = 0]
    by (auto simp: a(3) split: sum.splits)
qed

text \<open>Seek requests are throttled: after a request for a segment was sent at time t,
  no request for that segment is sent while at most two seconds have passed.\<close>

theorem seek_throttled:
  assumes "emit_seek_locked L seg t = (L', Some f)" and "length (lv_seek_sent L) = lv_nsegs L"
    and "t \<le> now" and "now \<le> t + 2000" and "now < 2 ^ 64"
  shows "f = seg \<and> emit_seek_locked L' seg now = (L', None)"
proof -
  have "seg < lv_nsegs L" "f = seg" "L' = L\<lparr>lv_seek_sent := (lv_seek_sent L)[seg := t]\<rparr>"
    using assms(1) by (auto simp: emit_seek_locked_def split: if_splits)
  moreover have "u64_sub now t = now - t" using assms(3,5) by (rule u64_sub_small)
  moreover have "\<not> 2000 < now - t" using assms(4) by simp
  ultimately show ?thesis using assms(2) by (simp add: emit_seek_locked_def)
qed

theorem seek_throttled_witness:
  "\<exists>L'. emit_seek_locked (demo_full\<lparr>lv_has_seek_fn := True\<rparr>) 4 5000 = (L', Some 4) \<and>
     emit_seek_locked L' 4 6999 = (L', None)"
proof -
  obtain L' where e: "emit_seek_locked (demo_full\<lparr>lv_has_seek_fn := True\<rparr>) 4 5000 = (L', Some 4)"
    by (simp add: emit_seek_locked_def demo_full_def u64_simps)
  have "emit_seek_locked L' 4 6999 = (L', None)"
    using seek_throttled [OF e, of 6999] by (simp add: demo_full_def)
  with e show ?thesis by blast
qed

section \<open>Sums that wrap\<close>

text \<open>A chunk whose offset plus length wraps to 0 passes the end-of-file check:
  on any live session of less than 2^44 segments a chunk of one segment at offset
  2^64 - 2^20 is answered with 0, as if it had been stored, and nothing is stored.\<close>

theorem wrapped_chunk_acknowledged:
  assumes "live_ok L" and "lv_active L" and "\<not> lv_aborted L"
  shows "ws_live_try_write L (2 ^ 64 - SEG) (Some data) SEG = (L, Ret 0)"
proof -
  have "u64_add (2 ^ 64 - SEG) SEG = 0" by (simp add: u64_add_def SEG_def)
  moreover have "u64_sub 0 1 = 2 ^ 64 - 1" by (simp add: u64_sub_def)
  ultimately have r: "seg_range (2 ^ 64 - SEG) SEG = [2 ^ 44 - 1]"
    by (simp add: seg_range_def SEG_def)
  have shape: "live_shape L" using assms(1) by (simp add: live_ok_def)
  have "seg_len_locked L (2 ^ 44 - 1) = 0"
    using nsegs_bound [OF shape] by (intro seg_len_beyond [OF shape]) auto
  then have st: "store_seg_locked L (2 ^ 44 - 1) data (2 ^ 64 - SEG) SEG = (L, NoOverlap)"
    by (simp add: store_seg_locked_def Let_def SEG_def u64_add_def u64_mul_def)
  have g: "\<not> u64_add (2 ^ 64 - SEG) SEG > lv_total L" "(2 ^ 64 - SEG) mod SEG = 0"
    by (simp_all add: u64_add_def SEG_def)
  show ?thesis unfolding ws_live_try_write_def r using assms(2,3) g st by simp
qed

theorem wrapped_chunk_acknowledged_witness:
  "ws_live_try_write demo_full (2 ^ 64 - SEG) (Some (\<lambda>_. 0)) SEG = (demo_full, Ret 0)"
  using wrapped_chunk_acknowledged [OF demo_full_ok] by (simp add: demo_full_def live_init_def)

text \<open>ws_live_create does not bound the size it is given: for a file of 2^64 - 1
  bytes the rounding sum wraps, the session has no segments and arrays of one entry, and
  storing its second megabyte is an access outside them. The callers in ws_upload.c refuse
  sizes above 256 GiB first.\<close>

theorem create_size_wraps:
  "snd (ws_live_try_write (fst (ws_live_create live_init None True ''id'' ''a.pkg'' (2 ^ 64 - 1) 0 64))
     SEG (Some data) SEG) = UB"
proof -
  define L where "L = fst (ws_live_create live_init None True ''id'' ''a.pkg'' (2 ^ 64 - 1) 0 64)"
  have n: "seg_count (2 ^ 64 - 1) = 0" by (simp add: seg_count_def u64_add_def u64_sub_def SEG_def)
  have m: "max 1 (0::nat) = 1" by simp
  have L: "lv_active L" "\<not> lv_aborted L" "lv_total L = 2 ^ 64 - 1" "lv_nsegs L = 0" "length (lv_present L) = 1"
    unfolding L_def ws_live_create_def Let_def n m by (simp_all add: live_init_def)
  have r: "seg_range SEG SEG = [1]" by (simp add: seg_range_def SEG_def u64_simps)
  have "store_seg_locked L 1 data SEG SEG = (L, OutOfBounds)"
    by (simp add: store_seg_locked_def Let_def seg_len_locked_def L u64_simps SEG_def)
  then show ?thesis unfolding L_def [symmetric] ws_live_try_write_def r using L
    by (simp add: u64_simps SEG_def)
qed

end
