(* ===== verification/InstallerState.thy ===== *)
theory InstallerState
  imports LiveIO
begin

text \<open>
  The part of src/src/installer.c the upload server and the virtual stream call: the flags of the
  installation in progress that a cancel, a detach or a wait for a disc (DiscWaiter) changes. The effect of a cancel on the live session
  is ws_live_abort and ws_live_destroy; stopping the stream server (stream_server.c) between
  the two is outside this record.
\<close>

record inst =
  in_installing :: bool
  in_direct :: bool              \<comment> \<open>is_direct_storage\<close>
  in_completed :: bool
  in_failed :: bool
  in_waiting_disc :: bool
  in_error :: int
  in_status :: string            \<comment> \<open>status_str\<close>
  in_prompt :: string            \<comment> \<open>prompt_message\<close>
  in_cancel_stream :: bool       \<comment> \<open>g_cancel_stream\<close>
  in_detach :: bool              \<comment> \<open>g_detach_direct_storage\<close>
  in_batch_update :: bool        \<comment> \<open>g_batch_update_pending\<close>
  in_pending :: string           \<comment> \<open>g_pending_pkg_path\<close>
  in_path :: string              \<comment> \<open>pkg_path\<close>
  in_multipart :: bool           \<comment> \<open>is_multipart\<close>
  in_part :: nat                 \<comment> \<open>current_part\<close>

text \<open>What installer_init leaves of g_status.\<close>

definition installer_idle :: inst where
  "installer_idle =
     \<lparr>in_installing = False, in_direct = False, in_completed = False, in_failed = False, in_waiting_disc = False,
      in_error = 0, in_status = ''idle'', in_prompt = [], in_cancel_stream = False, in_detach = False,
      in_batch_update = False, in_pending = [], in_path = [], in_multipart = False, in_part = 0\<rparr>"

definition installer_cancel :: "inst \<Rightarrow> live \<Rightarrow> inst \<times> live \<times> int" where
  "installer_cancel I L =
     (if \<not> in_installing I then (I, L, - 1)
      else if in_direct I then (I, L, - 2)
      else (I\<lparr>in_cancel_stream := True, in_pending := [], in_installing := False, in_failed := True,
              in_status := ''canceled'', in_prompt := ''Installation was canceled''\<rparr>,
            ws_live_destroy (ws_live_abort L), 0))"

definition installer_detach_direct_storage :: "inst \<Rightarrow> inst \<times> int \<times> bool" where
  "installer_detach_direct_storage I =
     (if \<not> in_installing I then (I, - 1, False)
      else if \<not> in_direct I then (I, - 2, False)
      else (I\<lparr>in_detach := True, in_batch_update := False, in_pending := [], in_installing := False,
              in_completed := False, in_failed := False, in_waiting_disc := False, in_error := 0,
              in_status := ''background'',
              in_prompt := ''PKG Manager stopped tracking. The PS5 installation will continue.''\<rparr>,
            0, in_batch_update I))"

end
