(* ===== verification/WsUpload.thy ===== *)
theory WsUpload
  imports WsFrames LiveClaims InstallerState
begin

text \<open>
  The upload server of src/src/ws_upload.c above its byte storage (LiveSession) and its
  codec (WsCodec): who owns the session, the text protocol, the frame loop of a connection
  and the bookkeeping of the listener. The record ws_server holds the file's globals; a
  connection's locals are the record ws_conn. What the operating system and the allocator
  answer is the record ws_env.
\<close>

section \<open>State\<close>

definition WS_DIRECT_DEFAULT_PORT :: int where
  "WS_DIRECT_DEFAULT_PORT = 18842"

definition WS_DIRECT_MAX_TOTAL :: nat where
  "WS_DIRECT_MAX_TOTAL = 256 * 1024 * 1024 * 1024"

definition WS_DIRECT_ICON_MAX :: nat where
  "WS_DIRECT_ICON_MAX = 10 * 1024 * 1024"

definition WS_TEXT_MAX :: nat where
  "WS_TEXT_MAX = 16 * 1024"

definition WS_BIN_MSG_MAX :: nat where
  "WS_BIN_MSG_MAX = 8 * 1024 * 1024"

definition WS_MAX_TRACKED :: nat where
  "WS_MAX_TRACKED = 16"

record ws_server =
  ws_live :: live                 \<comment> \<open>the session of ws_stream.c\<close>
  ws_inst :: inst                 \<comment> \<open>the flags of installer.c\<close>
  ws_conns :: "int list"          \<comment> \<open>g_live\<close>
  ws_listen_fd :: int
  ws_running :: bool
  ws_created :: bool
  ws_port :: int
  ws_uplink :: int                \<comment> \<open>g_uplink_fd\<close>
  ws_owner :: string
  ws_owner_sid :: string
  ws_owner_filename :: string
  ws_owner_total :: nat
  ws_meta_title :: string
  ws_meta_id :: string
  ws_meta_version :: string
  ws_meta_kind :: string
  ws_icon :: "u8 list option"
  ws_icon_sid :: string
  ws_sent :: "(int \<times> string) list" \<comment> \<open>text messages sent, oldest first\<close>
  ws_raw :: "(int \<times> u8 list) list" \<comment> \<open>control frames sent, oldest first\<close>
  ws_shut :: "int list"           \<comment> \<open>sockets shut down, oldest first\<close>

definition ws_init :: "live \<Rightarrow> inst \<Rightarrow> ws_server" where
  "ws_init L I = \<lparr>ws_live = L, ws_inst = I, ws_conns = replicate WS_MAX_TRACKED (- 1),
     ws_listen_fd = - 1, ws_running = False, ws_created = False, ws_port = 0, ws_uplink = - 1,
     ws_owner = [], ws_owner_sid = [], ws_owner_filename = [], ws_owner_total = 0,
     ws_meta_title = [], ws_meta_id = [], ws_meta_version = [], ws_meta_kind = [],
     ws_icon = None, ws_icon_sid = [], ws_sent = [], ws_raw = [], ws_shut = []\<rparr>"

record ws_env =
  en_slots :: "string option"   \<comment> \<open>WS_LIVE_SLOTS\<close>
  en_alloc :: bool              \<comment> \<open>whether malloc, calloc and realloc succeed\<close>
  en_id :: string               \<comment> \<open>the id printed from time, pid and rand\<close>
  en_port :: "string option"    \<comment> \<open>WS_DIRECT_PORT\<close>
  en_sock :: "int option"       \<comment> \<open>the bound, listening socket\<close>
  en_thread :: bool             \<comment> \<open>whether pthread_create succeeds\<close>
  en_send :: bool               \<comment> \<open>whether send delivers\<close>
  en_rx_us :: nat               \<comment> \<open>receive_us of a binary message\<close>

section \<open>The listener\<close>

definition ws_direct_listener_start :: "ws_env \<Rightarrow> ws_server \<Rightarrow> int \<Rightarrow> ws_server \<times> int" where
  "ws_direct_listener_start E W port =
     (if ws_running W then (W, 0)
      else let p = (if port \<le> 0 then WS_DIRECT_DEFAULT_PORT else port) in
      case en_sock E of
        None \<Rightarrow> (W, - 1)
      | Some fd \<Rightarrow>
          (if \<not> en_thread E
           then (W\<lparr>ws_listen_fd := - 1, ws_port := p, ws_running := False\<rparr>, - 1)
           else (W\<lparr>ws_listen_fd := fd, ws_port := p, ws_running := True, ws_created := True,
                   ws_live := ws_live_set_seek_fn (ws_live W) True\<rparr>, 0)))"

definition ws_direct_ensure_listener :: "ws_env \<Rightarrow> ws_server \<Rightarrow> ws_server \<times> int" where
  "ws_direct_ensure_listener E W =
     (if ws_running W then (W, 0)
      else let port = (case en_port E of None \<Rightarrow> WS_DIRECT_DEFAULT_PORT
                       | Some e \<Rightarrow> (if e \<noteq> [] \<and> strtol e > 0 \<and> strtol e < 65536 then strtol e
                                   else WS_DIRECT_DEFAULT_PORT));
               (W', r) = ws_direct_listener_start E W port
           in (W', if r \<noteq> 0 then - 1 else 0))"

definition ws_direct_listener_stop :: "ws_server \<Rightarrow> ws_server" where
  "ws_direct_listener_stop W =
     (let kick = filter (\<lambda>fd. fd \<ge> 0) (ws_conns W) in
      W\<lparr>ws_running := False, ws_created := False,
        ws_conns := map (\<lambda>fd. if fd \<ge> 0 then - 1 else fd) (ws_conns W),
        ws_shut := ws_shut W @ kick @ (if ws_listen_fd W \<ge> 0 then [ws_listen_fd W] else []),
        ws_listen_fd := - 1, ws_port := 0\<rparr>)"

definition ws_direct_listener_stop_if_idle :: "ws_server \<Rightarrow> ws_server \<times> int" where
  "ws_direct_listener_stop_if_idle W =
     (if ws_live_session_active (ws_live W) then (W, 0)
      else if (\<exists>fd \<in> set (ws_conns W). fd \<ge> 0) \<or> \<not> ws_running W then (W, 0)
      else (ws_direct_listener_stop W, 1))"

fun first_free :: "int \<Rightarrow> int list \<Rightarrow> int list" where
  "first_free fd [] = []"
| "first_free fd (x # xs) = (if x < 0 then fd # xs else x # first_free fd xs)"

definition live_add :: "ws_server \<Rightarrow> int \<Rightarrow> ws_server" where
  "live_add W fd = W\<lparr>ws_conns := first_free fd (ws_conns W)\<rparr>"

definition live_remove :: "ws_server \<Rightarrow> int \<Rightarrow> ws_server" where
  "live_remove W fd = W\<lparr>ws_conns := map (\<lambda>x. if x = fd then - 1 else x) (ws_conns W)\<rparr>"

section \<open>Sessions and their owner\<close>

definition clear_icon :: "ws_server \<Rightarrow> ws_server" where
  "clear_icon W = W\<lparr>ws_icon := None, ws_icon_sid := []\<rparr>"

definition ws_direct_init_session ::
  "ws_env \<Rightarrow> ws_server \<Rightarrow> string \<Rightarrow> nat \<Rightarrow> nat \<Rightarrow> ws_server \<times> int \<times> string option" where
  "ws_direct_init_session E W filename total_size sid_max =
     (if filename = [] \<or> total_size = 0 \<or> total_size > WS_DIRECT_MAX_TOTAL then (W, - 1, None)
      else case ws_live_create (ws_live W) (en_slots E) (en_alloc E) (en_id E) filename total_size 0 sid_max of
        (L, rc, out) \<Rightarrow>
          (let W1 = W\<lparr>ws_live := L\<rparr>
           in (if rc = 0 then fst (ws_direct_ensure_listener E W1) else W1, rc, out)))"

text \<open>The four-way test of every owned operation.\<close>

definition owner_ok :: "ws_server \<Rightarrow> string \<Rightarrow> string \<Rightarrow> bool" where
  "owner_ok W owner sid =
     (ws_owner W \<noteq> [] \<and> owner = ws_owner W \<and> sid = ws_owner_sid W \<and> ws_live_check_id (ws_live W) sid)"

definition ws_direct_owner_matches :: "ws_server \<Rightarrow> string option \<Rightarrow> string option \<Rightarrow> bool" where
  "ws_direct_owner_matches W owner sid =
     (case (owner, sid) of
        (Some t, Some s) \<Rightarrow> t \<noteq> [] \<and> s \<noteq> [] \<and> owner_ok W t s
      | _ \<Rightarrow> False)"

definition ws_direct_init_owned ::
  "ws_env \<Rightarrow> ws_server \<Rightarrow> string \<Rightarrow> nat \<Rightarrow> string option \<Rightarrow> string option \<Rightarrow> nat
     \<Rightarrow> ws_server \<times> int \<times> string option" where
  "ws_direct_init_owned E W filename total_size owner resume_sid sid_max =
     (case owner of None \<Rightarrow> (W, - 1, None)
      | Some t \<Rightarrow>
      if length t < 32 \<or> length t > 64 \<or> filename = [] \<or> total_size = 0 \<or>
         total_size > WS_DIRECT_MAX_TOTAL \<or> sid_max < 64 then (W, - 1, None)
      else if ws_live_session_active (ws_live W) then
        (let same = (ws_owner W \<noteq> [] \<and> resume_sid \<noteq> None \<and> resume_sid \<noteq> Some [] \<and> t = ws_owner W \<and>
                     the resume_sid = ws_owner_sid W \<and> filename = ws_owner_filename W \<and>
                     total_size = ws_owner_total W \<and> ws_live_check_id (ws_live W) (the resume_sid))
         in (W, if same then 0 else - 2, if same then Some (c_trunc sid_max (ws_owner_sid W)) else None))
      else case ws_direct_init_session E W filename total_size sid_max of
        (W1, rc, out) \<Rightarrow>
          (if rc = 0 then
             ((clear_icon W1)\<lparr>ws_owner := c_trunc 65 t, ws_owner_sid := c_trunc 64 (the out),
                ws_owner_filename := c_trunc 256 filename, ws_owner_total := total_size,
                ws_meta_title := [], ws_meta_id := [], ws_meta_version := [], ws_meta_kind := []\<rparr>, rc, out)
           else (W1, rc, out)))"

definition ws_direct_set_metadata ::
  "ws_server \<Rightarrow> string \<Rightarrow> string \<Rightarrow> string \<Rightarrow> string \<Rightarrow> string \<Rightarrow> string \<Rightarrow> ws_server" where
  "ws_direct_set_metadata W owner sid title title_id version kind =
     (if owner_ok W owner sid
      then W\<lparr>ws_meta_title := c_trunc 256 title, ws_meta_id := c_trunc 64 title_id,
             ws_meta_version := c_trunc 32 version, ws_meta_kind := c_trunc 16 kind\<rparr>
      else W)"

definition ws_direct_get_metadata :: "ws_server \<Rightarrow> string \<Rightarrow> (string \<times> string \<times> string \<times> string) option" where
  "ws_direct_get_metadata W sid =
     (if ws_owner W \<noteq> [] \<and> sid = ws_owner_sid W \<and> ws_live_check_id (ws_live W) sid
      then Some (ws_meta_title W, ws_meta_id W, ws_meta_version W, ws_meta_kind W) else None)"

definition png_signature :: "u8 list" where
  "png_signature = [0x89, 0x50, 0x4E, 0x47, 0x0D, 0x0A, 0x1A, 0x0A]"

definition ws_direct_set_icon :: "ws_env \<Rightarrow> ws_server \<Rightarrow> string \<Rightarrow> string \<Rightarrow> u8 list \<Rightarrow> ws_server \<times> int" where
  "ws_direct_set_icon E W owner sid png =
     (if length png < length png_signature \<or> length png > WS_DIRECT_ICON_MAX \<or>
         take (length png_signature) png \<noteq> png_signature then (W, - 1)
      else if \<not> en_alloc E then (W, - 1)
      else if owner_ok W owner sid
      then (W\<lparr>ws_icon := Some png, ws_icon_sid := c_trunc 64 sid\<rparr>, 0)
      else (W, - 1))"

definition ws_direct_get_icon :: "ws_env \<Rightarrow> ws_server \<Rightarrow> string \<Rightarrow> u8 list option" where
  "ws_direct_get_icon E W sid =
     (if \<not> ws_live_check_id (ws_live W) sid then None
      else case ws_icon W of
        None \<Rightarrow> None
      | Some png \<Rightarrow> (if sid = ws_icon_sid W \<and> en_alloc E then Some png else None))"

definition ws_direct_cancel_session :: "ws_server \<Rightarrow> ws_server" where
  "ws_direct_cancel_session W =
     (let W1 = (if ws_uplink W \<ge> 0
                then W\<lparr>ws_shut := ws_shut W @ [ws_uplink W], ws_uplink := - 1\<rparr> else W)
      in clear_icon (W1\<lparr>ws_live := ws_live_destroy (ws_live_abort (ws_live W1))\<rparr>))"

text \<open>installer_cancel, and what is done when there was nothing to cancel.\<close>

definition ws_installer_cancel :: "ws_server \<Rightarrow> ws_server \<times> int" where
  "ws_installer_cancel W =
     (case installer_cancel (ws_inst W) (ws_live W) of (I, L, r) \<Rightarrow> (W\<lparr>ws_inst := I, ws_live := L\<rparr>, r))"

definition ws_direct_cancel_owned :: "ws_server \<Rightarrow> string \<Rightarrow> string \<Rightarrow> ws_server \<times> int" where
  "ws_direct_cancel_owned W owner sid =
     (if \<not> owner_ok W owner sid then (W, - 1)
      else case ws_installer_cancel W of
        (W1, r) \<Rightarrow> (if r \<noteq> 0 then ws_direct_cancel_session W1 else W1, 0))"

definition session_id_mark :: string where
  "session_id_mark = json ''`session_id`:`''"

definition ws_direct_finish_session :: "ws_server \<Rightarrow> nat \<Rightarrow> ws_server \<times> int \<times> string" where
  "ws_direct_finish_session W uri_max =
     (case ws_live_finish (ws_live W) of (L, r) \<Rightarrow>
        (if r \<noteq> 0 then (W\<lparr>ws_live := L\<rparr>, - 1, [])
         else let st = ws_live_get_status L 1024;
                  sid = (if fst st \<noteq> 0 then []
                         else case strstr (snd st) session_id_mark of None \<Rightarrow> []
                           | Some p \<Rightarrow> take 63 (takeWhile (\<lambda>c. c \<noteq> CHR 0x22) (drop 14 p)))
              in (W\<lparr>ws_live := L\<rparr>, 0, if uri_max > 0 then c_trunc uri_max (''live:'' @ sid) else [])))"

definition ws_direct_reset_for_tests :: "ws_server \<Rightarrow> ws_server" where
  "ws_direct_reset_for_tests W =
     (clear_icon (W\<lparr>ws_live := ws_live_reset_for_tests (ws_live W)\<rparr>))\<lparr>ws_owner := [], ws_owner_sid := []\<rparr>"

section \<open>Text messages\<close>

text \<open>The locals of ws_conn_worker that outlive a frame.\<close>

record ws_conn =
  cn_fd :: int
  cn_pending :: int          \<comment> \<open>pending_seg\<close>
  cn_auth :: bool            \<comment> \<open>authorized\<close>
  cn_sid :: string           \<comment> \<open>authorized_sid\<close>
  cn_finish :: bool          \<comment> \<open>finish_received\<close>
  cn_text :: "u8 list"       \<comment> \<open>frag_text, frag_tlen bytes\<close>
  cn_frag_on :: bool         \<comment> \<open>frag_text_on\<close>
  cn_frag_op :: u8
  cn_bin :: "u8 list"        \<comment> \<open>bin_msg, frag_bin_total bytes\<close>
  cn_cap :: nat              \<comment> \<open>bin_cap\<close>
  cn_buf :: "u8 list"        \<comment> \<open>rbuf, rlen2 bytes\<close>

definition conn_init :: "int \<Rightarrow> u8 list \<Rightarrow> ws_conn" where
  "conn_init fd pipelined = \<lparr>cn_fd = fd, cn_pending = - 1, cn_auth = False, cn_sid = [], cn_finish = False,
     cn_text = [], cn_frag_on = False, cn_frag_op = 0, cn_bin = [], cn_cap = 0, cn_buf = pipelined\<rparr>"

text \<open>send_text: a frame of the text; -1 when it does not fit the frame buffer or send fails.\<close>

definition send_text :: "ws_env \<Rightarrow> ws_server \<Rightarrow> int \<Rightarrow> string \<Rightarrow> ws_server \<times> int" where
  "send_text E W fd s =
     (case ws_direct_frame_encode_server 0x1 (chars_bytes s) (WS_TEXT_MAX + 16) of
        None \<Rightarrow> (W, - 1)
      | Some _ \<Rightarrow> (if en_send E then (W\<lparr>ws_sent := ws_sent W @ [(fd, s)]\<rparr>, 0) else (W, - 1)))"

definition reply :: "ws_env \<Rightarrow> ws_server \<Rightarrow> ws_conn \<Rightarrow> string \<Rightarrow> ws_server" where
  "reply E W C s = fst (send_text E W (cn_fd C) s)"

definition uplink_seek :: "ws_env \<Rightarrow> ws_server \<Rightarrow> nat \<Rightarrow> ws_server" where
  "uplink_seek E W seg =
     (if ws_uplink W \<ge> 0
      then fst (send_text E W (ws_uplink W) (c_trunc 96 (json ''{`op`:`seek`,`seg`:'' @ show_nat seg @ ''}'')))
      else W)"

definition err_text :: "string \<Rightarrow> string" where
  "err_text e = json ''{`op`:`error`,`error`:`'' @ e @ json ''`}''"

definition ready_text :: "string \<Rightarrow> nat \<Rightarrow> nat \<Rightarrow> string" where
  "ready_text sid offset window =
     c_trunc 320 (json ''{`op`:`ready`,`session_id`:`'' @ sid @ json ''`,`offset`:'' @ show_nat offset @
       json '',`demand_window`:'' @ show_nat window @ json '',`upload_window`:2}'')"

text \<open>The session of an init message: the owner's, or a new one.\<close>

definition msg_session ::
  "ws_env \<Rightarrow> ws_server \<Rightarrow> string \<Rightarrow> string \<Rightarrow> nat \<Rightarrow> ws_server \<times> (string + int \<times> string)" where
  "msg_session E W msg fn tot =
     (if ws_owner W \<noteq> [] then
        (case (wsj_string msg ''owner'' 65, wsj_string msg ''session_id'' 64) of
           (Some t, Some s) \<Rightarrow>
             (if \<not> ws_direct_owner_matches W (Some t) (Some s)
              then (W, Inl (err_text ''Another upload is active''))
              else if \<not> (fn = ws_owner_filename W \<and> tot = ws_owner_total W)
              then (W, Inl (err_text ''File does not match session''))
              else (W, Inr (0, c_trunc 64 s)))
         | _ \<Rightarrow> (W, Inl (err_text ''Another upload is active'')))
      else case ws_direct_init_session E W fn tot 64 of
        (W', rc, out) \<Rightarrow> (W', Inr (rc, case out of None \<Rightarrow> [] | Some s \<Rightarrow> s)))"

definition msg_init :: "ws_env \<Rightarrow> ws_server \<Rightarrow> ws_conn \<Rightarrow> string \<Rightarrow> ws_server \<times> ws_conn" where
  "msg_init E W C msg =
     (case (wsj_string msg ''filename'' 256, wsj_u64 msg ''total'') of
        (Some fn, Some tot) \<Rightarrow>
          (if tot = 0 then (reply E W C (err_text ''init needs filename+total''), C)
           else case msg_session E W msg fn tot of
             (W1, Inl e) \<Rightarrow> (reply E W1 C e, C)
           | (W1, Inr (rc, sid)) \<Rightarrow>
               (if rc = - 2 then (reply E W1 C (err_text ''busy''), C)
                else if rc \<noteq> 0 then (reply E W1 C (err_text ''init failed''), C)
                else if ws_uplink W1 \<ge> 0 \<and> ws_uplink W1 \<noteq> cn_fd C
                then (reply E W1 C (err_text ''Uploader already connected''), C)
                else (reply E (W1\<lparr>ws_uplink := cn_fd C\<rparr>) C
                        (ready_text sid (ws_live_get_resume_offset (ws_live W1)) (ws_live_demand_window (ws_live W1))),
                      C\<lparr>cn_auth := True, cn_sid := c_trunc 64 sid\<rparr>)))
      | _ \<Rightarrow> (reply E W C (err_text ''init needs filename+total''), C))"

text \<open>Finish, cancel and seg need an authorized connection whose session is still the live one.\<close>

definition conn_authorized :: "ws_server \<Rightarrow> ws_conn \<Rightarrow> bool" where
  "conn_authorized W C = (cn_auth C \<and> ws_live_check_id (ws_live W) (cn_sid C))"

definition msg_finish :: "ws_env \<Rightarrow> ws_server \<Rightarrow> ws_conn \<Rightarrow> ws_server \<times> ws_conn" where
  "msg_finish E W C =
     (if \<not> conn_authorized W C then (reply E W C (err_text ''Unauthorized''), C)
      else case ws_direct_finish_session W 640 of
        (W1, r, path) \<Rightarrow>
          (if r \<noteq> 0 then
             (case ws_live_get_counters (ws_live W1) of (got, tot) \<Rightarrow>
                (reply E W1 C (c_trunc 256 (json ''{`op`:`error`,`error`:`incomplete`,`received`:'' @ show_nat got @
                   json '',`total`:'' @ show_nat tot @ ''}'')), C))
           else (reply E W1 C (c_trunc 768 (json ''{`op`:`complete`,`path`:`'' @ path @ json ''`}'')),
                 C\<lparr>cn_finish := True\<rparr>)))"

definition msg_cancel :: "ws_env \<Rightarrow> ws_server \<Rightarrow> ws_conn \<Rightarrow> ws_server \<times> ws_conn" where
  "msg_cancel E W C =
     (if \<not> conn_authorized W C then (reply E W C (err_text ''Unauthorized''), C)
      else (reply E (ws_direct_cancel_session W) C (json ''{`op`:`cancelled`}''), C))"

definition msg_seg :: "ws_env \<Rightarrow> ws_server \<Rightarrow> ws_conn \<Rightarrow> string \<Rightarrow> ws_server \<times> ws_conn" where
  "msg_seg E W C msg =
     (if \<not> conn_authorized W C then (reply E W C (err_text ''Unauthorized''), C)
      else let seg = (case strstr msg (json ''`seg`:'') of None \<Rightarrow> 0
                      | Some p \<Rightarrow> fst (strtoull (drop 6 p)))
           in (W, C\<lparr>cn_pending := (if seg \<le> 0x7fffffff then int seg else - 1)\<rparr>))"

text \<open>sender_stats only feeds the debug log.\<close>

definition handle_text_msg :: "ws_env \<Rightarrow> ws_server \<Rightarrow> ws_conn \<Rightarrow> string \<Rightarrow> ws_server \<times> ws_conn" where
  "handle_text_msg E W C msg =
     (case wsj_string msg ''op'' 32 of
        None \<Rightarrow> (reply E W C (err_text ''missing op''), C)
      | Some op \<Rightarrow>
          (if op = ''init'' then msg_init E W C msg
           else if op = ''sender_stats'' \<and> cn_auth C then (W, C)
           else if op = ''ping'' \<and> cn_auth C then (reply E W C (json ''{`op`:`pong`}''), C)
           else if op = ''status'' then (reply E W C (snd (ws_live_get_status (ws_live W) 768)), C)
           else if op = ''finish'' then msg_finish E W C
           else if op = ''cancel'' then msg_cancel E W C
           else if op = ''seg'' then msg_seg E W C msg
           else (reply E W C (err_text ''unknown op''), C)))"

section \<open>Frames of a connection\<close>

definition bytes_string :: "u8 list \<Rightarrow> string" where
  "bytes_string bs = map (\<lambda>b. char_of (unat b)) (takeWhile (\<lambda>b. b \<noteq> 0) bs)"

text \<open>An effect of a frame on its connection: go on, or close it.\<close>

datatype conn_result = Open ws_server ws_conn | Closing ws_server ws_conn

text \<open>ack and busy documents.\<close>

definition seg_text :: "string \<Rightarrow> nat \<Rightarrow> nat \<Rightarrow> nat \<Rightarrow> string" where
  "seg_text op seg len us =
     c_trunc 224 (json ''{`op`:`'' @ op @ json ''`,`seg`:'' @ show_nat seg @ json '',`rx_bytes`:'' @ show_nat len @
       json '',`rx_us`:'' @ show_nat us @ ''}'')"

definition expected_len :: "nat \<Rightarrow> nat \<Rightarrow> nat \<times> nat" where
  "expected_len tot seg =
     (let segs = (if tot = 0 then 0 else u64_sub (u64_add tot SEG) 1 div SEG)
      in (segs, if seg < segs \<and> seg = segs - 1 then tot - seg * SEG else SEG))"

text \<open>A complete binary message: stored at the segment named before, and answered.\<close>

definition apply_segment :: "ws_env \<Rightarrow> ws_server \<Rightarrow> ws_conn \<Rightarrow> conn_result" where
  "apply_segment E W C =
     (let seg = nat (cn_pending C); len = length (cn_bin C);
          (segs, exp_len) = expected_len (ws_live_get_total (ws_live W)) seg;
          C' = C\<lparr>cn_pending := - 1, cn_frag_on := False, cn_bin := []\<rparr>
      in if \<not> conn_authorized W C \<or> \<not> ws_live_session_active (ws_live W) \<or> seg \<ge> segs \<or> len \<noteq> exp_len
      then Open (reply E W C (err_text ''bad segment'')) C'
      else case ws_live_try_write (ws_live W) (u64_mul seg SEG) (Some (mem_of (cn_bin C))) len of
        (L, Ret r) \<Rightarrow>
          (let W1 = W\<lparr>ws_live := L\<rparr> in
           if r = 0 then
             (case send_text E W1 (cn_fd C) (seg_text ''ack'' seg len (en_rx_us E)) of
                (W2, q) \<Rightarrow> (if q \<noteq> 0 then Closing W2 C else Open W2 C'))
           else if r = - 2 then Open (reply E W1 C (seg_text ''busy'' seg len (en_rx_us E))) C'
           else Open (reply E W1 C (err_text ''rejected'')) C')
      | (L, UB) \<Rightarrow> Closing W C)"

definition text_frame :: "ws_env \<Rightarrow> ws_server \<Rightarrow> ws_conn \<Rightarrow> bool \<Rightarrow> bool \<Rightarrow> u8 list \<Rightarrow> conn_result" where
  "text_frame E W C is_start fin pay =
     (if is_start \<and> cn_frag_on C then Closing W C
      else if \<not> is_start \<and> \<not> cn_frag_on C then Closing W C
      else let C1 = (if is_start then C\<lparr>cn_text := [], cn_frag_op := 0x1, cn_frag_on := True\<rparr> else C) in
      if length (cn_text C1) + length pay > WS_TEXT_MAX then Closing W C1
      else let C2 = C1\<lparr>cn_text := cn_text C1 @ pay\<rparr> in
      if fin then
        (case handle_text_msg E W C2 (bytes_string (cn_text C2)) of
           (W', C') \<Rightarrow> Open W' (C'\<lparr>cn_frag_on := False, cn_text := []\<rparr>))
      else Open W C2)"

definition binary_frame :: "ws_env \<Rightarrow> ws_server \<Rightarrow> ws_conn \<Rightarrow> bool \<Rightarrow> bool \<Rightarrow> u8 list \<Rightarrow> conn_result" where
  "binary_frame E W C is_start fin pay =
     (if \<not> is_start \<and> \<not> cn_frag_on C then Closing W C
      else let C1 = (if is_start then C\<lparr>cn_frag_op := 0x2, cn_frag_on := True, cn_bin := []\<rparr> else C) in
      if is_start \<and> cn_pending C < 0 then Closing W C1
      else if length (cn_bin C1) + length pay > WS_BIN_MSG_MAX then Closing W C1
      else let n = length (cn_bin C1) + length pay in
      if n > cn_cap C1 \<and> \<not> en_alloc E then Closing W C1
      else let C2 = C1\<lparr>cn_bin := cn_bin C1 @ pay, cn_cap := (if n > cn_cap C1 then max n 65536 else cn_cap C1)\<rparr> in
      if fin then apply_segment E W C2 else Open W C2)"

text \<open>The answer to a close or ping frame: its payload sent back, when the frame fits.\<close>

definition control_reply :: "ws_env \<Rightarrow> ws_server \<Rightarrow> ws_conn \<Rightarrow> u8 \<Rightarrow> u8 list \<Rightarrow> nat \<Rightarrow> ws_server" where
  "control_reply E W C opcode pay cap =
     (case ws_direct_frame_encode_server opcode (if length pay > 125 then [] else pay) cap of
        Some (fr, m) \<Rightarrow> (if m > 0 \<and> en_send E then W\<lparr>ws_raw := ws_raw W @ [(cn_fd C, fr)]\<rparr> else W)
      | None \<Rightarrow> W)"

definition conn_frame :: "ws_env \<Rightarrow> ws_server \<Rightarrow> ws_conn \<Rightarrow> u8 \<Rightarrow> bool \<Rightarrow> u8 list \<Rightarrow> conn_result" where
  "conn_frame E W C opcode fin pay =
     (if opcode = 0x8 then Closing (control_reply E W C 0x8 pay 16) C
      else if opcode = 0x9 then Open (control_reply E W C 0xA pay 256) C
      else if opcode = 0xA then Open W C
      else if opcode = 0x1 \<or> opcode = 0x0 \<and> cn_frag_op C = 0x1 then text_frame E W C (opcode = 0x1) fin pay
      else if opcode = 0x2 \<or> opcode = 0x0 \<and> cn_frag_op C = 0x2 then binary_frame E W C (opcode = 0x2) fin pay
      else Closing W C)"

definition RCAP :: nat where
  "RCAP = WS_BIN_MSG_MAX + 1024"

text \<open>
  The inner loop: every complete frame in the buffer, in order. The handlers of a frame
  are not passed rbuf: they run on the connection without its buffer, and a connection that
  closes frees it.
\<close>

definition no_buf :: "ws_conn \<Rightarrow> ws_conn" where
  "no_buf C = C\<lparr>cn_buf := []\<rparr>"

function drain :: "ws_env \<Rightarrow> ws_server \<Rightarrow> ws_conn \<Rightarrow> conn_result" where
  "drain E W C =
     (if cn_buf C = [] then Open W C
      else case ws_direct_frame_decode (cn_buf C) of
        NeedMore \<Rightarrow> (if length (cn_buf C) \<ge> RCAP then Closing W (no_buf C) else Open W C)
      | BadFrame \<Rightarrow> Closing W (no_buf C)
      | Frame f \<Rightarrow>
          (if fr_used f \<le> 0 then Closing W (no_buf C)
           else case conn_frame E W (no_buf C) (fr_opcode f) (fr_fin f) (frame_payload f) of
             Closing W' C' \<Rightarrow> Closing W' C'
           | Open W' C' \<Rightarrow> drain E W' (C'\<lparr>cn_buf := drop (nat (fr_used f)) (fr_buf f)\<rparr>)))"
  by pat_completeness auto

termination
proof (relation "measure (\<lambda>(E, W, C). length (cn_buf C))", simp)
  fix E :: ws_env and W :: ws_server and C :: ws_conn and f W' C'
  assume "cn_buf C \<noteq> []" and f: "ws_direct_frame_decode (cn_buf C) = Frame f" and "\<not> fr_used f \<le> 0"
  moreover have "length (fr_buf f) = length (cn_buf C)"
    by (rule decode_FrameD [OF f]) (auto simp: length_unmask split: if_splits)
  ultimately show "((E, W', C'\<lparr>cn_buf := drop (nat (fr_used f)) (fr_buf f)\<rparr>), E, W, C)
      \<in> measure (\<lambda>(E, W, C). length (cn_buf C))"
    by (cases "cn_buf C") auto
qed

declare drain.simps [simp del]

text \<open>One recv of the outer loop: more bytes (at most the room left), a close, or a timeout.\<close>

datatype recv_result = Bytes "u8 list" | PeerClosed | TimedOut | RecvError

definition conn_recv :: "ws_env \<Rightarrow> ws_server \<Rightarrow> ws_conn \<Rightarrow> recv_result \<Rightarrow> conn_result" where
  "conn_recv E W C ev =
     (if length (cn_buf C) \<ge> RCAP then Closing W C
      else case ev of
        Bytes bs \<Rightarrow> (if bs = [] then Closing W C
                     else drain E W (C\<lparr>cn_buf := cn_buf C @ take (RCAP - length (cn_buf C)) bs\<rparr>))
      | PeerClosed \<Rightarrow> Closing W C
      | TimedOut \<Rightarrow> (if ws_live_waiter_count (ws_live W) > 0 then drain E W C else Closing W C)
      | RecvError \<Rightarrow> Closing W C)"

text \<open>conn_done: the uplink is given up; an upload cut short cancels the installation.\<close>

definition conn_done :: "ws_server \<Rightarrow> ws_conn \<Rightarrow> ws_server" where
  "conn_done W C =
     (let was_uplink = (ws_uplink W = cn_fd C);
          W1 = (if was_uplink then W\<lparr>ws_uplink := - 1\<rparr> else W);
          W2 = (if was_uplink \<and> cn_auth C \<and> \<not> cn_finish C
                then (case ws_installer_cancel W1 of
                        (W', r) \<Rightarrow> (if r \<noteq> 0 \<and> ws_live_session_active (ws_live W')
                                   then ws_direct_cancel_session W' else W'))
                else W1)
      in live_remove W2 (cn_fd C))"

section \<open>The HTTP handshake\<close>

definition hs_end :: "string \<Rightarrow> nat option" where
  "hs_end hs = find_at (CRLF @ CRLF) hs"

text \<open>
  The request read so far (at most 8191 characters): the accept key of a valid upgrade, or
  None for the 400 answer; and the bytes behind the request, which begin the frame stream.
\<close>

definition ws_handshake :: "string \<Rightarrow> (string \<times> string) option" where
  "ws_handshake hs =
     (let (method, rest) = scan_word 15 hs; path = (if method = [] then [] else fst (scan_word 511 rest));
          ok_upgrade = (case has_header hs ''Upgrade'' 64 of None \<Rightarrow> False | Some up \<Rightarrow> icontains ''websocket'' up);
          ok_path = (take 10 path = ''/ws/upload'')
      in case (hs_end hs, has_header hs ''Sec-WebSocket-Key'' 256) of
        (Some i, Some key) \<Rightarrow>
          (if method = ''GET'' \<and> ok_path \<and> ok_upgrade
           then map_option (\<lambda>a. (a, drop (i + 4) hs)) (ws_direct_handshake_accept_key key 64)
           else None)
      | _ \<Rightarrow> None)"

definition handshake_answer :: "string option \<Rightarrow> string" where
  "handshake_answer a =
     (case a of
        None \<Rightarrow> ''HTTP/1.1 400 Bad Request'' @ CRLF @ ''Content-Length: 0'' @ CRLF @ ''Connection: close'' @ CRLF @ CRLF
      | Some key \<Rightarrow> ''HTTP/1.1 101 Switching Protocols'' @ CRLF @ ''Upgrade: websocket'' @ CRLF @
          ''Connection: Upgrade'' @ CRLF @ ''Sec-WebSocket-Accept: '' @ key @ CRLF @ CRLF)"

definition ws_accept :: "ws_env \<Rightarrow> ws_server \<Rightarrow> int \<Rightarrow> string \<Rightarrow> conn_result" where
  "ws_accept E W fd hs =
     (let W1 = live_add W fd in
      case ws_handshake hs of
        None \<Rightarrow> Closing (live_remove W1 fd) (conn_init fd [])
      | Some (key, later) \<Rightarrow>
          (if \<not> en_send E \<or> \<not> en_alloc E then Closing (live_remove W1 fd) (conn_init fd [])
           else drain E W1 (conn_init fd (chars_bytes later))))"

end
