(* ===== verification/WsClaims.thy ===== *)
theory WsClaims
  imports WsUpload
begin

text \<open>
  What the upload server promises: no byte sequence from the network breaks the session,
  only the owner's socket moves it, an acknowledged segment is stored, and a lost uploader
  cancels the installation.
\<close>

section \<open>The frame loop and the byte stream\<close>

lemma drain_empty [simp]: "drain E W (C\<lparr>cn_buf := []\<rparr>) = Open W (C\<lparr>cn_buf := []\<rparr>)"
  by (simp add: drain.simps)

lemma used_small:
  assumes "ws_direct_frame_decode buf = Frame f" and "length buf < 2 ^ 31"
  shows "fr_used f = int (fr_pay_off f + fr_pay_len f)" and "0 < fr_used f" and "nat (fr_used f) \<le> length buf"
    and "length (fr_buf f) = length buf"
proof -
  obtain plen hdr mlen where f: "2 \<le> length buf" "frame_len buf = Inr (plen, hdr)"
    "hdr + mlen + plen \<le> length buf" "fr_pay_off f = hdr + mlen" "fr_pay_len f = plen"
    "fr_used f = i32 (hdr + mlen + plen)" "mlen = 4 \<or> mlen = 0" "fr_buf f = (if mlen = 4 then unmask_at buf hdr plen else buf)"
    by (rule decode_FrameD [OF assms(1)]) auto
  have "2 \<le> hdr" using frame_len_bound [OF f(2,1)] by simp
  moreover have "i32 (hdr + mlen + plen) = int (hdr + mlen + plen)"
    using f(3) assms(2) by (intro i32_small) simp
  ultimately show "fr_used f = int (fr_pay_off f + fr_pay_len f)" and "0 < fr_used f" and "nat (fr_used f) \<le> length buf"
    using f by simp_all
  show "length (fr_buf f) = length buf" using f length_unmask [of hdr plen buf] by auto
qed

lemma RCAP_small: "RCAP < 2 ^ 31"
  by (simp add: RCAP_def WS_BIN_MSG_MAX_def)

lemma no_buf_upd [simp]: "no_buf (C\<lparr>cn_buf := b\<rparr>) = no_buf C"
  by (simp add: no_buf_def)

lemma drain_append:
  "length (cn_buf C) + length b < RCAP \<Longrightarrow>
   drain E W (C\<lparr>cn_buf := cn_buf C @ b\<rparr>) =
     (case drain E W C of
        Open W' C' \<Rightarrow> drain E W' (C'\<lparr>cn_buf := cn_buf C' @ b\<rparr>)
      | Closing W' C' \<Rightarrow> Closing W' C')"
proof (induction E W C rule: drain.induct)
  case (1 E W C)
  show ?case
  proof (cases "cn_buf C = []")
    case True
    then show ?thesis by (simp add: drain.simps [of E W C])
  next
    case ne: False
    show ?thesis
    proof (cases "ws_direct_frame_decode (cn_buf C)")
      case NeedMore
      then show ?thesis using ne "1.prems" by (simp add: drain.simps [of E W C])
    next
      case BadFrame
      then have "ws_direct_frame_decode (cn_buf C @ b) = BadFrame" using decode_append [of "cn_buf C" b] by simp
      then show ?thesis using ne BadFrame
        by (simp add: drain.simps [of E W C] drain.simps [of E W "C\<lparr>cn_buf := cn_buf C @ b\<rparr>"])
    next
      case (Frame f)
      have small: "length (cn_buf C) < 2 ^ 31" using "1.prems" RCAP_small by simp
      note u = used_small [OF Frame small]
      have d: "ws_direct_frame_decode (cn_buf C @ b) = Frame (f\<lparr>fr_buf := fr_buf f @ b\<rparr>)"
        using decode_append [of "cn_buf C" b] Frame by simp
      have pay: "frame_payload (f\<lparr>fr_buf := fr_buf f @ b\<rparr>) = frame_payload f"
        using u by (simp add: frame_payload_def)
      have pos: "\<not> fr_used f \<le> 0" using u(2) by simp
      have dr: "drop (nat (fr_used f)) (fr_buf f @ b) = drop (nat (fr_used f)) (fr_buf f) @ b"
        using u(3,4) by simp
      show ?thesis
      proof (cases "conn_frame E W (no_buf C) (fr_opcode f) (fr_fin f) (frame_payload f)")
        case (Closing W' C')
        then show ?thesis using ne Frame pos
          by (simp add: drain.simps [of E W C] drain.simps [of E W "C\<lparr>cn_buf := cn_buf C @ b\<rparr>"] d pay)
      next
        case (Open W' C')
        let ?C = "C'\<lparr>cn_buf := drop (nat (fr_used f)) (fr_buf f)\<rparr>"
        have "length (cn_buf ?C) + length b < RCAP" using "1.prems" u(4) by simp
        from "1.IH" [OF ne Frame pos Open this]
        show ?thesis using ne Frame pos Open dr
          by (simp add: drain.simps [of E W C] drain.simps [of E W "C\<lparr>cn_buf := cn_buf C @ b\<rparr>"] d pay)
      qed
    qed
  qed
qed

lemma drain_shrinks: "drain E W C = Open W' C' \<Longrightarrow> length (cn_buf C') \<le> length (cn_buf C)"
proof (induction E W C rule: drain.induct)
  case (1 E W C)
  show ?case
  proof (cases "cn_buf C = []")
    case True
    then show ?thesis using "1.prems" by (simp add: drain.simps [of E W C])
  next
    case ne: False
    then obtain f where f: "ws_direct_frame_decode (cn_buf C) = Frame f \<or> C' = C"
      using "1.prems" by (auto simp: drain.simps [of E W C] split: decoded.splits if_splits)
    show ?thesis
    proof (cases "C' = C")
      case False
      then have f: "ws_direct_frame_decode (cn_buf C) = Frame f" using f by simp
      have "length (fr_buf f) = length (cn_buf C)"
        by (rule decode_FrameD [OF f]) (auto simp: length_unmask split: if_splits)
      moreover obtain W1 C1 where o: "conn_frame E W (no_buf C) (fr_opcode f) (fr_fin f) (frame_payload f) = Open W1 C1"
        "\<not> fr_used f \<le> 0" "drain E W1 (C1\<lparr>cn_buf := drop (nat (fr_used f)) (fr_buf f)\<rparr>) = Open W' C'"
        using "1.prems" ne f by (auto simp: drain.simps [of E W C] split: if_splits conn_result.splits)
      ultimately show ?thesis using "1.IH" [OF ne f o(2,1,3)] by simp
    qed simp
  qed
qed

text \<open>C39: The connection's reaction to a byte stream does not depend on how TCP cuts it:
  receiving two pieces one after the other (within the receive buffer) leads to the same
  session, the same replies and connection state, or the same close, as receiving them at
  once.\<close>

theorem drain_split:
  assumes "length (cn_buf C) + length a + length b < RCAP" and "a \<noteq> []" and "b \<noteq> []"
  shows "(case conn_recv E W C (Bytes a) of
      Open W' C' \<Rightarrow> conn_recv E W' C' (Bytes b)
    | Closing W' C' \<Rightarrow> Closing W' C') = conn_recv E W C (Bytes (a @ b))"
proof -
  have t: "take (RCAP - length (cn_buf C)) a = a" "take (RCAP - length (cn_buf C)) (a @ b) = a @ b"
    using assms(1) by simp_all
  let ?C = "C\<lparr>cn_buf := cn_buf C @ a\<rparr>"
  have e: "drain E W (C\<lparr>cn_buf := cn_buf C @ a @ b\<rparr>) = (case drain E W ?C of
      Open W' C' \<Rightarrow> drain E W' (C'\<lparr>cn_buf := cn_buf C' @ b\<rparr>) | Closing W' C' \<Rightarrow> Closing W' C')"
    using drain_append [of ?C b E W] assms(1) by simp
  show ?thesis
  proof (cases "drain E W ?C")
    case (Open W' C')
    have "length (cn_buf C') + length b < RCAP" using drain_shrinks [OF Open] assms(1) by simp
    then show ?thesis using assms t e Open by (simp add: conn_recv_def)
  next
    case (Closing W' C')
    then show ?thesis using assms t e by (simp add: conn_recv_def)
  qed
qed

section \<open>No bytes from the network break the session\<close>

definition ws_ok :: "ws_server \<Rightarrow> bool" where
  "ws_ok W = (live_inv (ws_live W) \<and> 4 \<le> lv_slots_cfg (ws_live W) \<and> lv_slots_cfg (ws_live W) \<le> 4096)"

definition conn_ok :: "ws_conn \<Rightarrow> bool" where
  "conn_ok C = (length (cn_text C) \<le> WS_TEXT_MAX \<and> length (cn_bin C) \<le> WS_BIN_MSG_MAX \<and>
     length (cn_bin C) \<le> cn_cap C \<and> - 1 \<le> cn_pending C \<and> cn_pending C \<le> 0x7fffffff)"

definition result_ok :: "conn_result \<Rightarrow> bool" where
  "result_ok r = (case r of Open W C \<Rightarrow> ws_ok W \<and> conn_ok C | Closing W C \<Rightarrow> ws_ok W)"

lemma send_text_frame:
  "send_text E W fd s = (W', r) \<Longrightarrow> \<exists>out. W' = W\<lparr>ws_sent := out\<rparr>"
  by (auto simp: send_text_def split: option.splits if_splits intro: exI [of _ "ws_sent W"])

lemma reply_frame: "\<exists>out. reply E W C s = W\<lparr>ws_sent := out\<rparr>"
  using send_text_frame by (metis prod.collapse reply_def)

lemma reply_simps [simp]:
  "ws_live (reply E W C s) = ws_live W" "ws_uplink (reply E W C s) = ws_uplink W"
  "ws_owner (reply E W C s) = ws_owner W" "ws_inst (reply E W C s) = ws_inst W"
  "ws_owner_sid (reply E W C s) = ws_owner_sid W" "ws_icon (reply E W C s) = ws_icon W"
  using reply_frame [of E W C s] by auto

lemma ws_ok_reply [simp]: "ws_ok (reply E W C s) = ws_ok W"
  by (simp add: ws_ok_def)

lemma control_reply_simps [simp]:
  "ws_live (control_reply E W C op pay k) = ws_live W" "ws_uplink (control_reply E W C op pay k) = ws_uplink W"
  by (simp_all add: control_reply_def split: option.split)

lemma set_seek_cfg [simp]: "lv_slots_cfg (ws_live_set_seek_fn L b) = lv_slots_cfg L"
  by (simp add: ws_live_set_seek_fn_def)

lemma ensure_listener_ok: "ws_ok W \<Longrightarrow> ws_ok (fst (ws_direct_ensure_listener E W))"
  by (auto simp: ws_ok_def ws_direct_ensure_listener_def ws_direct_listener_start_def Let_def set_seek_inv
      split: option.split prod.split)

lemma init_session_ok:
  assumes "ws_ok W"
  shows "ws_ok (fst (ws_direct_init_session E W fn tot k))"
proof (cases "fn = [] \<or> tot = 0 \<or> tot > WS_DIRECT_MAX_TOTAL")
  case True
  then show ?thesis using assms by (auto simp: ws_direct_init_session_def)
next
  case False
  obtain L rc out where c: "ws_live_create (ws_live W) (en_slots E) (en_alloc E) (en_id E) fn tot 0 k = (L, rc, out)"
    by (metis prod_cases3)
  have tot: "tot \<le> LIVE_MAX" using False by (simp add: WS_DIRECT_MAX_TOTAL_def LIVE_MAX_def)
  have "live_inv L" using create_inv [OF _ _ tot c] assms by (simp add: ws_ok_def)
  moreover have "lv_slots_cfg L = lv_slots_cfg (ws_live W)"
    using create_fresh [OF c] by (cases "L = ws_live W") auto
  ultimately have ok: "ws_ok (W\<lparr>ws_live := L\<rparr>)" using assms by (simp add: ws_ok_def)
  then show ?thesis using False c ensure_listener_ok [OF ok] by (simp add: ws_direct_init_session_def Let_def)
qed

lemma destroy_cfg [simp]: "lv_slots_cfg (ws_live_destroy (ws_live_abort L)) = lv_slots_cfg L"
  by (simp add: ws_live_destroy_def ws_live_abort_def free_locked_def Let_def)

lemma cancel_session_ok: "ws_ok W \<Longrightarrow> ws_ok (ws_direct_cancel_session W)"
  by (simp add: ws_ok_def ws_direct_cancel_session_def clear_icon_def Let_def destroy_inv abort_inv)

lemma installer_cancel_ok: "ws_ok W \<Longrightarrow> ws_ok (fst (ws_installer_cancel W))"
  by (simp add: ws_ok_def ws_installer_cancel_def installer_cancel_def destroy_inv abort_inv)

lemma finish_ok: "ws_ok W \<Longrightarrow> ws_ok (fst (ws_direct_finish_session W k))"
  by (simp add: ws_ok_def ws_direct_finish_session_def ws_live_finish_def Let_def live_inv_def)

lemma msg_session_ok: "ws_ok W \<Longrightarrow> ws_ok (fst (msg_session E W msg fn tot))"
  using init_session_ok [of W E fn tot 64]
  by (auto simp: msg_session_def split: option.split prod.split)

lemma msg_init_ok:
  assumes "ws_ok W"
  shows "ws_ok (fst (msg_init E W C msg)) \<and> (\<exists>a s. snd (msg_init E W C msg) = C\<lparr>cn_auth := a, cn_sid := s\<rparr>)"
proof -
  have c: "\<exists>a s. C = C\<lparr>cn_auth := a, cn_sid := s\<rparr>" by (intro exI [of _ "cn_auth C"] exI [of _ "cn_sid C"]) simp
  have u: "ws_ok (W1\<lparr>ws_uplink := x\<rparr>) = ws_ok W1" for W1 x by (simp add: ws_ok_def)
  show ?thesis
  proof (cases "wsj_string msg ''filename'' 256")
    case None
    then show ?thesis using assms c by (simp add: msg_init_def)
  next
    case fn: (Some fn)
    show ?thesis
    proof (cases "wsj_u64 msg ''total''")
      case None
      then show ?thesis using fn assms c by (simp add: msg_init_def)
    next
      case (Some tot)
      obtain W1 r where m: "msg_session E W msg fn tot = (W1, r)" by fastforce
      have "ws_ok W1" using msg_session_ok [OF assms, of E msg fn tot] m by simp
      then show ?thesis using fn Some assms c u m
        by (auto simp: msg_init_def split: sum.split prod.split)
    qed
  qed
qed

lemma handle_text_ok:
  assumes ok: "ws_ok W" and c: "conn_ok C" and h: "handle_text_msg E W C msg = (W', C')"
  shows "ws_ok W' \<and> (\<exists>a s f p. C' = C\<lparr>cn_auth := a, cn_sid := s, cn_finish := f, cn_pending := p\<rparr> \<and>
    - 1 \<le> p \<and> p \<le> 0x7fffffff)"
proof -
  have p: "- 1 \<le> cn_pending C" "cn_pending C \<le> 0x7fffffff" using c by (simp_all add: conn_ok_def)
  define Q where "Q X = (ws_ok (fst X) \<and> (\<exists>a s f p. snd X = C\<lparr>cn_auth := a, cn_sid := s, cn_finish := f, cn_pending := p\<rparr> \<and>
    - 1 \<le> p \<and> p \<le> 0x7fffffff))" for X
  have QI: "Q (V, C\<lparr>cn_auth := a, cn_sid := s, cn_finish := f, cn_pending := q\<rparr>)"
    if "ws_ok V" "- 1 \<le> q" "q \<le> 0x7fffffff" for V a s f q
    using that by (auto simp: Q_def)
  have same: "Q (V, C)" if "ws_ok V" for V
    using QI [OF that p, where a = "cn_auth C" and s = "cn_sid C" and f = "cn_finish C"] by simp
  have "Q (msg_init E W C msg)"
  proof -
    obtain V D where m: "msg_init E W C msg = (V, D)" by fastforce
    obtain a s where D: "ws_ok V" "D = C\<lparr>cn_auth := a, cn_sid := s\<rparr>"
      using msg_init_ok [OF ok, of E C msg] m by auto
    have "D = C\<lparr>cn_auth := a, cn_sid := s, cn_finish := cn_finish C, cn_pending := cn_pending C\<rparr>"
      by (simp add: D(2))
    then show ?thesis using QI [OF D(1) p, where a = a and s = s and f = "cn_finish C"] m by simp
  qed
  moreover have "Q (msg_finish E W C)"
  proof -
    obtain W1 r path where f: "ws_direct_finish_session W 640 = (W1, r, path)" by (metis prod_cases3)
    have "ws_ok W1" using finish_ok [OF ok, of 640] f by simp
    then show ?thesis using same ok f QI [OF _ p, where a = "cn_auth C" and s = "cn_sid C" and f = True]
      by (auto simp: msg_finish_def split: prod.split)
  qed
  moreover have "Q (msg_cancel E W C)"
    using same ok cancel_session_ok [OF ok] by (simp add: msg_cancel_def)
  moreover have "Q (msg_seg E W C msg)"
  proof (cases "conn_authorized W C")
    case True
    define n where "n = (case strstr msg (json ''`seg`:'') of None \<Rightarrow> 0 | Some q \<Rightarrow> fst (strtoull (drop 6 q)))"
    have "msg_seg E W C msg = (W, C\<lparr>cn_pending := (if n \<le> 0x7fffffff then int n else - 1)\<rparr>)"
      using True by (simp add: msg_seg_def n_def Let_def)
    then show ?thesis using QI [OF ok, where q = "if n \<le> 0x7fffffff then int n else - 1" and a = "cn_auth C" and s = "cn_sid C" and f = "cn_finish C"]
      by simp
  qed (use same ok in \<open>simp add: msg_seg_def\<close>)
  ultimately have "Q (handle_text_msg E W C msg)"
    using same ok by (auto simp: handle_text_msg_def split: option.split)
  then show ?thesis using h by (simp add: Q_def)
qed

lemma text_frame_ok:
  assumes ok: "ws_ok W" and c: "conn_ok C"
  shows "result_ok (text_frame E W C st fin pay)"
proof -
  define C1 where "C1 = (if st then C\<lparr>cn_text := [], cn_frag_op := 0x1, cn_frag_on := True\<rparr> else C)"
  have c1: "conn_ok C1" using c by (simp add: C1_def conn_ok_def)
  show ?thesis
  proof (cases "(st \<and> cn_frag_on C) \<or> (\<not> st \<and> \<not> cn_frag_on C) \<or> length (cn_text C1) + length pay > WS_TEXT_MAX")
    case True
    then show ?thesis using ok by (auto simp: text_frame_def Let_def result_ok_def C1_def)
  next
    case False
    define C2 where "C2 = C1\<lparr>cn_text := cn_text C1 @ pay\<rparr>"
    have c2: "conn_ok C2" using c1 False by (simp add: C2_def conn_ok_def)
    obtain W' C' where h: "handle_text_msg E W C2 (bytes_string (cn_text C2)) = (W', C')" by fastforce
    have t: "text_frame E W C st fin pay =
      (if fin then Open W' (C'\<lparr>cn_frag_on := False, cn_text := []\<rparr>) else Open W C2)"
      using False h unfolding text_frame_def Let_def C1_def [symmetric] C2_def [symmetric] by simp
    show ?thesis using handle_text_ok [OF ok c2 h] c2 ok
      by (auto simp: t result_ok_def conn_ok_def)
  qed
qed

lemma apply_segment_ok:
  assumes ok: "ws_ok W" and c: "conn_ok C"
  shows "result_ok (apply_segment E W C)"
proof -
  obtain segs n where x: "expected_len (ws_live_get_total (ws_live W)) (nat (cn_pending C)) = (segs, n)" by fastforce
  let ?C' = "C\<lparr>cn_pending := - 1, cn_frag_on := False, cn_bin := []\<rparr>"
  have c': "conn_ok ?C'" using c by (simp add: conn_ok_def)
  obtain L r where w: "ws_live_try_write (ws_live W) (u64_mul (nat (cn_pending C)) SEG)
      (Some (mem_of (cn_bin C))) (length (cn_bin C)) = (L, r)" by fastforce
  have i: "live_inv (ws_live W)" and len: "length (cn_bin C) < 2 ^ 64"
    using ok c by (simp_all add: ws_ok_def conn_ok_def WS_BIN_MSG_MAX_def)
  note f = try_write_frame [OF i u64_mul_less len w]
  have ok': "ws_ok (W\<lparr>ws_live := L\<rparr>)" using f ok by (auto simp: ws_ok_def live_same_session_def)
  obtain W2 q where s: "send_text E (W\<lparr>ws_live := L\<rparr>) (cn_fd C)
      (seg_text ''ack'' (nat (cn_pending C)) (length (cn_bin C)) (en_rx_us E)) = (W2, q)" by fastforce
  have "ws_ok W2" using send_text_frame [OF s] ok' by (auto simp: ws_ok_def)
  then show ?thesis
    using f ok ok' c' w s by (auto simp: apply_segment_def Let_def x result_ok_def split: c_result.splits)
qed

lemma binary_frame_ok:
  assumes ok: "ws_ok W" and c: "conn_ok C"
  shows "result_ok (binary_frame E W C st fin pay)"
proof -
  define C1 where "C1 = (if st then C\<lparr>cn_frag_op := 0x2, cn_frag_on := True, cn_bin := []\<rparr> else C)"
  define n where "n = length (cn_bin C1) + length pay"
  define C2 where "C2 = C1\<lparr>cn_bin := cn_bin C1 @ pay, cn_cap := (if n > cn_cap C1 then max n 65536 else cn_cap C1)\<rparr>"
  have c2: "conn_ok C2" if "n \<le> WS_BIN_MSG_MAX"
    using c that by (auto simp: C2_def C1_def conn_ok_def n_def max_def)
  show ?thesis
    using ok c2 apply_segment_ok [OF ok c2, of E]
    unfolding binary_frame_def Let_def C1_def [symmetric] n_def [symmetric] C2_def [symmetric]
    by (auto simp: result_ok_def not_less)
qed

lemma conn_frame_ok:
  assumes "ws_ok W" and "conn_ok C"
  shows "result_ok (conn_frame E W C opcode fin pay)"
proof -
  have "ws_ok (control_reply E W C op pay k)" for op k using assms(1) by (simp add: ws_ok_def control_reply_def split: option.split)
  then show ?thesis
    using assms text_frame_ok [OF assms] binary_frame_ok [OF assms] by (simp add: conn_frame_def result_ok_def)
qed

lemma drain_ok: "ws_ok W \<Longrightarrow> conn_ok C \<Longrightarrow> result_ok (drain E W C)"
proof (induction E W C rule: drain.induct)
  case (1 E W C)
  show ?case
  proof (cases "\<exists>f. cn_buf C \<noteq> [] \<and> ws_direct_frame_decode (cn_buf C) = Frame f \<and> \<not> fr_used f \<le> 0")
    case False
    then show ?thesis using "1.prems"
      by (auto simp: drain.simps [of E W C] result_ok_def split: decoded.split)
  next
    case True
    then obtain f where f: "cn_buf C \<noteq> []" "ws_direct_frame_decode (cn_buf C) = Frame f" "\<not> fr_used f \<le> 0" by blast
    have "conn_ok (no_buf C)" using "1.prems"(2) by (simp add: conn_ok_def no_buf_def)
    then have r: "result_ok (conn_frame E W (no_buf C) (fr_opcode f) (fr_fin f) (frame_payload f))"
      by (rule conn_frame_ok [OF "1.prems"(1)])
    show ?thesis
    proof (cases "conn_frame E W (no_buf C) (fr_opcode f) (fr_fin f) (frame_payload f)")
      case (Open W1 C1)
      then have o: "ws_ok W1" "conn_ok C1" using r by (simp_all add: result_ok_def)
      then have "conn_ok (C1\<lparr>cn_buf := b\<rparr>)" for b by (simp add: conn_ok_def)
      then show ?thesis using "1.IH" [OF f Open o(1)] f Open by (simp add: drain.simps [of E W C])
    next
      case (Closing W1 C1)
      then show ?thesis using r f by (simp add: drain.simps [of E W C] result_ok_def)
    qed
  qed
qed

lemma conn_done_ok: "ws_ok W \<Longrightarrow> ws_ok (conn_done W C)"
proof -
  assume ok: "ws_ok W"
  then have ok1: "ws_ok (if ws_uplink W = cn_fd C then W\<lparr>ws_uplink := - 1\<rparr> else W)" by (simp add: ws_ok_def)
  have r: "ws_ok (live_remove V fd) = ws_ok V" for V fd by (simp add: ws_ok_def live_remove_def)
  show ?thesis
    using ok1 installer_cancel_ok [OF ok1] cancel_session_ok [OF installer_cancel_ok [OF ok1]]
    by (auto simp: conn_done_def Let_def r split: prod.split)
qed

text \<open>C34: Whatever bytes a peer sends, in whatever pieces, framed or not, authorized or
  not, the server stays sound: handling them keeps the session consistent and every buffer of
  the connection within its bound (text 16 KiB, binary 8 MiB, receive buffer RCAP, segment
  number within an int), and closing the connection keeps the session consistent too.\<close>

theorem network_safe:
  assumes "ws_ok W" and "conn_ok C" and "length (cn_buf C) \<le> RCAP"
  shows "case conn_recv E W C ev of
      Open W' C' \<Rightarrow> ws_ok W' \<and> conn_ok C' \<and> length (cn_buf C') \<le> RCAP
    | Closing W' C' \<Rightarrow> ws_ok (conn_done W' C')"
proof -
  have d: "case drain E W (C\<lparr>cn_buf := b\<rparr>) of
      Open W' C' \<Rightarrow> ws_ok W' \<and> conn_ok C' \<and> length (cn_buf C') \<le> RCAP
    | Closing W' C' \<Rightarrow> ws_ok (conn_done W' C')" if "length b \<le> RCAP" for b
  proof -
    have "conn_ok (C\<lparr>cn_buf := b\<rparr>)" using assms(2) by (simp add: conn_ok_def)
    from drain_ok [OF assms(1) this, of E] show ?thesis
      using drain_shrinks [of E W "C\<lparr>cn_buf := b\<rparr>"] that conn_done_ok
      by (fastforce simp: result_ok_def split: conn_result.splits)
  qed
  have len: "length (cn_buf C @ take (RCAP - length (cn_buf C)) bs) \<le> RCAP" for bs
    using assms(3) by simp
  show ?thesis
  proof (cases "length (cn_buf C) \<ge> RCAP")
    case True
    then show ?thesis using assms(1) conn_done_ok by (simp add: conn_recv_def)
  next
    case False
    then show ?thesis
      using assms conn_done_ok d [OF len] d [of "cn_buf C"] by (cases ev) (simp_all add: conn_recv_def)
  qed
qed

section \<open>Only the owner's socket moves the session\<close>

lemma send_text_simps:
  assumes "send_text E W fd s = (W', r)"
  shows "ws_live W' = ws_live W \<and> ws_inst W' = ws_inst W \<and> ws_owner W' = ws_owner W \<and>
    ws_owner_sid W' = ws_owner_sid W \<and> ws_icon W' = ws_icon W \<and> ws_uplink W' = ws_uplink W"
  using send_text_frame [OF assms] by auto

text \<open>What a stranger must leave alone, and what it must show to be admitted.\<close>

definition untouched :: "ws_server \<Rightarrow> ws_server \<Rightarrow> bool" where
  "untouched W W' = (ws_live W' = ws_live W \<and> ws_inst W' = ws_inst W \<and> ws_owner W' = ws_owner W \<and>
     ws_owner_sid W' = ws_owner_sid W \<and> ws_icon W' = ws_icon W)"

definition admitted :: "ws_server \<Rightarrow> ws_conn \<Rightarrow> string \<Rightarrow> ws_server \<Rightarrow> bool" where
  "admitted W C msg W' =
     (wsj_string msg ''op'' 32 = Some ''init'' \<and> wsj_string msg ''owner'' 65 = Some (ws_owner W) \<and>
      wsj_string msg ''session_id'' 64 = Some (ws_owner_sid W) \<and>
      ws_live_check_id (ws_live W) (ws_owner_sid W) \<and>
      (ws_uplink W < 0 \<or> ws_uplink W = cn_fd C) \<and> ws_uplink W' = cn_fd C)"

lemma untouched_reply [simp]: "untouched W (reply E W C s)" "untouched W W"
  by (simp_all add: untouched_def)

lemma stranger_session:
  assumes "ws_owner W \<noteq> []" and "msg_session E W msg fn tot = (W1, r)"
  shows "W1 = W \<and> (\<forall>rc sid. r = Inr (rc, sid) \<longrightarrow>
    wsj_string msg ''owner'' 65 = Some (ws_owner W) \<and> wsj_string msg ''session_id'' 64 = Some (ws_owner_sid W) \<and>
    ws_live_check_id (ws_live W) (ws_owner_sid W))"
  using assms
  by (auto simp: msg_session_def ws_direct_owner_matches_def owner_ok_def split: option.splits if_splits)

lemma stranger_text:
  assumes o: "ws_owner W \<noteq> []" and a: "\<not> cn_auth C" and h: "handle_text_msg E W C msg = (W', C')"
  shows "untouched W W' \<and> (cn_auth C' \<longrightarrow> admitted W C msg W') \<and> (\<not> cn_auth C' \<longrightarrow> ws_uplink W' = ws_uplink W)"
proof -
  have un: "\<not> conn_authorized W C" using a by (simp add: conn_authorized_def)
  show ?thesis
  proof (cases "wsj_string msg ''op'' 32 = Some ''init''")
    case False
    then show ?thesis using h a un
      by (auto simp: handle_text_msg_def msg_finish_def msg_cancel_def msg_seg_def split: option.splits if_splits)
  next
    case True
    then have i: "msg_init E W C msg = (W', C')" using h by (simp add: handle_text_msg_def)
    show ?thesis
    proof (cases "wsj_string msg ''filename'' 256 = None \<or> wsj_u64 msg ''total'' = None \<or> wsj_u64 msg ''total'' = Some 0")
      case True
      then show ?thesis using i a by (auto simp: msg_init_def split: option.splits)
    next
      case False
      then obtain fn tot where ft: "wsj_string msg ''filename'' 256 = Some fn" "wsj_u64 msg ''total'' = Some tot" "tot \<noteq> 0"
        by auto
      obtain W1 r where m: "msg_session E W msg fn tot = (W1, r)" by fastforce
      note s = stranger_session [OF o m]
      show ?thesis
      proof (cases r)
        case (Inl e)
        then show ?thesis using i a ft m s by (auto simp: msg_init_def)
      next
        case (Inr x)
        obtain rc sid where x: "x = (rc, sid)" by fastforce
        show ?thesis using i a ft m s Inr x True
          by (auto simp: msg_init_def admitted_def untouched_def split: if_splits)
      qed
    qed
  qed
qed

lemma conn_frame_cases:
  obtains (control) V where "conn_frame E W C opcode fin pay = Open V C \<or> conn_frame E W C opcode fin pay = Closing V C"
      "V = W \<or> (\<exists>op k. V = control_reply E W C op pay k)"
    | (textual) "conn_frame E W C opcode fin pay = text_frame E W C (opcode = 0x1) fin pay"
    | (binary) st where "conn_frame E W C opcode fin pay = binary_frame E W C st fin pay"
proof -
  consider "opcode = 0x8" | "opcode = 0x9" | "opcode = 0xA"
    | "opcode \<notin> {0x8, 0x9, 0xA}" "opcode = 0x1 \<or> opcode = 0x0 \<and> cn_frag_op C = 0x1"
    | "opcode \<notin> {0x8, 0x9, 0xA}" "\<not> (opcode = 0x1 \<or> opcode = 0x0 \<and> cn_frag_op C = 0x1)"
      "opcode = 0x2 \<or> opcode = 0x0 \<and> cn_frag_op C = 0x2"
    | "opcode \<notin> {0x8, 0x9, 0xA}" "\<not> (opcode = 0x1 \<or> opcode = 0x0 \<and> cn_frag_op C = 0x1)"
      "\<not> (opcode = 0x2 \<or> opcode = 0x0 \<and> cn_frag_op C = 0x2)"
    by blast
  then show thesis
  proof cases
    case 1
    then show thesis using control [of "control_reply E W C 0x8 pay 16"] by (auto simp: conn_frame_def)
  next
    case 2
    then show thesis using control [of "control_reply E W C 0xA pay 256"] by (auto simp: conn_frame_def)
  next
    case 3
    then show thesis using control [of W] by (simp add: conn_frame_def)
  next
    case 4
    then show thesis using textual unfolding conn_frame_def by auto
  next
    case 5
    then show thesis using binary [of "opcode = 0x2"] unfolding conn_frame_def by auto
  next
    case 6
    then have "conn_frame E W C opcode fin pay = Closing W C" unfolding conn_frame_def by auto
    then show thesis using control [of W] by simp
  qed
qed

text \<open>C36: While a session has an owner, a connection that has not authenticated cannot
  touch it: no frame it sends, text, binary or control, changes the stored bytes, the
  installation, the owner or the icon, and none changes which socket receives the seek
  requests, unless the frame completes an init message that carries the owner's token and the
  session id of the live session while no other socket is the uploader.\<close>

theorem stranger_harmless:
  assumes o: "ws_owner W \<noteq> []" and a: "\<not> cn_auth C"
    and r: "conn_frame E W C opcode fin pay = Open W' C' \<or> conn_frame E W C opcode fin pay = Closing W' C'"
  shows "untouched W W' \<and>
    (cn_auth C' \<longrightarrow> admitted W C (bytes_string ((if opcode = 0x1 then [] else cn_text C) @ pay)) W') \<and>
    (\<not> cn_auth C' \<longrightarrow> ws_uplink W' = ws_uplink W)"
proof -
  have bin: "\<not> cn_auth C' \<and> untouched W W' \<and> ws_uplink W' = ws_uplink W"
    if "binary_frame E W C st fin pay = Open W' C' \<or> binary_frame E W C st fin pay = Closing W' C'" for st
    using that a by (auto simp: binary_frame_def apply_segment_def conn_authorized_def Let_def split: if_splits prod.splits)
  have tx: "untouched W W' \<and> (cn_auth C' \<longrightarrow> admitted W C (bytes_string ((if st then [] else cn_text C) @ pay)) W') \<and>
      (\<not> cn_auth C' \<longrightarrow> ws_uplink W' = ws_uplink W)"
    if t: "text_frame E W C st fin pay = Open W' C' \<or> text_frame E W C st fin pay = Closing W' C'" for st
  proof -
    define C1 where "C1 = (if st then C\<lparr>cn_text := [], cn_frag_op := 0x1, cn_frag_on := True\<rparr> else C)"
    define C2 where "C2 = C1\<lparr>cn_text := cn_text C1 @ pay\<rparr>"
    obtain V D where h: "handle_text_msg E W C2 (bytes_string (cn_text C2)) = (V, D)" by fastforce
    have c2: "\<not> cn_auth C2" "cn_fd C2 = cn_fd C" "\<not> cn_auth C1" "cn_text C2 = (if st then [] else cn_text C) @ pay"
      using a by (simp_all add: C2_def C1_def)
    note s = stranger_text [OF o c2(1) h]
    have "text_frame E W C st fin pay = Closing W C \<or> text_frame E W C st fin pay = Closing W C1 \<or>
        text_frame E W C st fin pay = Open W C2 \<or>
        text_frame E W C st fin pay = Open V (D\<lparr>cn_frag_on := False, cn_text := []\<rparr>)"
      using h unfolding text_frame_def Let_def C1_def [symmetric] C2_def [symmetric] by simp
    with t consider "W' = W" "C' = C \<or> C' = C1 \<or> C' = C2" | "W' = V" "C' = D\<lparr>cn_frag_on := False, cn_text := []\<rparr>"
      by fastforce
    then show ?thesis
    proof cases
      case 1
      then show ?thesis using a c2(1,3) by auto
    next
      case 2
      then show ?thesis using s unfolding c2(2,4) admitted_def by simp
    qed
  qed
  have ctl: "untouched W (control_reply E W C op pay k)" for op k
    by (simp add: control_reply_def untouched_def split: option.split)
  show ?thesis
  proof (cases rule: conn_frame_cases [of E W C opcode fin pay])
    case (control V)
    then show ?thesis using r a ctl by auto
  next
    case textual
    then show ?thesis using r textual tx [of "opcode = 0x1"] by simp
  next
    case binary
    then show ?thesis using r bin by metis
  qed
qed

text \<open>A live session belongs to the token that created it: ws_direct_init_owned never
  changes the server while a session is alive, and it answers 0 (handing out the session id)
  only to the same token presenting that id, file name and size; every other caller gets -2,
  or -1 for malformed arguments.\<close>

theorem init_owned_exclusive:
  assumes "ws_live_session_active (ws_live W)"
    and "ws_direct_init_owned E W filename tot owner resume_sid sid_max = (W', rc, out)"
  shows "W' = W \<and> rc \<in> {0, - 1, - 2} \<and>
    (rc = 0 \<longrightarrow> owner = Some (ws_owner W) \<and> resume_sid = Some (ws_owner_sid W) \<and> ws_owner W \<noteq> [] \<and>
       filename = ws_owner_filename W \<and> tot = ws_owner_total W \<and>
       lv_session_id (ws_live W) = ws_owner_sid W \<and> out = Some (c_trunc sid_max (ws_owner_sid W))) \<and>
    (rc \<noteq> 0 \<longrightarrow> out = None)"
proof (cases owner)
  case None
  then show ?thesis using assms(2) by (auto simp: ws_direct_init_owned_def)
next
  case (Some t)
  define same where "same = (ws_owner W \<noteq> [] \<and> resume_sid \<noteq> None \<and> resume_sid \<noteq> Some [] \<and> t = ws_owner W \<and>
    the resume_sid = ws_owner_sid W \<and> filename = ws_owner_filename W \<and>
    tot = ws_owner_total W \<and> ws_live_check_id (ws_live W) (the resume_sid))"
  have s: "same \<longrightarrow> t = ws_owner W \<and> resume_sid = Some (ws_owner_sid W) \<and> ws_owner W \<noteq> [] \<and>
      filename = ws_owner_filename W \<and> tot = ws_owner_total W \<and> lv_session_id (ws_live W) = ws_owner_sid W"
    unfolding same_def ws_live_check_id_def by fastforce
  have "ws_direct_init_owned E W filename tot (Some t) resume_sid sid_max =
      (if length t < 32 \<or> length t > 64 \<or> filename = [] \<or> tot = 0 \<or> tot > WS_DIRECT_MAX_TOTAL \<or> sid_max < 64
       then (W, - 1, None)
       else (W, if same then 0 else - 2, if same then Some (c_trunc sid_max (ws_owner_sid W)) else None))"
    unfolding ws_direct_init_owned_def option.case Let_def same_def using assms(1) by (simp only: if_True)
  then have "(W', rc, out) = (W, - 1, None) \<or>
      (W', rc, out) = (W, if same then 0 else - 2, if same then Some (c_trunc sid_max (ws_owner_sid W)) else None)"
    using assms(2) unfolding Some by presburger
  then consider "W' = W" "rc = - 1" "out = None" | "W' = W" "rc = - 2" "out = None"
    | "W' = W" "rc = 0" "same" "out = Some (c_trunc sid_max (ws_owner_sid W))"
    by (cases same) fastforce+
  then show ?thesis
  proof cases
    case 3
    then show ?thesis unfolding Some using s by simp
  qed simp_all
qed

section \<open>Segments and their answers\<close>

lemma ack_not: "seg_text ''ack'' a b c \<noteq> err_text e" "seg_text ''ack'' a b c \<noteq> seg_text ''busy'' a' b' c'"
proof -
  have a: "seg_text ''ack'' a b c ! 7 = CHR ''a''" by (simp add: seg_text_def c_trunc_def json_def)
  moreover have "err_text e ! 7 = CHR ''e''" by (simp add: err_text_def json_def)
  moreover have "seg_text ''busy'' a' b' c' ! 7 = CHR ''b''" by (simp add: seg_text_def c_trunc_def json_def)
  ultimately show "seg_text ''ack'' a b c \<noteq> err_text e" "seg_text ''ack'' a b c \<noteq> seg_text ''busy'' a' b' c'"
    by auto
qed

lemma reply_sent: "ws_sent (reply E W C s) = ws_sent W @ [(cn_fd C, s)] \<or> ws_sent (reply E W C s) = ws_sent W"
  by (simp add: reply_def send_text_def split: option.split)

lemma expected_seg:
  assumes ok: "live_ok L" and act: "lv_active L" and x: "expected_len (ws_live_get_total L) seg = (segs, n)" and s: "seg < segs"
  shows "seg < lv_nsegs L \<and> n = seg_len_locked L seg \<and> u64_mul seg SEG = seg * SEG"
proof -
  have shape: "live_shape L" using ok by (simp add: live_ok_def)
  have t: "0 < lv_total L" "lv_total L \<le> LIVE_MAX" using shape by (simp_all add: live_shape_def)
  have "u64_sub (u64_add (lv_total L) SEG) 1 div SEG = lv_nsegs L"
    using shape seg_count_eq [OF t(2,1)] by (simp add: live_shape_def seg_count_def)
  then have segs: "segs = lv_nsegs L" and n: "n = (if seg = segs - 1 then lv_total L - seg * SEG else SEG)"
    using x act t s by (auto simp: expected_len_def ws_live_get_total_def Let_def)
  then have seg: "seg < lv_nsegs L" using s by simp
  have "seg_len_locked L seg = n"
  proof (cases "seg = segs - 1")
    case True
    have "lv_total L \<le> (seg + 1) * SEG"
      using True segs seg shape by (auto simp: live_shape_def SEG_def)
    then show ?thesis using True n seg_len_eq [OF shape seg] by simp
  next
    case False
    then have "seg + 1 < lv_nsegs L" using seg segs by simp
    then have "(seg + 1) * SEG < lv_total L" by (rule seg_start_less_total [OF shape])
    then show ?thesis using False n seg_len_eq [OF shape seg] by simp
  qed
  moreover have "u64_mul seg SEG = seg * SEG"
    using seg_start_less_total [OF shape seg] live_total_small [OF shape] by (intro u64_mul_small) simp
  ultimately show ?thesis using seg by simp
qed

text \<open>C35: An "ack" is true: when a binary message is answered with an ack for segment s,
  the connection was authorized for the live session, the message was exactly the bytes of
  segment s in length, and s now counts as received; and when those bytes are the file's, the
  stored copy still agrees with the file everywhere.\<close>

theorem ack_means_stored:
  assumes ok: "ws_ok W" and r: "apply_segment E W C = Open W' C' \<or> apply_segment E W C = Closing W' C'"
    and sent: "ws_sent W' = ws_sent W @ [(cn_fd C, seg_text ''ack'' a b c)]"
    and len: "length (cn_bin C) < 2 ^ 31"
  shows "let s = nat (cn_pending C); L = ws_live W; L' = ws_live W' in
    conn_authorized W C \<and> s < lv_nsegs L \<and> length (cn_bin C) = seg_len_locked L s \<and> lv_acked_ever L' ! s \<and>
    (live_content L F \<and> (\<forall>k < length (cn_bin C). cn_bin C ! k = F (s * SEG + k)) \<longrightarrow> live_content L' F)"
proof -
  let ?s = "nat (cn_pending C)" and ?L = "ws_live W" and ?n = "length (cn_bin C)"
  obtain segs n where x: "expected_len (ws_live_get_total ?L) ?s = (segs, n)" by fastforce
  obtain L r where w: "ws_live_try_write ?L (u64_mul ?s SEG) (Some (mem_of (cn_bin C))) ?n = (L, r)" by fastforce
  have no: "ws_sent (reply E V C e) \<noteq> ws_sent W @ [(cn_fd C, seg_text ''ack'' a b c)]"
    if "ws_sent V = ws_sent W" "seg_text ''ack'' a b c \<noteq> e" for V e
    using reply_sent [of E V C e] that by auto
  have good: "conn_authorized W C \<and> ?s < segs \<and> ?n = n \<and> lv_active ?L"
    using r sent no ack_not(1) x
    by (auto simp: apply_segment_def Let_def ws_live_session_active_def split: if_splits)
  have i: "live_inv ?L" using ok by (simp add: ws_ok_def)
  then have lok: "live_ok ?L" using good live_inv_active by blast
  note e = expected_seg [OF lok _ x]
  have seg: "?s < lv_nsegs ?L" "?n = seg_len_locked ?L ?s" "u64_mul ?s SEG = ?s * SEG" using e good by auto
  have n64: "?n < 2 ^ 64" using len by simp
  note f = try_write_frame [OF i u64_mul_less n64 w]
  have r0: "r = Ret 0 \<and> ws_live W' = L"
  proof -
    obtain V q where s: "send_text E (W\<lparr>ws_live := L\<rparr>) (cn_fd C) (seg_text ''ack'' ?s ?n (en_rx_us E)) = (V, q)" by fastforce
    have V: "ws_live V = L" using send_text_simps [OF s] by simp
    show ?thesis
      using r sent no ack_not x w good f V s
      by (auto simp: apply_segment_def Let_def ws_live_session_active_def split: if_splits c_result.splits)
  qed
  have shape: "live_shape ?L" using lok by (simp add: live_ok_def)
  have range: "seg_range (?s * SEG) ?n = [?s]" unfolding seg(2) by (rule seg_range_one(1) [OF shape seg(1)])
  have "try_write_segs ?L (mem_of (cn_bin C)) (?s * SEG) ?n [?s] = (L, Ret 0)"
    using w r0 seg range seg_len_pos [OF shape seg(1)] by (auto simp: ws_live_try_write_def split: if_splits)
  moreover have s44: "\<forall>t \<in> set [?s]. t < 2 ^ 44" using seg(1) nsegs_bound [OF shape] by simp
  moreover have "?s * SEG + ?n < 2 ^ 64" using seg_end_le [OF shape seg(1)] live_total_small [OF shape] seg(2) by simp
  ultimately have "lv_acked_ever L ! ?s"
    using try_write_segs_acked(2) [OF lok s44 _ n64 _ seg(1) refl] seg by (simp add: covers_def)
  moreover have "live_content L F" if "live_content ?L F" "\<forall>k < ?n. cn_bin C ! k = F (?s * SEG + k)"
  proof -
    have "\<forall>k < ?n. mem_of (cn_bin C) k = F (u64_mul ?s SEG + k)"
      using that(2) by (simp add: mem_of_def seg(3))
    then show ?thesis using f that(1) good by blast
  qed
  ultimately show ?thesis using good seg r0 by (simp add: Let_def)
qed

section \<open>A lost uploader\<close>

text \<open>When the uploader's connection ends, however it ended, before its finish was
  accepted, the upload session is over (aborted and closed) and the seek requests have no
  receiver; an installation that can be cancelled is marked canceled. A connection that is not
  the uploader, or has finished, leaves the session and the installation alone.\<close>

theorem lost_uploader_cancels:
  "(if ws_uplink W = cn_fd C \<and> cn_auth C \<and> \<not> cn_finish C
    then \<not> ws_live_session_active (ws_live (conn_done W C)) \<and>
      (in_installing (ws_inst W) \<and> \<not> in_direct (ws_inst W) \<longrightarrow>
         in_status (ws_inst (conn_done W C)) = ''canceled'' \<and> \<not> in_installing (ws_inst (conn_done W C)))
    else ws_live (conn_done W C) = ws_live W \<and> ws_inst (conn_done W C) = ws_inst W) \<and>
   ws_uplink (conn_done W C) = (if ws_uplink W = cn_fd C then - 1 else ws_uplink W)"
proof -
  have d: "\<not> lv_active (ws_live_destroy L)" for L
    by (simp add: ws_live_destroy_def free_locked_def Let_def)
  show ?thesis
    by (auto simp: conn_done_def live_remove_def ws_installer_cancel_def installer_cancel_def Let_def d
        ws_live_session_active_def ws_direct_cancel_session_def clear_icon_def)
qed

section \<open>Concrete servers\<close>

text \<open>
  A server whose session (the file of ten bytes of LiveClaims) belongs to a token of 32
  characters, its uploader's connection on socket 5, and a stranger's on socket 6.
\<close>

definition demo_token :: string where
  "demo_token = ''0123456789abcdef0123456789abcdef''"

definition demo_env :: ws_env where
  "demo_env = \<lparr>en_slots = None, en_alloc = True, en_id = ''live1'', en_port = None, en_sock = Some 3,
     en_thread = True, en_send = True, en_rx_us = 1\<rparr>"

definition demo_inst :: inst where
  "demo_inst = \<lparr>in_installing = True, in_direct = False, in_completed = False, in_failed = False,
     in_waiting_disc = False, in_error = 0, in_status = ''installing'', in_prompt = [],
     in_cancel_stream = False, in_detach = False, in_batch_update = False, in_pending = [],
     in_path = [], in_multipart = False, in_part = 0\<rparr>"

definition demo_server :: ws_server where
  "demo_server = (ws_init demo_created demo_inst)\<lparr>ws_uplink := 5, ws_owner := demo_token,
     ws_owner_sid := ''live1'', ws_owner_filename := ''a.pkg'', ws_owner_total := 10\<rparr>"

definition demo_conn :: ws_conn where
  "demo_conn = (conn_init 5 [])\<lparr>cn_auth := True, cn_sid := ''live1'', cn_pending := 0, cn_bin := [1, 4, 7, 10, 13, 16, 19, 22, 25, 28],
     cn_cap := 65536\<rparr>"

definition demo_stranger :: ws_conn where
  "demo_stranger = conn_init 6 []"

lemma demo_created_inv: "live_inv demo_created"
  using reach_sys_inv [OF demo_created_reach] by (simp add: sys_inv_def)

lemma demo_created_cfg: "lv_slots_cfg demo_created = 64"
  by (simp add: demo_created_eq live_init_def WS_LIVE_SLOTS_DEFAULT_def)

lemma demo_server_ok: "ws_ok demo_server"
  by (simp add: ws_ok_def demo_server_def ws_init_def demo_created_inv demo_created_cfg)

lemma demo_conn_ok: "conn_ok demo_conn" "conn_ok demo_stranger"
  by (simp_all add: conn_ok_def demo_conn_def demo_stranger_def conn_init_def WS_TEXT_MAX_def WS_BIN_MSG_MAX_def)

theorem drain_split_witness:
  "(case conn_recv demo_env demo_server demo_stranger (Bytes [0x89]) of
      Open W' C' \<Rightarrow> conn_recv demo_env W' C' (Bytes [0x00])
    | Closing W' C' \<Rightarrow> Closing W' C') = conn_recv demo_env demo_server demo_stranger (Bytes [0x89, 0x00])"
  using drain_split [where C = demo_stranger and a = "[0x89]" and b = "[0x00]" and E = demo_env and W = demo_server]
  by (simp add: demo_stranger_def conn_init_def RCAP_def)

theorem network_safe_witness:
  "case conn_recv demo_env demo_server demo_stranger (Bytes [0xFF, 0xFF]) of
      Open W' C' \<Rightarrow> ws_ok W' \<and> conn_ok C' \<and> length (cn_buf C') \<le> RCAP
    | Closing W' C' \<Rightarrow> ws_ok (conn_done W' C')"
  by (rule network_safe [OF demo_server_ok demo_conn_ok(2)]) (simp add: demo_stranger_def conn_init_def)

theorem stranger_harmless_witness:
  "\<exists>W' C'. conn_frame demo_env demo_server demo_stranger 0x9 True [1, 2] = Open W' C' \<and> ws_live W' = demo_created"
proof -
  obtain W' where w: "conn_frame demo_env demo_server demo_stranger 0x9 True [1, 2] = Open W' demo_stranger"
    by (simp add: conn_frame_def)
  have "untouched demo_server W'"
  proof -
    have "ws_owner demo_server \<noteq> []" "\<not> cn_auth demo_stranger"
      by (simp_all add: demo_server_def demo_token_def demo_stranger_def conn_init_def)
    from stranger_harmless [OF this disjI1 [OF w]] show ?thesis by simp
  qed
  then show ?thesis using w by (simp add: untouched_def demo_server_def ws_init_def)
qed

theorem init_owned_exclusive_witness:
  "\<exists>W' rc out. ws_direct_init_owned demo_env demo_server ''b.pkg'' 10 (Some demo_token) (Some ''live1'') 64 = (W', rc, out) \<and>
     W' = demo_server \<and> rc \<noteq> 0"
proof -
  obtain W' rc out where r: "ws_direct_init_owned demo_env demo_server ''b.pkg'' 10 (Some demo_token) (Some ''live1'') 64 = (W', rc, out)"
    by (metis prod_cases3)
  have "ws_live_session_active (ws_live demo_server)"
    by (simp add: demo_server_def ws_init_def ws_live_session_active_def demo_created_eq)
  from init_owned_exclusive [OF this r] show ?thesis using r by (auto simp: demo_server_def)
qed

lemma demo_bin: "mem_of [1, 4, 7, 10, 13, 16, 19, 22, 25, 28] k = demo_file k" if "k < 10"
proof -
  have "list_all (\<lambda>k. mem_of [1, 4, 7, 10, 13, 16, 19, 22, 25, 28] k = demo_file k) [0..<10]"
    by (simp add: upt_rec mem_of_def demo_file_def)
  then show ?thesis using that by (simp add: list_all_iff)
qed

lemma demo_apply:
  "\<exists>W'. apply_segment demo_env demo_server demo_conn = Open W' (demo_conn\<lparr>cn_pending := - 1, cn_frag_on := False, cn_bin := []\<rparr>) \<and>
     ws_sent W' = ws_sent demo_server @ [(cn_fd demo_conn, seg_text ''ack'' 0 10 1)]"
proof -
  have x: "expected_len (ws_live_get_total (ws_live demo_server)) (nat (cn_pending demo_conn)) = (1, 10)"
    by (simp add: expected_len_def ws_live_get_total_def demo_server_def ws_init_def demo_conn_def demo_created_eq
        Let_def u64_simps SEG_def)
  have a: "conn_authorized demo_server demo_conn" "ws_live_session_active (ws_live demo_server)"
    by (simp_all add: conn_authorized_def ws_live_check_id_def ws_live_session_active_def demo_server_def ws_init_def
        demo_conn_def demo_created_eq)
  have c: "nat (cn_pending demo_conn) = 0" "length (cn_bin demo_conn) = 10" "u64_mul 0 SEG = 0"
    "ws_live demo_server = demo_created"
    by (simp_all add: demo_conn_def demo_server_def ws_init_def u64_mul_def)
  have w: "snd (ws_live_try_write demo_created 0 (Some (mem_of (cn_bin demo_conn))) 10) = Ret 0"
    by (simp add: ws_live_try_write_def seg_range_demo)
      (simp add: demo_created_eq live_init_def u64_simps store_seg_locked_def seg_len_locked_def
        alloc_slot_locked_def bind_slot_def i32_def Let_def SEG_def upt_rec)
  then obtain L where L: "ws_live_try_write demo_created 0 (Some (mem_of (cn_bin demo_conn))) 10 = (L, Ret 0)"
    by (metis prod.collapse)
  have "length (seg_text ''ack'' 0 10 1) \<le> 223" by (simp add: seg_text_def c_trunc_def)
  then have s: "send_text demo_env W fd (seg_text ''ack'' 0 10 1) = (W\<lparr>ws_sent := ws_sent W @ [(fd, seg_text ''ack'' 0 10 1)]\<rparr>, 0)" for W fd
    by (simp add: send_text_def ws_direct_frame_encode_server_def chars_bytes_def len_extra_def WS_TEXT_MAX_def Let_def demo_env_def)
  have e: "en_rx_us demo_env = 1" by (simp add: demo_env_def)
  show ?thesis
    unfolding apply_segment_def Let_def c prod.case L c_result.case e s
    using a x [unfolded c] c(4) by simp
qed

theorem ack_means_stored_witness:
  "\<exists>W' C'. apply_segment demo_env demo_server demo_conn = Open W' C' \<and> lv_acked_ever (ws_live W') ! 0"
proof -
  obtain W' C' where a: "apply_segment demo_env demo_server demo_conn = Open W' C'"
    and s: "ws_sent W' = ws_sent demo_server @ [(cn_fd demo_conn, seg_text ''ack'' 0 10 1)]"
    using demo_apply by blast
  have "lv_acked_ever (ws_live W') ! nat (cn_pending demo_conn)"
    using ack_means_stored [OF demo_server_ok disjI1 [OF a] s] unfolding Let_def by (simp add: demo_conn_def)
  then show ?thesis using a by (simp add: demo_conn_def)
qed

theorem lost_uploader_cancels_witness:
  "\<not> ws_live_session_active (ws_live (conn_done demo_server demo_conn)) \<and>
   in_status (ws_inst (conn_done demo_server demo_conn)) = ''canceled'' \<and>
   ws_uplink (conn_done demo_server demo_conn) = - 1"
  using lost_uploader_cancels [of demo_server demo_conn]
  by (simp add: demo_server_def ws_init_def demo_inst_def demo_conn_def conn_init_def)

section \<open>Two observations\<close>

text \<open>A session's owner outlives the session: after a cancel the session is gone but
  the owner's token is kept, and from then on every init message is refused with "Another
  upload is active", also the owner's, until a new session is made over HTTP.\<close>

theorem owner_outlives_session:
  assumes "ws_owner W \<noteq> []"
  shows "\<not> ws_live_session_active (ws_live (ws_direct_cancel_session W)) \<and>
    msg_session E (ws_direct_cancel_session W) msg fn tot =
      (ws_direct_cancel_session W, Inl (err_text ''Another upload is active''))"
proof -
  have "\<not> lv_active (ws_live_destroy L)" for L
    by (simp add: ws_live_destroy_def free_locked_def Let_def)
  then show ?thesis using assms
    by (auto simp: ws_direct_cancel_session_def clear_icon_def Let_def ws_live_session_active_def
        msg_session_def ws_direct_owner_matches_def owner_ok_def ws_live_check_id_def split: option.split)
qed

theorem owner_outlives_session_witness:
  "msg_session demo_env (ws_direct_cancel_session demo_server) [] ''a.pkg'' 10 =
     (ws_direct_cancel_session demo_server, Inl (err_text ''Another upload is active''))"
  using owner_outlives_session [of demo_server demo_env "[]" "''a.pkg''" 10]
  by (simp add: demo_server_def demo_token_def)

text \<open>A binary message may start in the middle of a fragmented text message, which
  RFC 6455 forbids and the text branch rejects: the frame is accepted, and from then on the
  rest of the text message is taken for binary data.\<close>

theorem binary_interrupts_text:
  assumes "cn_frag_on C" and "cn_frag_op C = 0x1" and "0 \<le> cn_pending C" and "en_alloc E"
    and "length a \<le> WS_BIN_MSG_MAX" and "length a + length b \<le> WS_BIN_MSG_MAX"
  shows "\<exists>C1. conn_frame E W C 0x2 False a = Open W C1 \<and> cn_bin C1 = a \<and>
    (\<exists>C2. conn_frame E W C1 0x0 False b = Open W C2 \<and> cn_bin C2 = a @ b \<and> cn_text C2 = cn_text C)"
  using assms by (simp add: conn_frame_def binary_frame_def Let_def)

theorem binary_interrupts_text_witness:
  "\<exists>C1. conn_frame demo_env demo_server (demo_conn\<lparr>cn_frag_on := True, cn_frag_op := 1\<rparr>) 0x2 False [1] = Open demo_server C1"
  using binary_interrupts_text [of "demo_conn\<lparr>cn_frag_on := True, cn_frag_op := 1\<rparr>" demo_env "[1]" "[2]" demo_server]
  by (auto simp: demo_conn_def conn_init_def demo_env_def WS_BIN_MSG_MAX_def)

section \<open>The status document\<close>

text \<open>The scanner of a JSON string: what follows its closing quote.\<close>

fun json_after :: "string \<Rightarrow> string option" where
  "json_after [] = None"
| "json_after (c # s) =
     (if c = CHR 0x22 then Some s
      else if c = CHR 0x5C then (case s of [] \<Rightarrow> None | d # s' \<Rightarrow> json_after s')
      else json_after s)"

lemma json_after_plain:
  "(\<forall>c \<in> set a. c \<noteq> CHR 0x22 \<and> c \<noteq> CHR 0x5C) \<Longrightarrow> json_after (a @ s) = json_after s"
  by (induction a) auto

lemma hex_digit_plain: "n < 16 \<Longrightarrow> hex_digit n \<noteq> CHR 0x22 \<and> hex_digit n \<noteq> CHR 0x5C \<and> 32 \<le> (of_char (hex_digit n) :: nat)"
proof -
  have "list_all (\<lambda>n. hex_digit n \<noteq> CHR 0x22 \<and> hex_digit n \<noteq> CHR 0x5C \<and> 32 \<le> (of_char (hex_digit n) :: nat)) [0..<16]"
    by code_simp
  then show "n < 16 \<Longrightarrow> ?thesis" by (simp add: list_all_iff)
qed

lemma json_char_ok:
  "json_after (json_char c @ s) = json_after s" "\<forall>d \<in> set (json_char c). 32 \<le> (of_char d :: nat)"
  "length (json_char c) \<le> 6" "0 < length (json_char c)"
proof -
  have h: "(of_char c :: nat) div 16 < 16" "(of_char c :: nat) mod 16 < 16" if "(of_char c :: nat) < 32"
    using that by simp_all
  note d = hex_digit_plain [OF h(1)] hex_digit_plain [OF h(2)]
  show "json_after (json_char c @ s) = json_after s" "\<forall>d \<in> set (json_char c). 32 \<le> (of_char d :: nat)"
    "length (json_char c) \<le> 6" "0 < length (json_char c)"
    using d by (auto simp: json_char_def)
qed

lemma json_fill_ok:
  "n < cap \<Longrightarrow> json_after (json_fill cap n s @ CHR 0x22 # t) = Some t \<and> n + length (json_fill cap n s) < cap \<and>
   (\<forall>d \<in> set (json_fill cap n s). 32 \<le> (of_char d :: nat))"
proof (induction cap n s rule: json_fill.induct)
  case (2 cap n c s)
  show ?case
  proof (cases "n + 7 < cap")
    case True
    then have "n + length (json_char c) < cap" using json_char_ok(3) [of c] by simp
    from "2.IH" [OF True this] show ?thesis using True json_char_ok [of c] by auto
  qed (use "2.prems" in simp)
qed simp

text \<open>An uploaded file's name cannot break the status document: whatever the name,
  its escaped form fits the buffer with its NUL, has no control character, and a JSON reader
  that starts inside the quotes finds the closing quote exactly at its end.\<close>

theorem json_filename_safe:
  assumes "0 < cap"
  shows "length (json_filename s cap) < cap \<and> (\<forall>d \<in> set (json_filename s cap). 32 \<le> (of_char d :: nat)) \<and>
    json_after (json_filename s cap @ CHR 0x22 # t) = Some t"
  using json_fill_ok [OF assms, of s t] assms by (simp add: json_filename_def)

theorem json_filename_safe_witness:
  "json_after (json_filename [CHR 0x22, CHR 0x5C, CHR 0x0A] 512 @ CHR 0x22 # ''x'') = Some ''x''"
  using json_filename_safe [of 512 "[CHR 0x22, CHR 0x5C, CHR 0x0A]" "''x''"] by simp

end
