(* ===== verification/Multipart.thy ===== *)
theory Multipart
  imports WsCodec
begin

text \<open>
  The multi-part archive format of src/src/multipart.c and src/include/multipart.h: the
  header at the start of each part, the names parts go by, the CRC of stored chunks
  (mz_crc32 of src/src/miniz.c) and multipart_decompress_to_pkg, which assembles the parts
  into a package. Files are byte lists; the decompressor of deflated chunks (mz_uncompress)
  is an argument of the environment.
\<close>

unbundle bit_operations_syntax

section \<open>Little-endian fields of a packed structure\<close>

fun le_val :: "u8 list \<Rightarrow> nat" where
  "le_val [] = 0"
| "le_val (b # bs) = unat b + 256 * le_val bs"

fun le_bytes :: "nat \<Rightarrow> nat \<Rightarrow> u8 list" where
  "le_bytes 0 v = []"
| "le_bytes (Suc n) v = word_of_nat v # le_bytes n (v div 256)"

definition field :: "u8 list \<Rightarrow> nat \<Rightarrow> nat \<Rightarrow> u8 list" where
  "field bs off n = take n (drop off bs)"

text \<open>The C string in a fixed array of bytes (up to the first NUL).\<close>

definition cstr_of :: "u8 list \<Rightarrow> string" where
  "cstr_of bs = map (\<lambda>b. char_of (unat b)) (takeWhile (\<lambda>b. b \<noteq> 0) bs)"

section \<open>The header of a part\<close>

definition MULTIPART_MAGIC :: "u8 list" where
  "MULTIPART_MAGIC = chars_bytes ''PS5MPKG1''"

definition MULTIPART_HEADER_SIZE :: nat where
  "MULTIPART_HEADER_SIZE = 4096"

definition MAX_MULTIPART_PARTS :: nat where
  "MAX_MULTIPART_PARTS = 256"

record mp_header =
  mh_magic :: "u8 list"
  mh_version :: nat
  mh_part_index :: nat
  mh_total_parts :: nat
  mh_compression :: nat
  mh_chunk_size :: nat
  mh_num_chunks :: nat
  mh_part_data_size :: nat
  mh_total_pkg_size :: nat
  mh_total_archive_size :: nat
  mh_pkg_filename :: "u8 list"    \<comment> \<open>256 bytes, the NUL may be missing\<close>
  mh_title_id :: "u8 list"        \<comment> \<open>32 bytes\<close>
  mh_title_name :: "u8 list"      \<comment> \<open>256 bytes\<close>
  mh_content_id :: "u8 list"      \<comment> \<open>64 bytes\<close>
  mh_uuid :: "u8 list"            \<comment> \<open>package_uuid, 16 bytes\<close>
  mh_icon_offset :: nat
  mh_icon_size :: nat
  mh_app_version :: "u8 list"     \<comment> \<open>32 bytes\<close>
  mh_pkg_type :: "u8 list"        \<comment> \<open>16 bytes\<close>
  mh_part_offset :: nat
  mh_data_offset :: nat

text \<open>The packed structure as fread finds it in the first 4096 bytes of a part.\<close>

definition header_of :: "u8 list \<Rightarrow> mp_header" where
  "header_of bs =
     \<lparr>mh_magic = field bs 0 8, mh_version = le_val (field bs 8 4),
      mh_part_index = le_val (field bs 12 4), mh_total_parts = le_val (field bs 16 4),
      mh_compression = le_val (field bs 20 4), mh_chunk_size = le_val (field bs 24 4),
      mh_num_chunks = le_val (field bs 28 4), mh_part_data_size = le_val (field bs 32 8),
      mh_total_pkg_size = le_val (field bs 40 8), mh_total_archive_size = le_val (field bs 48 8),
      mh_pkg_filename = field bs 56 256, mh_title_id = field bs 312 32,
      mh_title_name = field bs 344 256, mh_content_id = field bs 600 64, mh_uuid = field bs 664 16,
      mh_icon_offset = le_val (field bs 680 4), mh_icon_size = le_val (field bs 684 4),
      mh_app_version = field bs 688 32, mh_pkg_type = field bs 720 16,
      mh_part_offset = le_val (field bs 736 8), mh_data_offset = le_val (field bs 744 4)\<rparr>"

definition multipart_is_valid_header :: "mp_header \<Rightarrow> bool" where
  "multipart_is_valid_header h =
     (mh_magic h = MULTIPART_MAGIC \<and> mh_version h = 1 \<and>
      mh_total_parts h \<noteq> 0 \<and> mh_part_index h \<noteq> 0 \<and> mh_part_index h \<le> mh_total_parts h \<and>
      (mh_compression h = 0 \<or> mh_compression h = 1) \<and> mh_chunk_size h \<le> 64 * 1024 * 1024)"

text \<open>pkg_filename as a C string: without a NUL in its 256 bytes it runs into the fields behind it.\<close>

definition header_name :: "mp_header \<Rightarrow> string" where
  "header_name h = cstr_of (mh_pkg_filename h @ mh_title_id h @ mh_title_name h @ mh_content_id h @ mh_uuid h)"

text \<open>The local path behind a file:// URL.\<close>

definition local_path :: "string \<Rightarrow> string" where
  "local_path p = (if starts_with ''file://'' p then drop 7 p else p)"

type_synonym files = "string \<Rightarrow> u8 list option"

definition multipart_read_header :: "files \<Rightarrow> string \<Rightarrow> int + mp_header" where
  "multipart_read_header fs path =
     (if starts_with ''smb://'' path then Inl (- 1)
      else case fs (local_path path) of
        None \<Rightarrow> Inl (- 1)
      | Some bs \<Rightarrow>
          (if length bs < MULTIPART_HEADER_SIZE then Inl (- 1)
           else if \<not> multipart_is_valid_header (header_of bs) then Inl (- 2)
           else Inr (header_of bs)))"

section \<open>Names of parts\<close>

text \<open>strcasestr: the rest of the string from the first match on.\<close>

fun strcasestr :: "string \<Rightarrow> string \<Rightarrow> string option" where
  "strcasestr [] pat = (if pat = [] then Some [] else None)"
| "strcasestr (c # s) pat = (if iprefix pat (c # s) then Some (c # s) else strcasestr s pat)"

lemma strcasestr_length: "strcasestr s pat = Some t \<Longrightarrow> length pat \<le> length t \<and> length t \<le> length s"
  by (induction s) (auto split: if_splits dest: iprefix_length)

text \<open>The last ".part" that a digit follows.\<close>

function last_part :: "string option \<Rightarrow> string \<Rightarrow> string option" where
  "last_part p cursor =
     (case strcasestr cursor ''.part'' of
        None \<Rightarrow> p
      | Some t \<Rightarrow> last_part (if is_digit (c_at t 5) then Some t else p) (drop 5 t))"
  by pat_completeness auto
termination
proof (relation "measure (\<lambda>(p, c). length c)", simp)
  fix p c t
  assume "strcasestr c ''.part'' = Some t"
  then have "5 \<le> length t \<and> length t \<le> length c" using strcasestr_length by fastforce
  then have "length (drop 5 t) < length c" by (simp; linarith)
  then show "((if is_digit (c_at t 5) then Some t else p, drop 5 t), (p, c)) \<in> measure (\<lambda>(p, c). length c)"
    by simp
qed

declare last_part.simps [simp del]

definition staged_part :: "string \<Rightarrow> nat option" where
  "staged_part name =
     (if iprefix ''part_'' name
      then (case strtoull (drop 5 name) of
              (n, rest) \<Rightarrow> (if 0 < n \<and> n \<le> MAX_MULTIPART_PARTS \<and> ieq rest ''.pkg.part'' then Some n else None))
      else None)"

definition named_part :: "string \<Rightarrow> nat option" where
  "named_part name =
     (case last_part None name of
        None \<Rightarrow> None
      | Some p \<Rightarrow>
          (case strtoull (drop 5 p) of
             (n, rest) \<Rightarrow> (if n = 0 \<or> n > MAX_MULTIPART_PARTS then None
                          else if rest \<noteq> [] \<and> \<not> ieq rest ''.pkg'' then None else Some n)))"

text \<open>The result and the number left in *out_part_num, if any.\<close>

definition multipart_is_part_filename :: "string \<Rightarrow> nat \<Rightarrow> bool \<times> nat option" where
  "multipart_is_part_filename filename target =
     (let name = base_name filename in
      if filename = [] \<or> name = [] \<or> hd name = CHR ''.'' then (False, None)
      else case (case staged_part name of Some n \<Rightarrow> Some n | None \<Rightarrow> named_part name) of
        None \<Rightarrow> (False, None)
      | Some n \<Rightarrow> (target = 0 \<or> target = n, Some n))"

section \<open>CRC-32 as miniz computes it\<close>

definition s_crc_table :: "u32 list" where
  "s_crc_table = [
     0x00000000, 0x77073096, 0xEE0E612C, 0x990951BA, 0x076DC419, 0x706AF48F, 0xE963A535, 0x9E6495A3,
     0x0EDB8832, 0x79DCB8A4, 0xE0D5E91E, 0x97D2D988, 0x09B64C2B, 0x7EB17CBD, 0xE7B82D07, 0x90BF1D91,
     0x1DB71064, 0x6AB020F2, 0xF3B97148, 0x84BE41DE, 0x1ADAD47D, 0x6DDDE4EB, 0xF4D4B551, 0x83D385C7,
     0x136C9856, 0x646BA8C0, 0xFD62F97A, 0x8A65C9EC, 0x14015C4F, 0x63066CD9, 0xFA0F3D63, 0x8D080DF5,
     0x3B6E20C8, 0x4C69105E, 0xD56041E4, 0xA2677172, 0x3C03E4D1, 0x4B04D447, 0xD20D85FD, 0xA50AB56B,
     0x35B5A8FA, 0x42B2986C, 0xDBBBC9D6, 0xACBCF940, 0x32D86CE3, 0x45DF5C75, 0xDCD60DCF, 0xABD13D59,
     0x26D930AC, 0x51DE003A, 0xC8D75180, 0xBFD06116, 0x21B4F4B5, 0x56B3C423, 0xCFBA9599, 0xB8BDA50F,
     0x2802B89E, 0x5F058808, 0xC60CD9B2, 0xB10BE924, 0x2F6F7C87, 0x58684C11, 0xC1611DAB, 0xB6662D3D,
     0x76DC4190, 0x01DB7106, 0x98D220BC, 0xEFD5102A, 0x71B18589, 0x06B6B51F, 0x9FBFE4A5, 0xE8B8D433,
     0x7807C9A2, 0x0F00F934, 0x9609A88E, 0xE10E9818, 0x7F6A0DBB, 0x086D3D2D, 0x91646C97, 0xE6635C01,
     0x6B6B51F4, 0x1C6C6162, 0x856530D8, 0xF262004E, 0x6C0695ED, 0x1B01A57B, 0x8208F4C1, 0xF50FC457,
     0x65B0D9C6, 0x12B7E950, 0x8BBEB8EA, 0xFCB9887C, 0x62DD1DDF, 0x15DA2D49, 0x8CD37CF3, 0xFBD44C65,
     0x4DB26158, 0x3AB551CE, 0xA3BC0074, 0xD4BB30E2, 0x4ADFA541, 0x3DD895D7, 0xA4D1C46D, 0xD3D6F4FB,
     0x4369E96A, 0x346ED9FC, 0xAD678846, 0xDA60B8D0, 0x44042D73, 0x33031DE5, 0xAA0A4C5F, 0xDD0D7CC9,
     0x5005713C, 0x270241AA, 0xBE0B1010, 0xC90C2086, 0x5768B525, 0x206F85B3, 0xB966D409, 0xCE61E49F,
     0x5EDEF90E, 0x29D9C998, 0xB0D09822, 0xC7D7A8B4, 0x59B33D17, 0x2EB40D81, 0xB7BD5C3B, 0xC0BA6CAD,
     0xEDB88320, 0x9ABFB3B6, 0x03B6E20C, 0x74B1D29A, 0xEAD54739, 0x9DD277AF, 0x04DB2615, 0x73DC1683,
     0xE3630B12, 0x94643B84, 0x0D6D6A3E, 0x7A6A5AA8, 0xE40ECF0B, 0x9309FF9D, 0x0A00AE27, 0x7D079EB1,
     0xF00F9344, 0x8708A3D2, 0x1E01F268, 0x6906C2FE, 0xF762575D, 0x806567CB, 0x196C3671, 0x6E6B06E7,
     0xFED41B76, 0x89D32BE0, 0x10DA7A5A, 0x67DD4ACC, 0xF9B9DF6F, 0x8EBEEFF9, 0x17B7BE43, 0x60B08ED5,
     0xD6D6A3E8, 0xA1D1937E, 0x38D8C2C4, 0x4FDFF252, 0xD1BB67F1, 0xA6BC5767, 0x3FB506DD, 0x48B2364B,
     0xD80D2BDA, 0xAF0A1B4C, 0x36034AF6, 0x41047A60, 0xDF60EFC3, 0xA867DF55, 0x316E8EEF, 0x4669BE79,
     0xCB61B38C, 0xBC66831A, 0x256FD2A0, 0x5268E236, 0xCC0C7795, 0xBB0B4703, 0x220216B9, 0x5505262F,
     0xC5BA3BBE, 0xB2BD0B28, 0x2BB45A92, 0x5CB36A04, 0xC2D7FFA7, 0xB5D0CF31, 0x2CD99E8B, 0x5BDEAE1D,
     0x9B64C2B0, 0xEC63F226, 0x756AA39C, 0x026D930A, 0x9C0906A9, 0xEB0E363F, 0x72076785, 0x05005713,
     0x95BF4A82, 0xE2B87A14, 0x7BB12BAE, 0x0CB61B38, 0x92D28E9B, 0xE5D5BE0D, 0x7CDCEFB7, 0x0BDBDF21,
     0x86D3D2D4, 0xF1D4E242, 0x68DDB3F8, 0x1FDA836E, 0x81BE16CD, 0xF6B9265B, 0x6FB077E1, 0x18B74777,
     0x88085AE6, 0xFF0F6A70, 0x66063BCA, 0x11010B5C, 0x8F659EFF, 0xF862AE69, 0x616BFFD3, 0x166CCF45,
     0xA00AE278, 0xD70DD2EE, 0x4E048354, 0x3903B3C2, 0xA7672661, 0xD06016F7, 0x4969474D, 0x3E6E77DB,
     0xAED16A4A, 0xD9D65ADC, 0x40DF0B66, 0x37D83BF0, 0xA9BCAE53, 0xDEBB9EC5, 0x47B2CF7F, 0x30B5FFE9,
     0xBDBDF21C, 0xCABAC28A, 0x53B39330, 0x24B4A3A6, 0xBAD03605, 0xCDD70693, 0x54DE5729, 0x23D967BF,
     0xB3667A2E, 0xC4614AB8, 0x5D681B02, 0x2A6F2B94, 0xB40BBE37, 0xC30C8EA1, 0x5A05DF1B, 0x2D02EF8D]"

definition crc_byte :: "u32 \<Rightarrow> u8 \<Rightarrow> u32" where
  "crc_byte c b = drop_bit 8 c XOR s_crc_table ! unat ((c XOR ucast b) AND 0xFF)"

text \<open>Four bytes at a time, then the rest one by one.\<close>

fun crc_bytes :: "u32 \<Rightarrow> u8 list \<Rightarrow> u32" where
  "crc_bytes c (b0 # b1 # b2 # b3 # bs) = crc_bytes (crc_byte (crc_byte (crc_byte (crc_byte c b0) b1) b2) b3) bs"
| "crc_bytes c (b # bs) = crc_bytes (crc_byte c b) bs"
| "crc_bytes c [] = c"

definition mz_crc32 :: "u32 \<Rightarrow> u8 list \<Rightarrow> u32" where
  "mz_crc32 c bs = NOT (crc_bytes (c XOR 0xFFFFFFFF) bs)"

section \<open>Assembling a package\<close>

record dc_env =
  de_files :: files
  de_out_ok :: bool                    \<comment> \<open>whether the destination can be created\<close>
  de_alloc :: bool                     \<comment> \<open>whether the two buffers can be allocated\<close>
  de_disk :: nat                       \<comment> \<open>the bytes the destination can hold\<close>
  de_cancel :: "nat \<Rightarrow> bool"           \<comment> \<open>the cancel flag at the n-th time it is read\<close>
  de_inflate :: "u8 list \<Rightarrow> nat \<Rightarrow> u8 list option"
    \<comment> \<open>mz_uncompress into a buffer of the given size; None unless MZ_OK\<close>

text \<open>The output so far, how often the cancel flag was read, and the progress reports.\<close>

record dc =
  dc_out :: "u8 list"
  dc_polls :: nat
  dc_progress :: "(nat \<times> nat) list"

definition dc_start :: dc where
  "dc_start = \<lparr>dc_out = [], dc_polls = 0, dc_progress = []\<rparr>"

definition poll :: "dc_env \<Rightarrow> dc \<Rightarrow> bool \<times> dc" where
  "poll E D = (de_cancel E (dc_polls D), D\<lparr>dc_polls := dc_polls D + 1\<rparr>)"

text \<open>fwrite of a whole block: None when the disk is full (the file is removed then).\<close>

definition dc_write :: "dc_env \<Rightarrow> u8 list \<Rightarrow> dc \<Rightarrow> dc option" where
  "dc_write E bs D =
     (if length (dc_out D) + length bs \<le> de_disk E then Some (D\<lparr>dc_out := dc_out D @ bs\<rparr>) else None)"

definition report :: "nat \<Rightarrow> dc \<Rightarrow> dc" where
  "report expected D = D\<lparr>dc_progress := dc_progress D @ [(length (dc_out D), expected)]\<rparr>"

text \<open>A raw slice: blocks of at most cap bytes, read from the rest of the file and written.\<close>

function raw_slice :: "dc_env \<Rightarrow> nat \<Rightarrow> nat \<Rightarrow> nat \<Rightarrow> u8 list \<Rightarrow> dc \<Rightarrow> int \<times> dc" where
  "raw_slice E expected cap left rest D =
     (if left = 0 then (0, D)
      else case poll E D of (stop, D1) \<Rightarrow>
        (if stop then (- 99, D1)
         else let to_read = (if left < cap then left else cap); bs = take to_read rest in
              if bs = [] then (- 13, D1)
              else case dc_write E bs D1 of
                None \<Rightarrow> (- 14, D1)
              | Some D2 \<Rightarrow> raw_slice E expected cap (left - length bs) (drop (length bs) rest) (report expected D2)))"
  by pat_completeness auto
termination by (relation "measure (\<lambda>(E, x, cap, left, rest, D). left)") auto

declare raw_slice.simps [simp del]

text \<open>One chunk of the legacy format: its header, its bytes, its checks.\<close>

definition chunk_header :: "u8 list \<Rightarrow> nat \<times> nat \<times> u32" where
  "chunk_header bs = (le_val (field bs 0 4), le_val (field bs 4 4), word_of_nat (le_val (field bs 8 4)))"

definition crc_ok :: "u32 \<Rightarrow> u8 list \<Rightarrow> bool" where
  "crc_ok crc bs = (crc = 0 \<or> mz_crc32 0 bs = crc)"

definition stored_chunk :: "dc_env \<Rightarrow> nat \<Rightarrow> nat \<Rightarrow> u32 \<Rightarrow> u8 list \<Rightarrow> dc \<Rightarrow> int + dc" where
  "stored_chunk E un cs crc bs D =
     (if un \<noteq> cs then Inl (- 12)
      else if \<not> crc_ok crc bs then Inl (- 16)
      else case dc_write E bs D of None \<Rightarrow> Inl (- 14) | Some D' \<Rightarrow> Inr D')"

definition deflated_chunk :: "dc_env \<Rightarrow> nat \<Rightarrow> nat \<Rightarrow> u32 \<Rightarrow> u8 list \<Rightarrow> dc \<Rightarrow> int + dc" where
  "deflated_chunk E ucap un crc bs D =
     (case de_inflate E bs ucap of
        None \<Rightarrow> Inl (- 15)
      | Some ys \<Rightarrow>
          (if length ys \<noteq> un then Inl (- 15)
           else if \<not> crc_ok crc ys then Inl (- 16)
           else case dc_write E ys D of None \<Rightarrow> Inl (- 17) | Some D' \<Rightarrow> Inr D'))"

definition chunk_step :: "dc_env \<Rightarrow> nat \<Rightarrow> nat \<Rightarrow> nat \<Rightarrow> u8 list \<Rightarrow> dc \<Rightarrow> int + u8 list \<times> dc" where
  "chunk_step E comp_type ccap ucap rest D =
     (if length rest < 12 then Inl (- 11)
      else case chunk_header rest of (un, cs, crc) \<Rightarrow>
        (if cs > ccap \<or> un > ucap then Inl (- 12)
         else let bs = take cs (drop 12 rest); rest' = drop (12 + cs) rest in
              if length bs \<noteq> cs then Inl (- 13)
              else if comp_type = 0 then map_sum id (\<lambda>D'. (rest', D')) (stored_chunk E un cs crc bs D)
              else if comp_type = 1 then map_sum id (\<lambda>D'. (rest', D')) (deflated_chunk E ucap un crc bs D)
              else Inr (rest', D)))"

fun chunks :: "dc_env \<Rightarrow> nat \<Rightarrow> nat \<Rightarrow> nat \<Rightarrow> nat \<Rightarrow> nat \<Rightarrow> u8 list \<Rightarrow> dc \<Rightarrow> int \<times> dc" where
  "chunks E expected comp_type ccap ucap 0 rest D = (0, D)"
| "chunks E expected comp_type ccap ucap (Suc n) rest D =
     (case poll E D of (stop, D1) \<Rightarrow>
        (if stop then (- 99, D1)
         else case chunk_step E comp_type ccap ucap rest D1 of
           Inl e \<Rightarrow> (e, D1)
         | Inr (rest', D2) \<Rightarrow> chunks E expected comp_type ccap ucap n rest' (report expected D2)))"

text \<open>Where the slice of a part begins: past an icon embedded behind the header.\<close>

definition payload_offset :: "mp_header \<Rightarrow> nat option" where
  "payload_offset h =
     (if mh_data_offset h \<noteq> 0 then Some (mh_data_offset h)
      else if mh_icon_size h > 0 \<and> mh_icon_offset h = MULTIPART_HEADER_SIZE then
        (if mh_icon_size h \<ge> 10 * 1024 * 1024 then None
         else Some (MULTIPART_HEADER_SIZE + mh_icon_size h))
      else Some MULTIPART_HEADER_SIZE)"

definition one_part :: "dc_env \<Rightarrow> nat \<Rightarrow> nat \<Rightarrow> nat \<Rightarrow> string \<Rightarrow> dc \<Rightarrow> int \<times> dc" where
  "one_part E expected ccap ucap path D =
     (case poll E D of (stop, D1) \<Rightarrow>
        (if stop then (- 99, D1)
         else case de_files E path of
           None \<Rightarrow> (- 9, D1)
         | Some bs \<Rightarrow>
             (if length bs < MULTIPART_HEADER_SIZE then (- 10, D1)
              else let h = header_of bs in
              case payload_offset h of
                None \<Rightarrow> (- 10, D1)
              | Some start \<Rightarrow>
                  (if mh_num_chunks h = 0 \<and> mh_compression h = 0
                   then raw_slice E expected ucap (mh_part_data_size h) (drop start bs) D1
                   else chunks E expected (mh_compression h) ccap ucap (mh_num_chunks h) (drop start bs) D1))))"

fun all_parts :: "dc_env \<Rightarrow> nat \<Rightarrow> nat \<Rightarrow> nat \<Rightarrow> string list \<Rightarrow> dc \<Rightarrow> int \<times> dc" where
  "all_parts E expected ccap ucap [] D = (0, D)"
| "all_parts E expected ccap ucap (p # ps) D =
     (case one_part E expected ccap ucap p D of
        (e, D') \<Rightarrow> (if e \<noteq> 0 then (e, D') else all_parts E expected ccap ucap ps D'))"

text \<open>The headers of parts 2, 3, ...: their sizes added to the sum, or the error.\<close>

fun check_parts :: "files \<Rightarrow> nat \<Rightarrow> u8 list \<Rightarrow> nat \<Rightarrow> string list \<Rightarrow> nat \<Rightarrow> int + nat" where
  "check_parts fs num uuid i [] parts_sum = Inr parts_sum"
| "check_parts fs num uuid i (p # ps) parts_sum =
     (case multipart_read_header fs p of
        Inl _ \<Rightarrow> Inl (- 4)
      | Inr h \<Rightarrow>
          (if mh_part_index h \<noteq> i + 1 \<or> mh_total_parts h \<noteq> num then Inl (- 5)
           else if mh_uuid h \<noteq> uuid then Inl (- 6)
           else check_parts fs num uuid (i + 1) ps (u64_add parts_sum (mh_part_data_size h))))"

definition RAW_BUF_CAP :: nat where
  "RAW_BUF_CAP = 2 * 1024 * 1024"

text \<open>The two buffer sizes, or the refusal of a chunk size above 8 MiB.\<close>

definition buffer_caps :: "mp_header \<Rightarrow> (nat \<times> nat) option" where
  "buffer_caps h =
     (let chunk_size = (if mh_chunk_size h = 0 then 2 * 1024 * 1024 else mh_chunk_size h) in
      if mh_num_chunks h \<noteq> 0 \<or> mh_compression h \<noteq> 0 then
        (if chunk_size > 8 * 1024 * 1024 then None
         else Some (chunk_size * 2 + 65536, chunk_size + 65536))
      else Some (RAW_BUF_CAP, RAW_BUF_CAP))"

text \<open>What becomes of the destination: not touched, removed, or written in full.\<close>

datatype out_file = Untouched | Removed | Written "u8 list"

definition multipart_decompress_to_pkg :: "dc_env \<Rightarrow> string list \<Rightarrow> int \<times> out_file \<times> (nat \<times> nat) list" where
  "multipart_decompress_to_pkg E part_paths =
     (if part_paths = [] then (- 1, Untouched, [])
      else case multipart_read_header (de_files E) (hd part_paths) of
        Inl _ \<Rightarrow> (- 2, Untouched, [])
      | Inr h \<Rightarrow>
          (if mh_total_parts h \<noteq> length part_paths then (- 3, Untouched, [])
           else case check_parts (de_files E) (length part_paths) (mh_uuid h) 1 (tl part_paths) (mh_part_data_size h) of
             Inl e \<Rightarrow> (e, Untouched, [])
           | Inr parts_sum \<Rightarrow>
               (if mh_total_pkg_size h > 0 \<and> parts_sum \<noteq> 0 \<and> parts_sum \<noteq> mh_total_pkg_size h
                then (- 18, Untouched, [])
                else if \<not> de_out_ok E then (- 7, Untouched, [])
                else case buffer_caps h of
                  None \<Rightarrow> (- 8, Removed, [])
                | Some (ccap, ucap) \<Rightarrow>
                    (if \<not> de_alloc E then (- 8, Removed, [])
                     else case all_parts E (mh_total_pkg_size h) ccap ucap part_paths dc_start of
                       (err, D) \<Rightarrow>
                         (if err \<noteq> 0 then (err, Removed, dc_progress D)
                          else if mh_total_pkg_size h > 0 \<and> length (dc_out D) \<noteq> mh_total_pkg_size h
                          then (- 18, Removed, dc_progress D)
                          else (0, Written (dc_out D), dc_progress D))))))"

end
