(* ===== verification/MultipartClaims.thy ===== *)
theory MultipartClaims
  imports Multipart
begin

text \<open>
  What multipart_decompress_to_pkg guarantees (Multipart): it inverts the splitting of a
  package into parts, it never leaves a partial file, and what it writes is what the parts
  hold; the CRC of miniz is CRC-32; the part names of the splitter are recognised.
\<close>

unbundle bit_operations_syntax

section \<open>Fields of a packed structure\<close>

lemma field_here [simp]: "length a = n \<Longrightarrow> field (a @ b) 0 n = a"
  by (simp add: field_def)

lemma field_skip [simp]: "length a \<le> off \<Longrightarrow> field (a @ b) off n = field b (off - length a) n"
  by (simp add: field_def)

lemma length_le_bytes [simp]: "length (le_bytes n v) = n"
  by (induction n arbitrary: v) auto

lemma unat_byte_of_nat: "unat (word_of_nat v :: u8) = v mod 256"
  by (simp add: unat_of_nat)

lemma le_val_bytes [simp]: "v < 256 ^ n \<Longrightarrow> le_val (le_bytes n v) = v"
proof (induction n arbitrary: v)
  case 0
  then show ?case by simp
next
  case (Suc n)
  then have "v div 256 < 256 ^ n" by (simp add: less_mult_imp_div_less)
  with Suc.IH have "le_val (le_bytes n (v div 256)) = v div 256" by blast
  then show ?case by (simp add: unat_byte_of_nat)
qed

text \<open>The packed structure of a header, and the headers that fit it.\<close>

definition encode_header :: "mp_header \<Rightarrow> u8 list" where
  "encode_header h =
     mh_magic h @ le_bytes 4 (mh_version h) @ le_bytes 4 (mh_part_index h) @ le_bytes 4 (mh_total_parts h) @
     le_bytes 4 (mh_compression h) @ le_bytes 4 (mh_chunk_size h) @ le_bytes 4 (mh_num_chunks h) @
     le_bytes 8 (mh_part_data_size h) @ le_bytes 8 (mh_total_pkg_size h) @ le_bytes 8 (mh_total_archive_size h) @
     mh_pkg_filename h @ mh_title_id h @ mh_title_name h @ mh_content_id h @ mh_uuid h @
     le_bytes 4 (mh_icon_offset h) @ le_bytes 4 (mh_icon_size h) @ mh_app_version h @ mh_pkg_type h @
     le_bytes 8 (mh_part_offset h) @ le_bytes 4 (mh_data_offset h) @ replicate 3348 0"

definition header_lengths :: "mp_header \<Rightarrow> bool" where
  "header_lengths h =
     (length (mh_magic h) = 8 \<and> length (mh_pkg_filename h) = 256 \<and> length (mh_title_id h) = 32 \<and>
      length (mh_title_name h) = 256 \<and> length (mh_content_id h) = 64 \<and> length (mh_uuid h) = 16 \<and>
      length (mh_app_version h) = 32 \<and> length (mh_pkg_type h) = 16)"

definition header_ranges :: "mp_header \<Rightarrow> bool" where
  "header_ranges h =
     (mh_version h < 2 ^ 32 \<and> mh_part_index h < 2 ^ 32 \<and> mh_total_parts h < 2 ^ 32 \<and> mh_compression h < 2 ^ 32 \<and>
      mh_chunk_size h < 2 ^ 32 \<and> mh_num_chunks h < 2 ^ 32 \<and> mh_part_data_size h < 2 ^ 64 \<and>
      mh_total_pkg_size h < 2 ^ 64 \<and> mh_total_archive_size h < 2 ^ 64 \<and> mh_icon_offset h < 2 ^ 32 \<and>
      mh_icon_size h < 2 ^ 32 \<and> mh_part_offset h < 2 ^ 64 \<and> mh_data_offset h < 2 ^ 32)"

lemma length_encode_header: "header_lengths h \<Longrightarrow> length (encode_header h) = MULTIPART_HEADER_SIZE"
  by (simp add: encode_header_def header_lengths_def MULTIPART_HEADER_SIZE_def)

lemma header_of_encode: "header_of (encode_header h @ rest) = h" if "header_lengths h" and "header_ranges h"
proof -
  have v: "le_val (le_bytes 4 n) = n" if "n < 2 ^ 32" for n
    using that by simp
  have w: "le_val (le_bytes 8 n) = n" if "n < 2 ^ 64" for n
    using that by simp
  show ?thesis
    using that(1) that(2) [unfolded header_ranges_def]
    by (intro mp_header.equality)
      (simp_all add: header_of_def encode_header_def header_lengths_def v w del: le_val_bytes)
qed

section \<open>What a part holds\<close>

text \<open>The bytes of a chunk of n that were stored or deflated, each checked against its CRC.\<close>

definition chunk_data :: "(u8 list \<Rightarrow> u8 list option) \<Rightarrow> nat \<Rightarrow> u8 list \<Rightarrow> u8 list option" where
  "chunk_data infl comp_type bs = (if comp_type = 0 then Some bs else infl bs)"

inductive chunk_stream :: "(u8 list \<Rightarrow> u8 list option) \<Rightarrow> nat \<Rightarrow> nat \<Rightarrow> u8 list \<Rightarrow> u8 list \<Rightarrow> bool"
  for infl comp_type where
  chunk_end: "chunk_stream infl comp_type 0 rest []"
| chunk_next: "chunk_stream infl comp_type (Suc n) rest (ys @ zs)"
    if "12 + cs \<le> length rest" and "chunk_header rest = (length ys, cs, crc)"
      and "chunk_data infl comp_type (take cs (drop 12 rest)) = Some ys" and "crc_ok crc ys"
      and "chunk_stream infl comp_type n (drop (12 + cs) rest) zs"

definition part_holds :: "(u8 list \<Rightarrow> u8 list option) \<Rightarrow> u8 list \<Rightarrow> u8 list \<Rightarrow> bool" where
  "part_holds infl bs ys =
     (\<exists>start. payload_offset (header_of bs) = Some start \<and>
        (if mh_num_chunks (header_of bs) = 0 \<and> mh_compression (header_of bs) = 0
         then mh_part_data_size (header_of bs) \<le> length (drop start bs) \<and>
           ys = take (mh_part_data_size (header_of bs)) (drop start bs)
         else chunk_stream infl (mh_compression (header_of bs)) (mh_num_chunks (header_of bs)) (drop start bs) ys))"

section \<open>The loops\<close>

lemma poll_simps [simp]: "fst (poll E D) = de_cancel E (dc_polls D)" "dc_out (snd (poll E D)) = dc_out D"
  by (simp_all add: poll_def)

lemma report_out [simp]: "dc_out (report x D) = dc_out D"
  by (simp add: report_def)

lemma dc_write_Some: "dc_write E bs D = Some D' \<Longrightarrow> dc_out D' = dc_out D @ bs"
  by (auto simp: dc_write_def split: if_splits)

lemma take_block:
  assumes "length (take k xs) \<le> n"
  shows "take k xs @ take (n - length (take k xs)) (drop (length (take k xs)) xs) = take n xs"
proof -
  have "take (length (take k xs)) xs = take k xs" by (cases "k \<le> length xs") simp_all
  then show ?thesis using take_add [of "length (take k xs)" "n - length (take k xs)" xs] assms by simp
qed

lemma raw_slice_sound:
  assumes "raw_slice E x cap left rest D = (e, D')"
  shows "e \<le> 0 \<and> (e = 0 \<longrightarrow> left \<le> length rest \<and> dc_out D' = dc_out D @ take left rest)"
  using assms
proof (induction E x cap left rest D rule: raw_slice.induct)
  case (1 E x cap left rest D)
  obtain stop D1 where p: "poll E D = (stop, D1)" by (metis prod.collapse)
  then have o: "dc_out D1 = dc_out D" using poll_simps(2) [of E D] by simp
  let ?k = "if left < cap then left else cap"
  show ?case
  proof (cases "left = 0 \<or> stop \<or> take ?k rest = [] \<or> dc_write E (take ?k rest) D1 = None")
    case True
    then show ?thesis using "1.prems" p by (auto simp: raw_slice.simps [of E x cap left] Let_def split: if_splits)
  next
    case False
    then have nz: "left \<noteq> 0" "\<not> stop" "take ?k rest \<noteq> []" "dc_write E (take ?k rest) D1 \<noteq> None"
      by (simp_all only: de_Morgan_disj simp_thms)
    then obtain D2 where w: "dc_write E (take ?k rest) D1 = Some D2" by blast
    let ?b = "take ?k rest"
    have r: "raw_slice E x cap (left - length ?b) (drop (length ?b) rest) (report x D2) = (e, D')"
      using "1.prems" by (simp only: raw_slice.simps [of E x cap left] p prod.case Let_def nz w if_False option.case)
    have ih: "e \<le> 0 \<and> (e = 0 \<longrightarrow> left - length ?b \<le> length (drop (length ?b) rest) \<and>
        dc_out D' = dc_out (report x D2) @ take (left - length ?b) (drop (length ?b) rest))"
      by (rule "1.IH" [OF nz(1) p [symmetric] nz(2) refl refl nz(3) w r])
    have le: "length ?b \<le> left" "length ?b \<le> length rest" by (auto simp: min_def)
    have "?b @ take (left - length ?b) (drop (length ?b) rest) = take left rest" by (rule take_block [OF le(1)])
    moreover have "dc_out (report x D2) = dc_out D @ ?b" using dc_write_Some [OF w] o by simp
    ultimately have out: "e = 0 \<longrightarrow> dc_out D' = dc_out D @ take left rest"
      using ih by (simp only: append_assoc) blast
    moreover have "e = 0 \<longrightarrow> left \<le> length rest" using ih le by (simp only: length_drop) linarith
    ultimately show ?thesis using ih by blast
  qed
qed

lemma stored_chunk_Inr:
  "stored_chunk E un cs crc bs D = Inr D' \<Longrightarrow> un = cs \<and> crc_ok crc bs \<and> dc_out D' = dc_out D @ bs"
  by (auto simp: stored_chunk_def split: if_splits option.splits dest: dc_write_Some)

lemma deflated_chunk_Inr:
  "deflated_chunk E ucap un crc bs D = Inr D' \<Longrightarrow>
    \<exists>ys. de_inflate E bs ucap = Some ys \<and> length ys = un \<and> crc_ok crc ys \<and> dc_out D' = dc_out D @ ys"
  by (auto simp: deflated_chunk_def split: if_splits option.splits dest: dc_write_Some)

lemma chunk_Inl: "stored_chunk E un cs crc bs D = Inl e \<Longrightarrow> e < 0"
  "deflated_chunk E ucap un crc bs D = Inl e \<Longrightarrow> e < 0"
  by (auto simp: stored_chunk_def deflated_chunk_def split: if_splits option.splits)

lemma chunk_step_Inl: "chunk_step E ty ccap ucap rest D = Inl e \<Longrightarrow> e < 0"
  by (auto simp: chunk_step_def Let_def map_sum_def split: if_splits sum.splits prod.splits dest: chunk_Inl)

lemma chunk_step_Inr:
  assumes "chunk_step E ty ccap ucap rest D = Inr (rest', D')" and "ty = 0 \<or> ty = 1"
  obtains ys cs crc where "12 + cs \<le> length rest" "chunk_header rest = (length ys, cs, crc)"
    "chunk_data (\<lambda>bs. de_inflate E bs ucap) ty (take cs (drop 12 rest)) = Some ys" "crc_ok crc ys"
    "rest' = drop (12 + cs) rest" "dc_out D' = dc_out D @ ys"
proof -
  obtain un cs crc where h: "chunk_header rest = (un, cs, crc)" by (metis prod_cases3)
  let ?b = "take cs (drop 12 rest)"
  have len: "12 + cs \<le> length rest" and l: "length ?b = cs" and r: "rest' = drop (12 + cs) rest"
    using assms(1) h by (auto simp: chunk_step_def Let_def map_sum_def split: if_splits sum.splits)
  consider (st) "ty = 0" "stored_chunk E un cs crc ?b D = Inr D'"
    | (df) "ty = 1" "deflated_chunk E ucap un crc ?b D = Inr D'"
    using assms h by (auto simp: chunk_step_def Let_def map_sum_def split: if_splits sum.splits)
  then show thesis
  proof cases
    case st
    from stored_chunk_Inr [OF st(2)] show thesis
      using st(1) h len l r by (intro that [of cs ?b crc]) (auto simp: chunk_data_def)
  next
    case df
    from deflated_chunk_Inr [OF df(2)] obtain ys where
      "de_inflate E ?b ucap = Some ys" "length ys = un" "crc_ok crc ys" "dc_out D' = dc_out D @ ys" by blast
    then show thesis using df(1) h len r by (intro that [of cs ys crc]) (auto simp: chunk_data_def)
  qed
qed

lemma chunks_sound:
  assumes "chunks E x ty ccap ucap n rest D = (e, D')" and "ty = 0 \<or> ty = 1"
  shows "e \<le> 0 \<and> (e = 0 \<longrightarrow> (\<exists>ys. chunk_stream (\<lambda>bs. de_inflate E bs ucap) ty n rest ys \<and> dc_out D' = dc_out D @ ys))"
  using assms(1)
proof (induction n arbitrary: rest D)
  case 0
  then show ?case by (auto intro: chunk_end)
next
  case (Suc n)
  obtain stop D1 where p: "poll E D = (stop, D1)" by (metis prod.collapse)
  then have o: "dc_out D1 = dc_out D" using poll_simps(2) [of E D] by simp
  show ?case
  proof (cases "chunk_step E ty ccap ucap rest D1")
    case (Inl f)
    then show ?thesis using Suc.prems p chunk_step_Inl [OF Inl] by (auto split: if_splits)
  next
    case (Inr q)
    obtain rest' D2 where q: "q = (rest', D2)" by (cases q)
    show ?thesis
    proof (cases stop)
      case True
      then show ?thesis using Suc.prems p by auto
    next
      case False
      then have r: "chunks E x ty ccap ucap n rest' (report x D2) = (e, D')"
        using Suc.prems p Inr q by simp
      obtain ys cs crc where c: "12 + cs \<le> length rest" "chunk_header rest = (length ys, cs, crc)"
        "chunk_data (\<lambda>bs. de_inflate E bs ucap) ty (take cs (drop 12 rest)) = Some ys" "crc_ok crc ys"
        "rest' = drop (12 + cs) rest" "dc_out D2 = dc_out D1 @ ys"
        using chunk_step_Inr [OF Inr [unfolded q] assms(2)] by blast
      from Suc.IH [OF r] show ?thesis using o c(6) chunk_next [OF c(1-4)] by (auto simp: c(5))
    qed
  qed
qed

lemma one_part_sound:
  assumes "one_part E x ccap ucap path D = (e, D')"
    and ty: "\<And>bs. de_files E path = Some bs \<Longrightarrow> mh_compression (header_of bs) = 0 \<or> mh_compression (header_of bs) = 1"
  shows "e \<le> 0 \<and> (e = 0 \<longrightarrow> (\<exists>bs ys. de_files E path = Some bs \<and>
    part_holds (\<lambda>b. de_inflate E b ucap) bs ys \<and> dc_out D' = dc_out D @ ys))"
proof -
  obtain stop D1 where p: "poll E D = (stop, D1)" by (metis prod.collapse)
  then have o: "dc_out D1 = dc_out D" using poll_simps(2) [of E D] by simp
  show ?thesis
  proof (cases "stop \<or> de_files E path = None")
    case True
    then show ?thesis using assms(1) p by (auto simp: one_part_def split: if_splits)
  next
    case False
    then obtain bs where f: "de_files E path = Some bs" and ns: "\<not> stop" by auto
    show ?thesis
    proof (cases "length bs < MULTIPART_HEADER_SIZE \<or> payload_offset (header_of bs) = None")
      case True
      then show ?thesis using assms(1) p f ns by (auto simp: one_part_def Let_def split: if_splits)
    next
      case False
      then obtain start where s: "payload_offset (header_of bs) = Some start" and len: "MULTIPART_HEADER_SIZE \<le> length bs" by auto
      show ?thesis
      proof (cases "mh_num_chunks (header_of bs) = 0 \<and> mh_compression (header_of bs) = 0")
        case True
        then have "raw_slice E x ucap (mh_part_data_size (header_of bs)) (drop start bs) D1 = (e, D')"
          using assms(1) p f ns s len by (simp add: one_part_def Let_def)
        from raw_slice_sound [OF this] show ?thesis
          using f s o True by (auto simp: part_holds_def)
      next
        case False
        then have "chunks E x (mh_compression (header_of bs)) ccap ucap (mh_num_chunks (header_of bs)) (drop start bs) D1 = (e, D')"
          using assms(1) p f ns s len by (auto simp: one_part_def Let_def)
        from chunks_sound [OF this ty [OF f]] show ?thesis using f s o False by (auto simp: part_holds_def)
      qed
    qed
  qed
qed

lemma all_parts_sound:
  assumes "all_parts E x ccap ucap ps D = (e, D')"
    and "\<And>p bs. p \<in> set ps \<Longrightarrow> de_files E p = Some bs \<Longrightarrow> mh_compression (header_of bs) = 0 \<or> mh_compression (header_of bs) = 1"
  shows "e \<le> 0 \<and> (e = 0 \<longrightarrow> (\<exists>yss. list_all2 (\<lambda>p ys. \<exists>bs. de_files E p = Some bs \<and>
    part_holds (\<lambda>b. de_inflate E b ucap) bs ys) ps yss \<and> dc_out D' = dc_out D @ concat yss))"
  using assms
proof (induction ps arbitrary: D)
  case Nil
  then show ?case by auto
next
  case (Cons p ps)
  obtain e1 D1 where o: "one_part E x ccap ucap p D = (e1, D1)" by (metis prod.collapse)
  have s: "e1 \<le> 0 \<and> (e1 = 0 \<longrightarrow> (\<exists>bs ys. de_files E p = Some bs \<and>
      part_holds (\<lambda>b. de_inflate E b ucap) bs ys \<and> dc_out D1 = dc_out D @ ys))"
    by (rule one_part_sound [OF o]) (use Cons.prems(2) in auto)
  show ?case
  proof (cases "e1 = 0")
    case False
    then show ?thesis using Cons.prems(1) o s by auto
  next
    case True
    then obtain bs ys where b: "de_files E p = Some bs" "part_holds (\<lambda>b. de_inflate E b ucap) bs ys"
      "dc_out D1 = dc_out D @ ys" using s by blast
    have a: "all_parts E x ccap ucap ps D1 = (e, D')" using Cons.prems(1) o True by simp
    from Cons.IH [OF a] Cons.prems(2) obtain ih: "e \<le> 0" "e = 0 \<longrightarrow> (\<exists>yss. list_all2 (\<lambda>p ys. \<exists>bs. de_files E p = Some bs \<and>
        part_holds (\<lambda>b. de_inflate E b ucap) bs ys) ps yss \<and> dc_out D' = dc_out D1 @ concat yss)" by auto
    show ?thesis
    proof (intro conjI impI)
      show "e \<le> 0" by (rule ih)
      assume "e = 0"
      then obtain yss where "list_all2 (\<lambda>p ys. \<exists>bs. de_files E p = Some bs \<and>
        part_holds (\<lambda>b. de_inflate E b ucap) bs ys) ps yss" "dc_out D' = dc_out D1 @ concat yss" using ih(2) by blast
      then show "\<exists>yss. list_all2 (\<lambda>p ys. \<exists>bs. de_files E p = Some bs \<and>
        part_holds (\<lambda>b. de_inflate E b ucap) bs ys) (p # ps) yss \<and> dc_out D' = dc_out D @ concat yss"
        using b by (intro exI [of _ "ys # yss"]) auto
    qed
  qed
qed

lemma chunks_neg: "chunks E x ty ccap ucap n rest D = (e, D') \<Longrightarrow> e \<le> 0"
proof (induction n arbitrary: rest D)
  case (Suc n)
  then show ?case
    by (auto split: prod.splits if_splits sum.splits dest: chunk_step_Inl)
qed simp

lemma one_part_neg: "one_part E x ccap ucap path D = (e, D') \<Longrightarrow> e \<le> 0"
  by (auto simp: one_part_def Let_def split: prod.splits if_splits option.splits
      dest: raw_slice_sound chunks_neg)

lemma all_parts_neg: "all_parts E x ccap ucap ps D = (e, D') \<Longrightarrow> e \<le> 0"
  by (induction ps arbitrary: D) (auto split: prod.splits if_splits dest: one_part_neg)

lemma check_parts_Inr:
  assumes "check_parts fs num uuid i ps s = Inr s'" and "k < length ps"
  shows "\<exists>h. multipart_read_header fs (ps ! k) = Inr h \<and> mh_part_index h = i + k + 1 \<and>
    mh_total_parts h = num \<and> mh_uuid h = uuid"
  using assms
proof (induction ps arbitrary: i s k)
  case Nil
  then show ?case by simp
next
  case (Cons p ps)
  obtain h where h: "multipart_read_header fs p = Inr h" and c: "mh_part_index h = i + 1" "mh_total_parts h = num" "mh_uuid h = uuid"
    and r: "check_parts fs num uuid (i + 1) ps (u64_add s (mh_part_data_size h)) = Inr s'"
    using Cons.prems(1) by (auto split: sum.splits if_splits)
  show ?case
  proof (cases k)
    case 0
    then show ?thesis using h c by auto
  next
    case (Suc k')
    then show ?thesis using Cons.IH [OF r, of k'] Cons.prems(2) by simp
  qed
qed

lemma check_parts_Inl: "check_parts fs num uuid i ps s = Inl e \<Longrightarrow> e < 0"
  by (induction fs num uuid i ps s rule: check_parts.induct) (auto split: sum.splits if_splits)

lemma read_header_valid:
  assumes "multipart_read_header fs p = Inr h"
  shows "multipart_is_valid_header h" and "\<not> starts_with ''smb://'' p"
    and "\<not> starts_with ''file://'' p \<Longrightarrow> \<exists>bs. fs p = Some bs \<and> h = header_of bs"
  using assms by (auto simp: multipart_read_header_def local_path_def split: if_splits option.splits)

section \<open>Soundness\<close>

text \<open>C15: Assembling never leaves a partial package: the destination holds bytes exactly when
  the result is 0, and every other outcome is an error that leaves it alone or removes it. On
  success the bytes are the concatenation, in the order given, of what the parts hold (a raw
  slice of the announced size, or chunks that match their sizes and CRCs); the parts number as
  many as the header says, share one package id, carry their index from the second on, and
  the length is the announced package size unless that is 0.\<close>

theorem assemble_sound:
  assumes run: "multipart_decompress_to_pkg E paths = (e, out, prog)"
    and loc: "\<forall>p \<in> set paths. \<not> starts_with ''file://'' p"
  shows "e \<le> 0 \<and> (e = 0 \<longleftrightarrow> (\<exists>ys. out = Written ys)) \<and>
    (\<forall>ys. out = Written ys \<longrightarrow>
      (\<exists>h cap yss. multipart_read_header (de_files E) (hd paths) = Inr h \<and> mh_total_parts h = length paths \<and>
        (\<forall>k < length paths. \<exists>g. multipart_read_header (de_files E) (paths ! k) = Inr g \<and> mh_uuid g = mh_uuid h \<and>
           (0 < k \<longrightarrow> mh_part_index g = k + 1)) \<and>
        list_all2 (\<lambda>p zs. \<exists>bs. de_files E p = Some bs \<and> part_holds (\<lambda>b. de_inflate E b cap) bs zs) paths yss \<and>
        ys = concat yss \<and> (0 < mh_total_pkg_size h \<longrightarrow> length ys = mh_total_pkg_size h)))"
proof -
  note d = multipart_decompress_to_pkg_def
  show ?thesis
  proof (cases "\<exists>ys. out = Written ys")
    case False
    then show ?thesis using run
      by (auto simp: d split: if_splits sum.splits option.splits prod.splits dest: check_parts_Inl all_parts_neg)
  next
    case True
    then obtain ys where ys: "out = Written ys" by blast
    obtain h s ccap ucap D where h: "multipart_read_header (de_files E) (hd paths) = Inr h" "paths \<noteq> []"
      "mh_total_parts h = length paths" "e = 0"
      and c: "check_parts (de_files E) (length paths) (mh_uuid h) 1 (tl paths) (mh_part_data_size h) = Inr s"
      and a: "all_parts E (mh_total_pkg_size h) ccap ucap paths dc_start = (0, D)" and y: "ys = dc_out D"
      and t: "0 < mh_total_pkg_size h \<longrightarrow> length ys = mh_total_pkg_size h"
      using run ys by (auto simp: d split: if_splits sum.splits option.splits prod.splits)
    have hdr: "\<exists>g. multipart_read_header (de_files E) (paths ! k) = Inr g \<and> mh_uuid g = mh_uuid h \<and>
        (0 < k \<longrightarrow> mh_part_index g = k + 1)" if "k < length paths" for k
    proof (cases k)
      case 0
      then show ?thesis using h by (simp add: hd_conv_nth)
    next
      case (Suc j)
      then have "j < length (tl paths)" using that by auto
      from check_parts_Inr [OF c this] show ?thesis using Suc \<open>j < length (tl paths)\<close> by (auto simp: nth_tl)
    qed
    have ty: "mh_compression (header_of bs) = 0 \<or> mh_compression (header_of bs) = 1"
      if p: "p \<in> set paths" and f: "de_files E p = Some bs" for p bs
    proof -
      obtain k where "k < length paths" "paths ! k = p" using p by (auto simp: in_set_conv_nth)
      then obtain g where g: "multipart_read_header (de_files E) p = Inr g" using hdr by blast
      have "g = header_of bs" using read_header_valid(3) [OF g] loc p f by auto
      then show ?thesis using read_header_valid(1) [OF g] by (auto simp: multipart_is_valid_header_def)
    qed
    have "\<exists>yss. list_all2 (\<lambda>p ys. \<exists>bs. de_files E p = Some bs \<and> part_holds (\<lambda>b. de_inflate E b ucap) bs ys) paths yss \<and>
        dc_out D = dc_out dc_start @ concat yss"
      using all_parts_sound [OF a] ty by blast
    then obtain yss where
      "list_all2 (\<lambda>p ys. \<exists>bs. de_files E p = Some bs \<and> part_holds (\<lambda>b. de_inflate E b ucap) bs ys) paths yss"
      "ys = concat yss" using y by (auto simp: dc_start_def)
    then show ?thesis using ys h t hdr by auto
  qed
qed

section \<open>Splitting and assembling\<close>

text \<open>
  The part files of tools/pkg_split.py: a header, in the first part the icon right behind it, then
  a raw slice. The header tells the index and the sizes, where the slice lies in the package and
  where it begins in the file; the other fields are the same in all parts. Parts of the first
  format left mh_data_offset at 0.
\<close>

definition embedded :: "u8 list \<Rightarrow> nat \<Rightarrow> u8 list" where
  "embedded icon k = (if k = 0 then icon else [])"

definition split_header :: "mp_header \<Rightarrow> u8 list list \<Rightarrow> u8 list \<Rightarrow> bool \<Rightarrow> nat \<Rightarrow> mp_header" where
  "split_header base ss icon first_format k =
     base\<lparr>mh_part_index := k + 1, mh_total_parts := length ss, mh_part_data_size := length (ss ! k),
       mh_total_pkg_size := length (concat ss),
       mh_icon_offset := (if embedded icon k = [] then 0 else MULTIPART_HEADER_SIZE),
       mh_icon_size := length (embedded icon k), mh_part_offset := length (concat (take k ss)),
       mh_data_offset := (if first_format then 0 else MULTIPART_HEADER_SIZE + length (embedded icon k))\<rparr>"

definition split_file :: "mp_header \<Rightarrow> u8 list list \<Rightarrow> u8 list \<Rightarrow> bool \<Rightarrow> nat \<Rightarrow> u8 list" where
  "split_file base ss icon first_format k =
     encode_header (split_header base ss icon first_format k) @ embedded icon k @ ss ! k"

text \<open>What the fields all parts share have to be.\<close>

definition split_base :: "mp_header \<Rightarrow> bool" where
  "split_base h =
     (mh_magic h = MULTIPART_MAGIC \<and> mh_version h = 1 \<and> mh_compression h = 0 \<and> mh_num_chunks h = 0 \<and>
      mh_chunk_size h \<le> 64 * 1024 * 1024 \<and> header_lengths h \<and> header_ranges h)"

text \<open>The least a part file says: headers without icon and offsets, the slice behind them.\<close>

definition slice_header :: "mp_header \<Rightarrow> nat \<Rightarrow> nat \<Rightarrow> nat \<Rightarrow> nat \<Rightarrow> mp_header" where
  "slice_header base i n pkg_size len =
     base\<lparr>mh_part_index := i, mh_total_parts := n, mh_part_data_size := len, mh_total_pkg_size := pkg_size\<rparr>"

definition part_file :: "mp_header \<Rightarrow> u8 list list \<Rightarrow> nat \<Rightarrow> u8 list" where
  "part_file base ss k =
     encode_header (slice_header base (k + 1) (length ss) (length (concat ss)) (length (ss ! k))) @ ss ! k"

definition raw_base :: "mp_header \<Rightarrow> bool" where
  "raw_base h =
     (mh_magic h = MULTIPART_MAGIC \<and> mh_version h = 1 \<and> mh_compression h = 0 \<and> mh_num_chunks h = 0 \<and>
      mh_chunk_size h \<le> 64 * 1024 * 1024 \<and> mh_data_offset h = 0 \<and> mh_icon_size h = 0 \<and>
      header_lengths h \<and> header_ranges h)"

lemma length_slice: "k < length ss \<Longrightarrow> length (ss ! k) \<le> length (concat ss)"
proof -
  assume "k < length ss"
  then have "length (ss ! k) \<in> set (map length ss)" by simp
  from member_le_sum_list [OF this] show ?thesis by (simp add: length_concat)
qed

lemma length_magic: "length MULTIPART_MAGIC = 8"
  by (simp add: MULTIPART_MAGIC_def chars_bytes_def)

lemma slice_header_of:
  assumes b: "raw_base base" and n: "length ss < 2 ^ 32" and t: "length (concat ss) < 2 ^ 64" and k: "k < length ss"
  shows "header_of (part_file base ss k) =
      slice_header base (k + 1) (length ss) (length (concat ss)) (length (ss ! k))"
    and "MULTIPART_HEADER_SIZE \<le> length (part_file base ss k)"
    and "drop MULTIPART_HEADER_SIZE (part_file base ss k) = ss ! k"
proof -
  let ?h = "slice_header base (k + 1) (length ss) (length (concat ss)) (length (ss ! k))"
  have l: "header_lengths ?h" using b by (simp add: raw_base_def header_lengths_def slice_header_def length_magic)
  have r: "header_ranges ?h"
    using b n t k length_slice [OF k] by (simp add: raw_base_def header_ranges_def slice_header_def)
  show "header_of (part_file base ss k) = ?h" unfolding part_file_def by (rule header_of_encode [OF l r])
  show "MULTIPART_HEADER_SIZE \<le> length (part_file base ss k)"
    and "drop MULTIPART_HEADER_SIZE (part_file base ss k) = ss ! k"
    using length_encode_header [OF l] by (simp_all add: part_file_def)
qed

lemma slice_valid:
  assumes "raw_base base" and "k < n"
  shows "multipart_is_valid_header (slice_header base (k + 1) n t len)"
  using assms by (simp add: raw_base_def multipart_is_valid_header_def slice_header_def)

lemma read_slice_header:
  assumes b: "raw_base base" and n: "length ss < 2 ^ 32" and t: "length (concat ss) < 2 ^ 64" and k: "k < length ss"
    and f: "fs p = Some (part_file base ss k)" and l: "\<not> starts_with ''smb://'' p" "\<not> starts_with ''file://'' p"
  shows "multipart_read_header fs p =
    Inr (slice_header base (k + 1) (length ss) (length (concat ss)) (length (ss ! k)))"
  using slice_header_of [OF b n t k] slice_valid [OF b k] f l
  by (simp add: multipart_read_header_def local_path_def)

text \<open>What assembling needs of a part file, whatever its layout.\<close>

definition carries :: "u8 list \<Rightarrow> u8 list list \<Rightarrow> nat \<Rightarrow> u8 list \<Rightarrow> bool" where
  "carries uuid ss k bs =
     (let h = header_of bs in
      MULTIPART_HEADER_SIZE \<le> length bs \<and> multipart_is_valid_header h \<and> mh_uuid h = uuid \<and>
      mh_part_index h = k + 1 \<and> mh_total_parts h = length ss \<and> mh_part_data_size h = length (ss ! k) \<and>
      mh_total_pkg_size h = length (concat ss) \<and> mh_num_chunks h = 0 \<and> mh_compression h = 0 \<and>
      (\<exists>start. payload_offset h = Some start \<and> take (length (ss ! k)) (drop start bs) = ss ! k))"

lemma part_file_carries:
  assumes "raw_base base" "length ss < 2 ^ 32" "length (concat ss) < 2 ^ 64" "k < length ss"
  shows "carries (mh_uuid base) ss k (part_file base ss k)"
  using slice_header_of [OF assms] slice_valid [OF assms(1,4)] assms(1)
  by (simp add: carries_def Let_def slice_header_def payload_offset_def raw_base_def)

lemma split_file_carries:
  assumes b: "split_base base" and n: "length ss < 2 ^ 32" and t: "length (concat ss) < 2 ^ 64" and k: "k < length ss"
    and i: "MULTIPART_HEADER_SIZE + length icon < 2 ^ 32" "first_format \<Longrightarrow> length icon < 10 * 1024 * 1024"
  shows "carries (mh_uuid base) ss k (split_file base ss icon first_format k)"
proof -
  let ?h = "split_header base ss icon first_format k"
  have e: "length (embedded icon k) \<le> length icon" by (simp add: embedded_def)
  have "concat ss = concat (take k ss) @ concat (drop k ss)" by (metis append_take_drop_id concat_append)
  then have o: "length (concat (take k ss)) < 2 ^ 64"
    using t by (metis le_add1 le_less_trans length_append)
  have l: "header_lengths ?h" using b by (simp add: split_base_def header_lengths_def split_header_def length_magic)
  have r: "header_ranges ?h"
    using b n t k o i(1) e length_slice [OF k]
    by (simp add: split_base_def header_ranges_def split_header_def MULTIPART_HEADER_SIZE_def)
  have h: "header_of (split_file base ss icon first_format k) = ?h"
    unfolding split_file_def by (rule header_of_encode [OF l r])
  have len: "length (encode_header ?h) = MULTIPART_HEADER_SIZE" by (rule length_encode_header [OF l])
  have "embedded icon k \<noteq> [] \<Longrightarrow> first_format \<Longrightarrow> length (embedded icon k) < 10 * 1024 * 1024"
    using i(2) e by simp
  then have p: "payload_offset ?h = Some (MULTIPART_HEADER_SIZE + length (embedded icon k))"
    by (cases first_format) (auto simp: payload_offset_def split_header_def MULTIPART_HEADER_SIZE_def)
  have "drop (MULTIPART_HEADER_SIZE + length (embedded icon k)) (split_file base ss icon first_format k) = ss ! k"
    using len by (simp add: split_file_def)
  moreover have "ss \<noteq> []" using k by auto
  ultimately show ?thesis
    using b k len p unfolding carries_def Let_def h
    by (simp add: split_file_def split_base_def multipart_is_valid_header_def split_header_def)
qed

lemma carries_read:
  assumes "carries uuid ss k bs" "fs p = Some bs" "\<not> starts_with ''smb://'' p" "\<not> starts_with ''file://'' p"
  shows "multipart_read_header fs p = Inr (header_of bs)"
  using assms by (simp add: carries_def Let_def multipart_read_header_def local_path_def)

lemma raw_slice_complete:
  assumes "0 < cap" and "left \<le> length rest" and "\<And>i. \<not> de_cancel E i" and "length (dc_out D) + left \<le> de_disk E"
  shows "\<exists>D'. raw_slice E x cap left rest D = (0, D') \<and> dc_out D' = dc_out D @ take left rest"
  using assms
proof (induction E x cap left rest D rule: raw_slice.induct)
  case (1 E x cap left rest D)
  show ?case
  proof (cases "left = 0")
    case True
    then show ?thesis by (simp add: raw_slice.simps)
  next
    case False
    define k where "k = (if left < cap then left else cap)"
    have k: "0 < k" "k \<le> left" "k \<le> length rest" using False "1.prems" by (auto simp: k_def)
    obtain stop D1 where p: "poll E D = (stop, D1)" by (metis prod.collapse)
    have o: "dc_out D1 = dc_out D" and s: "\<not> stop" using poll_simps [of E D] "1.prems"(3) p by auto
    have b: "length (take k rest) = k" "take k rest \<noteq> []" using k by auto
    obtain D2 where w: "dc_write E (take k rest) D1 = Some D2" and o2: "dc_out D2 = dc_out D @ take k rest"
      using "1.prems"(4) b k o by (auto simp: dc_write_def)
    have "\<exists>D'. raw_slice E x cap (left - length (take k rest)) (drop (length (take k rest)) rest) (report x D2) = (0, D') \<and>
        dc_out D' = dc_out (report x D2) @ take (left - length (take k rest)) (drop (length (take k rest)) rest)"
      using "1.prems" k o2 b(1)
      by (intro "1.IH" [OF False p [symmetric] s k_def refl b(2) w]) auto
    then obtain D' where D': "raw_slice E x cap (left - k) (drop k rest) (report x D2) = (0, D')"
      "dc_out D' = dc_out D @ take k rest @ take (left - k) (drop k rest)" using b(1) o2 by auto
    have "raw_slice E x cap left rest D = (0, D')"
      using False p s b w D'(1) k_def by (simp add: raw_slice.simps [of E x cap left] Let_def)
    moreover have "take k rest @ take (left - k) (drop k rest) = take left rest"
      using take_add [of k "left - k" rest] k by simp
    ultimately show ?thesis using D'(2) by simp
  qed
qed

lemma one_part_complete:
  assumes s: "carries uuid ss k bs" and f: "de_files E p = Some bs" and c: "\<And>i. \<not> de_cancel E i"
    and room: "length (dc_out D) + length (ss ! k) \<le> de_disk E"
  shows "\<exists>D'. one_part E x RAW_BUF_CAP RAW_BUF_CAP p D = (0, D') \<and> dc_out D' = dc_out D @ ss ! k"
proof -
  obtain stop D1 where pl: "poll E D = (stop, D1)" by (metis prod.collapse)
  have o: "dc_out D1 = dc_out D" and st: "\<not> stop" using poll_simps [of E D] c pl by auto
  obtain start where start: "payload_offset (header_of bs) = Some start"
    and sl: "take (length (ss ! k)) (drop start bs) = ss ! k" using s by (auto simp: carries_def Let_def)
  have "length (ss ! k) \<le> length (drop start bs)" using arg_cong [OF sl, of length] by simp
  then have "\<exists>D'. raw_slice E x RAW_BUF_CAP (length (ss ! k)) (drop start bs) D1 = (0, D') \<and>
      dc_out D' = dc_out D1 @ take (length (ss ! k)) (drop start bs)"
    by (intro raw_slice_complete) (use c room o in \<open>auto simp: RAW_BUF_CAP_def\<close>)
  then show ?thesis
    using pl st f o start s sl by (auto simp: one_part_def carries_def Let_def)
qed

lemma all_parts_complete:
  assumes s: "\<And>k. k < length ss \<Longrightarrow> carries uuid ss k (fl k)" and l: "length paths = length ss"
    and f: "\<And>k. k < length ss \<Longrightarrow> de_files E (paths ! k) = Some (fl k)"
    and c: "\<And>i. \<not> de_cancel E i" and room: "length (concat ss) \<le> de_disk E" and k: "k \<le> length ss"
    and D: "dc_out D = concat (take k ss)"
  shows "\<exists>D'. all_parts E x RAW_BUF_CAP RAW_BUF_CAP (drop k paths) D = (0, D') \<and> dc_out D' = concat ss"
  using k D
proof (induction "length ss - k" arbitrary: k D)
  case 0
  then show ?case using l by simp
next
  case (Suc j)
  then have k: "k < length ss" by simp
  have tk: "take (Suc k) ss = take k ss @ [ss ! k]" by (rule take_Suc_conv_app_nth [OF k])
  have "concat ss = concat (take (Suc k) ss) @ concat (drop (Suc k) ss)"
    by (metis append_take_drop_id concat_append)
  then have "length (dc_out D) + length (ss ! k) \<le> de_disk E" using room Suc.prems(2) tk by simp
  from one_part_complete [OF s [OF k] f [OF k] c this] obtain D1
    where o: "one_part E x RAW_BUF_CAP RAW_BUF_CAP (paths ! k) D = (0, D1)" and "dc_out D1 = dc_out D @ ss ! k" by blast
  then have "dc_out D1 = concat (take (Suc k) ss)" using Suc.prems(2) tk by simp
  moreover have "j = length ss - Suc k" "Suc k \<le> length ss" using Suc.hyps(2) k by auto
  ultimately obtain D' where "all_parts E x RAW_BUF_CAP RAW_BUF_CAP (drop (Suc k) paths) D1 = (0, D')"
    "dc_out D' = concat ss" using Suc.hyps(1) [of "Suc k" D1] by blast
  moreover have "drop k paths = paths ! k # drop (Suc k) paths" using k l by (simp add: Cons_nth_drop_Suc)
  ultimately show ?case using o by simp
qed

lemma check_parts_complete:
  assumes s: "\<And>k. k < length ss \<Longrightarrow> carries uuid ss k (fl k)" and t: "length (concat ss) < 2 ^ 64"
    and l: "length paths = length ss"
    and f: "\<And>k. k < length ss \<Longrightarrow> fs (paths ! k) = Some (fl k) \<and>
      \<not> starts_with ''smb://'' (paths ! k) \<and> \<not> starts_with ''file://'' (paths ! k)"
    and k: "k \<le> length ss"
  shows "check_parts fs (length ss) uuid k (drop k paths) (length (concat (take k ss))) = Inr (length (concat ss))"
  using k
proof (induction "length ss - k" arbitrary: k)
  case 0
  then show ?case using l by simp
next
  case (Suc j)
  then have k: "k < length ss" by simp
  have tk: "take (Suc k) ss = take k ss @ [ss ! k]" by (rule take_Suc_conv_app_nth [OF k])
  have "concat ss = concat (take (Suc k) ss) @ concat (drop (Suc k) ss)"
    by (metis append_take_drop_id concat_append)
  then have "length (concat (take k ss)) + length (ss ! k) \<le> length (concat ss)" using tk by simp
  then have u: "u64_add (length (concat (take k ss))) (length (ss ! k)) = length (concat (take (Suc k) ss))"
    using t tk by (simp add: u64_add_small)
  have d: "drop k paths = paths ! k # drop (Suc k) paths" using k l by (simp add: Cons_nth_drop_Suc)
  have h: "multipart_read_header fs (paths ! k) = Inr (header_of (fl k))"
    using f [OF k] by (intro carries_read [OF s [OF k]]) auto
  have "check_parts fs (length ss) uuid (Suc k) (drop (Suc k) paths) (length (concat (take (Suc k) ss))) =
      Inr (length (concat ss))"
    using Suc.hyps k by (intro Suc.hyps(1)) auto
  then show ?case unfolding d using u s [OF k] by (simp add: h carries_def Let_def)
qed

lemma assemble_carried:
  assumes s: "\<And>k. k < length ss \<Longrightarrow> carries uuid ss k (fl k)" and ss: "ss \<noteq> []" "length (concat ss) < 2 ^ 64"
    and l: "length paths = length ss"
    and f: "\<forall>k < length ss. de_files E (paths ! k) = Some (fl k) \<and>
      \<not> starts_with ''smb://'' (paths ! k) \<and> \<not> starts_with ''file://'' (paths ! k)"
    and ok: "de_out_ok E" "de_alloc E" "length (concat ss) \<le> de_disk E" "\<forall>i. \<not> de_cancel E i"
  shows "\<exists>prog. multipart_decompress_to_pkg E paths = (0, Written (concat ss), prog)"
proof -
  obtain p ps where paths: "paths = p # ps" using ss(1) l by (cases paths) auto
  have z: "0 < length ss" using ss(1) by simp
  let ?h = "header_of (fl 0)"
  have h: "multipart_read_header (de_files E) p = Inr ?h"
    using carries_read [OF s [OF z]] f z paths by fastforce
  have hf: "mh_total_parts ?h = length ss" "mh_uuid ?h = uuid" "mh_part_data_size ?h = length (ss ! 0)"
    "mh_total_pkg_size ?h = length (concat ss)" "mh_num_chunks ?h = 0" "mh_compression ?h = 0"
    using s [OF z] by (simp_all add: carries_def Let_def)
  have "take 1 ss = [ss ! 0]" using ss(1) by (cases ss) auto
  then have c: "check_parts (de_files E) (length ss) uuid 1 ps (length (ss ! 0)) = Inr (length (concat ss))"
    using check_parts_complete [OF s ss(2) l, where k = 1 and fs = "de_files E"] f z paths by (simp add: Suc_leI)
  have caps: "buffer_caps ?h = Some (RAW_BUF_CAP, RAW_BUF_CAP)" by (simp add: buffer_caps_def hf)
  obtain D' where a: "all_parts E (length (concat ss)) RAW_BUF_CAP RAW_BUF_CAP paths dc_start = (0, D')" "dc_out D' = concat ss"
    using all_parts_complete [OF s l, where k = 0 and D = dc_start and E = E and x = "length (concat ss)"] f ok
    by (force simp: dc_start_def)
  show ?thesis
    using h hf c caps a ok paths l by (simp add: multipart_decompress_to_pkg_def)
qed

text \<open>C16: Assembling inverts splitting: however a package is cut into one or more slices (empty
  ones included), assembling the part files tools/pkg_split.py writes for them, given in order,
  returns 0 and writes the package back: with an icon behind the first header or without one,
  with the slice's place announced in mh_data_offset or, in parts of the first format, found
  behind the icon; provided the buffers, the destination and the space are there and nobody
  cancels. The other fields of the headers may hold anything of their size.\<close>

theorem assemble_roundtrip:
  assumes b: "split_base base" and ss: "ss \<noteq> []" "length ss < 2 ^ 32" "length (concat ss) < 2 ^ 64"
    and icon: "MULTIPART_HEADER_SIZE + length icon < 2 ^ 32" "first_format \<longrightarrow> length icon < 10 * 1024 * 1024"
    and l: "length paths = length ss"
    and f: "\<forall>k < length ss. de_files E (paths ! k) = Some (split_file base ss icon first_format k) \<and>
      \<not> starts_with ''smb://'' (paths ! k) \<and> \<not> starts_with ''file://'' (paths ! k)"
    and ok: "de_out_ok E" "de_alloc E" "length (concat ss) \<le> de_disk E" "\<forall>i. \<not> de_cancel E i"
  shows "\<exists>prog. multipart_decompress_to_pkg E paths = (0, Written (concat ss), prog)"
proof (rule assemble_carried [OF _ ss(1,3) l f ok])
  show "carries (mh_uuid base) ss k (split_file base ss icon first_format k)" if "k < length ss" for k
    using icon by (intro split_file_carries [OF b ss(2,3) that]) auto
qed

section \<open>The first part's index\<close>

text \<open>The index of the first part is never checked: for a package cut into two slices of
  the same size, assembling the second part's file twice returns 0 and writes the second
  slice twice.\<close>

theorem first_part_unchecked:
  assumes b: "raw_base base" and t: "2 * length s1 < 2 ^ 64" and l: "length s0 = length s1"
    and f: "de_files E p = Some (part_file base [s0, s1] 1)"
      "\<not> starts_with ''smb://'' p" "\<not> starts_with ''file://'' p"
    and ok: "de_out_ok E" "de_alloc E" "2 * length s1 \<le> de_disk E" "\<forall>i. \<not> de_cancel E i"
  shows "\<exists>prog. multipart_decompress_to_pkg E [p, p] = (0, Written (s1 @ s1), prog)"
proof -
  let ?ss = "[s0, s1]"
  have n: "length ?ss < 2 ^ 32" "length (concat ?ss) < 2 ^ 64" "1 < length ?ss" using t l by simp_all
  have h: "multipart_read_header (de_files E) p = Inr (slice_header base 2 2 (2 * length s1) (length s1))"
    using read_slice_header [where ss = ?ss and k = 1 and fs = "de_files E" and p = p, OF b n f] l
    by (simp add: numeral_2_eq_2 mult_2)
  have c: "check_parts (de_files E) 2 (mh_uuid base) 1 [p] (length s1) = Inr (2 * length s1)"
    using t by (simp add: h slice_header_def u64_add_small)
  have caps: "buffer_caps (slice_header base 2 2 (2 * length s1) (length s1)) = Some (RAW_BUF_CAP, RAW_BUF_CAP)"
    using b by (simp add: buffer_caps_def slice_header_def raw_base_def)
  obtain D1 where 1: "one_part E (2 * length s1) RAW_BUF_CAP RAW_BUF_CAP p dc_start = (0, D1)" "dc_out D1 = s1"
    using one_part_complete [where E = E and D = dc_start, OF part_file_carries [OF b n] f(1)] ok
    by (fastforce simp: dc_start_def)
  obtain D2 where 2: "one_part E (2 * length s1) RAW_BUF_CAP RAW_BUF_CAP p D1 = (0, D2)" "dc_out D2 = s1 @ s1"
    using one_part_complete [where E = E and D = D1, OF part_file_carries [OF b n] f(1)] ok 1(2) by fastforce
  show ?thesis using h c caps 1 2 ok by (simp add: multipart_decompress_to_pkg_def slice_header_def)
qed

section \<open>A concrete package\<close>

definition demo_base :: mp_header where
  "demo_base =
     \<lparr>mh_magic = MULTIPART_MAGIC, mh_version = 1, mh_part_index = 0, mh_total_parts = 0, mh_compression = 0,
      mh_chunk_size = 0, mh_num_chunks = 0, mh_part_data_size = 0, mh_total_pkg_size = 0,
      mh_total_archive_size = 0, mh_pkg_filename = replicate 256 0, mh_title_id = replicate 32 0,
      mh_title_name = replicate 256 0, mh_content_id = replicate 64 0, mh_uuid = replicate 16 7,
      mh_icon_offset = 0, mh_icon_size = 0, mh_app_version = replicate 32 0, mh_pkg_type = replicate 16 0,
      mh_part_offset = 0, mh_data_offset = 0\<rparr>"

definition demo_slices :: "u8 list list" where
  "demo_slices = [[1, 2, 3], [4, 5, 6]]"

definition demo_icon :: "u8 list" where
  "demo_icon = [137, 80, 78, 71]"

definition demo_dc :: dc_env where
  "demo_dc =
     \<lparr>de_files = (\<lambda>p. if p = ''a.pkg.part1'' then Some (split_file demo_base demo_slices demo_icon False 0)
                    else if p = ''a.pkg.part2'' then Some (split_file demo_base demo_slices demo_icon False 1)
                    else if p = ''b.pkg.part2'' then Some (part_file demo_base demo_slices 1) else None),
      de_out_ok = True, de_alloc = True, de_disk = 100, de_cancel = (\<lambda>_. False), de_inflate = (\<lambda>_ _. None)\<rparr>"

lemma demo_base_raw: "raw_base demo_base"
  by (simp add: raw_base_def demo_base_def header_lengths_def header_ranges_def length_magic)

lemma demo_base_split: "split_base demo_base"
  using demo_base_raw by (simp add: raw_base_def split_base_def)

lemma demo_sizes: "demo_slices \<noteq> []" "length demo_slices < 2 ^ 32" "length (concat demo_slices) < 2 ^ 64"
    "MULTIPART_HEADER_SIZE + length demo_icon < 2 ^ 32" "False \<longrightarrow> length demo_icon < 10 * 1024 * 1024"
    "length [''a.pkg.part1'', ''a.pkg.part2''] = length demo_slices"
    "de_out_ok demo_dc" "de_alloc demo_dc" "length (concat demo_slices) \<le> de_disk demo_dc" "\<forall>i. \<not> de_cancel demo_dc i"
  by (simp_all add: demo_slices_def demo_dc_def demo_icon_def MULTIPART_HEADER_SIZE_def)

lemma demo_package: "concat demo_slices = [1, 2, 3, 4, 5, 6]"
  by (simp add: demo_slices_def)

lemma demo_part_files: "\<forall>k < length demo_slices.
    de_files demo_dc ([''a.pkg.part1'', ''a.pkg.part2''] ! k) = Some (split_file demo_base demo_slices demo_icon False k) \<and>
    \<not> starts_with ''smb://'' ([''a.pkg.part1'', ''a.pkg.part2''] ! k) \<and>
    \<not> starts_with ''file://'' ([''a.pkg.part1'', ''a.pkg.part2''] ! k)"
proof -
  have "length demo_slices = 2" by (simp add: demo_slices_def)
  then show ?thesis by (auto simp: less_2_cases_iff demo_dc_def starts_with_def)
qed

lemma demo_carries:
  "k < length demo_slices \<Longrightarrow> carries (mh_uuid demo_base) demo_slices k (split_file demo_base demo_slices demo_icon False k)"
  using demo_sizes(4) by (intro split_file_carries [OF demo_base_split demo_sizes(2,3)]) auto

theorem assemble_roundtrip_witness:
  "\<exists>prog. multipart_decompress_to_pkg demo_dc [''a.pkg.part1'', ''a.pkg.part2''] = (0, Written [1, 2, 3, 4, 5, 6], prog)"
  using assemble_roundtrip [OF demo_base_split demo_sizes(1-6) demo_part_files demo_sizes(7-10)]
  by (simp only: demo_package)

theorem first_part_unchecked_witness:
  "\<exists>prog. multipart_decompress_to_pkg demo_dc [''b.pkg.part2'', ''b.pkg.part2''] = (0, Written [4, 5, 6, 4, 5, 6], prog)"
  using first_part_unchecked [OF demo_base_raw, of "[4, 5, 6]" "[1, 2, 3]" demo_dc "''b.pkg.part2''"]
  by (simp add: demo_slices_def demo_dc_def starts_with_def)

theorem assemble_sound_witness:
  "\<exists>prog. multipart_decompress_to_pkg demo_dc [''a.pkg.part1'', ''a.pkg.part2''] = (0, Written [1, 2, 3, 4, 5, 6], prog) \<and>
     (\<exists>h. multipart_read_header (de_files demo_dc) ''a.pkg.part1'' = Inr h \<and> mh_total_parts h = 2)"
proof -
  obtain prog where r: "multipart_decompress_to_pkg demo_dc [''a.pkg.part1'', ''a.pkg.part2''] = (0, Written [1, 2, 3, 4, 5, 6], prog)"
    using assemble_carried [OF demo_carries demo_sizes(1,3,6) demo_part_files demo_sizes(7-10)]
    unfolding demo_package by blast
  have "\<forall>p \<in> set [''a.pkg.part1'', ''a.pkg.part2'']. \<not> starts_with ''file://'' p" by (simp add: starts_with_def)
  from assemble_sound [OF r this] show ?thesis using r by auto
qed

end
