(* ===== verification/PartNames.thy ===== *)
theory PartNames
  imports Multipart
begin

text \<open>
  The names of parts (multipart_is_part_filename of src/src/multipart.c, modelled in
  Multipart): the search for the last ".part" finds the suffix of the splitter's names
  whatever stands before it.
\<close>

lemma strcasestr_append:
  "iprefix pat s \<Longrightarrow> \<exists>i \<le> length b. strcasestr (b @ s) pat = Some (drop i (b @ s)) \<and> iprefix pat (drop i (b @ s))"
proof (induction b)
  case Nil
  then show ?case by (cases s) (auto simp: iprefix_def)
next
  case (Cons c b)
  show ?case
  proof (cases "iprefix pat (c # b @ s)")
    case True
    then show ?thesis by (intro exI [of _ 0]) simp
  next
    case False
    from Cons obtain i where "i \<le> length b" "strcasestr (b @ s) pat = Some (drop i (b @ s))" "iprefix pat (drop i (b @ s))" by blast
    then show ?thesis using False by (intro exI [of _ "Suc i"]) simp
  qed
qed

lemma part_overlap:
  assumes "iprefix ''.part'' (drop i (b @ CHR ''.'' # s))" and "i < length b"
  shows "i + 5 \<le> length b"
proof (rule ccontr)
  assume n: "\<not> i + 5 \<le> length b"
  define j where "j = length b - i"
  have j: "0 < j" "j < 5" using assms(2) n by (auto simp: j_def)
  let ?Y = "drop i (b @ CHR ''.'' # s)"
  have five: "length ''.part'' = 5" by simp
  have e: "map lower ''.part'' = map lower (take 5 ?Y)" using assms(1) by (simp only: iprefix_def five)
  have "length (take 5 ?Y) = 5" using iprefix_length [OF assms(1)] by simp
  then have "map lower (take 5 ?Y) ! j = lower (?Y ! j)" by (rule nth_map_take [OF j(2)])
  moreover have "?Y ! j = CHR ''.''" using assms(2) by (simp add: j_def nth_append)
  moreover have "map lower ''.part'' ! j = lower (''.part'' ! j)" using j(2) five by (simp only: nth_map)
  ultimately have "lower (''.part'' ! j) = lower (CHR ''.'')" using e by simp
  moreover have "j = 1 \<or> j = 2 \<or> j = 3 \<or> j = 4" using j by linarith
  ultimately show False by (auto simp: lower_def)
qed

lemma last_part_end:
  assumes d: "is_digit (c_at ds 0)" and no: "strcasestr ds ''.part'' = None"
  shows "last_part p (b @ ''.part'' @ ds) = Some (''.part'' @ ds)"
proof -
  define s where "s = ''.part'' @ ds"
  have p: "iprefix ''.part'' s" and dot: "s = CHR ''.'' # (''part'' @ ds)" and d5: "drop 5 s = ds" and c5: "c_at s 5 = c_at ds 0"
    by (simp_all add: s_def iprefix_def c_at_def)
  have "last_part p (b @ s) = Some s" for p
  proof (induction "length b" arbitrary: b p rule: less_induct)
    case less
    from strcasestr_append [OF p, of b] obtain i where i: "i \<le> length b"
      "strcasestr (b @ s) ''.part'' = Some (drop i (b @ s))" "iprefix ''.part'' (drop i (b @ s))" by blast
    show ?case
    proof (cases "i = length b")
      case True
      then have f: "strcasestr (b @ s) ''.part'' = Some s" using i by simp
      have "last_part p (b @ s) = last_part (Some s) ds"
        by (subst last_part.simps) (simp only: f option.case c5 d d5 if_True)
      also have "\<dots> = Some s" by (subst last_part.simps) (simp only: no option.case)
      finally show ?thesis .
    next
      case False
      then have l: "i + 5 \<le> length b" using part_overlap [of i b "''part'' @ ds"] i dot by simp
      then have f: "drop 5 (drop i (b @ s)) = drop (i + 5) b @ s" by (simp add: add.commute)
      have "last_part q (drop (i + 5) b @ s) = Some s" for q using l by (intro less) simp
      then show ?thesis by (subst last_part.simps) (simp only: i(2) option.case f)
    qed
  qed
  then show ?thesis by (simp only: s_def)
qed

lemma no_part_in_number:
  assumes "\<forall>c \<in> set ds. is_digit c" and "length ext < 5"
  shows "strcasestr (ds @ ext) ''.part'' = None"
  using assms(1)
proof (induction ds)
  case Nil
  show ?case using strcasestr_length [of ext "''.part''"] assms(2) by (cases "strcasestr ext ''.part''") auto
next
  case (Cons c ds)
  then have "\<not> iprefix ''.part'' (c # ds @ ext)" by (auto simp: iprefix_def lower_def is_digit_def split: if_splits)
  with Cons show ?case by simp
qed

lemma staged_ends_in_t:
  assumes "staged_part name = Some m"
  shows "name \<noteq> []" and "lower (last name) = CHR ''t''"
proof -
  obtain v rest where r: "strtoull (drop 5 name) = (v, rest)" by (metis prod.collapse)
  then have q: "map lower rest = map lower ''.pkg.part''"
    using assms by (auto simp: staged_part_def ieq_def split: if_splits)
  then have ne: "rest \<noteq> []" and "last (map lower rest) = CHR ''t''" by (auto simp: lower_def)
  then have l: "lower (last rest) = CHR ''t''" by (simp add: last_map)
  obtain pre where "drop 5 name = pre @ rest" using strtoull_suffix [OF r] by blast
  then have "name = take 5 name @ pre @ rest" by (metis append_take_drop_id)
  then have "name = (take 5 name @ pre) @ rest" by simp
  then have "last name = last rest" using ne by (metis last_appendR)
  then show "lower (last name) = CHR ''t''" using l by simp
  show "name \<noteq> []" using \<open>name = take 5 name @ pre @ rest\<close> ne by auto
qed

lemma ieq_pkg: "ieq ext ''.pkg'' \<Longrightarrow> ext \<noteq> [] \<and> lower (last ext) = CHR ''g'' \<and> length ext = 4 \<and>
    hd ext = CHR ''.'' \<and> CHR ''/'' \<notin> set ext"
proof -
  assume "ieq ext ''.pkg''"
  then have m: "map lower ext = ''.pkg''" by (simp add: ieq_def lower_def)
  have "length ext = length (map lower ext)" by simp
  then have l: "length ext = 4" unfolding m by simp
  then obtain a b c d where e: "ext = [a, b, c, d]" by (auto simp: numeral_eq_Suc length_Suc_conv)
  have la: "lower a = CHR ''.''" and ld: "lower d = CHR ''g''" using m e by simp_all
  from lower_punct [OF la] have a: "a = CHR ''.''" by simp
  have "lower (CHR ''/'') = CHR ''/''" by (simp add: lower_def)
  moreover have "CHR ''/'' \<notin> set (map lower ext)" unfolding m by simp
  ultimately have "CHR ''/'' \<notin> set ext" unfolding set_map by (metis imageI)
  then show ?thesis using e ld a by simp
qed

text \<open>The names the splitter gives its parts are recognised: for every name that neither
  is hidden nor holds a slash (even one that itself holds ".part1" or begins with "part_"), in
  every directory, the name followed by .part<n>, with or without .pkg in any case, is part n,
  for every n up to 256, and it is offered as part t exactly when t is 0 or n.\<close>

theorem part_name_recognised:
  assumes n: "0 < n" "n \<le> MAX_MULTIPART_PARTS" and b: "b \<noteq> []" "hd b \<noteq> CHR ''.''" "CHR ''/'' \<notin> set b"
    and ext: "ext = [] \<or> ieq ext ''.pkg''"
  shows "multipart_is_part_filename (dir @ CHR ''/'' # b @ ''.part'' @ show_nat n @ ext) target =
    (target = 0 \<or> target = n, Some n)"
proof -
  let ?name = "b @ ''.part'' @ show_nat n @ ext"
  have dg: "show_nat n \<noteq> []" "\<forall>c \<in> set (show_nat n). is_digit c" using show_nat_digits by blast+
  have hd: "ext = [] \<or> \<not> is_digit (hd ext)" and le: "length ext < 5"
    using ext ieq_pkg [of ext] by (auto simp: is_digit_def)
  have "CHR ''/'' \<notin> set ?name"
    using b(3) dg(2) ext ieq_pkg [of ext] by (auto simp: is_digit_def)
  then have bn: "base_name (dir @ CHR ''/'' # ?name) = ?name"
    by (simp add: base_name_append base_name_id del: append_assoc)
  have "lower (last ?name) \<noteq> CHR ''t''"
  proof (cases "ext = []")
    case True
    then have "is_digit (last ?name)" using dg by simp
    then show ?thesis by (auto simp: lower_def is_digit_def)
  next
    case False
    then show ?thesis using ext ieq_pkg [of ext] by auto
  qed
  then have "staged_part ?name = None" using staged_ends_in_t(2) [of ?name] by (cases "staged_part ?name") auto
  moreover have "named_part ?name = Some n"
  proof -
    have "is_digit (c_at (show_nat n @ ext) 0)" using dg by (cases "show_nat n") (auto simp: c_at_def)
    from last_part_end [OF this no_part_in_number [OF dg(2) le]]
    have "last_part None ?name = Some (''.part'' @ show_nat n @ ext)" by simp
    moreover have "strtoull (show_nat n @ ext) = (n, ext)"
      using n(2) hd by (intro strtoull_show_nat) (auto simp: MAX_MULTIPART_PARTS_def)
    ultimately show ?thesis using n ext by (simp add: named_part_def)
  qed
  ultimately show ?thesis
    using b bn by (cases b) (auto simp: multipart_is_part_filename_def Let_def)
qed

theorem part_name_recognised_witness:
  "multipart_is_part_filename (''/mnt/usb0'' @ CHR ''/'' # ''x.part1.pkg'' @ ''.part'' @ show_nat 2 @ ''.PKG'') 0 = (True, Some 2)"
proof -
  have pkg: "ieq ''.PKG'' ''.pkg''" by code_simp
  have "multipart_is_part_filename (''/mnt/usb0'' @ CHR ''/'' # ''x.part1.pkg'' @ ''.part'' @ show_nat 2 @ ''.PKG'') 0 =
      ((0::nat) = 0 \<or> (0::nat) = 2, Some 2)"
    by (rule part_name_recognised) (use pkg in \<open>simp_all add: MAX_MULTIPART_PARTS_def\<close>)
  then show ?thesis by (simp only: simp_thms)
qed

end
