(* ===== verification/Crc32.thy ===== *)
theory Crc32
  imports Multipart
begin

text \<open>
  The table-driven CRC of stored and deflated chunks (mz_crc32 of src/src/miniz.c, modelled
  in Multipart) computes the bitwise CRC-32 of IEEE 802.3.
\<close>

unbundle bit_operations_syntax

text \<open>The reflected CRC-32 register: one bit shifted out, the polynomial 0xEDB88320 fed back.\<close>

definition crc_bit :: "u32 \<Rightarrow> u32" where
  "crc_bit c = (if bit c 0 then drop_bit 1 c XOR 0xEDB88320 else drop_bit 1 c)"

lemma crc_bit_xor: "crc_bit (x XOR y) = crc_bit x XOR crc_bit y"
  by (rule bit_word_eqI) (auto simp: crc_bit_def bit_simps)

lemma crc_bits_xor: "(crc_bit ^^ n) (x XOR y) = (crc_bit ^^ n) x XOR (crc_bit ^^ n) y"
  by (induction n arbitrary: x y) (simp_all add: crc_bit_xor funpow_swap1)

lemma crc_shift: "(crc_bit ^^ n) y = drop_bit n y" if "\<And>k. k < n \<Longrightarrow> \<not> bit y k"
  using that
proof (induction n arbitrary: y)
  case (Suc n)
  have "crc_bit y = drop_bit 1 y" using Suc.prems [of 0] by (simp add: crc_bit_def)
  moreover have "(crc_bit ^^ n) (drop_bit 1 y) = drop_bit n (drop_bit 1 y)"
    using Suc.prems by (intro Suc.IH) (simp add: bit_simps)
  ultimately show ?case by (simp add: funpow_swap1 drop_bit_drop_bit)
qed simp

text \<open>The table is linear: it is the product of its entries below 16 and those at multiples of 16.\<close>

definition crc_low :: "u32 list" where
  "crc_low = [0x00000000, 0x77073096, 0xEE0E612C, 0x990951BA, 0x076DC419, 0x706AF48F, 0xE963A535, 0x9E6495A3,
     0x0EDB8832, 0x79DCB8A4, 0xE0D5E91E, 0x97D2D988, 0x09B64C2B, 0x7EB17CBD, 0xE7B82D07, 0x90BF1D91]"

definition crc_high :: "u32 list" where
  "crc_high = [0x00000000, 0x1DB71064, 0x3B6E20C8, 0x26D930AC, 0x76DC4190, 0x6B6B51F4, 0x4DB26158, 0x5005713C,
     0xEDB88320, 0xF00F9344, 0xD6D6A3E8, 0xCB61B38C, 0x9B64C2B0, 0x86D3D2D4, 0xA00AE278, 0xBDBDF21C]"

lemma table_product: "s_crc_table = concat (map (\<lambda>h. map (\<lambda>l. h XOR l) crc_low) crc_high)"
  by (simp add: s_crc_table_def crc_low_def crc_high_def)

lemma crc_bit_8: "(crc_bit ^^ 8) c = crc_bit (crc_bit (crc_bit (crc_bit (crc_bit (crc_bit (crc_bit (crc_bit c)))))))"
  by (simp add: numeral_eq_Suc)

lemma crc_low_bits: "map (\<lambda>i. (crc_bit ^^ 8) (word_of_nat i)) [0..<16] = crc_low"
proof -
  have "map (\<lambda>i. crc_bit (crc_bit (crc_bit (crc_bit (crc_bit (crc_bit (crc_bit (crc_bit i))))))))
      [0, 1, 2, 3, 4, 5, 6, 7, 8, 9, 10, 11, 12, 13, 14, 15] = crc_low"
    unfolding crc_low_def by (simp add: crc_bit_def)
  then show ?thesis by (simp add: crc_bit_8 upt_rec)
qed

lemma crc_high_bits: "map (\<lambda>i. (crc_bit ^^ 8) (word_of_nat (16 * i))) [0..<16] = crc_high"
proof -
  have "map (\<lambda>i. crc_bit (crc_bit (crc_bit (crc_bit (crc_bit (crc_bit (crc_bit (crc_bit i))))))))
      [0, 16, 32, 48, 64, 80, 96, 112, 128, 144, 160, 176, 192, 208, 224, 240] = crc_high"
    unfolding crc_high_def by (simp add: crc_bit_def)
  then show ?thesis by (simp add: crc_bit_8 upt_rec)
qed

lemma nth_product:
  "length ls = m \<Longrightarrow> i < length hs * m \<Longrightarrow> concat (map (\<lambda>h. map (f h) ls) hs) ! i = f (hs ! (i div m)) (ls ! (i mod m))"
proof (induction hs arbitrary: i)
  case (Cons h hs)
  show ?case
  proof (cases "i < m")
    case True
    then show ?thesis using Cons.prems by (simp add: nth_append)
  next
    case False
    then have "0 < m" using Cons.prems by (cases m) auto
    then show ?thesis using Cons False by (simp add: nth_append le_div_geq le_mod_geq)
  qed
qed simp

lemma table_bits: "s_crc_table ! i = (crc_bit ^^ 8) (word_of_nat i)" if "i < 256"
proof -
  have l: "length crc_low = 16" "length crc_high = 16" by (simp_all add: crc_low_def crc_high_def)
  have d: "i div 16 < 16" "i mod 16 < 16" using that by auto
  have "s_crc_table ! i = crc_high ! (i div 16) XOR crc_low ! (i mod 16)"
    unfolding table_product using that l by (subst nth_product) auto
  also have "crc_high ! (i div 16) = (crc_bit ^^ 8) (word_of_nat (16 * (i div 16)))"
    using d by (simp add: crc_high_bits [symmetric] del: funpow.simps)
  also have "crc_low ! (i mod 16) = (crc_bit ^^ 8) (word_of_nat (i mod 16))"
    using d by (simp add: crc_low_bits [symmetric] del: funpow.simps)
  also have "(crc_bit ^^ 8) (word_of_nat (16 * (i div 16))) XOR (crc_bit ^^ 8) (word_of_nat (i mod 16)) =
      (crc_bit ^^ 8) (word_of_nat (16 * (i div 16)) XOR word_of_nat (i mod 16))"
    by (simp only: crc_bits_xor)
  also have "(word_of_nat (16 * (i div 16)) XOR word_of_nat (i mod 16) :: u32) = word_of_nat i"
  proof -
    have "16 * (i div 16) = push_bit 4 (drop_bit 4 i)" and "i mod 16 = take_bit 4 i"
      by (simp_all add: push_bit_eq_mult drop_bit_eq_div take_bit_eq_mod)
    moreover have "push_bit 4 (drop_bit 4 i) XOR take_bit 4 i = i"
      by (rule bit_eqI) (auto simp: bit_simps)
    ultimately have "16 * (i div 16) XOR i mod 16 = i" by simp
    then show ?thesis by (metis of_nat_xor_eq)
  qed
  finally show ?thesis .
qed

definition crc32_bitwise :: "u32 \<Rightarrow> u8 list \<Rightarrow> u32" where
  "crc32_bitwise c bs = NOT (foldl (\<lambda>r b. (crc_bit ^^ 8) (r XOR ucast b)) (NOT c) bs)"

lemma crc_byte_bits: "crc_byte c b = (crc_bit ^^ 8) (c XOR ucast b)"
proof -
  let ?x = "c XOR ucast b"
  let ?l = "?x AND 0xFF" and ?h = "?x AND NOT 0xFF"
  have x: "?x = ?h XOR ?l" by (rule bit_word_eqI) (auto simp: bit_simps)
  have ff: "(0xFF :: u32) = mask 8" by (simp add: mask_eq_exp_minus_1)
  have h: "(crc_bit ^^ 8) ?h = drop_bit 8 ?h"
    by (rule crc_shift) (auto simp: ff bit_simps)
  have dh: "drop_bit 8 ?h = drop_bit 8 c"
    by (rule bit_word_eqI) (auto simp: ff bit_simps dest: bit_imp_le_length)
  have "unat ?l < 256"
    using word_and_le1 [of ?x "0xFF"] by (simp add: word_le_nat_alt)
  then have "s_crc_table ! unat ?l = (crc_bit ^^ 8) ?l" by (simp add: table_bits)
  then have "crc_byte c b = (crc_bit ^^ 8) ?h XOR (crc_bit ^^ 8) ?l" by (simp only: crc_byte_def h dh)
  also have "\<dots> = (crc_bit ^^ 8) ?x" by (simp only: crc_bits_xor [symmetric] x [symmetric])
  finally show ?thesis .
qed

lemma crc_bytes_foldl: "crc_bytes c bs = foldl crc_byte c bs"
  by (induction c bs rule: crc_bytes.induct) simp_all

text \<open>C17: miniz's table-driven CRC (four bytes at a time, from a table of 256 constants) is the
  bitwise CRC-32: for every start value and every byte string it returns what shifting the
  bytes through the register with polynomial 0xEDB88320, inverted before and after, returns.\<close>

theorem crc32_table_correct: "mz_crc32 c bs = crc32_bitwise c bs"
proof -
  have m: "(0xFFFFFFFF :: u32) = - 1" by simp
  have "c XOR 0xFFFFFFFF = NOT c" unfolding m by (rule bit_word_eqI) (simp add: bit_simps)
  then show ?thesis
    by (simp add: mz_crc32_def crc32_bitwise_def crc_bytes_foldl crc_byte_bits [abs_def])
qed

end
