(* ===== verification/VirtualStream.thy ===== *)
theory VirtualStream
  imports Multipart LiveIO
begin

text \<open>
  The virtual stream of src/src/multipart.c: one package read at any offset, whether it is a
  plain file, a set of part files (some on discs not inserted yet), an SMB file or the live
  upload session. The world the calls see (files, directories, the SMB client, the part
  finder) is a record; a call that waits for a disc takes the answers of the waiter, each with
  the world it leaves behind, from a list.
\<close>

section \<open>The stream and the world\<close>

record vpart =
  vp_path :: string
  vp_start :: nat                 \<comment> \<open>start_pkg_offset\<close>
  vp_size :: nat                  \<comment> \<open>part_data_size\<close>
  vp_data :: nat                  \<comment> \<open>data_offset\<close>
  vp_fd :: "u8 list option"       \<comment> \<open>fd: the file it was opened on, None for -1\<close>

record vstream =
  vs_multi :: bool
  vs_smb :: bool
  vs_is_live :: bool
  vs_session :: bool              \<comment> \<open>smb_session is not NULL\<close>
  vs_current :: nat
  vs_total_parts :: nat
  vs_total :: nat                 \<comment> \<open>total_pkg_size\<close>
  vs_filename :: string
  vs_title_id :: string
  vs_title_name :: string
  vs_uuid :: "u8 list"
  vs_parts :: "vpart list"
  vs_lock :: bool                 \<comment> \<open>lock_inited\<close>
  vs_notes :: "(nat \<times> nat) list" \<comment> \<open>the calls of the part notifier\<close>

record world =
  wd_files :: files
  wd_stat :: "string \<Rightarrow> nat option"                 \<comment> \<open>stat: st_size\<close>
  wd_dir :: "string \<Rightarrow> string list option"          \<comment> \<open>opendir and readdir\<close>
  wd_tmp :: "string option"                          \<comment> \<open>PKG_TMP_DIR\<close>
  wd_smb :: "string \<Rightarrow> nat option"                  \<comment> \<open>smb_file_session_open, and the size\<close>
  wd_smb_read :: "nat \<Rightarrow> nat \<Rightarrow> int \<times> u8 list"      \<comment> \<open>smb_file_session_read\<close>
  wd_live_read :: "nat \<Rightarrow> nat \<Rightarrow> int \<times> u8 list"     \<comment> \<open>how a call of ws_live_read ends\<close>
  wd_finder :: "(u8 list \<Rightarrow> string \<Rightarrow> nat \<Rightarrow> string option) option"
  wd_waiter :: bool                                  \<comment> \<open>whether a disc waiter is set\<close>
  wd_notifier :: bool
  wd_pread :: nat                                    \<comment> \<open>the most bytes one pread delivers\<close>

definition new_part :: vpart where
  "new_part = \<lparr>vp_path = [], vp_start = 0, vp_size = 0, vp_data = 0, vp_fd = None\<rparr>"

definition new_stream :: vstream where
  "new_stream =
     \<lparr>vs_multi = False, vs_smb = False, vs_is_live = False, vs_session = False, vs_current = 0,
      vs_total_parts = 0, vs_total = 0, vs_filename = [], vs_title_id = [], vs_title_name = [],
      vs_uuid = replicate 16 0, vs_parts = replicate MAX_MULTIPART_PARTS new_part, vs_lock = True, vs_notes = []\<rparr>"

definition close_fds :: "nat \<Rightarrow> vpart list \<Rightarrow> vpart list" where
  "close_fds n ps = map (\<lambda>p. p\<lparr>vp_fd := None\<rparr>) (take n ps) @ drop n ps"

definition virtual_stream_close :: "vstream \<Rightarrow> live \<Rightarrow> vstream \<times> live" where
  "virtual_stream_close vs L =
     (vs\<lparr>vs_is_live := False, vs_session := (if vs_smb vs then False else vs_session vs),
         vs_parts := close_fds (vs_total_parts vs) (vs_parts vs), vs_lock := False\<rparr>,
      if vs_is_live vs then ws_live_detach L else L)"

section \<open>Opening\<close>

text \<open>live: the current session when the id matches.\<close>

definition open_live :: "live \<Rightarrow> string \<Rightarrow> vstream \<times> live \<times> int" where
  "open_live L sid =
     (if \<not> ws_live_check_id L sid \<or> ws_live_get_total L = 0
      then (case virtual_stream_close new_stream L of (vs, L') \<Rightarrow> (vs, L', - 1))
      else let vs = new_stream\<lparr>vs_is_live := True, vs_current := 1, vs_total_parts := 1,
                    vs_total := ws_live_get_total L, vs_filename := c_trunc 256 (sid @ ''.pkg'')\<rparr>;
               (L1, r) = ws_live_attach L
           in if r \<noteq> 0
              then (case virtual_stream_close (vs\<lparr>vs_is_live := False\<rparr>) L1 of (vs', L') \<Rightarrow> (vs', L', - 1))
              else (vs, L1, 0))"

text \<open>The one part of an SMB file or a plain package.\<close>

definition single_part :: "string \<Rightarrow> nat \<Rightarrow> vpart list" where
  "single_part path sz =
     \<lparr>vp_path = c_trunc 512 path, vp_start = 0, vp_size = sz, vp_data = 0, vp_fd = None\<rparr> #
     replicate (MAX_MULTIPART_PARTS - 1) new_part"

definition open_smb :: "world \<Rightarrow> live \<Rightarrow> string \<Rightarrow> vstream \<times> live \<times> int" where
  "open_smb W L path =
     (case wd_smb W path of
        None \<Rightarrow> (case virtual_stream_close new_stream L of (vs, L') \<Rightarrow> (vs, L', - 1))
      | Some sz \<Rightarrow>
          (new_stream\<lparr>vs_smb := True, vs_session := True, vs_current := 1, vs_total_parts := 1,
             vs_total := sz, vs_parts := single_part path sz, vs_filename := c_trunc 256 (base_name path)\<rparr>, L, 0))"

text \<open>Where the slice of a part begins; the sum is a uint32_t.\<close>

definition part_doff :: "mp_header \<Rightarrow> nat" where
  "part_doff h =
     (if mh_data_offset h \<noteq> 0 then mh_data_offset h
      else if mh_part_index h = 1 \<and> mh_icon_size h > 0 \<and> mh_icon_offset h = MULTIPART_HEADER_SIZE
      then (MULTIPART_HEADER_SIZE + mh_icon_size h) mod 2 ^ 32 else MULTIPART_HEADER_SIZE)"

text \<open>The directory of a path, if it has a slash.\<close>

definition dir_name :: "string \<Rightarrow> string option" where
  "dir_name path =
     (if CHR ''/'' \<in> set path then Some (take (length path - length (base_name path) - 1) path) else None)"

text \<open>The first entry of the directory that is part p of the package, by name and by header.\<close>

fun adjacent_part :: "world \<Rightarrow> mp_header \<Rightarrow> nat \<Rightarrow> string \<Rightarrow> string list \<Rightarrow> string option" where
  "adjacent_part W h p dir [] = None"
| "adjacent_part W h p dir (n # ns) =
     (let cand = c_trunc 1024 (dir @ CHR ''/'' # n) in
      if (n = [] \<or> hd n \<noteq> CHR ''.'') \<and> fst (multipart_is_part_filename n p) \<and>
         (case multipart_read_header (wd_files W) cand of
            Inl _ \<Rightarrow> False | Inr g \<Rightarrow> mh_uuid g = mh_uuid h \<and> mh_part_index g = p)
      then Some (c_trunc 512 cand) else adjacent_part W h p dir ns)"

definition tmp_candidate :: "world \<Rightarrow> nat \<Rightarrow> string" where
  "tmp_candidate W p =
     (let dir = (case wd_tmp W of None \<Rightarrow> ''/data/pkgmgr/tmp'' | Some d \<Rightarrow> if d = [] then ''/data/pkgmgr/tmp'' else d)
      in c_trunc 512 (dir @ ''/part_'' @ show_nat p @ ''.pkg.part''))"

text \<open>The file name in the header as opening uses it: its last byte is made a NUL first.\<close>

definition clamped_name :: "mp_header \<Rightarrow> string" where
  "clamped_name h = cstr_of (take 255 (mh_pkg_filename h))"

text \<open>The file of part p: the one given, the finder's, one beside it, a staged one; or none yet.\<close>

definition locate_part :: "world \<Rightarrow> string \<Rightarrow> mp_header \<Rightarrow> nat \<Rightarrow> string option" where
  "locate_part W path h p =
     (if p = mh_part_index h then Some (c_trunc 512 path)
      else case (case wd_finder W of None \<Rightarrow> None
                 | Some f \<Rightarrow> f (mh_uuid h) (clamped_name h) p) of
        Some q \<Rightarrow> Some (c_trunc 512 q)
      | None \<Rightarrow>
          (case (case dir_name (c_trunc 512 path) of None \<Rightarrow> None
                 | Some dir \<Rightarrow> (case wd_dir W dir of None \<Rightarrow> None | Some ns \<Rightarrow> adjacent_part W h p dir ns)) of
             Some q \<Rightarrow> Some q
           | None \<Rightarrow> (if wd_stat W (tmp_candidate W p) \<noteq> None then Some (tmp_candidate W p) else None)))"

text \<open>A part not mounted yet: where it probably is.\<close>

definition deferred_part :: "mp_header \<Rightarrow> vpart list \<Rightarrow> nat \<Rightarrow> vpart" where
  "deferred_part h ps p =
     (let start = (if p > 1 then u64_add (vp_start (ps ! (p - 2))) (vp_size (ps ! (p - 2))) else vp_start (ps ! (p - 1)))
      in \<lparr>vp_path = [], vp_start = start,
          vp_size = (if p = mh_total_parts h then u64_sub (mh_total_pkg_size h) start else mh_part_data_size h),
          vp_data = MULTIPART_HEADER_SIZE, vp_fd = None\<rparr>)"

definition found_part :: "mp_header \<Rightarrow> vpart list \<Rightarrow> nat \<Rightarrow> string \<Rightarrow> vpart" where
  "found_part g ps p path =
     \<lparr>vp_path = c_trunc 512 path,
      vp_start = (if p = 1 then 0 else if mh_part_offset g > 0 then mh_part_offset g
                  else u64_add (vp_start (ps ! (p - 2))) (vp_size (ps ! (p - 2)))),
      vp_size = mh_part_data_size g, vp_data = part_doff g, vp_fd = None\<rparr>"

fun resolve_parts :: "world \<Rightarrow> string \<Rightarrow> mp_header \<Rightarrow> nat list \<Rightarrow> vpart list \<Rightarrow> vpart list option" where
  "resolve_parts W path h [] ps = Some ps"
| "resolve_parts W path h (p # rest) ps =
     (case locate_part W path h p of
        None \<Rightarrow> resolve_parts W path h rest (ps[p - 1 := deferred_part h ps p])
      | Some q \<Rightarrow>
          (case multipart_read_header (wd_files W) q of
             Inl _ \<Rightarrow> None
           | Inr g \<Rightarrow> resolve_parts W path h rest (ps[p - 1 := found_part g ps p q])))"

definition open_parts :: "world \<Rightarrow> live \<Rightarrow> string \<Rightarrow> mp_header \<Rightarrow> vstream \<times> live \<times> int" where
  "open_parts W L path h =
     (let vs = new_stream\<lparr>vs_multi := True, vs_current := 1, vs_total_parts := mh_total_parts h,
                 vs_total := mh_total_pkg_size h, vs_filename := clamped_name h,
                 vs_title_id := cstr_of (take 31 (mh_title_id h)),
                 vs_title_name := cstr_of (take 255 (mh_title_name h)), vs_uuid := mh_uuid h\<rparr> in
      if mh_total_parts h = 0 \<or> mh_total_parts h > MAX_MULTIPART_PARTS
      then (case virtual_stream_close vs L of (vs', L') \<Rightarrow> (vs', L', - 2))
      else case resolve_parts W path h [1..<mh_total_parts h + 1] (vs_parts vs) of
        None \<Rightarrow> (case virtual_stream_close vs L of (vs', L') \<Rightarrow> (vs', L', - 4))
      | Some ps \<Rightarrow> (vs\<lparr>vs_parts := ps\<rparr>, L, 0))"

definition open_local :: "world \<Rightarrow> live \<Rightarrow> string \<Rightarrow> vstream \<times> live \<times> int" where
  "open_local W L path =
     (case wd_stat W (local_path path) of
        None \<Rightarrow> (case virtual_stream_close new_stream L of (vs, L') \<Rightarrow> (vs, L', - 1))
      | Some sz \<Rightarrow>
          (case multipart_read_header (wd_files W) (local_path path) of
             Inl _ \<Rightarrow>
               (new_stream\<lparr>vs_current := 1, vs_total_parts := 1, vs_total := sz,
                  vs_parts := single_part (local_path path) sz,
                  vs_filename := c_trunc 256 (base_name (local_path path))\<rparr>, L, 0)
           | Inr h \<Rightarrow> open_parts W L path h))"

definition virtual_stream_open :: "world \<Rightarrow> live \<Rightarrow> string \<Rightarrow> vstream \<times> live \<times> int" where
  "virtual_stream_open W L path =
     (if starts_with ''live:'' path then open_live L (drop 5 path)
      else if starts_with ''smb://'' path then open_smb W L path
      else open_local W L path)"

definition virtual_stream_get_smb_url :: "vstream \<Rightarrow> string option" where
  "virtual_stream_get_smb_url vs =
     (if \<not> vs_smb vs \<or> vp_path (vs_parts vs ! 0) = [] then None else Some (vp_path (vs_parts vs ! 0)))"

definition virtual_stream_check_path :: "world \<Rightarrow> live \<Rightarrow> string \<Rightarrow> int" where
  "virtual_stream_check_path W L path =
     (if path = [] then - 1
      else if starts_with ''live:'' path then (if ws_live_check_id L (drop 5 path) then 0 else - 1)
      else if starts_with ''smb://'' path then (if wd_smb W path = None then - 1 else 0)
      else if wd_stat W (local_path path) = None then - 1 else 0)"

section \<open>Reading\<close>

text \<open>
  How a read ends: with a return value and the bytes it put into the buffer, or still
  waiting for a disc when the answers of the waiter are used up.
\<close>

datatype vs_result = VRet int "u8 list" | VBlocked

definition clamp_count :: "vstream \<Rightarrow> nat \<Rightarrow> nat \<Rightarrow> nat" where
  "clamp_count vs off count = (if u64_add off count > vs_total vs then vs_total vs - off else count)"

fun pick_part :: "nat \<Rightarrow> nat \<Rightarrow> vpart list \<Rightarrow> nat option" where
  "pick_part i off [] = None"
| "pick_part i off (p # ps) =
     (if vp_start p \<le> off \<and> off < u64_add (vp_start p) (vp_size p) then Some i else pick_part (i + 1) off ps)"

text \<open>The pread loop: at most q bytes at a time, an error at the end of the file.\<close>

function pread_loop :: "nat \<Rightarrow> u8 list \<Rightarrow> nat \<Rightarrow> nat \<Rightarrow> u8 list option" where
  "pread_loop q content pos n =
     (if n = 0 then Some []
      else let bs = take (min n q) (drop pos content) in
           if bs = [] then None
           else map_option (\<lambda>later. bs @ later) (pread_loop q content (pos + length bs) (n - length bs)))"
  by pat_completeness auto
termination by (relation "measure (\<lambda>(q, content, pos, n). n)") auto

declare pread_loop.simps [simp del]

definition set_part :: "vstream \<Rightarrow> nat \<Rightarrow> (vpart \<Rightarrow> vpart) \<Rightarrow> vstream" where
  "set_part vs i f = vs\<lparr>vs_parts := (vs_parts vs)[i := f (vs_parts vs ! i)]\<rparr>"

definition note_part :: "world \<Rightarrow> vstream \<Rightarrow> nat \<Rightarrow> vstream" where
  "note_part W vs cur =
     (if vs_current vs = cur then vs
      else vs\<lparr>vs_current := cur,
              vs_notes := (if wd_notifier W then vs_notes vs @ [(cur, vs_total_parts vs)] else vs_notes vs)\<rparr>)"

text \<open>open of a part that has a path but no descriptor.\<close>

definition open_part :: "world \<Rightarrow> vstream \<Rightarrow> nat \<Rightarrow> vstream" where
  "open_part W vs i =
     (let p = vs_parts vs ! i in
      if vp_fd p = None \<and> vp_path p \<noteq> [] then set_part vs i (\<lambda>p. p\<lparr>vp_fd := wd_files W (vp_path p)\<rparr>) else vs)"

text \<open>The bytes of an open part from off on.\<close>

definition transfer :: "world \<Rightarrow> vpart \<Rightarrow> u8 list \<Rightarrow> nat \<Rightarrow> nat \<Rightarrow> vs_result" where
  "transfer W p content off to_read =
     (if off < vp_start p then VRet (- 1) []
      else let rel = off - vp_start p in
           if rel \<ge> vp_size p then VRet (- 1) []
           else let n = min to_read (vp_size p - rel) in
                if n = 0 then VRet 0 []
                else case pread_loop (wd_pread W) content (vp_data p + rel) n of
                  None \<Rightarrow> VRet (- 1) []
                | Some bs \<Rightarrow> VRet (int n) bs)"

text \<open>One round of the local loop: done, or part i is needed from the disc waiter.\<close>

datatype read_round = Done vstream vs_result | NeedDisc vstream nat

definition local_round :: "world \<Rightarrow> vstream \<Rightarrow> nat \<Rightarrow> nat \<Rightarrow> read_round" where
  "local_round W vs off count =
     (case pick_part 0 off (take (vs_total_parts vs) (vs_parts vs)) of
        None \<Rightarrow> Done vs (VRet (- 1) [])
      | Some i \<Rightarrow>
          (let vs1 = note_part W vs (i + 1); vs2 = open_part W vs1 i in
           case vp_fd (vs_parts vs2 ! i) of
             None \<Rightarrow> (if wd_waiter W then NeedDisc vs2 i else Done vs2 (VRet (- 1) []))
           | Some content \<Rightarrow>
               Done vs2 (transfer W (vs_parts vs2 ! i) content off (clamp_count vs off count))))"

text \<open>The disc of part i has arrived at path: the other parts are closed, this one is opened.\<close>

definition close_others :: "nat \<Rightarrow> nat \<Rightarrow> vpart list \<Rightarrow> vpart list" where
  "close_others n i ps =
     map (\<lambda>k. if k < n \<and> k \<noteq> i then (ps ! k)\<lparr>vp_fd := None\<rparr> else ps ! k) [0..<length ps]"

definition swap_disc :: "world \<Rightarrow> vstream \<Rightarrow> nat \<Rightarrow> string \<Rightarrow> vstream \<times> bool" where
  "swap_disc W vs i path =
     (let vs1 = vs\<lparr>vs_parts := close_others (vs_total_parts vs) i (vs_parts vs)\<rparr> in
      case multipart_read_header (wd_files W) path of
        Inl _ \<Rightarrow> (vs1, False)
      | Inr h \<Rightarrow>
          (set_part vs1 i (\<lambda>p. p\<lparr>vp_path := c_trunc 512 path, vp_data := part_doff h,
              vp_size := mh_part_data_size h,
              vp_start := (if mh_part_offset h > 0 then mh_part_offset h else vp_start p),
              vp_fd := wd_files W path\<rparr>),
           wd_files W path \<noteq> None))"

text \<open>The waiter's answers: to each request for a part (by number) a path or a failure.\<close>

type_synonym disc_answers = "((nat \<Rightarrow> string option) \<times> world) list"

fun read_local :: "disc_answers \<Rightarrow> world \<Rightarrow> vstream \<Rightarrow> nat \<Rightarrow> nat \<Rightarrow> disc_answers \<times> world \<times> vstream \<times> vs_result" where
  "read_local [] W vs off count =
     (case local_round W vs off count of
        Done vs' r \<Rightarrow> ([], W, vs', r)
      | NeedDisc vs' i \<Rightarrow> ([], W, vs', VBlocked))"
| "read_local ((found, W') # later) W vs off count =
     (case local_round W vs off count of
        Done vs' r \<Rightarrow> ((found, W') # later, W, vs', r)
      | NeedDisc vs' i \<Rightarrow>
          (case found (i + 1) of
             None \<Rightarrow> (later, W', vs', VRet (- 1) [])
           | Some path \<Rightarrow>
               (case swap_disc W' vs' i path of
                  (vs'', ok) \<Rightarrow> (if ok then read_local later W' vs'' off count
                                 else (later, W', vs'', VRet (- 1) [])))))"

definition virtual_stream_read ::
  "disc_answers \<Rightarrow> world \<Rightarrow> vstream \<Rightarrow> nat \<Rightarrow> nat \<Rightarrow> disc_answers \<times> world \<times> vstream \<times> vs_result" where
  "virtual_stream_read ds W vs off count =
     (if count = 0 \<or> off \<ge> vs_total vs then (ds, W, vs, VRet 0 [])
      else if vs_is_live vs then
        (let n = clamp_count vs off count in
         if n = 0 then (ds, W, vs, VRet 0 [])
         else case wd_live_read W off n of
           (r, bs) \<Rightarrow> (ds, W, vs, if r < 0 then VRet (- 1) [] else VRet r bs))
      else if vs_smb vs \<and> vs_session vs then
        (case wd_smb_read W off (clamp_count vs off count) of (r, bs) \<Rightarrow> (ds, W, vs, VRet r bs))
      else read_local ds W vs off count)"

text \<open>The stream with the world around it, as a reader sees it.\<close>

type_synonym source = "disc_answers \<times> world \<times> vstream"

definition source_read :: "source \<Rightarrow> nat \<Rightarrow> nat \<Rightarrow> source \<times> vs_result" where
  "source_read s off n =
     (case s of (ds, W, vs) \<Rightarrow>
        (case virtual_stream_read ds W vs off n of (ds', W', vs', r) \<Rightarrow> ((ds', W', vs'), r)))"

end
