(* ===== verification/ByteSource.thy ===== *)
theory ByteSource
  imports VirtualStream
begin

text \<open>
  The contract between a package source and its reader: a read of a source in good shape that
  reports a positive count has delivered exactly that many bytes of the package, at most as many
  as were asked for, and leaves the source in good shape; a full source also makes progress at
  every offset inside the package. The virtual stream provides the contract (VirtualClaims), the
  stream server relies on it (StreamServer).
\<close>

definition extent :: "nat \<Rightarrow> nat \<Rightarrow> 'a list \<Rightarrow> 'a list" where
  "extent off n xs = take n (drop off xs)"

lemma length_extent: "off + n \<le> length xs \<Longrightarrow> length (extent off n xs) = n"
  by (simp add: extent_def)

lemma extent_append: "extent off m xs @ extent (off + m) n xs = extent off (m + n) xs"
  by (simp add: extent_def take_add add.commute)

lemma take_length_take: "take (length (take k xs)) xs = take k xs"
  by (cases "k \<le> length xs") simp_all

lemma extent_take: "take k (drop off xs) = extent off (length (take k (drop off xs))) xs"
  unfolding extent_def by (rule take_length_take [symmetric])

lemma extent_0 [simp]: "extent off 0 xs = []"
  by (simp add: extent_def)

lemma extent_eqI:
  assumes "off + n \<le> length xs" and "length ys = n" and "\<And>i. i < n \<Longrightarrow> ys ! i = xs ! (off + i)"
  shows "ys = extent off n xs"
  using assms by (intro nth_equalityI) (simp_all add: extent_def)

locale byte_source =
  fixes rd :: "'s \<Rightarrow> nat \<Rightarrow> nat \<Rightarrow> 's \<times> vs_result"
    and good :: "'s \<Rightarrow> bool"
    and pkg :: "u8 list"
  assumes rd_good: "good s \<Longrightarrow> n < 2 ^ 64 \<Longrightarrow> rd s off n = (s', r) \<Longrightarrow> good s'"
    and rd_exact: "good s \<Longrightarrow> n < 2 ^ 64 \<Longrightarrow> rd s off n = (s', VRet k bs) \<Longrightarrow> 0 < k \<Longrightarrow>
      k = int (length bs) \<and> length bs \<le> n \<and> off + length bs \<le> length pkg \<and> bs = extent off (length bs) pkg"

locale full_source = byte_source +
  assumes rd_progress: "good s \<Longrightarrow> off < length pkg \<Longrightarrow> 0 < n \<Longrightarrow> n < 2 ^ 64 \<Longrightarrow> \<exists>s' k bs. rd s off n = (s', VRet k bs) \<and> 0 < k"

end
