(* ===== verification/VirtualClaims.thy ===== *)
theory VirtualClaims
  imports ByteSource MultipartClaims LiveClaims
begin

text \<open>
  The virtual stream (VirtualStream) delivers the package: opening a set of part files gives a
  stream whose every read is exact, through disc swaps, missing parts and short reads, and the
  live upload session is such a source too. Both are interpretations of byte_source.
\<close>

section \<open>Streams in good shape\<close>

text \<open>
  F gives the one file a path ever holds: files come and go with the discs they are on, but a
  path does not hold two different files.
\<close>

definition part_in :: "u8 list \<Rightarrow> vpart \<Rightarrow> u8 list \<Rightarrow> bool" where
  "part_in pkg p c =
     (vp_start p + vp_size p \<le> length pkg \<and>
      (\<forall>x < vp_size p. vp_data p + x < length c \<longrightarrow> c ! (vp_data p + x) = pkg ! (vp_start p + x)))"

definition part_good :: "files \<Rightarrow> u8 list \<Rightarrow> vpart \<Rightarrow> bool" where
  "part_good F pkg p =
     ((vp_path p \<noteq> [] \<longrightarrow> (\<forall>c. F (vp_path p) = Some c \<longrightarrow> part_in pkg p c)) \<and>
      (\<forall>c. vp_fd p = Some c \<longrightarrow> vp_path p \<noteq> [] \<and> F (vp_path p) = Some c))"

definition stream_good :: "files \<Rightarrow> u8 list \<Rightarrow> vstream \<Rightarrow> bool" where
  "stream_good F pkg vs =
     (\<not> vs_is_live vs \<and> \<not> vs_smb vs \<and> vs_total vs = length pkg \<and> length pkg < 2 ^ 63 \<and>
      vs_total_parts vs \<le> length (vs_parts vs) \<and>
      (0 < vs_total_parts vs \<longrightarrow> vp_start (vs_parts vs ! 0) = 0) \<and>
      (\<forall>i < vs_total_parts vs. part_good F pkg (vs_parts vs ! i)))"

definition world_in :: "files \<Rightarrow> world \<Rightarrow> bool" where
  "world_in F W = ((\<forall>q c. wd_files W q = Some c \<longrightarrow> F q = Some c) \<and> 0 < wd_pread W)"

text \<open>The slice a part file announces is the package's.\<close>

definition slice_ok :: "u8 list \<Rightarrow> u8 list \<Rightarrow> bool" where
  "slice_ok pkg c =
     (let h = header_of c in
      mh_part_offset h + mh_part_data_size h \<le> length pkg \<and>
      (mh_part_offset h = 0 \<longleftrightarrow> mh_part_index h = 1) \<and>
      (\<forall>x < mh_part_data_size h. part_doff h + x < length c \<longrightarrow> c ! (part_doff h + x) = pkg ! (mh_part_offset h + x)))"

text \<open>What the stream relies on of the disc waiter: the file it names is the part asked for.\<close>

definition answers_ok :: "files \<Rightarrow> u8 list \<Rightarrow> disc_answers \<Rightarrow> bool" where
  "answers_ok F pkg ds =
     (\<forall>(found, W) \<in> set ds. world_in F W \<and>
        (\<forall>n q c. found n = Some q \<longrightarrow> q \<noteq> [] \<and> length q < 512 \<and> \<not> starts_with ''file://'' q \<and>
           (F q = Some c \<longrightarrow> mh_part_index (header_of c) = n \<and> slice_ok pkg c)))"

lemma stream_goodD:
  assumes "stream_good F pkg vs"
  shows "\<not> vs_is_live vs" "\<not> vs_smb vs" "vs_total vs = length pkg" "length pkg < 2 ^ 63"
    "vs_total_parts vs \<le> length (vs_parts vs)"
    "\<And>i. i < vs_total_parts vs \<Longrightarrow> part_good F pkg (vs_parts vs ! i)"
    "0 < vs_total_parts vs \<Longrightarrow> vp_start (vs_parts vs ! 0) = 0"
  using assms by (simp_all add: stream_good_def)

section \<open>One round\<close>

lemma pick_part_Some:
  "pick_part i off ps = Some k \<Longrightarrow> i \<le> k \<and> k - i < length ps \<and> vp_start (ps ! (k - i)) \<le> off \<and>
    off < u64_add (vp_start (ps ! (k - i))) (vp_size (ps ! (k - i)))"
proof (induction ps arbitrary: i)
  case (Cons p ps)
  show ?case
  proof (cases "vp_start p \<le> off \<and> off < u64_add (vp_start p) (vp_size p)")
    case True
    then show ?thesis using Cons.prems by simp
  next
    case False
    then have s: "pick_part (i + 1) off ps = Some k" using Cons.prems by auto
    from Cons.IH [OF this] show ?thesis by (simp add: nth_Cons') linarith
  qed
qed simp

lemma pread_loop_exact: "pread_loop q content pos n = Some bs \<Longrightarrow> bs = extent pos n content \<and> length bs = n"
proof (induction q content pos n arbitrary: bs rule: pread_loop.induct)
  case (1 q content pos n)
  show ?case
  proof (cases "n = 0")
    case True
    then show ?thesis using "1.prems" by (simp add: pread_loop.simps)
  next
    case False
    let ?b = "take (min n q) (drop pos content)"
    from False "1.prems" have ne: "?b \<noteq> []" by (auto simp: pread_loop.simps [of q content pos n] Let_def split: if_splits)
    then obtain later where later: "pread_loop q content (pos + length ?b) (n - length ?b) = Some later" and b: "bs = ?b @ later"
      using False "1.prems" by (simp add: pread_loop.simps [of q content pos n] Let_def split: if_splits) blast
    have ih: "later = extent (pos + length ?b) (n - length ?b) content" "length later = n - length ?b"
      using "1.IH" [OF False refl ne later] by blast+
    define m where "m = length ?b"
    have l: "m \<le> n" by (simp add: m_def)
    have e: "?b = extent pos m content" unfolding m_def by (rule extent_take)
    have "later = extent (pos + m) (n - m) content" using ih(1) by (simp only: m_def)
    then have "bs = extent pos m content @ extent (pos + m) (n - m) content" using b e by (simp only:)
    moreover have "length bs = n" using b ih(2) l by (simp add: m_def)
    ultimately show ?thesis using extent_append [of pos m content "n - m"] l by simp
  qed
qed

lemma pread_loop_complete:
  "0 < q \<Longrightarrow> pos + n \<le> length content \<Longrightarrow> \<exists>bs. pread_loop q content pos n = Some bs"
proof (induction q content pos n rule: pread_loop.induct)
  case (1 q content pos n)
  show ?case
  proof (cases "n = 0")
    case True
    then show ?thesis by (simp add: pread_loop.simps)
  next
    case False
    let ?b = "take (min n q) (drop pos content)"
    have l: "0 < length ?b" "length ?b \<le> n" "pos + length ?b \<le> length content" using False "1.prems" by auto
    then have ne: "?b \<noteq> []" by auto
    have "\<exists>bs. pread_loop q content (pos + length ?b) (n - length ?b) = Some bs"
      using "1.prems" l by (intro "1.IH" [OF False refl ne]) auto
    then show ?thesis using False ne by (auto simp: pread_loop.simps [of q content pos n] Let_def)
  qed
qed

lemma note_part_simps [simp]:
  "vs_parts (note_part W vs c) = vs_parts vs" "vs_total (note_part W vs c) = vs_total vs"
  "vs_total_parts (note_part W vs c) = vs_total_parts vs"
  "stream_good F pkg (note_part W vs c) = stream_good F pkg vs"
  by (simp_all add: note_part_def stream_good_def)

lemma set_part_simps [simp]:
  "vs_total (set_part vs i f) = vs_total vs" "vs_total_parts (set_part vs i f) = vs_total_parts vs"
  by (simp_all add: set_part_def)

lemma set_part_good:
  assumes g: "stream_good F pkg vs" and i: "i < vs_total_parts vs"
    and p: "part_good F pkg (f (vs_parts vs ! i))" and z: "i = 0 \<Longrightarrow> vp_start (f (vs_parts vs ! i)) = 0"
  shows "stream_good F pkg (set_part vs i f)" and "vs_parts (set_part vs i f) ! i = f (vs_parts vs ! i)"
  using assms by (auto simp: stream_good_def set_part_def nth_list_update)

lemma open_part_good:
  assumes g: "stream_good F pkg vs" and w: "world_in F W" and i: "i < vs_total_parts vs"
  shows "stream_good F pkg (open_part W vs i)"
    and "vp_start (vs_parts (open_part W vs i) ! i) = vp_start (vs_parts vs ! i)"
    and "vp_size (vs_parts (open_part W vs i) ! i) = vp_size (vs_parts vs ! i)"
    and "vp_data (vs_parts (open_part W vs i) ! i) = vp_data (vs_parts vs ! i)"
    and "vs_total_parts (open_part W vs i) = vs_total_parts vs"
    and "vs_total (open_part W vs i) = vs_total vs"
proof -
  have l: "i < length (vs_parts vs)" using stream_goodD(5) [OF g] i by simp
  have p: "part_good F pkg ((vs_parts vs ! i)\<lparr>vp_fd := wd_files W (vp_path (vs_parts vs ! i))\<rparr>)"
    if "vp_path (vs_parts vs ! i) \<noteq> []"
    using stream_goodD(6) [OF g i] w that by (auto simp: part_good_def world_in_def part_in_def)
  show "stream_good F pkg (open_part W vs i)"
    using g p stream_goodD(7) [OF g] i
    by (auto simp: open_part_def Let_def intro!: set_part_good(1))
  show "vp_start (vs_parts (open_part W vs i) ! i) = vp_start (vs_parts vs ! i)"
    and "vp_size (vs_parts (open_part W vs i) ! i) = vp_size (vs_parts vs ! i)"
    and "vp_data (vs_parts (open_part W vs i) ! i) = vp_data (vs_parts vs ! i)"
    and "vs_total_parts (open_part W vs i) = vs_total_parts vs"
    and "vs_total (open_part W vs i) = vs_total vs"
    using l by (simp_all add: open_part_def Let_def set_part_def)
qed

text \<open>The answer of a read that is exact.\<close>

definition exact :: "u8 list \<Rightarrow> nat \<Rightarrow> nat \<Rightarrow> vs_result \<Rightarrow> bool" where
  "exact pkg off count r =
     (case r of
        VBlocked \<Rightarrow> True
      | VRet k bs \<Rightarrow> (k = - 1 \<and> bs = []) \<or>
          (k = int (length bs) \<and> 0 < length bs \<and> length bs \<le> count \<and> off + length bs \<le> length pkg \<and>
           bs = extent off (length bs) pkg))"

lemma clamp_count_range:
  assumes "off < vs_total vs" and "vs_total vs < 2 ^ 63" and "0 < count" and "count < 2 ^ 64"
  shows "0 < clamp_count vs off count" and "clamp_count vs off count \<le> count"
proof -
  have "off + count < 2 ^ 64 \<or> u64_add off count < off"
    using assms u64_add_wrapped(2) [of off count] by (cases "off + count < 2 ^ 64") auto
  then show "0 < clamp_count vs off count" and "clamp_count vs off count \<le> count"
    using assms by (auto simp: clamp_count_def u64_add_small)
qed

lemma transfer_exact:
  assumes "part_in pkg p c" and "0 < count" and "0 < n" and "n \<le> count"
  shows "exact pkg off count (transfer W p c off n)"
proof -
  define rel where "rel = off - vp_start p"
  define m where "m = min n (vp_size p - rel)"
  show ?thesis
  proof (cases "off < vp_start p \<or> rel \<ge> vp_size p \<or> pread_loop (wd_pread W) c (vp_data p + rel) m = None")
    case True
    then show ?thesis using assms by (auto simp: exact_def transfer_def rel_def m_def Let_def)
  next
    case False
    then obtain bs where b: "pread_loop (wd_pread W) c (vp_data p + rel) m = Some bs" by auto
    have m: "0 < m" "m \<le> n" "rel + m \<le> vp_size p" using False assms by (auto simp: m_def)
    have t: "transfer W p c off n = VRet (int m) bs"
      using False b m unfolding transfer_def rel_def [symmetric] Let_def m_def [symmetric] by simp
    have s: "bs = extent (vp_data p + rel) m c" "length bs = m" using pread_loop_exact [OF b] by blast+
    then have long: "vp_data p + rel + m \<le> length c" using m(1) by (simp add: extent_def)
    have o: "off = vp_start p + rel" using False by (simp add: rel_def)
    have le: "off + m \<le> length pkg" using assms(1) m o by (auto simp: part_in_def)
    have "bs = extent off m pkg"
    proof (rule extent_eqI [OF le s(2)])
      fix i assume i: "i < m"
      have "bs ! i = c ! (vp_data p + (rel + i))" using s i long by (simp add: extent_def add.assoc)
      also have "\<dots> = pkg ! (vp_start p + (rel + i))"
        using assms(1) i m long by (auto simp: part_in_def)
      finally show "bs ! i = pkg ! (off + i)" by (simp add: o add.assoc)
    qed
    moreover have "bs \<noteq> []" using s(2) m(1) by auto
    ultimately show ?thesis using t s(2) m le assms(4) by (simp add: exact_def)
  qed
qed

lemma close_others_nth:
  "k < length ps \<Longrightarrow> close_others n i ps ! k = (if k < n \<and> k \<noteq> i then (ps ! k)\<lparr>vp_fd := None\<rparr> else ps ! k)"
  by (simp add: close_others_def)

lemma length_close_others [simp]: "length (close_others n i ps) = length ps"
  by (simp add: close_others_def)

lemma part_good_closed: "part_good F pkg p \<Longrightarrow> part_good F pkg (p\<lparr>vp_fd := None\<rparr>)"
  by (auto simp: part_good_def part_in_def)

lemma close_others_good:
  assumes g: "stream_good F pkg vs"
  shows "stream_good F pkg (vs\<lparr>vs_parts := close_others n i (vs_parts vs)\<rparr>)"
proof -
  have l: "k < length (vs_parts vs)" if "k < vs_total_parts vs" for k
    using stream_goodD(5) [OF g] that by simp
  then have "vp_start (close_others n i (vs_parts vs) ! 0) = 0" if "0 < vs_total_parts vs"
    using stream_goodD(7) [OF g] that l [OF that] by (simp add: close_others_nth)
  then show ?thesis
    using g l by (auto simp: stream_good_def close_others_nth part_good_closed)
qed

lemma swap_disc_good:
  assumes g: "stream_good F pkg vs" and w: "world_in F W" and i: "i < vs_total_parts vs"
    and q: "length q < 512" "\<not> starts_with ''file://'' q" and ne: "q \<noteq> []"
    and c: "\<And>c. F q = Some c \<Longrightarrow> mh_part_index (header_of c) = i + 1 \<and> slice_ok pkg c"
    and s: "swap_disc W vs i q = (vs', ok)"
  shows "stream_good F pkg vs'"
proof -
  let ?vs1 = "vs\<lparr>vs_parts := close_others (vs_total_parts vs) i (vs_parts vs)\<rparr>"
  have g1: "stream_good F pkg ?vs1" by (rule close_others_good [OF g])
  show ?thesis
  proof (cases "multipart_read_header (wd_files W) q")
    case (Inl e)
    then show ?thesis using s g1 by (auto simp: swap_disc_def Let_def)
  next
    case (Inr h)
    then obtain bs where f: "wd_files W q = Some bs" and h: "h = header_of bs"
      using read_header_valid(3) [OF Inr q(2)] by blast
    have F: "F q = Some bs" using w f by (simp add: world_in_def)
    note k = c [OF F, folded h]
    have l: "i < length (vs_parts vs)" using stream_goodD(5) [OF g] i by simp
    have ps: "vs_parts ?vs1 ! i = vs_parts vs ! i" using l by (simp add: close_others_nth)
    have st: "i = 0 \<Longrightarrow> vp_start (vs_parts vs ! i) = 0" using stream_goodD(7) [OF g] i by simp
    have off: "mh_part_offset h = 0 \<longleftrightarrow> i = 0" using k h by (auto simp: slice_ok_def Let_def)
    let ?f = "\<lambda>p. p\<lparr>vp_path := c_trunc 512 q, vp_data := part_doff h, vp_size := mh_part_data_size h,
              vp_start := (if mh_part_offset h > 0 then mh_part_offset h else vp_start p), vp_fd := wd_files W q\<rparr>"
    have t: "c_trunc 512 q = q" using q(1) by (simp add: c_trunc_short)
    have start: "vp_start (?f (vs_parts vs ! i)) = mh_part_offset h" using off st by auto
    have "part_in pkg (?f (vs_parts vs ! i)) bs"
      using k h start by (simp add: part_in_def slice_ok_def Let_def)
    then have p: "part_good F pkg (?f (vs_parts ?vs1 ! i))"
      using F f t ne unfolding ps by (simp add: part_good_def)
    have "vs' = set_part ?vs1 i ?f" using s Inr by (simp add: swap_disc_def Let_def)
    moreover have "stream_good F pkg (set_part ?vs1 i ?f)"
      by (rule set_part_good(1) [where f = ?f, OF g1 _ p]) (use i ps start off in auto)
    ultimately show ?thesis by simp
  qed
qed

lemma local_round_good:
  assumes g: "stream_good F pkg vs" and w: "world_in F W" and off: "off < length pkg"
    and n: "0 < count" "count < 2 ^ 64"
  shows "case local_round W vs off count of
      Done vs' r \<Rightarrow> stream_good F pkg vs' \<and> exact pkg off count r
    | NeedDisc vs' i \<Rightarrow> stream_good F pkg vs' \<and> i < vs_total_parts vs'"
proof (cases "pick_part 0 off (take (vs_total_parts vs) (vs_parts vs))")
  case None
  then show ?thesis using g by (simp add: local_round_def exact_def)
next
  case (Some i)
  have i: "i < vs_total_parts vs" using pick_part_Some [OF Some] by simp
  let ?v1 = "note_part W vs (i + 1)"
  let ?v2 = "open_part W ?v1 i"
  have g2: "stream_good F pkg ?v2" and tp: "vs_total_parts ?v2 = vs_total_parts vs"
    using open_part_good(1,5) [of F pkg ?v1 W i] g w i by simp_all
  show ?thesis
  proof (cases "vp_fd (vs_parts ?v2 ! i)")
    case None
    then show ?thesis using Some g2 i tp by (simp add: local_round_def exact_def Let_def)
  next
    case (Some c)
    have "part_good F pkg (vs_parts ?v2 ! i)" using stream_goodD(6) [OF g2] i tp by simp
    then have "part_in pkg (vs_parts ?v2 ! i) c" using Some by (auto simp: part_good_def)
    moreover have "0 < clamp_count vs off count" "clamp_count vs off count \<le> count"
      using clamp_count_range [of off vs count] stream_goodD(3,4) [OF g] off n by simp_all
    ultimately have "exact pkg off count (transfer W (vs_parts ?v2 ! i) c off (clamp_count vs off count))"
      using n by (intro transfer_exact)
    then show ?thesis
      using \<open>pick_part 0 off _ = Some i\<close> Some g2 by (simp add: local_round_def Let_def)
  qed
qed

lemma read_local_good:
  assumes "stream_good F pkg vs" and "world_in F W" and "answers_ok F pkg ds" and "off < length pkg"
    and "0 < count" "count < 2 ^ 64"
    and "read_local ds W vs off count = (ds', W', vs', r)"
  shows "stream_good F pkg vs' \<and> world_in F W' \<and> answers_ok F pkg ds' \<and> exact pkg off count r"
  using assms
proof (induction ds W vs off count rule: read_local.induct)
  case (1 W vs off count)
  then show ?case using local_round_good [of F pkg vs W off count]
    by (auto simp: exact_def split: read_round.splits)
next
  case (2 found W1 later W vs off count)
  have r: "case local_round W vs off count of
      Done vs' r \<Rightarrow> stream_good F pkg vs' \<and> exact pkg off count r
    | NeedDisc vs' i \<Rightarrow> stream_good F pkg vs' \<and> i < vs_total_parts vs'"
    using "2.prems" by (intro local_round_good)
  show ?case
  proof (cases "local_round W vs off count")
    case (Done v q)
    then show ?thesis using r "2.prems" by auto
  next
    case (NeedDisc v i)
    have v: "stream_good F pkg v" "i < vs_total_parts v" using r NeedDisc by auto
    have w1: "world_in F W1" and a: "answers_ok F pkg later"
      using "2.prems"(3) by (auto simp: answers_ok_def)
    show ?thesis
    proof (cases "found (i + 1)")
      case None
      then show ?thesis using NeedDisc "2.prems" v w1 a by (auto simp: exact_def)
    next
      case (Some q)
      have q: "length q < 512" "\<not> starts_with ''file://'' q" "q \<noteq> []"
        and c: "\<And>c. F q = Some c \<Longrightarrow> mh_part_index (header_of c) = i + 1 \<and> slice_ok pkg c"
        using "2.prems"(3) Some by (auto simp: answers_ok_def)
      obtain v' ok where s: "swap_disc W1 v i q = (v', ok)" by (metis prod.collapse)
      have v': "stream_good F pkg v'" by (rule swap_disc_good [OF v(1) w1 v(2) q c s])
      show ?thesis
      proof (cases ok)
        case True
        then have "read_local later W1 v' off count = (ds', W', vs', r)" using "2.prems"(7) NeedDisc Some s by simp
        then show ?thesis
          using "2.IH" [OF NeedDisc Some s [symmetric] True v' w1 a "2.prems"(4,5,6)] by blast
      next
        case False
        then show ?thesis using NeedDisc Some s "2.prems" v' w1 a by (auto simp: exact_def)
      qed
    qed
  qed
qed

section \<open>Every source is exact\<close>

text \<open>
  The live session as a source: a positive answer of ws_live_read is that of a reader that has
  returned in some reachable state of a session whose file is the package. And the SMB client's
  contract: what it reads is the file.
\<close>

definition live_source :: "u8 list \<Rightarrow> world \<Rightarrow> vstream \<Rightarrow> bool" where
  "live_source pkg W vs =
     (vs_is_live vs \<and> vs_total vs = length pkg \<and>
      (\<forall>off n r bs. wd_live_read W off n = (r, bs) \<and> 0 < r \<longrightarrow>
         (\<exists>S rd. live_reach S \<and> Returned rd r \<in> set (sy_readers S) \<and> rd_start rd = off \<and> rd_count rd \<le> n \<and>
            off + rd_count rd \<le> length pkg \<and> (\<forall>i < length pkg. sy_file S i = pkg ! i) \<and>
            bs = mem_bytes (rd_dst rd) 0 (rd_count rd))))"

definition smb_source :: "u8 list \<Rightarrow> world \<Rightarrow> vstream \<Rightarrow> bool" where
  "smb_source pkg W vs =
     (\<not> vs_is_live vs \<and> vs_smb vs \<and> vs_session vs \<and> vs_total vs = length pkg \<and>
      (\<forall>off n r bs. wd_smb_read W off n = (r, bs) \<and> 0 < r \<longrightarrow>
         r = int (length bs) \<and> length bs \<le> n \<and> off + length bs \<le> length pkg \<and> bs = extent off (length bs) pkg))"

definition source_good :: "files \<Rightarrow> u8 list \<Rightarrow> source \<Rightarrow> bool" where
  "source_good F pkg s =
     (case s of (ds, W, vs) \<Rightarrow>
        length pkg < 2 ^ 63 \<and>
        (live_source pkg W vs \<or> smb_source pkg W vs \<or>
         stream_good F pkg vs \<and> world_in F W \<and> answers_ok F pkg ds))"

lemma live_answer:
  assumes "live_reach S" and "Returned rd r \<in> set (sy_readers S)" and "0 < r"
    and f: "\<forall>i < length pkg. sy_file S i = pkg ! i" and le: "rd_start rd + rd_count rd \<le> length pkg"
  shows "r = int (rd_count rd)" and "mem_bytes (rd_dst rd) 0 (rd_count rd) = extent (rd_start rd) (rd_count rd) pkg"
proof -
  have "phase_ok (sy_live S) (sy_file S) (Returned rd r)"
    using reach_sys_inv [OF assms(1)] assms(2) unfolding sys_inv_def by blast
  then show "r = int (rd_count rd)" and "mem_bytes (rd_dst rd) 0 (rd_count rd) = extent (rd_start rd) (rd_count rd) pkg"
    using assms(3) f le by (auto intro!: extent_eqI)
qed

lemma clamp_le: "off < vs_total vs \<Longrightarrow> vs_total vs < 2 ^ 63 \<Longrightarrow> n < 2 ^ 64 \<Longrightarrow> clamp_count vs off n \<le> n"
  using clamp_count_range(2) [of off vs n] by (cases "n = 0") (auto simp: clamp_count_def u64_add_def)

lemma source_read_good:
  assumes g: "source_good F pkg s" and n: "n < 2 ^ 64" and r: "source_read s off n = (s', res)"
  shows "source_good F pkg s' \<and> (\<forall>k bs. res = VRet k bs \<and> 0 < k \<longrightarrow>
    k = int (length bs) \<and> length bs \<le> n \<and> off + length bs \<le> length pkg \<and> bs = extent off (length bs) pkg)"
proof -
  obtain ds W vs where s: "s = (ds, W, vs)" by (metis prod_cases3)
  obtain ds' W' vs' where s': "s' = (ds', W', vs')" and v: "virtual_stream_read ds W vs off n = (ds', W', vs', res)"
    using r by (auto simp: source_read_def s split: prod.splits)
  note d = virtual_stream_read_def
  have tot: "vs_total vs = length pkg" and small: "length pkg < 2 ^ 63"
    using g by (auto simp: source_good_def s live_source_def smb_source_def stream_good_def)
  show ?thesis
  proof (cases "n = 0 \<or> off \<ge> vs_total vs")
    case True
    then show ?thesis using v g s s' by (auto simp: d)
  next
    case False
    then have off: "off < vs_total vs" and n0: "0 < n" by simp_all
    note cl = clamp_le [OF off _ n]
    consider (live) "live_source pkg W vs" | (smb) "smb_source pkg W vs"
      | (local) "stream_good F pkg vs" "world_in F W" "answers_ok F pkg ds"
      using g by (auto simp: source_good_def s)
    then show ?thesis
    proof cases
      case live
      obtain q bs where q: "wd_live_read W off (clamp_count vs off n) = (q, bs)" by (metis prod.collapse)
      have st: "ds' = ds" "W' = W" "vs' = vs" and res: "res = VRet 0 [] \<or> res = (if q < 0 then VRet (- 1) [] else VRet q bs)"
        using v False live q by (auto simp: d live_source_def Let_def split: if_splits)
      have "k = int (length cs) \<and> length cs \<le> n \<and> off + length cs \<le> length pkg \<and> cs = extent off (length cs) pkg"
        if k: "res = VRet k cs" "0 < k" for k cs
      proof -
        have kq: "k = q" "cs = bs" "0 < q" using res k by (auto split: if_splits)
        obtain S rd where S: "live_reach S" "Returned rd q \<in> set (sy_readers S)" "rd_start rd = off"
          "rd_count rd \<le> clamp_count vs off n" "off + rd_count rd \<le> length pkg"
          "\<forall>i < length pkg. sy_file S i = pkg ! i" "bs = mem_bytes (rd_dst rd) 0 (rd_count rd)"
          using live q kq(3) unfolding live_source_def by blast
        have "q = int (rd_count rd)" and "bs = extent off (rd_count rd) pkg"
          using live_answer [OF S(1,2) kq(3) S(6)] S(3,5,7) by auto
        then show ?thesis using kq S(4,5,7) cl tot small length_extent [OF S(5)] by simp
      qed
      then show ?thesis using g s s' st by simp
    next
      case smb
      obtain q bs where q: "wd_smb_read W off (clamp_count vs off n) = (q, bs)" by (metis prod.collapse)
      have st: "ds' = ds" "W' = W" "vs' = vs" and res: "res = VRet q bs"
        using v False smb q by (auto simp: d smb_source_def)
      have "0 < q \<longrightarrow> q = int (length bs) \<and> length bs \<le> clamp_count vs off n \<and> off + length bs \<le> length pkg \<and>
          bs = extent off (length bs) pkg"
        using smb q unfolding smb_source_def by blast
      then show ?thesis using g s s' st res cl tot small by auto
    next
      case local
      have "read_local ds W vs off n = (ds', W', vs', res)"
        using v False stream_goodD(1,2) [OF local(1)] by (auto simp: d)
      then have "stream_good F pkg vs' \<and> world_in F W' \<and> answers_ok F pkg ds' \<and> exact pkg off n res"
        using read_local_good [OF local, of off n] off tot n0 n by simp
      then show ?thesis using small by (auto simp: source_good_def s' exact_def)
    qed
  qed
qed

interpretation vs_source: byte_source source_read "source_good F pkg" pkg for F pkg
  by unfold_locales (use source_read_good in blast)+

section \<open>A stream with all its parts mounted\<close>

definition part_mounted :: "world \<Rightarrow> vpart \<Rightarrow> bool" where
  "part_mounted W p =
     (\<exists>c. (vp_fd p = Some c \<or> vp_fd p = None \<and> vp_path p \<noteq> [] \<and> wd_files W (vp_path p) = Some c) \<and>
          vp_data p + vp_size p \<le> length c)"

definition mounted :: "files \<Rightarrow> u8 list \<Rightarrow> world \<Rightarrow> vstream \<Rightarrow> bool" where
  "mounted F pkg W vs =
     (stream_good F pkg vs \<and> world_in F W \<and>
      (\<forall>off < length pkg. \<exists>i < vs_total_parts vs. vp_start (vs_parts vs ! i) \<le> off \<and>
         off < vp_start (vs_parts vs ! i) + vp_size (vs_parts vs ! i)) \<and>
      (\<forall>i < vs_total_parts vs. vp_start (vs_parts vs ! i) + vp_size (vs_parts vs ! i) < 2 ^ 64 \<and>
         part_mounted W (vs_parts vs ! i)))"

lemma pick_part_exists:
  "k < length ps \<Longrightarrow> vp_start (ps ! k) \<le> off \<Longrightarrow> off < u64_add (vp_start (ps ! k)) (vp_size (ps ! k)) \<Longrightarrow>
    \<exists>j. pick_part i off ps = Some j"
proof (induction ps arbitrary: i k)
  case (Cons p ps)
  then show ?case by (cases k) auto
qed simp

lemma open_part_parts:
  "i < length (vs_parts vs) \<Longrightarrow> vs_parts (open_part W vs i) =
    (vs_parts vs)[i := if vp_fd (vs_parts vs ! i) = None \<and> vp_path (vs_parts vs ! i) \<noteq> []
                      then (vs_parts vs ! i)\<lparr>vp_fd := wd_files W (vp_path (vs_parts vs ! i))\<rparr> else vs_parts vs ! i]"
  by (simp add: open_part_def Let_def set_part_def)

lemma open_part_mounted:
  assumes m: "mounted F pkg W vs" and i: "i < vs_total_parts vs"
  shows "mounted F pkg W (open_part W vs i)"
    and "\<exists>c. vp_fd (vs_parts (open_part W vs i) ! i) = Some c \<and>
      vp_data (vs_parts vs ! i) + vp_size (vs_parts vs ! i) \<le> length c"
proof -
  have g: "stream_good F pkg vs" and w: "world_in F W" using m by (auto simp: mounted_def)
  have l: "i < length (vs_parts vs)" using stream_goodD(5) [OF g] i by simp
  let ?p = "vs_parts vs ! i"
  have pm: "part_mounted W ?p" using m i by (simp add: mounted_def)
  note os = open_part_good [OF g w i] and op = open_part_parts [OF l, of W]
  show c: "\<exists>c. vp_fd (vs_parts (open_part W vs i) ! i) = Some c \<and> vp_data ?p + vp_size ?p \<le> length c"
    using pm l by (auto simp: op part_mounted_def)
  have same: "vp_start (vs_parts (open_part W vs i) ! k) = vp_start (vs_parts vs ! k) \<and>
      vp_size (vs_parts (open_part W vs i) ! k) = vp_size (vs_parts vs ! k) \<and>
      part_mounted W (vs_parts (open_part W vs i) ! k)" if k: "k < vs_total_parts vs" for k
  proof (cases "k = i")
    case True
    then show ?thesis using c os(2,3,4) by (auto simp: part_mounted_def)
  next
    case False
    then show ?thesis using m k l by (auto simp: op mounted_def)
  qed
  have "\<exists>k < vs_total_parts vs. vp_start (vs_parts (open_part W vs i) ! k) \<le> off \<and>
      off < vp_start (vs_parts (open_part W vs i) ! k) + vp_size (vs_parts (open_part W vs i) ! k)"
    if o: "off < length pkg" for off
  proof -
    obtain k where k: "k < vs_total_parts vs" "vp_start (vs_parts vs ! k) \<le> off"
      "off < vp_start (vs_parts vs ! k) + vp_size (vs_parts vs ! k)" using m o unfolding mounted_def by blast
    then show ?thesis using same [OF k(1)] by auto
  qed
  then show "mounted F pkg W (open_part W vs i)"
    using os(1,5) w same m by (simp add: mounted_def)
qed

lemma note_part_mounted: "mounted F pkg W (note_part W vs c) = mounted F pkg W vs"
  by (simp add: mounted_def)

lemma mounted_read:
  assumes m: "mounted F pkg W vs" and off: "off < length pkg" and n: "0 < n" "n < 2 ^ 64"
  shows "\<exists>vs' k bs. virtual_stream_read ds W vs off n = (ds, W, vs', VRet k bs) \<and> 0 < k \<and> mounted F pkg W vs'"
proof -
  have g: "stream_good F pkg vs" and w: "world_in F W" using m by (auto simp: mounted_def)
  obtain j where j: "j < vs_total_parts vs" "vp_start (vs_parts vs ! j) \<le> off"
      "off < vp_start (vs_parts vs ! j) + vp_size (vs_parts vs ! j)"
      "vp_start (vs_parts vs ! j) + vp_size (vs_parts vs ! j) < 2 ^ 64"
    using m off unfolding mounted_def by blast
  let ?ps = "take (vs_total_parts vs) (vs_parts vs)"
  have "j < length ?ps" using stream_goodD(5) [OF g] j(1) by simp
  moreover have "?ps ! j = vs_parts vs ! j" using j(1) by simp
  ultimately obtain i where i: "pick_part 0 off ?ps = Some i"
    using pick_part_exists [of j ?ps off 0] j by (auto simp: u64_add_small)
  have ip: "i < vs_total_parts vs" using pick_part_Some [OF i] by simp
  then have "?ps ! i = vs_parts vs ! i" by simp
  then have ip: "i < vs_total_parts vs" "vp_start (vs_parts vs ! i) \<le> off"
    "off < u64_add (vp_start (vs_parts vs ! i)) (vp_size (vs_parts vs ! i))"
    using pick_part_Some [OF i] ip by simp_all
  then have lt: "off < vp_start (vs_parts vs ! i) + vp_size (vs_parts vs ! i)"
    using u64_add_le [of "vp_start (vs_parts vs ! i)" "vp_size (vs_parts vs ! i)"] by linarith
  let ?v1 = "note_part W vs (i + 1)"
  let ?v2 = "open_part W ?v1 i"
  have mv: "mounted F pkg W ?v1" and i1: "i < vs_total_parts ?v1" using m ip(1) by (simp_all add: note_part_mounted)
  have m2: "mounted F pkg W ?v2" by (rule open_part_mounted(1) [OF mv i1])
  obtain c where c: "vp_fd (vs_parts ?v2 ! i) = Some c"
    "vp_data (vs_parts vs ! i) + vp_size (vs_parts vs ! i) \<le> length c"
    using open_part_mounted(2) [OF mv i1] by auto
  have g1: "stream_good F pkg ?v1" using g by simp
  have same: "vp_start (vs_parts ?v2 ! i) = vp_start (vs_parts vs ! i)" "vp_size (vs_parts ?v2 ! i) = vp_size (vs_parts vs ! i)"
    "vp_data (vs_parts ?v2 ! i) = vp_data (vs_parts vs ! i)"
    using open_part_good(2-4) [OF g1 w i1] by simp_all
  let ?cl = "clamp_count vs off n"
  have cl: "0 < ?cl" "?cl \<le> n" using clamp_count_range [of off vs n] stream_goodD(3,4) [OF g] off n by simp_all
  define rel where "rel = off - vp_start (vs_parts vs ! i)"
  define m where "m = min ?cl (vp_size (vs_parts vs ! i) - rel)"
  have rel: "rel < vp_size (vs_parts vs ! i)" using ip(2) lt by (simp add: rel_def)
  then have m0: "0 < m" using cl by (simp add: m_def)
  have "\<exists>bs. pread_loop (wd_pread W) c (vp_data (vs_parts vs ! i) + rel) m = Some bs"
    using w c(2) rel by (intro pread_loop_complete) (auto simp: world_in_def m_def)
  then obtain bs where "pread_loop (wd_pread W) c (vp_data (vs_parts vs ! i) + rel) m = Some bs" by blast
  then have t: "transfer W (vs_parts ?v2 ! i) c off ?cl = VRet (int m) bs"
    using ip(2) rel m0
    unfolding transfer_def Let_def same rel_def [symmetric] m_def [symmetric] by simp
  have "local_round W vs off n = Done ?v2 (VRet (int m) bs)"
    using i c(1) t by (simp add: local_round_def Let_def)
  then have "read_local ds W vs off n = (ds, W, ?v2, VRet (int m) bs)" by (cases ds) auto
  then show ?thesis
    using n off stream_goodD(1-3) [OF g] m0 m2 by (simp add: virtual_stream_read_def)
qed

definition mounted_source :: "files \<Rightarrow> u8 list \<Rightarrow> source \<Rightarrow> bool" where
  "mounted_source F pkg s = (case s of (ds, W, vs) \<Rightarrow> answers_ok F pkg ds \<and> mounted F pkg W vs)"

lemma mounted_source_good: "mounted_source F pkg s \<Longrightarrow> source_good F pkg s"
  by (auto simp: mounted_source_def source_good_def mounted_def stream_good_def)

lemma mounted_source_read:
  assumes "mounted_source F pkg s" and "off < length pkg" and "0 < n" and "n < 2 ^ 64"
  obtains s' k bs where "source_read s off n = (s', VRet k bs)" "0 < k" "mounted_source F pkg s'"
proof -
  obtain ds W vs where s: "s = (ds, W, vs)" by (metis prod_cases3)
  obtain vs' k bs where "virtual_stream_read ds W vs off n = (ds, W, vs', VRet k bs)" "0 < k" "mounted F pkg W vs'"
    using mounted_read [of F pkg W vs off n ds] assms by (auto simp: mounted_source_def s)
  then show thesis using assms(1) by (intro that [of "(ds, W, vs')" k bs]) (simp_all add: source_read_def mounted_source_def s)
qed

lemma mounted_source_keep:
  assumes m: "mounted_source F pkg s" and n: "n < 2 ^ 64" and r: "source_read s off n = (s', res)"
  shows "mounted_source F pkg s'"
proof (cases "n = 0 \<or> length pkg \<le> off")
  case True
  obtain ds W vs where s: "s = (ds, W, vs)" by (metis prod_cases3)
  have "vs_total vs = length pkg" using m by (simp add: mounted_source_def mounted_def stream_good_def s)
  then show ?thesis using r m True by (auto simp: source_read_def virtual_stream_read_def s)
next
  case False
  then show ?thesis using mounted_source_read [OF m _ _ n, of off] r by (metis fst_conv neq0_conv not_le)
qed

interpretation mounted_stream: full_source source_read "mounted_source F pkg" pkg for F pkg
proof unfold_locales
  fix s off n s' r k bs
  assume m: "mounted_source F pkg s"
  show "mounted_source F pkg s'" if "n < 2 ^ 64" and "source_read s off n = (s', r)"
    by (rule mounted_source_keep [OF m that])
  show "k = int (length bs) \<and> length bs \<le> n \<and> off + length bs \<le> length pkg \<and> bs = extent off (length bs) pkg"
    if "n < 2 ^ 64" and "source_read s off n = (s', VRet k bs)" and "0 < k"
    by (rule vs_source.rd_exact [OF mounted_source_good [OF m] that])
  show "\<exists>s' k bs. source_read s off n = (s', VRet k bs) \<and> 0 < k" if "off < length pkg" "0 < n" "n < 2 ^ 64"
    using mounted_source_read [OF m that] by blast
qed

section \<open>Opening a set of parts\<close>

text \<open>
  What opening relies on of the finder, of directory names and of the staging directory: the
  file they name for part p, if it is there, is part p of this package.
\<close>

definition names_part :: "files \<Rightarrow> mp_header \<Rightarrow> nat \<Rightarrow> string \<Rightarrow> bool" where
  "names_part F h p q =
     (q \<noteq> [] \<and> length q < 512 \<and> \<not> starts_with ''file://'' q \<and>
      (\<forall>c. F q = Some c \<longrightarrow> mh_uuid (header_of c) = mh_uuid h \<and> mh_part_index (header_of c) = p))"

definition part_env :: "files \<Rightarrow> mp_header \<Rightarrow> world \<Rightarrow> bool" where
  "part_env F h W =
     ((\<forall>f p q. wd_finder W = Some f \<and> f (mh_uuid h) (clamped_name h) p = Some q \<longrightarrow> names_part F h p q) \<and>
      (\<forall>dir ns n. wd_dir W dir = Some ns \<and> n \<in> set ns \<longrightarrow>
         length dir + length n < 511 \<and> \<not> starts_with ''file://'' (dir @ CHR ''/'' # n)) \<and>
      (\<forall>p. wd_stat W (tmp_candidate W p) \<noteq> None \<longrightarrow> names_part F h p (tmp_candidate W p)))"

definition genuine :: "files \<Rightarrow> u8 list \<Rightarrow> u8 list \<Rightarrow> bool" where
  "genuine F uuid pkg =
     (\<forall>q c. F q = Some c \<and> MULTIPART_HEADER_SIZE \<le> length c \<and> multipart_is_valid_header (header_of c) \<and>
        mh_uuid (header_of c) = uuid \<longrightarrow> slice_ok pkg c)"

lemma read_header_file:
  assumes "multipart_read_header (wd_files W) q = Inr g" and "world_in F W" and "\<not> starts_with ''file://'' q"
  shows "\<exists>c. F q = Some c \<and> g = header_of c \<and> MULTIPART_HEADER_SIZE \<le> length c \<and> multipart_is_valid_header g"
  using assms by (auto simp: multipart_read_header_def local_path_def world_in_def split: if_splits option.splits)

lemma adjacent_part_names:
  assumes "adjacent_part W h p dir ns = Some q" and w: "world_in F W"
    and n: "\<And>n. n \<in> set ns \<Longrightarrow> length dir + length n < 511 \<and> \<not> starts_with ''file://'' (dir @ CHR ''/'' # n)"
  shows "names_part F h p q"
  using assms(1) n
proof (induction ns)
  case (Cons n ns)
  have l: "length dir + length n < 511" and f: "\<not> starts_with ''file://'' (dir @ CHR ''/'' # n)" using Cons.prems by auto
  let ?c = "dir @ CHR ''/'' # n"
  have t: "c_trunc 1024 ?c = ?c" "c_trunc 512 ?c = ?c" using l by (simp_all add: c_trunc_short)
  show ?case
  proof (cases "adjacent_part W h p dir ns = Some q")
    case True
    then show ?thesis using Cons by auto
  next
    case False
    then have b: "case multipart_read_header (wd_files W) ?c of Inl _ \<Rightarrow> False | Inr g \<Rightarrow> mh_uuid g = mh_uuid h \<and> mh_part_index g = p"
      and q: "q = ?c"
      using Cons.prems(1) unfolding adjacent_part.simps Let_def t by (metis option.inject)+
    then obtain g where g: "multipart_read_header (wd_files W) ?c = Inr g" "mh_uuid g = mh_uuid h" "mh_part_index g = p"
      by (cases "multipart_read_header (wd_files W) ?c") simp_all
    obtain c where "F q = Some c" "g = header_of c" using read_header_file [OF g(1) w f] q by blast
    then show ?thesis using g l f by (auto simp: names_part_def q)
  qed
qed simp

lemma locate_part_names:
  assumes l: "locate_part W path h p = Some q" and h: "multipart_read_header (wd_files W) path = Inr h"
    and w: "world_in F W" and e: "part_env F h W"
    and path: "path \<noteq> []" "length path < 512" "\<not> starts_with ''file://'' path"
  shows "names_part F h p q"
proof (cases "p = mh_part_index h")
  case True
  then have q: "q = path" using l path by (simp add: locate_part_def c_trunc_short)
  obtain c where "F path = Some c" "h = header_of c" using read_header_file [OF h w path(3)] by blast
  then show ?thesis using True path by (auto simp: names_part_def q)
next
  case False
  let ?find = "case wd_finder W of None \<Rightarrow> None | Some f \<Rightarrow> f (mh_uuid h) (clamped_name h) p"
  show ?thesis
  proof (cases ?find)
    case (Some q')
    then obtain f where "wd_finder W = Some f" "f (mh_uuid h) (clamped_name h) p = Some q'"
      by (cases "wd_finder W") auto
    then have n: "names_part F h p q'" using e unfolding part_env_def by blast
    moreover have "q = c_trunc 512 q'" using l False Some by (simp add: locate_part_def)
    ultimately show ?thesis by (simp add: names_part_def c_trunc_short)
  next
    case None
    let ?adj = "case dir_name (c_trunc 512 path) of None \<Rightarrow> None
                 | Some dir \<Rightarrow> (case wd_dir W dir of None \<Rightarrow> None | Some ns \<Rightarrow> adjacent_part W h p dir ns)"
    show ?thesis
    proof (cases ?adj)
      case (Some q')
      then obtain dir ns where a: "wd_dir W dir = Some ns" "adjacent_part W h p dir ns = Some q'"
        by (auto split: option.splits)
      have "length dir + length n < 511 \<and> \<not> starts_with ''file://'' (dir @ CHR ''/'' # n)" if "n \<in> set ns" for n
        using e a(1) that unfolding part_env_def by blast
      from adjacent_part_names [OF a(2) w this] have "names_part F h p q'" by blast
      moreover have "q = q'" using l False None Some by (simp add: locate_part_def)
      ultimately show ?thesis by simp
    next
      case none: None
      then have "q = tmp_candidate W p" "wd_stat W (tmp_candidate W p) \<noteq> None"
        using l False None by (auto simp: locate_part_def split: if_splits)
      then show ?thesis using e unfolding part_env_def by blast
    qed
  qed
qed

lemma deferred_part_good: "part_good F pkg (deferred_part h ps p)"
  by (simp add: deferred_part_def part_good_def Let_def)

lemma found_part_good:
  assumes n: "names_part F h p q" and g: "multipart_read_header (wd_files W) q = Inr g"
    and w: "world_in F W" and gen: "genuine F (mh_uuid h) pkg"
  shows "part_good F pkg (found_part g ps p q)" and "p = 1 \<Longrightarrow> vp_start (found_part g ps p q) = 0"
proof -
  have q: "\<not> starts_with ''file://'' q" "length q < 512" using n by (simp_all add: names_part_def)
  obtain c where c: "F q = Some c" "g = header_of c" "MULTIPART_HEADER_SIZE \<le> length c" "multipart_is_valid_header g"
    using read_header_file [OF g w q(1)] by blast
  have u: "mh_uuid g = mh_uuid h" "mh_part_index g = p" using n c(1,2) by (auto simp: names_part_def)
  then have s: "slice_ok pkg c" using gen c unfolding genuine_def by blast
  then have "vp_start (found_part g ps p q) = mh_part_offset g"
    using u c(2) by (auto simp: found_part_def slice_ok_def Let_def)
  then have "part_in pkg (found_part g ps p q) c"
    using s c(2) by (simp add: part_in_def slice_ok_def Let_def found_part_def)
  then show "part_good F pkg (found_part g ps p q)"
    using c(1) q(2) by (simp add: part_good_def found_part_def c_trunc_short)
  show "p = 1 \<Longrightarrow> vp_start (found_part g ps p q) = 0" by (simp add: found_part_def)
qed

lemma resolve_parts_good:
  assumes r: "resolve_parts W path h [k..<n + 1] ps = Some ps'" and k: "1 \<le> k" "n \<le> length ps"
    and loc: "\<And>p q. locate_part W path h p = Some q \<Longrightarrow> names_part F h p q"
    and w: "world_in F W" and gen: "genuine F (mh_uuid h) pkg"
    and g: "\<And>i. i < k - 1 \<Longrightarrow> i < n \<Longrightarrow> part_good F pkg (ps ! i)" and z: "vp_start (ps ! 0) = 0"
  shows "length ps' = length ps \<and> vp_start (ps' ! 0) = 0 \<and> (\<forall>i < n. part_good F pkg (ps' ! i))"
  using r k g z
proof (induction "n + 1 - k" arbitrary: k ps)
  case 0
  then show ?case by auto
next
  case (Suc m)
  then have kn: "k \<le> n" by simp
  then have up: "[k..<n + 1] = k # [k + 1..<n + 1]" by (simp add: upt_conv_Cons)
  obtain p where p: "resolve_parts W path h [k + 1..<n + 1] (ps[k - 1 := p]) = Some ps'"
    and pg: "part_good F pkg p" and pz: "k = 1 \<Longrightarrow> vp_start p = 0"
  proof (cases "locate_part W path h k")
    case None
    then show thesis
      using Suc.prems up by (intro that [of "deferred_part h ps k"])
        (auto simp: deferred_part_good, simp add: deferred_part_def)
  next
    case (Some q)
    then obtain g where g: "multipart_read_header (wd_files W) q = Inr g"
      "resolve_parts W path h [k + 1..<n + 1] (ps[k - 1 := found_part g ps k q]) = Some ps'"
      using Suc.prems(1) up by (auto split: sum.splits)
    from found_part_good [OF loc [OF Some] g(1) w gen] g(2) show thesis
      by (intro that [of "found_part g ps k q"])
  qed
  have l: "k - 1 < length ps" using Suc.prems kn by simp
  have "length ps' = length (ps[k - 1 := p]) \<and> vp_start (ps' ! 0) = 0 \<and> (\<forall>i < n. part_good F pkg (ps' ! i))"
  proof (rule Suc.hyps(1) [OF _ p])
    show "m = n + 1 - (k + 1)" "1 \<le> k + 1" "n \<le> length (ps[k - 1 := p])" using Suc by simp_all
    show "vp_start (ps[k - 1 := p] ! 0) = 0" using l pz Suc.prems(2,5) by (cases "k = 1") auto
    show "part_good F pkg (ps[k - 1 := p] ! i)" if "i < k + 1 - 1" "i < n" for i
      using that pg l Suc.prems(4) by (cases "i = k - 1") auto
  qed
  then show ?case by simp
qed

lemma le_val_bound: "le_val bs < 256 ^ length bs"
proof (induction bs)
  case (Cons b bs)
  have "unat b < 256" using unsigned_less [where ?'b = 8 and w = b] by simp
  with Cons show ?case by simp
qed simp

lemma part_size_bound: "multipart_read_header fs p = Inr h \<Longrightarrow> mh_part_data_size h < 2 ^ 64"
proof -
  assume "multipart_read_header fs p = Inr h"
  then obtain bs where h: "h = header_of bs" by (auto simp: multipart_read_header_def split: if_splits option.splits)
  have "le_val (field bs 32 8) < 256 ^ length (field bs 32 8)" by (rule le_val_bound)
  also have "\<dots> \<le> 256 ^ 8" by (intro power_increasing) (simp_all add: field_def)
  finally show ?thesis by (simp add: h header_of_def)
qed

lemma parts_open_split:
  assumes o: "virtual_stream_open W L path = (vs, L', 0)" and h: "multipart_read_header (wd_files W) path = Inr h"
    and path: "\<not> starts_with ''live:'' path" "\<not> starts_with ''file://'' path"
  obtains ps where "resolve_parts W path h [1..<mh_total_parts h + 1] (replicate MAX_MULTIPART_PARTS new_part) = Some ps"
    and "vs_parts vs = ps" "vs_total_parts vs = mh_total_parts h" "vs_total vs = mh_total_pkg_size h"
    and "\<not> vs_is_live vs" "\<not> vs_smb vs" "L' = L" "mh_total_parts h \<le> MAX_MULTIPART_PARTS" "vs_multi vs"
proof -
  have s: "\<not> starts_with ''smb://'' path" and lp: "local_path path = path"
    using read_header_valid(2) [OF h] path(2) by (simp_all add: local_path_def)
  have "open_parts W L path h = (vs, L', 0)"
    using o h path s lp by (auto simp: virtual_stream_open_def open_local_def virtual_stream_close_def split: option.splits)
  then show thesis
    by (intro that [of "vs_parts vs"])
      (auto simp: open_parts_def virtual_stream_close_def new_stream_def Let_def split: if_splits option.splits)
qed

section \<open>What the virtual stream guarantees\<close>

lemma open_parts_good:
  assumes o: "virtual_stream_open W L path = (vs, L', 0)" and h: "multipart_read_header (wd_files W) path = Inr h"
    and w: "world_in F W" and gen: "genuine F (mh_uuid h) pkg" and e: "part_env F h W"
    and size: "mh_total_pkg_size h = length pkg" "length pkg < 2 ^ 63"
    and path: "path \<noteq> []" "length path < 512" "\<not> starts_with ''live:'' path" "\<not> starts_with ''file://'' path"
  shows "stream_good F pkg vs \<and> vs_total_parts vs = mh_total_parts h \<and> L' = L"
proof -
  obtain ps where r: "resolve_parts W path h [1..<mh_total_parts h + 1] (replicate MAX_MULTIPART_PARTS new_part) = Some ps"
    and v: "vs_parts vs = ps" "vs_total_parts vs = mh_total_parts h" "vs_total vs = mh_total_pkg_size h"
      "\<not> vs_is_live vs" "\<not> vs_smb vs" "L' = L" and n: "mh_total_parts h \<le> MAX_MULTIPART_PARTS"
    by (rule parts_open_split [OF o h path(3,4)])
  have "length ps = MAX_MULTIPART_PARTS \<and> vp_start (ps ! 0) = 0 \<and> (\<forall>i < mh_total_parts h. part_good F pkg (ps ! i))"
    using resolve_parts_good [OF r _ _ locate_part_names [OF _ h w e path(1,2,4)] w gen] n
    by (simp add: MAX_MULTIPART_PARTS_def new_part_def)
  then show ?thesis using v n size by (simp add: stream_good_def)
qed

text \<open>
  How a package is laid out over its parts: their sizes, and each file of the set says where its
  slice starts and how long it is.
\<close>

definition laid_out :: "files \<Rightarrow> mp_header \<Rightarrow> nat list \<Rightarrow> bool" where
  "laid_out F h sizes =
     (length sizes = mh_total_parts h \<and> sum_list sizes = mh_total_pkg_size h \<and>
      (\<forall>q c. F q = Some c \<and> MULTIPART_HEADER_SIZE \<le> length c \<and> multipart_is_valid_header (header_of c) \<and>
         mh_uuid (header_of c) = mh_uuid h \<and> mh_part_index (header_of c) \<le> length sizes \<longrightarrow>
         mh_part_offset (header_of c) = sum_list (take (mh_part_index (header_of c) - 1) sizes) \<and>
         mh_part_data_size (header_of c) = sizes ! (mh_part_index (header_of c) - 1)))"

definition covers_slice :: "nat list \<Rightarrow> nat \<Rightarrow> vpart \<Rightarrow> bool" where
  "covers_slice sizes i p = (vp_start p = sum_list (take i sizes) \<and> vp_size p = sizes ! i)"

text \<open>
  A part nobody has now gets its place from the part before it and its size from the header that
  was opened, the last one from the size of the package. So what is asked of the sizes is that
  the missing parts, but for the last, are as long as the opened one.
\<close>

definition missing_alike :: "world \<Rightarrow> string \<Rightarrow> mp_header \<Rightarrow> nat list \<Rightarrow> bool" where
  "missing_alike W path h sizes =
     (\<forall>p < mh_total_parts h. 1 \<le> p \<and> locate_part W path h p = None \<longrightarrow> sizes ! (p - 1) = mh_part_data_size h)"

lemma take_sum_le: "sum_list (take i xs) \<le> sum_list (xs :: nat list)"
  by (metis append_take_drop_id le_add1 sum_list_append)

lemma next_start:
  assumes "covers_slice sizes i p" "i < length sizes" "sum_list sizes < 2 ^ 64"
  shows "u64_add (vp_start p) (vp_size p) = sum_list (take (Suc i) sizes)"
proof -
  have "sum_list (take (Suc i) sizes) = vp_start p + vp_size p"
    using assms(1,2) by (simp add: covers_slice_def take_Suc_conv_app_nth)
  then show ?thesis using take_sum_le [of "Suc i" sizes] assms(3) by (simp add: u64_add_def)
qed

lemma found_part_covers:
  assumes n: "names_part F h p q" and g: "multipart_read_header (wd_files W) q = Inr g" and w: "world_in F W"
    and l: "laid_out F h sizes" and p: "1 \<le> p" "p \<le> length sizes" "sum_list sizes < 2 ^ 64"
    and prev: "1 < p \<Longrightarrow> covers_slice sizes (p - 2) (ps ! (p - 2))"
  shows "covers_slice sizes (p - 1) (found_part g ps p q)"
proof -
  have q: "\<not> starts_with ''file://'' q" using n by (simp add: names_part_def)
  obtain c where c: "F q = Some c" "g = header_of c" "MULTIPART_HEADER_SIZE \<le> length c" "multipart_is_valid_header g"
    using read_header_file [OF g w q] by blast
  have u: "mh_uuid g = mh_uuid h" "mh_part_index g = p" using n c(1,2) by (auto simp: names_part_def)
  have "mh_part_offset g = sum_list (take (p - 1) sizes) \<and> mh_part_data_size g = sizes ! (p - 1)"
    using l c u p(2) unfolding laid_out_def by blast
  moreover have "1 < p \<Longrightarrow> u64_add (vp_start (ps ! (p - 2))) (vp_size (ps ! (p - 2))) = sum_list (take (p - 1) sizes)"
    using next_start [OF prev _ p(3)] p(2) by (simp add: numeral_2_eq_2 Suc_diff_Suc)
  ultimately show ?thesis using p(1) by (auto simp: covers_slice_def found_part_def)
qed

lemma deferred_part_covers:
  assumes p: "1 \<le> p" "p \<le> length sizes" "length sizes = mh_total_parts h"
    and s: "sum_list sizes = mh_total_pkg_size h" "sum_list sizes < 2 ^ 64"
    and prev: "1 < p \<Longrightarrow> covers_slice sizes (p - 2) (ps ! (p - 2))" and first: "p = 1 \<Longrightarrow> vp_start (ps ! 0) = 0"
    and alike: "p < mh_total_parts h \<Longrightarrow> sizes ! (p - 1) = mh_part_data_size h"
  shows "covers_slice sizes (p - 1) (deferred_part h ps p)"
proof -
  have st: "vp_start (deferred_part h ps p) = sum_list (take (p - 1) sizes)"
    using next_start [OF prev _ s(2)] p first by (cases "p = 1") (auto simp: deferred_part_def Let_def numeral_2_eq_2 Suc_diff_Suc)
  have "vp_size (deferred_part h ps p) = sizes ! (p - 1)"
  proof (cases "p = mh_total_parts h")
    case True
    have "sizes = take (p - 1) sizes @ [sizes ! (p - 1)]"
      using p True by (metis Suc_diff_1 diff_less less_le_trans order.refl take_Suc_conv_app_nth take_all zero_less_one)
    then have "sum_list sizes = sum_list (take (p - 1) sizes) + sizes ! (p - 1)"
      by (metis sum_list.Nil sum_list.Cons sum_list_append add_0_right)
    moreover have "vp_size (deferred_part h ps p) = u64_sub (mh_total_pkg_size h) (vp_start (deferred_part h ps p))"
      using True by (simp add: deferred_part_def Let_def)
    ultimately show ?thesis using s st by (simp add: u64_sub_def)
  next
    case False
    then show ?thesis using alike p by (simp add: deferred_part_def Let_def)
  qed
  with st show ?thesis by (simp add: covers_slice_def)
qed

lemma resolve_parts_covers:
  assumes r: "resolve_parts W path h [k..<n + 1] ps = Some ps'" and k: "1 \<le> k" "n \<le> length ps"
    and loc: "\<And>p q. locate_part W path h p = Some q \<Longrightarrow> names_part F h p q" and w: "world_in F W"
    and l: "laid_out F h sizes" and n: "n = mh_total_parts h" and s: "sum_list sizes < 2 ^ 64"
    and alike: "missing_alike W path h sizes"
    and g: "\<And>i. i < k - 1 \<Longrightarrow> i < n \<Longrightarrow> covers_slice sizes i (ps ! i)" and z: "vp_start (ps ! 0) = 0"
  shows "\<forall>i < n. covers_slice sizes i (ps' ! i)"
  using r k g z
proof (induction "n + 1 - k" arbitrary: k ps)
  case 0
  then show ?case by auto
next
  case (Suc m)
  have ls: "length sizes = n" "sum_list sizes = mh_total_pkg_size h" using l n by (simp_all add: laid_out_def)
  then have kn: "k \<le> n" "k \<le> length sizes" using Suc.hyps(2) by simp_all
  then have up: "[k..<n + 1] = k # [k + 1..<n + 1]" by (simp add: upt_conv_Cons)
  have prev: "1 < k \<Longrightarrow> covers_slice sizes (k - 2) (ps ! (k - 2))" using Suc.prems(4) [of "k - 2"] kn by simp
  obtain p where p: "resolve_parts W path h [k + 1..<n + 1] (ps[k - 1 := p]) = Some ps'"
    and pg: "covers_slice sizes (k - 1) p"
  proof (cases "locate_part W path h k")
    case None
    have "covers_slice sizes (k - 1) (deferred_part h ps k)"
      by (rule deferred_part_covers [OF Suc.prems(2) kn(2) _ ls(2) s prev])
        (use alike None n ls Suc.prems(2,5) in \<open>simp_all add: missing_alike_def\<close>)
    then show thesis using None Suc.prems(1) up by (intro that) simp_all
  next
    case (Some q)
    then obtain g where g: "multipart_read_header (wd_files W) q = Inr g"
      "resolve_parts W path h [k + 1..<n + 1] (ps[k - 1 := found_part g ps k q]) = Some ps'"
      using Suc.prems(1) up by (auto split: sum.splits)
    from found_part_covers [OF loc [OF Some] g(1) w l Suc.prems(2) kn(2) s prev] g(2) show thesis
      by (intro that [of "found_part g ps k q"])
  qed
  have lk: "k - 1 < length ps" using Suc.prems kn by simp
  show ?case
  proof (rule Suc.hyps(1) [OF _ p])
    show "m = n + 1 - (k + 1)" "1 \<le> k + 1" "n \<le> length (ps[k - 1 := p])" using Suc by simp_all
    show "vp_start (ps[k - 1 := p] ! 0) = 0"
      using lk pg Suc.prems(2,5) by (cases "k = 1") (auto simp: covers_slice_def)
    show "covers_slice sizes i (ps[k - 1 := p] ! i)" if "i < k + 1 - 1" "i < n" for i
      using that pg lk Suc.prems(4) by (cases "i = k - 1") auto
  qed
qed

lemma open_parts_covers:
  assumes o: "virtual_stream_open W L path = (vs, L', 0)" and h: "multipart_read_header (wd_files W) path = Inr h"
    and w: "world_in F W" and e: "part_env F h W" and size: "mh_total_pkg_size h < 2 ^ 63"
    and path: "path \<noteq> []" "length path < 512" "\<not> starts_with ''live:'' path" "\<not> starts_with ''file://'' path"
    and l: "laid_out F h sizes" "missing_alike W path h sizes"
  shows "\<forall>i < mh_total_parts h. covers_slice sizes i (vs_parts vs ! i)"
proof -
  obtain ps where r: "resolve_parts W path h [1..<mh_total_parts h + 1] (replicate MAX_MULTIPART_PARTS new_part) = Some ps"
    and v: "vs_parts vs = ps" and n: "mh_total_parts h \<le> MAX_MULTIPART_PARTS"
    by (rule parts_open_split [OF o h path(3,4)])
  have "sum_list sizes < 2 ^ 64" using l(1) size by (simp add: laid_out_def)
  from resolve_parts_covers [OF r _ _ locate_part_names [OF _ h w e path(1,2,4)] w l(1) refl this l(2)] n v
  show ?thesis by (simp add: MAX_MULTIPART_PARTS_def new_part_def)
qed

text \<open>C4: Opening any part of a multi-part package, whatever other parts are mounted (found by
  the finder, beside it, staged, or not at all), gives a stream in good shape, provided the files
  named for the parts belong to the package and a path does not change its file. Every part
  covers its own slice, the parts nobody has yet included: part i starts where the sizes of the
  parts before it add up to and has its own size, whenever the headers of the set give its
  layout and the missing parts, but for the last, are as long as the opened one.\<close>

theorem parts_open_good:
  assumes o: "virtual_stream_open W L path = (vs, L', 0)" and h: "multipart_read_header (wd_files W) path = Inr h"
    and w: "world_in F W" and gen: "genuine F (mh_uuid h) pkg" and e: "part_env F h W"
    and size: "mh_total_pkg_size h = length pkg" "length pkg < 2 ^ 63"
    and path: "path \<noteq> []" "length path < 512" "\<not> starts_with ''live:'' path" "\<not> starts_with ''file://'' path"
  shows "stream_good F pkg vs \<and> vs_total_parts vs = mh_total_parts h \<and> L' = L \<and>
    (\<forall>sizes. laid_out F h sizes \<and> missing_alike W path h sizes \<longrightarrow>
       (\<forall>i < mh_total_parts h. vp_start (vs_parts vs ! i) = sum_list (take i sizes) \<and>
          vp_size (vs_parts vs ! i) = sizes ! i))"
  using open_parts_good [OF assms] open_parts_covers [OF o h w e _ path] size by (simp add: covers_slice_def)


text \<open>C3: Every read of a stream in good shape is exact, for local parts through disc swaps and
  short reads, for the live session and for SMB: a positive result is the number of bytes
  delivered, at most the number asked for, and they are the package's bytes at that offset;
  the stream stays in good shape, so this holds of every later read as well.\<close>

theorem stream_read_exact:
  assumes "source_good F pkg (ds, W, vs)" and "count < 2 ^ 64"
    and "virtual_stream_read ds W vs off count = (ds', W', vs', VRet k bs)"
  shows "source_good F pkg (ds', W', vs') \<and>
    (0 < k \<longrightarrow> k = int (length bs) \<and> length bs \<le> count \<and> off + length bs \<le> length pkg \<and>
       bs = take (length bs) (drop off pkg))"
proof -
  have "source_read (ds, W, vs) off count = ((ds', W', vs'), VRet k bs)" using assms(3) by (simp add: source_read_def)
  from vs_source.rd_good [OF assms(1,2) this] vs_source.rd_exact [OF assms(1,2) this]
  show ?thesis by (simp add: extent_def)
qed

text \<open>C5: While all parts of a package are mounted, no read inside it fails or waits for a disc:
  it returns at least one byte, and the parts stay mounted.\<close>

theorem mounted_read_succeeds:
  assumes "mounted F pkg W vs" and "off < length pkg" and "0 < count" and "count < 2 ^ 64"
  shows "\<exists>vs' k bs. virtual_stream_read ds W vs off count = (ds, W, vs', VRet k bs) \<and> 0 < k \<and> mounted F pkg W vs'"
  by (rule mounted_read [OF assms])

text \<open>A staged part file is taken on trust: when a package of two parts is opened at its first
  part and neither the finder nor the directory knows the second, any file with a valid header
  at the staging path becomes part 2, whatever package and part that header names.\<close>

theorem staged_part_unchecked:
  assumes path: "length path < 512" "\<not> starts_with ''live:'' path" "\<not> starts_with ''file://'' path"
    and h: "multipart_read_header (wd_files W) path = Inr h" "mh_total_parts h = 2" "mh_part_index h = 1"
    and here: "wd_stat W path \<noteq> None" and none: "wd_finder W = None" "wd_dir W = (\<lambda>_. None)"
    and g: "wd_stat W (tmp_candidate W 2) \<noteq> None" "multipart_read_header (wd_files W) (tmp_candidate W 2) = Inr g"
  shows "\<exists>vs. virtual_stream_open W L path = (vs, L, 0) \<and>
    vs_parts vs ! 1 = \<lparr>vp_path = tmp_candidate W 2,
      vp_start = (if mh_part_offset g > 0 then mh_part_offset g else mh_part_data_size h),
      vp_size = mh_part_data_size g, vp_data = part_doff g, vp_fd = None\<rparr>"
proof -
  have s: "\<not> starts_with ''smb://'' path" and lp: "local_path path = path" and t: "c_trunc 512 path = path"
    using read_header_valid(2) [OF h(1)] path by (simp_all add: local_path_def c_trunc_short)
  have tt: "c_trunc 512 (tmp_candidate W 2) = tmp_candidate W 2"
    by (simp only: tmp_candidate_def c_trunc_def Let_def take_take min.idem)
  have ds: "mh_part_data_size h < 2 ^ 64" by (rule part_size_bound [OF h(1)])
  have l1: "locate_part W path h 1 = Some path" using h t by (simp add: locate_part_def)
  have l2: "locate_part W path h 2 = Some (tmp_candidate W 2)"
    using h(3) none g(1) by (auto simp: locate_part_def split: option.splits)
  have up: "[1..<mh_total_parts h + 1] = [1, 2]" using h(2) by (simp add: upt_rec)
  show ?thesis
    using path s lp here h g up l1 l2 t tt ds
    by (auto simp: virtual_stream_open_def open_local_def open_parts_def new_stream_def MAX_MULTIPART_PARTS_def
        found_part_def u64_add_def Let_def numeral_2_eq_2)
qed

section \<open>A package on two discs\<close>

text \<open>
  The package 1, 2, ..., 6 in two parts of three bytes: both mounted, and the second one on a disc
  that is not inserted when the package is opened.
\<close>

definition demo_h1 :: mp_header where
  "demo_h1 = slice_header demo_base 1 2 6 3"

definition demo_h2 :: mp_header where
  "demo_h2 = (slice_header demo_base 2 2 6 3)\<lparr>mh_part_offset := 3\<rparr>"

definition demo_p1 :: string where "demo_p1 = ''/d/a.pkg.part1''"
definition demo_p2 :: string where "demo_p2 = ''/d/a.pkg.part2''"

definition demo_F :: files where
  "demo_F = [demo_p1 \<mapsto> encode_header demo_h1 @ [1, 2, 3], demo_p2 \<mapsto> encode_header demo_h2 @ [4, 5, 6]]"

definition demo_pkg :: "u8 list" where
  "demo_pkg = [1, 2, 3, 4, 5, 6]"

definition demo_finder :: "files \<Rightarrow> u8 list \<Rightarrow> string \<Rightarrow> nat \<Rightarrow> string option" where
  "demo_finder F uuid name p = (if p = 2 \<and> F demo_p2 \<noteq> None then Some demo_p2 else None)"

definition demo_world :: "files \<Rightarrow> world" where
  "demo_world F =
     \<lparr>wd_files = F, wd_stat = (\<lambda>q. map_option length (F q)), wd_dir = (\<lambda>_. None), wd_tmp = None,
      wd_smb = (\<lambda>_. None), wd_smb_read = (\<lambda>_ _. (- 1, [])), wd_live_read = (\<lambda>_ _. (- 1, [])),
      wd_finder = Some (demo_finder F), wd_waiter = True, wd_notifier = False, wd_pread = 2\<rparr>"

lemma demo_headers:
  "header_of (encode_header demo_h1 @ bs) = demo_h1" "header_of (encode_header demo_h2 @ bs) = demo_h2"
  "length (encode_header demo_h1) = 4096" "length (encode_header demo_h2) = 4096"
proof -
  have "header_lengths demo_h1" "header_ranges demo_h1" "header_lengths demo_h2" "header_ranges demo_h2"
    by (simp_all add: header_lengths_def header_ranges_def demo_h1_def demo_h2_def slice_header_def demo_base_def length_magic)
  then show "header_of (encode_header demo_h1 @ bs) = demo_h1" "header_of (encode_header demo_h2 @ bs) = demo_h2"
    "length (encode_header demo_h1) = 4096" "length (encode_header demo_h2) = 4096"
    using header_of_encode length_encode_header by (auto simp: MULTIPART_HEADER_SIZE_def)
qed

lemma demo_F_simps:
  "demo_F demo_p1 = Some (encode_header demo_h1 @ [1, 2, 3])" "demo_F demo_p2 = Some (encode_header demo_h2 @ [4, 5, 6])"
  by (simp_all add: demo_F_def demo_p1_def demo_p2_def)

lemma demo_F_cases:
  "demo_F q = Some c \<Longrightarrow> q = demo_p1 \<and> c = encode_header demo_h1 @ [1, 2, 3] \<or> q = demo_p2 \<and> c = encode_header demo_h2 @ [4, 5, 6]"
  by (auto simp: demo_F_def split: if_splits)

lemma demo_valid: "multipart_is_valid_header demo_h1" "multipart_is_valid_header demo_h2"
  by (simp_all add: multipart_is_valid_header_def demo_h1_def demo_h2_def slice_header_def demo_base_def)

lemma demo_paths: "demo_p1 \<noteq> []" "demo_p2 \<noteq> []" "length demo_p1 < 512" "length demo_p2 < 512"
    "\<not> starts_with ''live:'' demo_p1" "\<not> starts_with ''file://'' demo_p1" "\<not> starts_with ''smb://'' demo_p1"
    "\<not> starts_with ''file://'' demo_p2" "\<not> starts_with ''smb://'' demo_p2" "demo_p1 \<noteq> demo_p2"
  by (simp_all add: demo_p1_def demo_p2_def starts_with_def)

lemma demo_read_headers:
  assumes "F = demo_F \<or> F = [demo_p1 \<mapsto> encode_header demo_h1 @ [1, 2, 3]]"
  shows "multipart_read_header F demo_p1 = Inr demo_h1"
    and "F = demo_F \<Longrightarrow> multipart_read_header F demo_p2 = Inr demo_h2"
  using assms demo_headers demo_valid demo_paths demo_F_simps
  by (auto simp: multipart_read_header_def local_path_def MULTIPART_HEADER_SIZE_def)

lemma demo_slice_ok: "slice_ok demo_pkg (encode_header demo_h1 @ [1, 2, 3])" "slice_ok demo_pkg (encode_header demo_h2 @ [4, 5, 6])"
proof -
  have d: "part_doff demo_h1 = 4096" "part_doff demo_h2 = 4096"
    by (simp_all add: part_doff_def demo_h1_def demo_h2_def slice_header_def demo_base_def MULTIPART_HEADER_SIZE_def)
  have f: "mh_part_offset demo_h1 = 0" "mh_part_offset demo_h2 = 3" "mh_part_data_size demo_h1 = 3"
    "mh_part_data_size demo_h2 = 3" "mh_part_index demo_h1 = 1" "mh_part_index demo_h2 = 2"
    by (simp_all add: demo_h1_def demo_h2_def slice_header_def demo_base_def)
  have three: "(\<forall>x < (3::nat). P x) = (P 0 \<and> P 1 \<and> P 2)" for P
    by (auto simp: less_Suc_eq numeral_eq_Suc)
  show "slice_ok demo_pkg (encode_header demo_h1 @ [1, 2, 3])" "slice_ok demo_pkg (encode_header demo_h2 @ [4, 5, 6])"
    unfolding slice_ok_def Let_def demo_headers(1,2) f d three
    by (simp_all add: nth_append demo_headers(3,4) demo_pkg_def)
qed

lemma demo_uuid: "mh_uuid demo_h1 = replicate 16 7" "mh_uuid demo_h2 = replicate 16 7"
  by (simp_all add: demo_h1_def demo_h2_def slice_header_def demo_base_def)

lemma mh_index_demo: "mh_part_index demo_h2 = 2"
  by (simp add: demo_h2_def slice_header_def)

lemma demo_genuine: "genuine demo_F (mh_uuid demo_h1) demo_pkg"
  using demo_slice_ok by (auto simp: genuine_def dest!: demo_F_cases)

lemma demo_no_tmp: "F = demo_F \<or> F = [demo_p1 \<mapsto> encode_header demo_h1 @ [1, 2, 3]] \<Longrightarrow>
    wd_stat (demo_world F) (tmp_candidate (demo_world F) p) = None"
proof -
  have "take 3 (tmp_candidate (demo_world F) p) = ''/da''"
    by (simp add: tmp_candidate_def demo_world_def c_trunc_def take_Cons')
  then have "tmp_candidate (demo_world F) p \<noteq> demo_p1" "tmp_candidate (demo_world F) p \<noteq> demo_p2"
    by (auto simp: demo_p1_def demo_p2_def)
  then show "F = demo_F \<or> F = [demo_p1 \<mapsto> encode_header demo_h1 @ [1, 2, 3]] \<Longrightarrow> ?thesis"
    by (auto simp: demo_world_def demo_F_def)
qed

lemma demo_part_env:
  assumes "F = demo_F \<or> F = [demo_p1 \<mapsto> encode_header demo_h1 @ [1, 2, 3]]"
  shows "part_env demo_F demo_h1 (demo_world F)"
proof -
  have "names_part demo_F demo_h1 2 demo_p2"
    using demo_paths demo_F_simps(2) demo_headers(2) demo_uuid
    by (simp add: names_part_def) (simp add: demo_h2_def slice_header_def)
  then show ?thesis using demo_no_tmp [OF assms]
    by (auto simp: part_env_def) (auto simp: demo_world_def demo_finder_def split: if_splits)
qed

lemma demo_world_in: "F = demo_F \<or> F = [demo_p1 \<mapsto> encode_header demo_h1 @ [1, 2, 3]] \<Longrightarrow> world_in demo_F (demo_world F)"
  using demo_paths(10) by (auto simp: world_in_def demo_world_def demo_F_def split: if_splits)

definition demo_vs :: "vpart \<Rightarrow> vstream" where
  "demo_vs p2 = new_stream\<lparr>vs_multi := True, vs_current := 1, vs_total_parts := 2, vs_total := 6,
     vs_uuid := replicate 16 7,
     vs_parts := [\<lparr>vp_path = demo_p1, vp_start = 0, vp_size = 3, vp_data = 4096, vp_fd = None\<rparr>, p2] @
       replicate 254 new_part\<rparr>"

definition demo_part2 :: vpart where
  "demo_part2 = \<lparr>vp_path = demo_p2, vp_start = 3, vp_size = 3, vp_data = 4096, vp_fd = None\<rparr>"

definition demo_later :: vpart where
  "demo_later = \<lparr>vp_path = [], vp_start = 3, vp_size = 3, vp_data = 4096, vp_fd = None\<rparr>"

lemma demo_fields:
  "mh_total_parts demo_h1 = 2" "mh_part_index demo_h1 = 1" "mh_total_pkg_size demo_h1 = 6" "mh_part_data_size demo_h1 = 3"
  "mh_part_data_size demo_h2 = 3" "mh_part_offset demo_h2 = 3" "mh_part_offset demo_h1 = 0"
  "part_doff demo_h1 = 4096" "part_doff demo_h2 = 4096" "mh_pkg_filename demo_h1 = replicate 256 0"
  "mh_title_id demo_h1 = replicate 32 0" "mh_title_name demo_h1 = replicate 256 0"
  by (simp_all add: part_doff_def demo_h1_def demo_h2_def slice_header_def demo_base_def MULTIPART_HEADER_SIZE_def)

lemma demo_open_in:
  assumes st: "wd_files W = demo_F" "wd_stat W demo_p1 = Some 4099" and l2: "locate_part W demo_p1 demo_h1 2 = Some demo_p2"
  shows "virtual_stream_open W live_init demo_p1 = (demo_vs demo_part2, live_init, 0)"
proof -
  have t: "c_trunc 512 demo_p1 = demo_p1" "c_trunc 512 demo_p2 = demo_p2"
    using demo_paths by (simp_all add: c_trunc_short)
  have lp: "local_path demo_p1 = demo_p1" using demo_paths by (simp add: local_path_def)
  have l1: "locate_part W demo_p1 demo_h1 1 = Some demo_p1"
    by (simp add: locate_part_def demo_fields t)
  have up: "[1..<mh_total_parts demo_h1 + 1] = [1, 2]" by (simp add: demo_fields upt_rec)
  have rp: "replicate 256 new_part = new_part # new_part # replicate 254 new_part"
    by (simp add: numeral_eq_Suc)
  note rh = demo_read_headers [of demo_F, simplified]
  have res: "resolve_parts W demo_p1 demo_h1 [1, 2] (replicate 256 new_part) =
      Some ([\<lparr>vp_path = demo_p1, vp_start = 0, vp_size = 3, vp_data = 4096, vp_fd = None\<rparr>, demo_part2] @ replicate 254 new_part)"
    unfolding rp by (simp add: l1 l1 [simplified] l2 [simplified] st rh found_part_def demo_fields t demo_part2_def)
  have c: "cstr_of (replicate 255 0) = []" "cstr_of (replicate 31 0) = []"
    by (simp_all add: cstr_of_def)
  have "open_parts W live_init demo_p1 demo_h1 = (demo_vs demo_part2, live_init, 0)"
    unfolding open_parts_def up Let_def
    by (simp add: new_stream_def MAX_MULTIPART_PARTS_def res [unfolded One_nat_def] demo_fields c demo_uuid demo_vs_def
        clamped_name_def del: resolve_parts.simps)
  then show ?thesis
    using demo_paths rh st by (simp add: virtual_stream_open_def open_local_def lp)
qed

lemma demo_open: "virtual_stream_open (demo_world demo_F) live_init demo_p1 = (demo_vs demo_part2, live_init, 0)"
proof (rule demo_open_in)
  show "wd_stat (demo_world demo_F) demo_p1 = Some 4099" "wd_files (demo_world demo_F) = demo_F"
    by (simp_all add: demo_world_def demo_F_simps demo_headers)
  show "locate_part (demo_world demo_F) demo_p1 demo_h1 2 = Some demo_p2"
    using demo_paths by (simp add: locate_part_def demo_fields c_trunc_short demo_world_def demo_finder_def demo_F_simps)
qed

text \<open>With the second disc not inserted, the second part is left for later.\<close>

abbreviation demo_first :: files where
  "demo_first \<equiv> [demo_p1 \<mapsto> encode_header demo_h1 @ [1, 2, 3]]"

lemma demo_open_first: "virtual_stream_open (demo_world demo_first) live_init demo_p1 = (demo_vs demo_later, live_init, 0)"
proof -
  have t: "c_trunc 512 demo_p1 = demo_p1" using demo_paths by (simp add: c_trunc_short)
  have lp: "local_path demo_p1 = demo_p1" using demo_paths by (simp add: local_path_def)
  have l1: "locate_part (demo_world demo_first) demo_p1 demo_h1 1 = Some demo_p1"
    by (simp add: locate_part_def demo_fields t)
  have dir: "wd_dir (demo_world F) = (\<lambda>_. None)" "wd_finder (demo_world F) = Some (demo_finder F)" "wd_files (demo_world F) = F"
    "wd_stat (demo_world F) = (\<lambda>q. map_option length (F q))" for F by (simp_all add: demo_world_def)
  have "demo_finder demo_first (mh_uuid demo_h1) (clamped_name demo_h1) 2 = None"
    using demo_paths by (simp add: demo_finder_def)
  then have l2: "locate_part (demo_world demo_first) demo_p1 demo_h1 2 = None"
    using demo_no_tmp [of demo_first 2] by (simp add: locate_part_def demo_fields dir(1,2) split: option.splits)
  have up: "[1..<mh_total_parts demo_h1 + 1] = [1, 2]" by (simp add: demo_fields upt_rec)
  have rp: "replicate 256 new_part = new_part # new_part # replicate 254 new_part"
    by (simp add: numeral_eq_Suc)
  note rh = demo_read_headers(1) [of demo_first, simplified]
  have res: "resolve_parts (demo_world demo_first) demo_p1 demo_h1 [1, 2] (replicate 256 new_part) =
      Some ([\<lparr>vp_path = demo_p1, vp_start = 0, vp_size = 3, vp_data = 4096, vp_fd = None\<rparr>, demo_later] @ replicate 254 new_part)"
    unfolding rp by (simp add: l1 l1 [simplified] l2 [simplified] dir(3) rh found_part_def deferred_part_def
        MULTIPART_HEADER_SIZE_def u64_add_def u64_sub_def demo_fields t demo_later_def)
  have c: "cstr_of (replicate 255 0) = []" "cstr_of (replicate 31 0) = []"
    by (simp_all add: cstr_of_def)
  have "open_parts (demo_world demo_first) live_init demo_p1 demo_h1 = (demo_vs demo_later, live_init, 0)"
    unfolding open_parts_def up Let_def
    by (simp add: new_stream_def MAX_MULTIPART_PARTS_def res [unfolded One_nat_def] demo_fields c demo_uuid demo_vs_def
        clamped_name_def del: resolve_parts.simps)
  then show ?thesis
    using demo_paths rh by (simp add: virtual_stream_open_def open_local_def lp dir(3,4))
qed

lemma demo_laid_out: "laid_out demo_F demo_h1 [3, 3]"
  using demo_headers demo_uuid by (auto simp: laid_out_def demo_fields mh_index_demo dest!: demo_F_cases)

theorem parts_open_good_witness:
  "stream_good demo_F demo_pkg (demo_vs demo_later) \<and>
   vp_start (vs_parts (demo_vs demo_later) ! 1) = sum_list (take 1 [3, 3]) \<and>
   vp_size (vs_parts (demo_vs demo_later) ! 1) = [3, 3] ! 1"
proof -
  have h: "multipart_read_header (wd_files (demo_world demo_first)) demo_p1 = Inr demo_h1"
    using demo_read_headers(1) [of demo_first] by (simp add: demo_world_def)
  have m: "missing_alike (demo_world demo_first) demo_p1 demo_h1 [3, 3]"
    unfolding missing_alike_def demo_fields by (auto simp: less_2_cases_iff)
  have n: "mh_total_pkg_size demo_h1 = length demo_pkg" "length demo_pkg < 2 ^ 63"
    by (simp_all add: demo_fields demo_pkg_def)
  note t = parts_open_good [OF demo_open_first h demo_world_in demo_genuine demo_part_env n demo_paths(1,3,5,6)]
  have g: "stream_good demo_F demo_pkg (demo_vs demo_later)" by (rule conjunct1 [OF t]) simp_all
  have "\<forall>sizes. laid_out demo_F demo_h1 sizes \<and> missing_alike (demo_world demo_first) demo_p1 demo_h1 sizes \<longrightarrow>
      (\<forall>i < mh_total_parts demo_h1. vp_start (vs_parts (demo_vs demo_later) ! i) = sum_list (take i sizes) \<and>
         vp_size (vs_parts (demo_vs demo_later) ! i) = sizes ! i)"
    by (rule conjunct2 [OF conjunct2 [OF conjunct2 [OF t]]]) simp_all
  from mp [OF spec [OF this, of "[3, 3]"], OF conjI [OF demo_laid_out m]]
  have "1 < mh_total_parts demo_h1 \<longrightarrow> vp_start (vs_parts (demo_vs demo_later) ! 1) = sum_list (take 1 [3, 3]) \<and>
      vp_size (vs_parts (demo_vs demo_later) ! 1) = [3, 3] ! 1" by (rule spec)
  with g show ?thesis unfolding demo_fields(1) by (simp only: one_less_numeral_iff) simp
qed

definition demo_answers :: disc_answers where
  "demo_answers = [(\<lambda>n. if n = 2 then Some demo_p2 else None, demo_world demo_F)]"

lemma demo_answers_ok: "answers_ok demo_F demo_pkg demo_answers"
proof -
  have "mh_part_index demo_h2 = 2" by (simp add: demo_h2_def slice_header_def)
  then show ?thesis
    using demo_world_in demo_slice_ok demo_paths demo_headers demo_F_simps by (simp add: answers_ok_def demo_answers_def)
qed

lemma demo_stream_good:
  assumes "part_good demo_F demo_pkg p2"
  shows "stream_good demo_F demo_pkg (demo_vs p2)"
proof -
  have "part_in demo_pkg \<lparr>vp_path = demo_p1, vp_start = 0, vp_size = 3, vp_data = 4096, vp_fd = None\<rparr> (encode_header demo_h1 @ [1, 2, 3])"
    using demo_slice_ok(1) unfolding slice_ok_def Let_def demo_headers(1) demo_fields by (simp add: part_in_def)
  then have "part_good demo_F demo_pkg \<lparr>vp_path = demo_p1, vp_start = 0, vp_size = 3, vp_data = 4096, vp_fd = None\<rparr>"
    using demo_F_simps by (simp add: part_good_def)
  then show ?thesis using assms
    by (auto simp: stream_good_def demo_vs_def new_stream_def demo_pkg_def less_2_cases_iff)
qed

lemma demo_part2_good: "part_good demo_F demo_pkg demo_part2" "part_good demo_F demo_pkg demo_later"
proof -
  have "part_in demo_pkg demo_part2 (encode_header demo_h2 @ [4, 5, 6])"
    using demo_slice_ok(2) unfolding slice_ok_def Let_def demo_headers(2) demo_fields by (simp add: part_in_def demo_part2_def)
  then show "part_good demo_F demo_pkg demo_part2" "part_good demo_F demo_pkg demo_later"
    using demo_F_simps by (simp_all add: part_good_def demo_part2_def demo_later_def)
qed

lemma demo_mounted: "mounted demo_F demo_pkg (demo_world demo_F) (demo_vs demo_part2)"
proof -
  define ps where "ps = vs_parts (demo_vs demo_part2)"
  have p: "ps ! 0 = \<lparr>vp_path = demo_p1, vp_start = 0, vp_size = 3, vp_data = 4096, vp_fd = None\<rparr>" "ps ! 1 = demo_part2"
    by (simp_all add: ps_def demo_vs_def new_stream_def)
  have n: "vs_total_parts (demo_vs demo_part2) = 2" by (simp add: demo_vs_def new_stream_def)
  have two: "(\<exists>i < (2::nat). P i) = (P 0 \<or> P 1)" "(\<forall>i < (2::nat). P i) = (P 0 \<and> P 1)" for P
    by (auto simp: less_2_cases_iff)
  have "part_mounted (demo_world demo_F) (ps ! 0)" "part_mounted (demo_world demo_F) (ps ! 1)"
    using demo_paths demo_F_simps demo_headers by (simp_all add: part_mounted_def p [unfolded One_nat_def] demo_part2_def demo_world_def)
  then show ?thesis
    using demo_stream_good [OF demo_part2_good(1)] demo_world_in [of demo_F]
    unfolding mounted_def ps_def [symmetric] n two p
    by (auto simp: demo_part2_def demo_pkg_def)
qed

lemma demo_swap_found:
  assumes found: "found 2 = Some demo_p2"
  shows "\<exists>vs'. virtual_stream_read [(found, demo_world demo_F)] (demo_world demo_first) (demo_vs demo_later) 4 2 =
    ([], demo_world demo_F, vs', VRet 2 [5, 6])"
proof -
  have wt: "wd_waiter (demo_world F)" for F by (simp add: demo_world_def)
  define vs where "vs = demo_vs demo_later"
  have f: "vs_total vs = 6" "\<not> vs_is_live vs" "\<not> vs_smb vs" "vs_total_parts vs = 2" "vs_current vs = 1"
    "vs_parts vs = [\<lparr>vp_path = demo_p1, vp_start = 0, vp_size = 3, vp_data = 4096, vp_fd = None\<rparr>, demo_later] @ replicate 254 new_part"
    by (simp_all add: vs_def demo_vs_def new_stream_def)
  define v1 where "v1 = note_part (demo_world demo_first) vs (Suc 1)"
  have v1: "vs_total v1 = 6" "vs_total_parts v1 = 2" "vs_parts v1 = vs_parts vs" "vs_current v1 = 2"
    by (simp_all add: v1_def note_part_def f demo_world_def)
  have pick: "pick_part 0 4 (take 2 (vs_parts vs)) = Some 1"
    unfolding f by (simp add: demo_later_def u64_add_def)
  have nth: "vs_parts vs ! 1 = demo_later" by (simp add: f)
  have lt: "vp_fd demo_later = None" "vp_path demo_later = []" by (simp_all add: demo_later_def)
  have r1: "local_round (demo_world demo_first) vs 4 2 = NeedDisc v1 1"
    using pick nth lt by (simp add: local_round_def f(4) open_part_def v1(3) Let_def wt v1_def [simplified, symmetric])
  define p2 where "p2 = demo_part2\<lparr>vp_fd := Some (encode_header demo_h2 @ [4, 5, 6])\<rparr>"
  define v2 where "v2 = fst (swap_disc (demo_world demo_F) v1 1 demo_p2)"
  have co: "close_others 2 1 (vs_parts vs) ! 1 = demo_later" "length (close_others 2 1 (vs_parts vs)) = 256"
    by (simp_all add: close_others_def f)
  have co0: "close_others 2 1 (vs_parts vs) ! 0 = \<lparr>vp_path = demo_p1, vp_start = 0, vp_size = 3, vp_data = 4096, vp_fd = None\<rparr>"
    by (simp add: close_others_def f)
  have rh: "multipart_read_header (wd_files (demo_world demo_F)) demo_p2 = Inr demo_h2"
    "wd_files (demo_world demo_F) demo_p2 = Some (encode_header demo_h2 @ [4, 5, 6])"
    using demo_read_headers(2) [of demo_F] demo_F_simps by (simp_all add: demo_world_def)
  have sw: "swap_disc (demo_world demo_F) v1 1 demo_p2 = (v2, True)"
    unfolding v2_def by (simp add: swap_disc_def rh)
  have v2: "vs_total v2 = 6" "vs_total_parts v2 = 2" "vs_current v2 = 2" "length (vs_parts v2) = 256"
      "vs_parts v2 ! 0 = \<lparr>vp_path = demo_p1, vp_start = 0, vp_size = 3, vp_data = 4096, vp_fd = None\<rparr>"
      "vs_parts v2 ! 1 = p2"
    using co co0 demo_paths
    by (simp_all add: v2_def swap_disc_def rh set_part_def v1 p2_def demo_part2_def demo_fields c_trunc_short)
  have t2: "take 2 (vs_parts v2) = [vs_parts v2 ! 0, vs_parts v2 ! 1]"
    using v2(4) by (intro nth_equalityI) (auto simp: less_2_cases_iff)
  have d2: "vp_start p2 = 3" "vp_size p2 = 3" "vp_data p2 = 4096" "vp_fd p2 = Some (encode_header demo_h2 @ [4, 5, 6])"
    by (simp_all add: p2_def demo_part2_def)
  have pick2: "pick_part 0 4 (take 2 (vs_parts v2)) = Some 1"
    unfolding t2 v2 by (simp add: d2 u64_add_def)
  have pl: "pread_loop (wd_pread (demo_world demo_F)) (encode_header demo_h2 @ [4, 5, 6]) 4097 2 = Some [5, 6]"
    by (simp add: demo_world_def pread_loop.simps [of 2 _ _ 2] pread_loop.simps [of 2 _ _ 0] demo_headers)
  have tr: "transfer (demo_world demo_F) p2 (encode_header demo_h2 @ [4, 5, 6]) 4 2 = VRet 2 [5, 6]"
    using pl by (simp add: transfer_def d2)
  have cl: "clamp_count v2 4 2 = 2" by (simp add: clamp_count_def v2 u64_add_def)
  have r2: "local_round (demo_world demo_F) v2 4 2 = Done v2 (VRet 2 [5, 6])"
    using pick2 tr cl v2 by (simp add: local_round_def note_part_def open_part_def d2 Let_def)
  show ?thesis
    using r1 sw r2 f found by (simp add: vs_def [symmetric] virtual_stream_read_def numeral_2_eq_2)
qed

lemma demo_swap: "\<exists>vs'. virtual_stream_read demo_answers (demo_world demo_first) (demo_vs demo_later) 4 2 =
    ([], demo_world demo_F, vs', VRet 2 [5, 6])"
  unfolding demo_answers_def by (rule demo_swap_found) simp

theorem stream_read_exact_witness:
  "\<exists>s'. source_good demo_F demo_pkg s' \<and> [5, 6] = take 2 (drop 4 demo_pkg)"
proof -
  obtain vs' where r: "virtual_stream_read demo_answers (demo_world demo_first) (demo_vs demo_later) 4 2 =
      ([], demo_world demo_F, vs', VRet 2 [5, 6])"
    using demo_swap by blast
  have "source_good demo_F demo_pkg (demo_answers, demo_world demo_first, demo_vs demo_later)"
    using demo_answers_ok demo_world_in demo_stream_good [OF demo_part2_good(2)]
    by (simp add: source_good_def demo_pkg_def)
  from stream_read_exact [OF this _ r] have "source_good demo_F demo_pkg ([], demo_world demo_F, vs')" by simp
  moreover have "[5, 6] = take 2 (drop 4 demo_pkg)" by (simp add: demo_pkg_def)
  ultimately show ?thesis by blast
qed

theorem mounted_read_succeeds_witness:
  "\<exists>vs' k bs. virtual_stream_read [] (demo_world demo_F) (demo_vs demo_part2) 4 2 = ([], demo_world demo_F, vs', VRet k bs) \<and>
    0 < k \<and> mounted demo_F demo_pkg (demo_world demo_F) vs'"
  by (rule mounted_read_succeeds [OF demo_mounted]) (simp_all add: demo_pkg_def)

definition demo_stray :: mp_header where
  "demo_stray = demo_h2\<lparr>mh_uuid := replicate 16 8\<rparr>"

definition demo_stage :: string where
  "demo_stage = ''/data/pkgmgr/tmp/part_2.pkg.part''"

definition demo_staged_world :: world where
  "demo_staged_world = (demo_world [demo_p1 \<mapsto> encode_header demo_h1 @ [1, 2, 3], demo_stage \<mapsto> encode_header demo_stray @ [9]])
     \<lparr>wd_finder := None\<rparr>"

lemma demo_staged:
  "tmp_candidate demo_staged_world 2 = demo_stage"
  "multipart_read_header (wd_files demo_staged_world) demo_p1 = Inr demo_h1"
  "multipart_read_header (wd_files demo_staged_world) demo_stage = Inr demo_stray"
  "wd_stat demo_staged_world demo_p1 \<noteq> None" "wd_stat demo_staged_world demo_stage \<noteq> None"
  "wd_finder demo_staged_world = None" "wd_dir demo_staged_world = (\<lambda>_. None)"
proof -
  have p: "demo_p1 \<noteq> demo_stage" "\<not> starts_with ''file://'' demo_stage" "\<not> starts_with ''smb://'' demo_stage"
    "demo_stage \<noteq> []"
    by (simp_all add: demo_p1_def demo_stage_def starts_with_def)
  have "header_lengths demo_stray" "header_ranges demo_stray" "multipart_is_valid_header demo_stray"
    by (simp_all add: header_lengths_def header_ranges_def demo_stray_def demo_h2_def slice_header_def demo_base_def length_magic
        multipart_is_valid_header_def)
  then have h: "header_of (encode_header demo_stray @ [9]) = demo_stray" "length (encode_header demo_stray) = 4096"
    "multipart_is_valid_header demo_stray"
    using header_of_encode length_encode_header by (auto simp: MULTIPART_HEADER_SIZE_def)
  have n2: "show_nat 2 = ''2''" by code_simp
  show "tmp_candidate demo_staged_world 2 = demo_stage"
    using n2 by (simp add: tmp_candidate_def demo_staged_world_def demo_world_def demo_stage_def c_trunc_def)
  show "multipart_read_header (wd_files demo_staged_world) demo_p1 = Inr demo_h1"
    "multipart_read_header (wd_files demo_staged_world) demo_stage = Inr demo_stray"
    "wd_stat demo_staged_world demo_p1 \<noteq> None" "wd_stat demo_staged_world demo_stage \<noteq> None"
    "wd_finder demo_staged_world = None" "wd_dir demo_staged_world = (\<lambda>_. None)"
    using p h demo_headers demo_valid demo_paths
    by (simp_all add: demo_staged_world_def demo_world_def multipart_read_header_def local_path_def MULTIPART_HEADER_SIZE_def)
qed

theorem staged_part_unchecked_witness:
  "\<exists>vs. virtual_stream_open demo_staged_world live_init demo_p1 = (vs, live_init, 0) \<and>
    vs_parts vs ! 1 = \<lparr>vp_path = demo_stage, vp_start = 3, vp_size = 3, vp_data = 4096, vp_fd = None\<rparr>"
proof -
  have s: "mh_part_offset demo_stray = 3" "mh_part_data_size demo_stray = 3" "part_doff demo_stray = 4096"
    by (simp_all add: demo_stray_def demo_h2_def slice_header_def demo_base_def part_doff_def MULTIPART_HEADER_SIZE_def)
  show ?thesis
    using staged_part_unchecked [where W = demo_staged_world and L = live_init and h = demo_h1 and g = demo_stray,
        OF demo_paths(3,5,6) demo_staged(2) demo_fields(1,2) demo_staged(4,6,7)] demo_staged(1,3,5)
    by (simp add: s)
qed


end
