(* ===== verification/StreamServer.thy ===== *)
theory StreamServer
  imports HttpText VirtualStream
begin

text \<open>
  The range server of src/src/stream_server.c: one raw HTTP server on the loopback interface
  that hands a package to the console's installer. The record stream_session is the file's g_ss;
  a connection sees its socket, and what the other threads do to the session meanwhile, through
  the record net. Log output is left out.
\<close>

section \<open>The session\<close>

definition STREAM_SEND_CHUNK :: nat where "STREAM_SEND_CHUNK = 2048 * 1024"
definition STREAM_REQ_MAX :: nat where "STREAM_REQ_MAX = 16 * 1024"
definition STREAM_MAX_TRACKED_FDS :: nat where "STREAM_MAX_TRACKED_FDS = 32"
definition STREAM_MAX_REQ_PER_CONN :: nat where "STREAM_MAX_REQ_PER_CONN = 100"

record stream_session =
  ss_listen_fd :: int
  ss_running :: bool
  ss_thread_created :: bool
  ss_vs :: "vstream option"
  ss_vs_refs :: nat
  ss_stopping :: bool
  ss_total_size :: nat
  ss_live_fds :: "int list"          \<comment> \<open>-1: a free slot\<close>
  ss_session_name :: string          \<comment> \<open>"": any package name\<close>
  ss_icon_data :: "u8 list option"
  ss_icon_size :: nat
  ss_icon_name :: string

definition g_ss_init :: stream_session where
  "g_ss_init =
     \<lparr>ss_listen_fd = - 1, ss_running = False, ss_thread_created = False, ss_vs = None, ss_vs_refs = 0,
      ss_stopping = False, ss_total_size = 0, ss_live_fds = replicate STREAM_MAX_TRACKED_FDS (- 1),
      ss_session_name = [], ss_icon_data = None, ss_icon_size = 0, ss_icon_name = []\<rparr>"

fun first_slot :: "int \<Rightarrow> int list \<Rightarrow> int list" where
  "first_slot fd [] = []"
| "first_slot fd (x # xs) = (if x < 0 then fd # xs else x # first_slot fd xs)"

definition stream_track_add :: "stream_session \<Rightarrow> int \<Rightarrow> stream_session" where
  "stream_track_add S fd = S\<lparr>ss_live_fds := first_slot fd (ss_live_fds S)\<rparr>"

definition stream_track_remove :: "stream_session \<Rightarrow> int \<Rightarrow> stream_session" where
  "stream_track_remove S fd = S\<lparr>ss_live_fds := map (\<lambda>x. if x = fd then - 1 else x) (ss_live_fds S)\<rparr>"

definition stream_vs_acquire :: "stream_session \<Rightarrow> stream_session \<times> vstream option" where
  "stream_vs_acquire S =
     (if ss_running S \<and> ss_vs S \<noteq> None then (S\<lparr>ss_vs_refs := ss_vs_refs S + 1\<rparr>, ss_vs S) else (S, None))"

text \<open>The flag tells whether the condition variable is signalled.\<close>

definition stream_vs_release :: "stream_session \<Rightarrow> stream_session \<times> bool" where
  "stream_vs_release S =
     (let S1 = (if ss_vs_refs S > 0 then S\<lparr>ss_vs_refs := ss_vs_refs S - 1\<rparr> else S)
      in (S1, ss_stopping S1 \<and> ss_vs_refs S1 = 0))"

definition stream_server_set_session_name :: "stream_session \<Rightarrow> string \<Rightarrow> stream_session" where
  "stream_server_set_session_name S nm =
     S\<lparr>ss_session_name := (if nm = [] then [] else c_trunc 128 (base_name nm))\<rparr>"

text \<open>No icon data is the NULL pointer; the last argument is whether malloc succeeds.\<close>

definition stream_server_set_icon :: "stream_session \<Rightarrow> u8 list option \<Rightarrow> string \<Rightarrow> bool \<Rightarrow> stream_session" where
  "stream_server_set_icon S data nm alloc =
     (let S1 = S\<lparr>ss_icon_data := None, ss_icon_size := 0, ss_icon_name := []\<rparr>
      in case data of
        None \<Rightarrow> S1
      | Some bs \<Rightarrow>
          (if length bs > 0 \<and> nm \<noteq> [] \<and> alloc
           then S1\<lparr>ss_icon_data := Some bs, ss_icon_size := length bs, ss_icon_name := c_trunc 128 (base_name nm)\<rparr>
           else S1))"

definition stream_server_is_running :: "stream_session \<Rightarrow> bool" where
  "stream_server_is_running S = ss_running S"

section \<open>The Range header\<close>

text \<open>What a C string function sees of a buffer: the bytes before the first NUL.\<close>

definition c_str :: "string \<Rightarrow> string" where
  "c_str s = takeWhile (\<lambda>c. c \<noteq> NUL) s"

definition stream_header_value :: "string \<Rightarrow> string \<Rightarrow> nat \<Rightarrow> string option" where
  "stream_header_value req name out_sz = has_header (c_str req) name out_sz"

text \<open>A line that begins with the field name, in any case, after optional blanks.\<close>

function range_line :: "string \<Rightarrow> string option" where
  "range_line s =
     (case find_at [CHR 0x0A] s of
        None \<Rightarrow> None
      | Some i \<Rightarrow>
          (let t = dropWhile is_blank (drop (i + 1) s) in
           if iprefix ''range:'' t then Some t else range_line t))"
  by pat_completeness auto
termination
proof (relation "measure length", simp)
  fix s :: string and i t
  assume "find_at [CHR 0x0A] s = Some i" and t: "t = dropWhile is_blank (drop (i + 1) s)"
  then have "s \<noteq> []" by auto
  moreover have "length t \<le> length (drop (i + 1) s)" unfolding t by (rule length_dropWhile_le)
  ultimately show "(t, s) \<in> measure length" by (cases s) auto
qed

declare range_line.simps [simp del]

text \<open>Without such a line: the name anywhere in the request, in one of three spellings.\<close>

definition nearer :: "nat option \<Rightarrow> nat option \<Rightarrow> nat option" where
  "nearer a b = (case (a, b) of (None, _) \<Rightarrow> b | (Some i, None) \<Rightarrow> a | (Some i, Some j) \<Rightarrow> if j < i then b else a)"

definition range_anywhere :: "string \<Rightarrow> string option" where
  "range_anywhere s =
     map_option (\<lambda>i. drop i s)
       (nearer (nearer (find_at ''Range:'' s) (find_at ''range:'' s)) (find_at ''RANGE:'' s))"

datatype range_answer = NoRange | Unsatisfiable | Satisfiable nat nat

text \<open>The bytes asked for, from the header's value on; le is the end of its line.\<close>

definition range_bounds :: "string \<Rightarrow> nat option \<Rightarrow> nat \<Rightarrow> nat \<Rightarrow> nat \<Rightarrow> range_answer" where
  "range_bounds rl le b dash tot =
     (if dash = b
      then (let suffix = min (fst (strtoull (drop (dash + 1) rl))) tot in
            if tot = 0 \<or> suffix = 0 then Unsatisfiable else Satisfiable (tot - suffix) (tot - 1))
      else (let start = fst (strtoull (drop b rl));
                here = (case le of None \<Rightarrow> True | Some l \<Rightarrow> dash + 1 < l);
                end = (if c_at rl (dash + 1) \<noteq> NUL \<and> here \<and> is_digit (c_at rl (dash + 1))
                       then fst (strtoull (drop (dash + 1) rl))
                       else if tot > 0 then tot - 1 else 0)
            in if tot = 0 \<or> start > end \<or> start \<ge> tot then Unsatisfiable
               else Satisfiable start (if end \<ge> tot then tot - 1 else end)))"

definition find_range :: "string \<Rightarrow> nat \<Rightarrow> range_answer" where
  "find_range req tot =
     (case (case range_line (c_str req) of Some rl \<Rightarrow> Some rl | None \<Rightarrow> range_anywhere (c_str req)) of
        None \<Rightarrow> NoRange
      | Some rl \<Rightarrow>
          (let le = find_at CRLF rl; beyond = (\<lambda>i. case le of None \<Rightarrow> False | Some l \<Rightarrow> i > l) in
           case find_at ''bytes='' rl of
             None \<Rightarrow> NoRange
           | Some b \<Rightarrow>
               (if beyond b then NoRange
                else case find_at ''-'' (drop (b + 6) rl) of
                  None \<Rightarrow> NoRange
                | Some d \<Rightarrow> (if beyond (b + 6 + d) then NoRange else range_bounds rl le (b + 6) (b + 6 + d) tot))))"

section \<open>The socket\<close>

text \<open>
  What the calls on a connection's socket answer, and what the reads of g_ss.running by its
  worker find. Past the end of the lists a receive times out, a send takes all it is given and
  the server is running.
\<close>

datatype recv_ev = Data string | RecvIntr | RecvFail
datatype send_ev = Sent nat | SendIntr | SendFail

record net =
  nt_recv :: "recv_ev list"
  nt_send :: "send_ev list"
  nt_run :: "bool list"
  nt_out :: "u8 list"               \<comment> \<open>the bytes sent\<close>
  nt_streamed :: nat                \<comment> \<open>sum of the installer_notify_bytes_streamed calls\<close>

definition emit :: "net \<Rightarrow> u8 list \<Rightarrow> net" where
  "emit N bs = N\<lparr>nt_out := nt_out N @ bs\<rparr>"

function send_all :: "net \<Rightarrow> u8 list \<Rightarrow> net \<times> bool" where
  "send_all N bs =
     (if bs = [] then (N, True)
      else case nt_send N of
        [] \<Rightarrow> (emit N bs, True)
      | SendIntr # es \<Rightarrow> send_all (N\<lparr>nt_send := es\<rparr>) bs
      | SendFail # es \<Rightarrow> (N\<lparr>nt_send := es\<rparr>, False)
      | Sent n # es \<Rightarrow>
          (if n = 0 then (N\<lparr>nt_send := es\<rparr>, False)
           else send_all (emit (N\<lparr>nt_send := es\<rparr>) (take n bs)) (drop n bs)))"
  by pat_completeness auto
termination by (relation "measure (\<lambda>(N, bs). length (nt_send N))") (auto simp: emit_def)

declare send_all.simps [simp del]

definition poll_running :: "net \<Rightarrow> net \<times> bool" where
  "poll_running N = (case nt_run N of [] \<Rightarrow> (N, True) | r # rs \<Rightarrow> (N\<lparr>nt_run := rs\<rparr>, r))"

section \<open>The body of a response\<close>

text \<open>
  The private SMB session of a connection is the reader conn_smb; without one the body comes
  from the session's virtual stream.
\<close>

type_synonym smb_reader = "nat \<Rightarrow> nat \<Rightarrow> int \<times> u8 list"

definition body_read :: "smb_reader option \<Rightarrow> source \<Rightarrow> nat \<Rightarrow> nat \<Rightarrow> source \<times> vs_result" where
  "body_read conn_smb s off want =
     (case conn_smb of
        Some smb \<Rightarrow> (case smb off want of (r, bs) \<Rightarrow> (s, VRet r bs))
      | None \<Rightarrow> source_read s off want)"

text \<open>How the loop ends: at the offset reached, or inside a read that waits for a disc.\<close>

datatype body_end = At nat | InRead

text \<open>
  The loop over off: sbuf is the send buffer, whose first bytes a read replaces. No answer
  (None) is a loop that never ends.
\<close>

partial_function (option) body_loop ::
  "('s \<Rightarrow> nat \<Rightarrow> nat \<Rightarrow> 's \<times> vs_result) \<Rightarrow> nat \<Rightarrow> net \<Rightarrow> 's \<Rightarrow> u8 list \<Rightarrow> nat \<Rightarrow> (net \<times> 's \<times> body_end) option" where
  "body_loop rd hi N s sbuf off =
     (if off > hi then Some (N, s, At off)
      else case poll_running N of (N, run) \<Rightarrow>
        if \<not> run then Some (N, s, At off)
        else case rd s off (min (u64_add (u64_sub hi off) 1) STREAM_SEND_CHUNK) of
          (s', VBlocked) \<Rightarrow> Some (N, s', InRead)
        | (s', VRet n bs) \<Rightarrow>
            (if n \<le> 0 then Some (N, s', At off)
             else let sbuf' = bs @ drop (length bs) sbuf in
               case send_all N (take (nat n) sbuf') of
                 (N', ok) \<Rightarrow>
                   (if \<not> ok then Some (N', s', At off)
                    else body_loop rd hi (N'\<lparr>nt_streamed := u64_add (nt_streamed N') (nat n)\<rparr>) s' sbuf' (u64_add off (nat n)))))"

section \<open>One request\<close>

datatype serve_verdict = SERVE_CLOSE | SERVE_KEEP

record request =
  rq_method :: string
  rq_path :: string
  rq_version :: string

definition parse_line :: "string \<Rightarrow> request" where
  "parse_line req =
     (let line = c_str (take 511 (takeWhile (\<lambda>c. c \<noteq> CHR 0x0D \<and> c \<noteq> CHR 0x0A) req));
          (m, r1) = scan_word 15 line; (p, r2) = scan_word 511 r1
      in \<lparr>rq_method = m, rq_path = p, rq_version = fst (scan_word 15 r2)\<rparr>)"

definition keep_alive_wanted :: "string \<Rightarrow> string \<Rightarrow> bool" where
  "keep_alive_wanted req version =
     (case stream_header_value req ''Connection'' 96 of
        None \<Rightarrow> version = ''HTTP/1.1''
      | Some v \<Rightarrow> \<not> icontains ''close'' v \<and> (icontains ''keep-alive'' v \<or> version = ''HTTP/1.1''))"

definition route_of :: "string \<Rightarrow> string" where
  "route_of path = takeWhile (\<lambda>c. c \<noteq> CHR ''?'') path"

definition is_pkg_name :: "string \<Rightarrow> bool" where
  "is_pkg_name b =
     (let n = length b in n > 4 \<and> b ! (n - 4) = CHR ''.'' \<and> b ! (n - 3) \<in> {CHR ''p'', CHR ''P''} \<and>
        b ! (n - 2) \<in> {CHR ''k'', CHR ''K''} \<and> b ! (n - 1) \<in> {CHR ''g'', CHR ''G''})"

definition line_end :: "string \<Rightarrow> string" where
  "line_end s = s @ CRLF"

definition QUOTE :: char where
  "QUOTE = CHR 0x22"

definition conn_tok :: "bool \<Rightarrow> string" where
  "conn_tok keep = (if keep then ''keep-alive'' else ''close'')"

definition hdr_405 :: "bool \<Rightarrow> string" where
  "hdr_405 keep = line_end ''HTTP/1.1 405 Method Not Allowed'' @ line_end ''Allow: GET, HEAD'' @
     line_end ''Content-Length: 0'' @ line_end (''Connection: '' @ conn_tok keep) @ CRLF"

definition hdr_404 :: "bool \<Rightarrow> string" where
  "hdr_404 keep = line_end ''HTTP/1.1 404 Not Found'' @ line_end ''Content-Length: 0'' @
     line_end (''Connection: '' @ conn_tok keep) @ CRLF"

definition hdr_icon :: "nat \<Rightarrow> bool \<Rightarrow> string" where
  "hdr_icon sz keep = line_end ''HTTP/1.1 200 OK'' @ line_end ''Content-Type: image/png'' @
     line_end (''Content-Length: '' @ show_nat sz) @ line_end (''Connection: '' @ conn_tok keep) @ CRLF"

definition hdr_416 :: "nat \<Rightarrow> bool \<Rightarrow> string" where
  "hdr_416 tot keep = line_end ''HTTP/1.1 416 Range Not Satisfiable'' @
     line_end (''Content-Range: bytes */'' @ show_nat tot) @ line_end ''Accept-Ranges: bytes'' @
     line_end ''Content-Length: 0'' @ line_end (''Connection: '' @ conn_tok keep) @ CRLF"

definition hdr_206 :: "string \<Rightarrow> nat \<Rightarrow> nat \<Rightarrow> nat \<Rightarrow> bool \<Rightarrow> string" where
  "hdr_206 date start end tot keep = line_end ''HTTP/1.1 206 Partial Content'' @ line_end (''Date: '' @ date) @
     line_end ''Last-Modified: Wed, 01 Jan 2025 00:00:00 GMT'' @ line_end ''Content-Type: application/octet-stream'' @
     line_end ''Accept-Ranges: bytes'' @ line_end (''Content-Length: '' @ show_nat (u64_add (u64_sub end start) 1)) @
     line_end (''Content-Range: bytes '' @ show_nat start @ ''-'' @ show_nat end @ ''/'' @ show_nat tot) @
     line_end (''Content-Disposition: attachment; filename='' @ QUOTE # ''package.pkg'' @ [QUOTE]) @ line_end ''Access-Control-Allow-Origin: *'' @
     line_end (''Connection: '' @ conn_tok keep) @ CRLF"

definition hdr_200 :: "string \<Rightarrow> nat \<Rightarrow> bool \<Rightarrow> string" where
  "hdr_200 date tot keep = line_end ''HTTP/1.1 200 OK'' @ line_end (''Date: '' @ date) @
     line_end ''Last-Modified: Wed, 01 Jan 2025 00:00:00 GMT'' @ line_end ''Content-Type: application/octet-stream'' @
     line_end ''Accept-Ranges: bytes'' @ line_end (''Content-Length: '' @ show_nat tot) @
     line_end (''Content-Disposition: attachment; filename='' @ QUOTE # ''package.pkg'' @ [QUOTE]) @ line_end ''Access-Control-Allow-Origin: *'' @
     line_end (''Connection: '' @ conn_tok keep) @ CRLF"

text \<open>What malloc and the clock answer: the date, room for the icon, the fresh send buffer.\<close>

record serve_env =
  se_date :: string
  se_icon_room :: bool
  se_sbuf :: "u8 list option"

text \<open>An answer without a body that decides the verdict by whether it could be sent.\<close>

definition short_answer :: "net \<Rightarrow> string \<Rightarrow> bool \<Rightarrow> net \<times> serve_verdict" where
  "short_answer N h keep =
     (case send_all N (chars_bytes h) of (N', ok) \<Rightarrow> (N', if ok \<and> keep then SERVE_KEEP else SERVE_CLOSE))"

definition icon_answer :: "net \<Rightarrow> u8 list \<Rightarrow> bool \<Rightarrow> bool \<Rightarrow> net \<times> serve_verdict" where
  "icon_answer N icon is_get keep =
     (case send_all N (chars_bytes (hdr_icon (length icon) keep)) of
        (N1, ok) \<Rightarrow>
          (case (if ok \<and> is_get then send_all N1 icon else (N1, ok)) of
             (N2, ok2) \<Rightarrow> (N2, if ok2 \<and> keep then SERVE_KEEP else SERVE_CLOSE)))"

text \<open>What a request is for.\<close>

datatype target = MethodUnknown | NotFound | Icon "u8 list" | Package

definition route_target :: "serve_env \<Rightarrow> stream_session \<Rightarrow> request \<Rightarrow> target" where
  "route_target E S rq =
     (if rq_method rq \<noteq> ''GET'' \<and> rq_method rq \<noteq> ''HEAD'' then MethodUnknown
      else let route = route_of (rq_path rq); b = base_name route in
      if \<not> starts_with ''/stream/'' route then NotFound
      else case (if ss_icon_name S \<noteq> [] \<and> b = ss_icon_name S \<and> ss_icon_size S > 0 \<and> se_icon_room E
                 then ss_icon_data S else None) of
        Some icon \<Rightarrow> Icon icon
      | None \<Rightarrow>
          (if ss_session_name S \<noteq> [] then (if b = ss_session_name S then Package else NotFound)
           else if is_pkg_name b then Package else NotFound))"

text \<open>The body from start to end, the session's stream being pinned while it lasts.\<close>

definition send_body ::
  "serve_env \<Rightarrow> smb_reader option \<Rightarrow> stream_session \<Rightarrow> net \<Rightarrow> source \<Rightarrow> nat \<Rightarrow> nat \<Rightarrow> bool \<Rightarrow>
    (net \<times> source \<times> serve_verdict option) option" where
  "send_body E conn_smb S N s start end keep =
     (case se_sbuf E of
        None \<Rightarrow> Some (N, s, Some SERVE_CLOSE)
      | Some sbuf \<Rightarrow>
          (case poll_running N of
             (N1, run) \<Rightarrow>
               (if \<not> run \<or> ss_vs S = None
                then Some (N1, s, Some (if start > end \<and> keep then SERVE_KEEP else SERVE_CLOSE))
                else map_option (\<lambda>(N2, s', res). (N2, s',
                    case res of At off \<Rightarrow> Some (if off > end \<and> keep then SERVE_KEEP else SERVE_CLOSE) | InRead \<Rightarrow> None))
                  (body_loop (body_read conn_smb) end N1 s sbuf start))))"

definition serve_package ::
  "serve_env \<Rightarrow> smb_reader option \<Rightarrow> stream_session \<Rightarrow> net \<Rightarrow> source \<Rightarrow> string \<Rightarrow> bool \<Rightarrow> bool \<Rightarrow>
    (net \<times> source \<times> serve_verdict option) option" where
  "serve_package E conn_smb S N s req is_head keep =
     (let tot = ss_total_size S; rr = find_range req tot in
      if rr = Unsatisfiable
      then (case short_answer N (hdr_416 tot keep) keep of (N', v) \<Rightarrow> Some (N', s, Some v))
      else let (start, end) = (case rr of Satisfiable a b \<Rightarrow> (a, b) | _ \<Rightarrow> (0, if tot > 0 then tot - 1 else 0));
               h = (if rr = NoRange then hdr_200 (se_date E) tot keep else hdr_206 (se_date E) start end tot keep)
           in if length h \<ge> 1024 then Some (N, s, Some SERVE_CLOSE)
              else case send_all N (chars_bytes h) of
                (N1, ok) \<Rightarrow>
                  (if \<not> ok then Some (N1, s, Some SERVE_CLOSE)
                   else if is_head then Some (N1, s, Some (if keep then SERVE_KEEP else SERVE_CLOSE))
                   else send_body E conn_smb S N1 s start end keep))"

text \<open>No verdict yet: the worker is inside a read that waits for a disc.\<close>

definition serve_one_request ::
  "serve_env \<Rightarrow> smb_reader option \<Rightarrow> stream_session \<Rightarrow> net \<Rightarrow> source \<Rightarrow> string \<Rightarrow>
    (net \<times> source \<times> serve_verdict option) option" where
  "serve_one_request E conn_smb S N s req =
     (let rq = parse_line req; keep = keep_alive_wanted req (rq_version rq);
          answer = (\<lambda>(N', v). Some (N', s, Some v))
      in case route_target E S rq of
        MethodUnknown \<Rightarrow> answer (short_answer N (hdr_405 keep) keep)
      | NotFound \<Rightarrow> answer (short_answer N (hdr_404 keep) keep)
      | Icon icon \<Rightarrow> answer (icon_answer N icon (rq_method rq = ''GET'') keep)
      | Package \<Rightarrow> serve_package E conn_smb S N s req (rq_method rq = ''HEAD'') keep)"

section \<open>A connection\<close>

definition hdr_end :: "string \<Rightarrow> nat option" where
  "hdr_end req = find_at (CRLF @ CRLF) (c_str req)"

text \<open>The receive loop: the rest of the answers, the request so far, and whether a call failed.\<close>

fun recv_request :: "recv_ev list \<Rightarrow> string \<Rightarrow> recv_ev list \<times> string \<times> bool" where
  "recv_request [] req = ([], req, length req < STREAM_REQ_MAX)"
| "recv_request (e # es) req =
     (if length req \<ge> STREAM_REQ_MAX then (e # es, req, False)
      else case e of
        RecvIntr \<Rightarrow> recv_request es req
      | RecvFail \<Rightarrow> (es, req, True)
      | Data cs \<Rightarrow>
          (let room = STREAM_REQ_MAX - length req; req' = req @ take room cs in
           if cs = [] then (es, req, False)
           else if length cs > room then (Data (drop room cs) # es, req', False)
           else if hdr_end req' \<noteq> None then (es, req', False)
           else recv_request es req'))"

text \<open>One request of the keep-alive loop read from what was carried over and the socket.\<close>

definition next_request :: "net \<Rightarrow> string \<Rightarrow> net \<times> string \<times> bool" where
  "next_request N carry =
     (if carry = [] \<or> hdr_end carry = None
      then (case recv_request (nt_recv N) carry of (es, req, err) \<Rightarrow> (N\<lparr>nt_recv := es\<rparr>, req, err))
      else (N, carry, False))"

text \<open>
  The keep-alive loop with k requests left. The end tells whether the worker is still inside a
  read that waits for a disc.
\<close>

datatype conn_end = ConnClosed | ConnInRead

fun conn_loop ::
  "nat \<Rightarrow> serve_env \<Rightarrow> smb_reader option \<Rightarrow> stream_session \<Rightarrow> net \<Rightarrow> source \<Rightarrow> string \<Rightarrow>
    (net \<times> source \<times> conn_end) option" where
  "conn_loop 0 E conn_smb S N s carry = Some (N, s, ConnClosed)"
| "conn_loop (Suc k) E conn_smb S N s carry =
     (case poll_running N of
        (N0, run) \<Rightarrow>
          if \<not> run then Some (N0, s, ConnClosed)
          else case next_request N0 carry of
            (N1, req, err) \<Rightarrow>
              if req = [] \<or> err then Some (N1, s, ConnClosed)
              else let (head, carry', overflow) =
                     (case hdr_end req of Some i \<Rightarrow> (take (i + 4) req, drop (i + 4) req, False) | None \<Rightarrow> (req, [], True))
                   in case serve_one_request E conn_smb S N1 s head of
                        None \<Rightarrow> None
                      | Some (N2, s', None) \<Rightarrow> Some (N2, s', ConnInRead)
                      | Some (N2, s', Some v) \<Rightarrow>
                          if overflow \<or> v = SERVE_CLOSE then Some (N2, s', ConnClosed)
                          else conn_loop k E conn_smb S N2 s' carry')"

definition serve_connection ::
  "serve_env \<Rightarrow> (string \<Rightarrow> smb_reader option) \<Rightarrow> stream_session \<Rightarrow> net \<Rightarrow> source \<Rightarrow> (net \<times> source \<times> conn_end) option" where
  "serve_connection E smb_open S N s =
     (let url = (case stream_vs_acquire S of (_, None) \<Rightarrow> None | (_, Some vs) \<Rightarrow> virtual_stream_get_smb_url vs);
          conn_smb = (case url of None \<Rightarrow> None | Some u \<Rightarrow> smb_open u)
      in conn_loop STREAM_MAX_REQ_PER_CONN E conn_smb S N s [])"

text \<open>The worker of a connection, its socket fd registered for as long as it serves.\<close>

definition connection_worker ::
  "serve_env \<Rightarrow> (string \<Rightarrow> smb_reader option) \<Rightarrow> stream_session \<Rightarrow> net \<Rightarrow> source \<Rightarrow> int \<Rightarrow>
    (net \<times> source \<times> conn_end) option \<times> stream_session" where
  "connection_worker E smb_open S N s fd =
     (let S1 = stream_track_add S fd; res = serve_connection E smb_open S1 N s
      in (res, if res = None \<or> map_option (snd \<circ> snd) res = Some ConnInRead then S1 else stream_track_remove S1 fd))"

section \<open>Starting and stopping\<close>

text \<open>What the system calls of a start answer: the listening socket, bind, listen, pthread_create.\<close>

record start_env =
  st_alloc :: bool
  st_socket :: int
  st_bind :: bool
  st_listen :: bool
  st_thread :: bool

definition no_icon :: "stream_session \<Rightarrow> stream_session" where
  "no_icon S = S\<lparr>ss_icon_data := None, ss_icon_size := 0, ss_icon_name := []\<rparr>"

text \<open>
  The first half of a stop, up to the join: what it shuts down. The second half runs when the
  listener is gone and no request pins the stream.
\<close>

definition stop_begin :: "stream_session \<Rightarrow> stream_session \<times> bool \<times> int list" where
  "stop_begin S =
     (let S1 = (if ss_running S \<or> ss_thread_created S
                then S\<lparr>ss_running := False, ss_stopping := True, ss_thread_created := False\<rparr> else S)
      in (S1\<lparr>ss_listen_fd := - 1, ss_live_fds := map (\<lambda>x. if x \<ge> 0 then - 1 else x) (ss_live_fds S)\<rparr>,
          ss_thread_created S \<and> (ss_running S \<or> ss_thread_created S),
          filter (\<lambda>x. x \<ge> 0) (ss_live_fds S) @ (if ss_listen_fd S \<ge> 0 then [ss_listen_fd S] else [])))"

definition stop_end :: "stream_session \<Rightarrow> live \<Rightarrow> stream_session \<times> live" where
  "stop_end S L =
     ((no_icon S)\<lparr>ss_vs := None, ss_stopping := False, ss_total_size := 0, ss_session_name := []\<rparr>,
      case ss_vs S of None \<Rightarrow> L | Some vs \<Rightarrow> snd (virtual_stream_close vs L))"

text \<open>The whole call, for a session no request of which is in flight (None: it waits).\<close>

definition stream_server_session_stop :: "stream_session \<Rightarrow> live \<Rightarrow> (stream_session \<times> live) option" where
  "stream_server_session_stop S L =
     (case stop_begin S of (S1, _, _) \<Rightarrow> if ss_vs_refs S1 > 0 then None else Some (stop_end S1 L))"

definition start_install :: "stream_session \<Rightarrow> vstream \<Rightarrow> int \<Rightarrow> string \<Rightarrow> stream_session" where
  "start_install S vs fd name =
     (no_icon S)\<lparr>ss_vs := Some vs, ss_vs_refs := 0, ss_stopping := False, ss_total_size := vs_total vs,
        ss_listen_fd := fd, ss_running := True,
        ss_session_name := (if name = [] then [] else c_trunc 128 (base_name name))\<rparr>"

definition start_undo :: "stream_session \<Rightarrow> stream_session" where
  "start_undo S = (no_icon S)\<lparr>ss_running := False, ss_listen_fd := - 1, ss_vs := None, ss_total_size := 0, ss_session_name := []\<rparr>"

definition start_fresh ::
  "start_env \<Rightarrow> world \<Rightarrow> stream_session \<Rightarrow> live \<Rightarrow> string \<Rightarrow> string \<Rightarrow> stream_session \<times> live \<times> int" where
  "start_fresh T W S L path name =
     (if \<not> st_alloc T then (S, L, - 1)
      else case virtual_stream_open W L path of
        (vs, L1, rc) \<Rightarrow>
          (if rc \<noteq> 0 then (S, L1, - 1)
           else if st_socket T < 0 \<or> \<not> st_bind T \<or> \<not> st_listen T
           then (S, snd (virtual_stream_close vs L1), - 1)
           else if \<not> st_thread T
           then (start_undo (start_install S vs (st_socket T) name), snd (virtual_stream_close vs L1), - 1)
           else ((start_install S vs (st_socket T) name)\<lparr>ss_thread_created := True\<rparr>, L1, 0)))"

definition stream_server_session_start_ex ::
  "start_env \<Rightarrow> world \<Rightarrow> stream_session \<Rightarrow> live \<Rightarrow> string \<Rightarrow> string \<Rightarrow> (stream_session \<times> live \<times> int) option" where
  "stream_server_session_start_ex T W S L path name =
     (if path = [] then Some (S, L, - 1)
      else if ss_running S
      then map_option (\<lambda>(S1, L1). start_fresh T W S1 L1 path name) (stream_server_session_stop S L)
      else Some (start_fresh T W S L path name))"

end
