(* ===== verification/StreamBody.thy ===== *)
theory StreamBody
  imports StreamServer VirtualClaims "HOL-Library.Sublist"
begin

text \<open>
  The body of a range response over any source that keeps the contract of ByteSource: the loop
  ends, everything it sends is the package's, and with a full source, an unhurried peer and a
  running server it sends all of it.
\<close>

section \<open>Sending\<close>

definition sends_ok :: "net \<Rightarrow> bool" where
  "sends_ok N = (\<forall>e \<in> set (nt_send N). e \<noteq> SendFail \<and> e \<noteq> Sent 0)"

definition keeps_running :: "net \<Rightarrow> bool" where
  "keeps_running N = (\<forall>r \<in> set (nt_run N). r)"

lemma emit_simps [simp]:
  "nt_out (emit N bs) = nt_out N @ bs" "nt_run (emit N bs) = nt_run N" "nt_recv (emit N bs) = nt_recv N"
  "nt_send (emit N bs) = nt_send N" "nt_streamed (emit N bs) = nt_streamed N"
  by (simp_all add: emit_def)

lemma send_all_spec:
  "send_all N bs = (N', ok) \<Longrightarrow>
    (\<exists>out. nt_out N' = nt_out N @ out \<and> prefix out bs \<and> (ok \<longrightarrow> out = bs)) \<and>
    nt_run N' = nt_run N \<and> nt_recv N' = nt_recv N \<and> nt_streamed N' = nt_streamed N \<and>
    (sends_ok N \<longrightarrow> ok \<and> sends_ok N')"
proof (induction N bs arbitrary: N' ok rule: send_all.induct)
  case (1 N bs)
  note ih = "1.IH" and eq = "1.prems"
  show ?case
  proof (cases "bs = []")
    case True
    then show ?thesis using eq by (simp add: send_all.simps)
  next
    case False
    show ?thesis
    proof (cases "nt_send N")
      case Nil
      then show ?thesis using eq False by (auto simp: send_all.simps sends_ok_def)
    next
      case (Cons e es)
      show ?thesis
      proof (cases e)
        case SendIntr
        then have "send_all (N\<lparr>nt_send := es\<rparr>) bs = (N', ok)" using eq False Cons by (simp add: send_all.simps [of N])
        note later = ih(2) [OF False Cons SendIntr this, simplified]
        have "sends_ok N \<Longrightarrow> sends_ok (N\<lparr>nt_send := es\<rparr>)" using Cons by (simp add: sends_ok_def)
        then show ?thesis using later by blast
      next
        case SendFail
        then show ?thesis using eq False Cons by (auto simp: send_all.simps [of N] sends_ok_def)
      next
        case (Sent n)
        show ?thesis
        proof (cases "n = 0")
          case True
          then show ?thesis using eq False Cons Sent by (auto simp: send_all.simps [of N] sends_ok_def)
        next
          case n: False
          then have r: "send_all (emit (N\<lparr>nt_send := es\<rparr>) (take n bs)) (drop n bs) = (N', ok)"
            using eq False Cons Sent by (simp add: send_all.simps [of N])
          note later = ih(1) [OF False Cons Sent n r, simplified]
          then obtain out where o: "nt_out N' = nt_out N @ take n bs @ out" "prefix out (drop n bs)" "ok \<longrightarrow> out = drop n bs"
            by blast
          have "prefix (take n bs @ out) bs" using o(2) by (metis append_take_drop_id same_prefix_prefix)
          moreover have "ok \<longrightarrow> take n bs @ out = bs" using o(3) by simp
          moreover have "sends_ok N \<Longrightarrow> sends_ok (emit (N\<lparr>nt_send := es\<rparr>) (take n bs))" using Cons by (simp add: sends_ok_def)
          ultimately show ?thesis using o(1) later by blast
        qed
      qed
    qed
  qed
qed

lemma send_allE:
  assumes "send_all N bs = (N', ok)"
  obtains out where "nt_out N' = nt_out N @ out" "prefix out bs" "ok \<Longrightarrow> out = bs"
    "nt_run N' = nt_run N" "nt_recv N' = nt_recv N" "nt_streamed N' = nt_streamed N"
    "sends_ok N \<Longrightarrow> ok \<and> sends_ok N'"
  using send_all_spec [OF assms] by blast

lemma poll_running_spec:
  "poll_running N = (N', r) \<Longrightarrow> nt_out N' = nt_out N \<and> nt_send N' = nt_send N \<and> nt_recv N' = nt_recv N \<and>
    nt_streamed N' = nt_streamed N \<and> (keeps_running N \<longrightarrow> r \<and> keeps_running N')"
  by (auto simp: poll_running_def keeps_running_def split: list.splits)

section \<open>The loop over the package\<close>

lemma want_exact: "off \<le> hi \<Longrightarrow> hi < 2 ^ 63 \<Longrightarrow> u64_add (u64_sub hi off) (Suc 0) = Suc (hi - off)"
  by (simp add: u64_simps)

lemma CHUNK_pos: "0 < STREAM_SEND_CHUNK" "STREAM_SEND_CHUNK < 2 ^ 64"
  by (simp_all add: STREAM_SEND_CHUNK_def)

context byte_source
begin

lemma body_loop_exact:
  assumes "good s" and "hi < length pkg" and "length pkg < 2 ^ 63" and "off \<le> hi + 1"
  shows "\<exists>N' s' r out. body_loop rd hi N s sbuf off = Some (N', s', r) \<and> good s' \<and>
    nt_out N' = nt_out N @ out \<and> prefix out (extent off (hi + 1 - off) pkg) \<and> nt_recv N' = nt_recv N \<and>
    (case r of At off' \<Rightarrow> off' > hi \<longrightarrow> out = extent off (hi + 1 - off) pkg | InRead \<Rightarrow> True)"
  using assms(1,4)
proof (induction "hi + 1 - off" arbitrary: N s sbuf off rule: less_induct)
  case less
  note good = less.prems(1)
  show ?case
  proof (cases "off > hi")
    case True
    then show ?thesis using good
      by (intro exI [of _ N] exI [of _ s] exI [of _ "At off"] exI [of _ "[]"]) (simp add: body_loop.simps [of rd hi])
  next
    case False
    then have off: "off \<le> hi" by simp
    obtain N1 run where p: "poll_running N = (N1, run)" by (metis prod.collapse)
    note ps = poll_running_spec [OF p]
    let ?want = "min (Suc (hi - off)) STREAM_SEND_CHUNK"
    obtain s1 res where rd: "rd s off ?want = (s1, res)" by (metis prod.collapse)
    have w: "?want < 2 ^ 64" using CHUNK_pos(2) by linarith
    have g1: "good s1" by (rule rd_good [OF good w rd])
    have hi: "hi < 2 ^ 63" using assms(2,3) by simp
    note step = body_loop.simps [of rd hi N s sbuf off] p want_exact [OF off hi] rd not_less [THEN iffD2, OF off]
    show ?thesis
    proof (cases "run \<and> (\<exists>n bs. res = VRet n bs \<and> 0 < n)")
      case False
      have "\<exists>s' r. body_loop rd hi N s sbuf off = Some (N1, s', r) \<and> good s' \<and> (r = At off \<or> r = InRead)"
        using False g1 good by (cases run; cases res) (auto simp: step)
      then obtain s' r where "body_loop rd hi N s sbuf off = Some (N1, s', r)" "good s'" "r = At off \<or> r = InRead" by blast
      then show ?thesis using ps off
        by (intro exI [of _ N1] exI [of _ s'] exI [of _ r] exI [of _ "[]"]) auto
    next
      case True
      then obtain n bs where res: "res = VRet n bs" "0 < n" and run: "run" by blast
      from rd_exact [OF good w rd [unfolded res(1)] res(2)] have
        n: "n = int (length bs)" "length bs \<le> ?want" and b: "bs = extent off (length bs) pkg" by simp_all
      define k where "k = length bs"
      have "k \<le> hi - off + 1" using n(2) by (simp add: k_def)
      then have k: "0 < k" "k \<le> hi + 1 - off" "nat n = k" using n(1) res(2) off by (simp_all add: k_def)
      have kn: "nat n = length bs" using k by (simp add: k_def)
      obtain N2 ok where sd: "send_all N1 bs = (N2, ok)" by (metis prod.collapse)
      obtain out where o: "nt_out N2 = nt_out N1 @ out" "prefix out bs" "ok \<Longrightarrow> out = bs" "nt_recv N2 = nt_recv N1"
        using sd by (auto elim: send_allE)
      have part: "extent off (hi + 1 - off) pkg = bs @ extent (off + k) (hi + 1 - (off + k)) pkg"
        using b k(2) extent_append [of off k pkg "hi + 1 - (off + k)"] by (simp only: k_def le_add_diff_inverse diff_diff_left [symmetric])
      show ?thesis
      proof (cases ok)
        case False
        have "prefix out (extent off (hi + 1 - off) pkg)" unfolding part by (rule prefix_prefix [OF o(2)])
        moreover have "body_loop rd hi N s sbuf off = Some (N2, s1, At off)"
          using False res(2) by (simp add: step run res(1) kn sd)
        ultimately show ?thesis using g1 ps o(1,4) off
          by (intro exI [of _ N2] exI [of _ s1] exI [of _ "At off"] exI [of _ out]) simp
      next
        case True
        let ?N = "N2\<lparr>nt_streamed := u64_add (nt_streamed N2) (nat n)\<rparr>"
        let ?sb = "bs @ drop (length bs) sbuf"
        have add: "u64_add off (length bs) = off + k" using k off hi by (simp add: u64_simps k_def)
        have rec: "body_loop rd hi N s sbuf off = body_loop rd hi ?N s1 ?sb (off + k)"
          using True res(2) by (simp add: step run res(1) kn sd add)
        have "\<exists>N' s' r out'. body_loop rd hi ?N s1 ?sb (off + k) = Some (N', s', r) \<and> good s' \<and>
            nt_out N' = nt_out ?N @ out' \<and> prefix out' (extent (off + k) (hi + 1 - (off + k)) pkg) \<and> nt_recv N' = nt_recv ?N \<and>
            (case r of At off' \<Rightarrow> off' > hi \<longrightarrow> out' = extent (off + k) (hi + 1 - (off + k)) pkg | InRead \<Rightarrow> True)"
          using less.hyps [of "off + k" s1 ?N ?sb] g1 k off by simp
        then obtain N' s' r out' where "body_loop rd hi ?N s1 ?sb (off + k) = Some (N', s', r)" "good s'"
            "nt_out N' = nt_out ?N @ out'" "prefix out' (extent (off + k) (hi + 1 - (off + k)) pkg)" "nt_recv N' = nt_recv ?N"
            "case r of At off' \<Rightarrow> off' > hi \<longrightarrow> out' = extent (off + k) (hi + 1 - (off + k)) pkg | InRead \<Rightarrow> True"
          by blast
        then show ?thesis unfolding rec part using o True ps
          by (intro exI [of _ N'] exI [of _ s'] exI [of _ r] exI [of _ "bs @ out'"]) (auto split: body_end.splits)
      qed
    qed
  qed
qed

end

context full_source
begin

lemma body_loop_complete:
  assumes "good s" and "hi < length pkg" and "length pkg < 2 ^ 63" and "off \<le> hi + 1"
    and "keeps_running N" and "sends_ok N"
  shows "\<exists>N' s'. body_loop rd hi N s sbuf off = Some (N', s', At (hi + 1)) \<and> sends_ok N' \<and> keeps_running N'"
  using assms(1,4-6)
proof (induction "hi + 1 - off" arbitrary: N s sbuf off rule: less_induct)
  case less
  show ?case
  proof (cases "off > hi")
    case True
    then have "off = hi + 1" using less.prems(2) by simp
    then show ?thesis using less.prems by (simp add: body_loop.simps [of rd hi])
  next
    case False
    then have off: "off \<le> hi" by simp
    obtain N1 run where p: "poll_running N = (N1, run)" by (metis prod.collapse)
    have ps: "run" "keeps_running N1" "nt_send N1 = nt_send N" using poll_running_spec [OF p] less.prems(3) by auto
    let ?want = "min (Suc (hi - off)) STREAM_SEND_CHUNK"
    have w: "0 < ?want" "?want < 2 ^ 64" using CHUNK_pos by linarith+
    have o: "off < length pkg" using off assms(2) by simp
    obtain s1 n bs where rd: "rd s off ?want = (s1, VRet n bs)" and n0: "0 < n"
      using rd_progress [OF less.prems(1) o w] by blast
    have g1: "good s1" by (rule rd_good [OF less.prems(1) w(2) rd])
    from rd_exact [OF less.prems(1) w(2) rd n0] have n: "n = int (length bs)" "length bs \<le> ?want" by simp_all
    define k where "k = length bs"
    have "k \<le> hi - off + 1" using n(2) by (simp add: k_def)
    then have k: "0 < k" "k \<le> hi + 1 - off" "nat n = k" using n(1) n0 off by (simp_all add: k_def)
    have kn: "nat n = length bs" using k by (simp add: k_def)
    obtain N2 ok where sd: "send_all N1 bs = (N2, ok)" by (metis prod.collapse)
    have s1: "sends_ok N1" using less.prems(4) ps(3) by (simp add: sends_ok_def)
    have o2: "ok" "sends_ok N2" "nt_run N2 = nt_run N1" using s1 send_all_spec [OF sd] by simp_all
    have hi: "hi < 2 ^ 63" using assms(2,3) by simp
    let ?N = "N2\<lparr>nt_streamed := u64_add (nt_streamed N2) (nat n)\<rparr>"
    have add: "u64_add off (length bs) = off + k" using k off hi by (simp add: u64_simps k_def)
    have "body_loop rd hi N s sbuf off = body_loop rd hi ?N s1 (bs @ drop (length bs) sbuf) (off + k)"
      using o2 n0 by (simp add: body_loop.simps [of rd hi N s sbuf off] p want_exact [OF off hi] rd not_less [THEN iffD2, OF off] ps kn sd add)
    moreover have "keeps_running ?N" "sends_ok ?N" using ps(2) o2 by (simp_all add: keeps_running_def sends_ok_def)
    ultimately show ?thesis using less.hyps [of "off + k" s1 ?N] g1 k off by simp
  qed
qed

end

end
