(* ===== verification/StreamClaims.thy ===== *)
theory StreamClaims
  imports StreamBody VirtualClaims
begin

text \<open>
  What the range server guarantees: the answer to a request is the response of a short
  specification, the answers on a connection are those to its requests in their order, ranges
  are what RFC 9110 says, and only the session's package and icon are served.
\<close>

section \<open>The server over the virtual stream\<close>

definition conn_good :: "u8 list \<Rightarrow> smb_reader option \<Rightarrow> bool" where
  "conn_good pkg c =
     (\<forall>f off n r bs. c = Some f \<and> f off n = (r, bs) \<and> 0 < r \<longrightarrow>
        r = int (length bs) \<and> length bs \<le> n \<and> off + length bs \<le> length pkg \<and> bs = extent off (length bs) pkg)"

lemma body_read_None [simp]: "body_read None = source_read"
  by (simp add: body_read_def fun_eq_iff)

interpretation conn_source: byte_source "body_read c" "\<lambda>s. source_good F pkg s \<and> conn_good pkg c" pkg for F pkg c
proof unfold_locales
  fix s off n s' r
  assume g: "source_good F pkg s \<and> conn_good pkg c" and n: "n < 2 ^ 64" and rd: "body_read c s off n = (s', r)"
  show "source_good F pkg s' \<and> conn_good pkg c"
  proof (cases c)
    case None
    then show ?thesis using g vs_source.rd_good [of F pkg s n off s' r] n rd by simp
  next
    case (Some f)
    then show ?thesis using g rd by (auto simp: body_read_def split: prod.splits)
  qed
next
  fix s off n s' k bs
  assume g: "source_good F pkg s \<and> conn_good pkg c" and n: "n < 2 ^ 64" and rd: "body_read c s off n = (s', VRet k bs)" "0 < k"
  show "k = int (length bs) \<and> length bs \<le> n \<and> off + length bs \<le> length pkg \<and> bs = extent off (length bs) pkg"
  proof (cases c)
    case None
    then show ?thesis using g vs_source.rd_exact [of F pkg s n off s' k bs] n rd by simp
  next
    case (Some f)
    obtain r cs where f: "f off n = (r, cs)" by (metis prod.collapse)
    then have "r = k" "cs = bs" using rd Some by (simp_all add: body_read_def)
    then show ?thesis using g Some f rd(2) by (simp add: conn_good_def)
  qed
qed

section \<open>The response a request should get\<close>

definition package_response :: "string \<Rightarrow> u8 list \<Rightarrow> string \<Rightarrow> bool \<Rightarrow> bool \<Rightarrow> u8 list" where
  "package_response date pkg req is_head keep =
     (let tot = length pkg; whole = (\<lambda>h body. chars_bytes h @ (if is_head then [] else body)) in
      case find_range req tot of
        Unsatisfiable \<Rightarrow> chars_bytes (hdr_416 tot keep)
      | NoRange \<Rightarrow> whole (hdr_200 date tot keep) pkg
      | Satisfiable a b \<Rightarrow> whole (hdr_206 date a b tot keep) (extent a (b + 1 - a) pkg))"

definition response :: "serve_env \<Rightarrow> stream_session \<Rightarrow> u8 list \<Rightarrow> string \<Rightarrow> u8 list" where
  "response E S pkg req =
     (let rq = parse_line req; keep = keep_alive_wanted req (rq_version rq)
      in case route_target E S rq of
        MethodUnknown \<Rightarrow> chars_bytes (hdr_405 keep)
      | NotFound \<Rightarrow> chars_bytes (hdr_404 keep)
      | Icon icon \<Rightarrow> chars_bytes (hdr_icon (length icon) keep) @ (if rq_method rq = ''GET'' then icon else [])
      | Package \<Rightarrow> package_response (se_date E) pkg req (rq_method rq = ''HEAD'') keep)"

lemma range_bounds_Satisfiable:
  "range_bounds rl le b dash tot = Satisfiable x y \<Longrightarrow> x \<le> y \<and> y < tot"
  by (auto simp: range_bounds_def Let_def split: if_splits)

lemma find_range_Satisfiable: "find_range req tot = Satisfiable x y \<Longrightarrow> x \<le> y \<and> y < tot"
  by (auto simp: find_range_def Let_def dest: range_bounds_Satisfiable split: option.splits if_splits)

lemma header_fits:
  assumes "length date < 64" and "tot < 2 ^ 64" and "a < 2 ^ 64" and "b < 2 ^ 64"
  shows "length (hdr_206 date a b tot keep) < 1024" and "length (hdr_200 date tot keep) < 1024"
proof -
  have "length (show_nat (u64_add (u64_sub b a) 1)) \<le> 20" by (rule length_show_u64) (rule u64_add_less)
  with assms length_show_u64 [OF assms(2)] length_show_u64 [OF assms(3)] length_show_u64 [OF assms(4)]
  show "length (hdr_206 date a b tot keep) < 1024" and "length (hdr_200 date tot keep) < 1024"
    by (simp_all add: hdr_206_def hdr_200_def line_end_def CRLF_def conn_tok_def)
qed

section \<open>Answering one request\<close>

text \<open>
  The bytes sent between N and N' are the response, or a beginning of it; the connection is kept
  only after the whole of it.
\<close>

definition answered :: "net \<Rightarrow> net \<Rightarrow> serve_verdict option \<Rightarrow> u8 list \<Rightarrow> bool" where
  "answered N N' v resp =
     (\<exists>out. nt_out N' = nt_out N @ out \<and> prefix out resp \<and> (v = Some SERVE_KEEP \<longrightarrow> out = resp) \<and>
        nt_recv N' = nt_recv N)"

lemma answeredI:
  "nt_out N' = nt_out N @ out \<Longrightarrow> prefix out resp \<Longrightarrow> (v = Some SERVE_KEEP \<Longrightarrow> out = resp) \<Longrightarrow>
    nt_recv N' = nt_recv N \<Longrightarrow> answered N N' v resp"
  by (auto simp: answered_def)

lemma short_answer_answered:
  assumes "short_answer N h keep = (N', v)"
  shows "answered N N' (Some v) (chars_bytes h)"
proof -
  obtain N1 ok where sd: "send_all N (chars_bytes h) = (N1, ok)" by (metis prod.collapse)
  then have e: "N' = N1" "v = (if ok \<and> keep then SERVE_KEEP else SERVE_CLOSE)" using assms by (simp_all add: short_answer_def)
  obtain out where "nt_out N1 = nt_out N @ out" "prefix out (chars_bytes h)" "ok \<Longrightarrow> out = chars_bytes h" "nt_recv N1 = nt_recv N"
    using send_allE [OF sd] by metis
  then show ?thesis by (intro answeredI [where out = out]) (simp_all add: e split: if_splits)
qed

lemma answered_append:
  assumes "send_all N h = (N1, ok)" and "ok \<Longrightarrow> answered N1 N' v body"
    and "\<not> ok \<Longrightarrow> N' = N1 \<and> v \<noteq> Some SERVE_KEEP"
  shows "answered N N' v (h @ body)"
proof -
  obtain out where o: "nt_out N1 = nt_out N @ out" "prefix out h" "ok \<Longrightarrow> out = h" "nt_recv N1 = nt_recv N"
    using send_allE [OF assms(1)] by metis
  show ?thesis
  proof (cases ok)
    case True
    obtain out' where "nt_out N' = nt_out N1 @ out'" "prefix out' body" "v = Some SERVE_KEEP \<longrightarrow> out' = body"
      "nt_recv N' = nt_recv N1"
      using assms(2) [OF True] by (auto simp: answered_def)
    then show ?thesis using o True by (intro answeredI [where out = "h @ out'"]) auto
  next
    case False
    then show ?thesis using o assms(3) by (intro answeredI [where out = out]) (auto intro: prefix_prefix)
  qed
qed

lemma answered_nothing: "v \<noteq> Some SERVE_KEEP \<or> resp = [] \<Longrightarrow> answered N N v resp"
  by (rule answeredI [where out = "[]"]) auto

lemma icon_answer_answered:
  assumes "icon_answer N icon is_get keep = (N', v)"
  shows "answered N N' (Some v) (chars_bytes (hdr_icon (length icon) keep) @ (if is_get then icon else []))"
proof -
  obtain N1 ok where sd: "send_all N (chars_bytes (hdr_icon (length icon) keep)) = (N1, ok)" by (metis prod.collapse)
  obtain N2 ok2 where sd2: "send_all N1 icon = (N2, ok2)" by (metis prod.collapse)
  show ?thesis
  proof (rule answered_append [OF sd])
    assume ok: ok
    show "answered N1 N' (Some v) (if is_get then icon else [])"
    proof (cases is_get)
      case True
      have "answered N1 N' (Some v) (icon @ [])"
        using assms sd sd2 True ok
        by (intro answered_append [OF sd2]) (auto simp: icon_answer_def intro!: answered_nothing split: if_splits)
      then show ?thesis using True by simp
    next
      case False
      then show ?thesis using assms sd ok by (auto simp: icon_answer_def intro!: answered_nothing)
    qed
  next
    assume "\<not> ok"
    then show "N' = N1 \<and> Some v \<noteq> Some SERVE_KEEP" using assms sd by (auto simp: icon_answer_def)
  qed
qed

lemma send_body_answered:
  assumes g: "source_good F pkg s" "conn_good pkg c" and hi: "start \<le> hi" "hi < length pkg" "length pkg < 2 ^ 63"
  obtains N' s' v where "send_body E c S N s start hi keep = Some (N', s', v)" "source_good F pkg s'"
    "answered N N' v (extent start (hi + 1 - start) pkg)"
proof (cases "se_sbuf E")
  case None
  then show thesis using g by (intro that [of N s "Some SERVE_CLOSE"]) (auto simp: send_body_def intro: answered_nothing)
next
  case (Some sbuf)
  obtain N1 run where p: "poll_running N = (N1, run)" by (metis prod.collapse)
  note ps = poll_running_spec [OF p]
  show thesis
  proof (cases "run \<and> ss_vs S \<noteq> None")
    case False
    then show thesis using ps g hi Some p
      by (intro that [of N1 s "Some SERVE_CLOSE"] answeredI [where out = "[]"]) (auto simp: send_body_def)
  next
    case True
    obtain N' s' r out where b: "body_loop (body_read c) hi N1 s sbuf start = Some (N', s', r)" "source_good F pkg s'"
      "nt_out N' = nt_out N1 @ out" "prefix out (extent start (hi + 1 - start) pkg)" "nt_recv N' = nt_recv N1"
      "case r of At off' \<Rightarrow> off' > hi \<longrightarrow> out = extent start (hi + 1 - start) pkg | InRead \<Rightarrow> True"
      using conn_source.body_loop_exact [of F pkg s c hi start N1 sbuf] g hi by auto
    let ?v = "case r of At off \<Rightarrow> Some (if off > hi \<and> keep then SERVE_KEEP else SERVE_CLOSE) | InRead \<Rightarrow> None"
    show thesis
    proof (rule that [of N' s' ?v])
      have "\<not> (\<not> run \<or> ss_vs S = None)" using True by simp
      then show "send_body E c S N s start hi keep = Some (N', s', ?v)"
        by (simp only: send_body_def Some p b(1) option.case prod.case if_False option.map)
      show "answered N N' ?v (extent start (hi + 1 - start) pkg)"
        using b(3-6) ps by (intro answeredI [where out = out]) (auto split: body_end.splits if_splits)
    qed (rule b(2))
  qed
qed

text \<open>What is sent for a satisfiable range: a header that fits its buffer, and the bytes a to b.\<close>

lemma serve_package_plan:
  assumes r: "find_range req (length pkg) \<noteq> Unsatisfiable" and pkg: "pkg \<noteq> []" "length pkg < 2 ^ 63"
    and S: "ss_total_size S = length pkg" and E: "length (se_date E) < 64"
  obtains a b h where "a \<le> b" "b < length pkg"
    "\<forall>hd. package_response (se_date E) pkg req hd keep = chars_bytes h @ (if hd then [] else extent a (b + 1 - a) pkg)"
    "\<forall>hd. serve_package E c S N s req hd keep =
      (case send_all N (chars_bytes h) of
         (N1, ok) \<Rightarrow> if \<not> ok then Some (N1, s, Some SERVE_CLOSE)
                    else if hd then Some (N1, s, Some (if keep then SERVE_KEEP else SERVE_CLOSE))
                    else send_body E c S N1 s a b keep)"
proof -
  define a b where "a = (case find_range req (length pkg) of Satisfiable a b \<Rightarrow> a | _ \<Rightarrow> 0)"
    and "b = (case find_range req (length pkg) of Satisfiable a b \<Rightarrow> b | _ \<Rightarrow> length pkg - 1)"
  define h where "h = (if find_range req (length pkg) = NoRange then hdr_200 (se_date E) (length pkg) keep
    else hdr_206 (se_date E) a b (length pkg) keep)"
  have ab: "a \<le> b" "b < length pkg" using find_range_Satisfiable [of req "length pkg"] pkg(1)
    by (auto simp: a_def b_def split: range_answer.split)
  have "extent 0 (length pkg) pkg = pkg" by (simp add: extent_def)
  then have resp: "package_response (se_date E) pkg req hd keep =
      chars_bytes h @ (if hd then [] else extent a (b + 1 - a) pkg)" for hd
    using r pkg(1) by (cases "find_range req (length pkg)") (auto simp: package_response_def a_def b_def h_def)
  have fits: "length h < 1024" using header_fits [OF E, of "length pkg" a b keep] ab pkg(2) by (simp add: h_def)
  have "(case find_range req (length pkg) of Satisfiable a b \<Rightarrow> (a, b) | _ \<Rightarrow> (0, if length pkg > 0 then length pkg - 1 else 0)) = (a, b)"
    using pkg(1) by (simp add: a_def b_def split: range_answer.split)
  then have "serve_package E c S N s req hd keep =
      (case send_all N (chars_bytes h) of
         (N1, ok) \<Rightarrow> if \<not> ok then Some (N1, s, Some SERVE_CLOSE)
                    else if hd then Some (N1, s, Some (if keep then SERVE_KEEP else SERVE_CLOSE))
                    else send_body E c S N1 s a b keep)" for hd
    using r fits by (simp add: serve_package_def S Let_def h_def [symmetric])
  with ab resp show thesis by (intro that [of a b h]) simp_all
qed

lemma serve_package_answered:
  assumes g: "source_good F pkg s" "conn_good pkg c" and pkg: "pkg \<noteq> []" "length pkg < 2 ^ 63"
    and S: "ss_total_size S = length pkg" and E: "length (se_date E) < 64"
  obtains N' s' v where "serve_package E c S N s req is_head keep = Some (N', s', v)" "source_good F pkg s'"
    "answered N N' v (package_response (se_date E) pkg req is_head keep)"
proof (cases "find_range req (length pkg) = Unsatisfiable")
  case True
  obtain N' v where sa: "short_answer N (hdr_416 (length pkg) keep) keep = (N', v)" by (metis prod.collapse)
  then show thesis using True g(1) short_answer_answered [OF sa]
    by (intro that [of N' s "Some v"]) (simp_all add: serve_package_def package_response_def S Let_def)
next
  case False
  obtain a b h where ab: "a \<le> b" "b < length pkg"
    and resp: "\<forall>hd. package_response (se_date E) pkg req hd keep = chars_bytes h @ (if hd then [] else extent a (b + 1 - a) pkg)"
    and sp: "\<forall>hd. serve_package E c S N s req hd keep =
      (case send_all N (chars_bytes h) of
         (N1, ok) \<Rightarrow> if \<not> ok then Some (N1, s, Some SERVE_CLOSE)
                    else if hd then Some (N1, s, Some (if keep then SERVE_KEEP else SERVE_CLOSE))
                    else send_body E c S N1 s a b keep)"
    by (rule serve_package_plan [OF False pkg S E, where c = c and N = N and s = s and keep = keep])
  obtain N1 ok where sd: "send_all N (chars_bytes h) = (N1, ok)" by (metis prod.collapse)
  obtain N2 s2 v2 where sb: "send_body E c S N1 s a b keep = Some (N2, s2, v2)" "source_good F pkg s2"
    "answered N1 N2 v2 (extent a (b + 1 - a) pkg)"
    by (rule send_body_answered [OF g ab pkg(2)])
  let ?res = "if \<not> ok then (N1, s, Some SERVE_CLOSE)
              else if is_head then (N1, s, Some (if keep then SERVE_KEEP else SERVE_CLOSE)) else (N2, s2, v2)"
  have "serve_package E c S N s req is_head keep = Some ?res" using sd sb(1) by (simp add: sp)
  moreover have "answered N (fst ?res) (snd (snd ?res)) (package_response (se_date E) pkg req is_head keep)"
    unfolding resp [rule_format] using sb(3) by (intro answered_append [OF sd]) (auto intro: answered_nothing)
  ultimately show thesis using g(1) sb(2)
    by (intro that [of "fst ?res" "fst (snd ?res)" "snd (snd ?res)"]) simp_all
qed

lemma serve_answered:
  assumes g: "source_good F pkg s" "conn_good pkg c" and pkg: "pkg \<noteq> []" "length pkg < 2 ^ 63"
    and S: "ss_total_size S = length pkg" and E: "length (se_date E) < 64"
  obtains N' s' v where "serve_one_request E c S N s req = Some (N', s', v)" "source_good F pkg s'"
    "answered N N' v (response E S pkg req)"
proof -
  define keep where "keep = keep_alive_wanted req (rq_version (parse_line req))"
  note defs = serve_one_request_def response_def Let_def keep_def [symmetric]
  show thesis
  proof (cases "route_target E S (parse_line req)")
    case MethodUnknown
    obtain N' v where sa: "short_answer N (hdr_405 keep) keep = (N', v)" by (metis prod.collapse)
    then show thesis using MethodUnknown g(1) short_answer_answered [OF sa]
      by (intro that [of N' s "Some v"]) (simp_all add: defs)
  next
    case NotFound
    obtain N' v where sa: "short_answer N (hdr_404 keep) keep = (N', v)" by (metis prod.collapse)
    then show thesis using NotFound g(1) short_answer_answered [OF sa]
      by (intro that [of N' s "Some v"]) (simp_all add: defs)
  next
    case (Icon icon)
    obtain N' v where ia: "icon_answer N icon (rq_method (parse_line req) = ''GET'') keep = (N', v)" by (metis prod.collapse)
    then show thesis using Icon g(1) icon_answer_answered [OF ia]
      by (intro that [of N' s "Some v"]) (simp_all add: defs)
  next
    case Package
    obtain N' s' v where "serve_package E c S N s req (rq_method (parse_line req) = ''HEAD'') keep = Some (N', s', v)"
      "source_good F pkg s'" "answered N N' v (package_response (se_date E) pkg req (rq_method (parse_line req) = ''HEAD'') keep)"
      by (rule serve_package_answered [OF g pkg S E])
    then show thesis using Package by (intro that [of N' s' v]) (simp_all add: defs)
  qed
qed

section \<open>The requests of a connection\<close>

definition inbound :: "recv_ev list \<Rightarrow> string" where
  "inbound es = concat (map (\<lambda>e. case e of Data cs \<Rightarrow> cs | _ \<Rightarrow> []) es)"

lemma inbound_simps [simp]:
  "inbound [] = []" "inbound (Data cs # es) = cs @ inbound es" "inbound (RecvIntr # es) = inbound es"
  "inbound (RecvFail # es) = inbound es"
  by (simp_all add: inbound_def)

lemma recv_request_inbound:
  "recv_request es req = (es', req', err) \<Longrightarrow> req' @ inbound es' = req @ inbound es"
proof (induction es req arbitrary: es' req' err rule: recv_request.induct)
  case (2 e es req)
  show ?case
  proof (cases e)
    case (Data cs)
    define room where "room = STREAM_REQ_MAX - length req"
    have "cs = take room cs @ drop room cs" by simp
    then show ?thesis using 2 Data
      by (auto simp: Let_def room_def [symmetric] split: if_splits)
  qed (use 2 in \<open>auto split: if_splits\<close>)
qed simp

lemma next_request_inbound:
  "next_request N carry = (N', req, err) \<Longrightarrow>
    req @ inbound (nt_recv N') = carry @ inbound (nt_recv N) \<and> nt_out N' = nt_out N"
  by (auto simp: next_request_def dest: recv_request_inbound split: if_splits prod.splits)

lemma hdr_end_take: "hdr_end req = Some i \<Longrightarrow> hdr_end (take (i + 4) req) = Some i \<and> i + 4 \<le> length req"
proof -
  assume h: "hdr_end req = Some i"
  have l: "length (CRLF @ CRLF) = 4" by (simp add: CRLF_def)
  have "find_at (CRLF @ CRLF) (take (i + 4) (c_str req)) = Some i"
    using find_at_take [of "CRLF @ CRLF" "c_str req" i] h l by (simp add: hdr_end_def)
  moreover have "i + 4 \<le> length (c_str req)" using find_at_Some [of "CRLF @ CRLF" "c_str req" i] h l by (simp add: hdr_end_def)
  moreover have "length (c_str req) \<le> length req" by (simp add: c_str_def length_takeWhile_le)
  ultimately show ?thesis by (simp add: hdr_end_def c_str_def takeWhile_take)
qed

text \<open>The answers to the requests reqs, all but the last of them complete heads.\<close>

definition exchange :: "(string \<Rightarrow> u8 list) \<Rightarrow> net \<Rightarrow> net \<Rightarrow> string list \<Rightarrow> bool" where
  "exchange resp N N' reqs =
     ((\<exists>out. nt_out N' = nt_out N @ out \<and> prefix out (concat (map resp reqs))) \<and>
      (\<forall>r \<in> set (butlast reqs). hdr_end r = Some (length r - 4)))"

lemma exchange_nothing: "nt_out N' = nt_out N \<Longrightarrow> exchange resp N N' []"
  by (simp add: exchange_def)

lemma exchange_Cons:
  assumes "answered N N1 v (resp r)" and "v \<noteq> Some SERVE_KEEP \<Longrightarrow> N' = N1 \<and> reqs = []"
    and "v = Some SERVE_KEEP \<Longrightarrow> exchange resp N1 N' reqs" and "reqs \<noteq> [] \<Longrightarrow> hdr_end r = Some (length r - 4)"
  shows "exchange resp N N' (r # reqs)"
proof -
  obtain out where o: "nt_out N1 = nt_out N @ out" "prefix out (resp r)" "v = Some SERVE_KEEP \<longrightarrow> out = resp r"
    using assms(1) by (auto simp: answered_def)
  show ?thesis
  proof (cases "v = Some SERVE_KEEP")
    case True
    then obtain out' where "nt_out N' = nt_out N1 @ out'" "prefix out' (concat (map resp reqs))"
      and b: "\<forall>r \<in> set (butlast reqs). hdr_end r = Some (length r - 4)"
      using assms(3) by (auto simp: exchange_def)
    then have "nt_out N' = nt_out N @ (resp r @ out')" "prefix (resp r @ out') (concat (map resp (r # reqs)))"
      using o True by simp_all
    then show ?thesis using b assms(4) unfolding exchange_def by (metis butlast.simps(2) in_set_butlastD set_ConsD empty_iff list.set(1))
  next
    case False
    then show ?thesis using o assms(2) unfolding exchange_def by (intro conjI exI [of _ out]) auto
  qed
qed

lemma conn_loop_exchange:
  assumes "source_good F pkg s" "conn_good pkg c" and pkg: "pkg \<noteq> []" "length pkg < 2 ^ 63"
    and S: "ss_total_size S = length pkg" and E: "length (se_date E) < 64"
  shows "\<exists>N' s' e reqs rest. conn_loop k E c S N s carry = Some (N', s', e) \<and> exchange (response E S pkg) N N' reqs \<and>
    carry @ inbound (nt_recv N) = concat reqs @ rest \<and> length reqs \<le> k"
  using assms(1,2)
proof (induction k arbitrary: N s carry)
  case 0
  show ?case
    by (intro exI [of _ N] exI [of _ s] exI [of _ ConnClosed] exI [of _ "[]"] exI [of _ "carry @ inbound (nt_recv N)"])
      (simp add: exchange_nothing)
next
  case (Suc k)
  obtain N0 run where p: "poll_running N = (N0, run)" by (metis prod.collapse)
  have p0: "nt_out N0 = nt_out N" "nt_recv N0 = nt_recv N" using poll_running_spec [OF p] by simp_all
  obtain N1 req err where nr: "next_request N0 carry = (N1, req, err)" by (metis prod_cases3)
  note ni = next_request_inbound [OF nr]
  show ?case
  proof (cases "run \<and> req \<noteq> [] \<and> \<not> err")
    case False
    then have "\<exists>M. conn_loop (Suc k) E c S N s carry = Some (M, s, ConnClosed) \<and> nt_out M = nt_out N"
      using p p0 nr ni by auto
    then show ?thesis using exchange_nothing by (metis concat.simps(1) append_Nil le0 list.size(3))
  next
    case True
    define i where "i = hdr_end req"
    define head where "head = (case i of Some i \<Rightarrow> take (i + 4) req | None \<Rightarrow> req)"
    define carry' where "carry' = (case i of Some i \<Rightarrow> drop (i + 4) req | None \<Rightarrow> [])"
    have split: "(case hdr_end req of Some i \<Rightarrow> (take (i + 4) req, drop (i + 4) req, False) | None \<Rightarrow> (req, [], True)) =
        (head, carry', i = None)" by (simp add: i_def head_def carry'_def split: option.split)
    have whole: "head @ carry' = req" by (simp add: head_def carry'_def split: option.split)
    have hd: "i \<noteq> None \<Longrightarrow> hdr_end head = Some (length head - 4)"
      using hdr_end_take [of req] by (auto simp: i_def head_def)
    obtain N2 s2 v where sv: "serve_one_request E c S N1 s head = Some (N2, s2, v)" "source_good F pkg s2"
      and a: "answered N1 N2 v (response E S pkg head)"
      by (rule serve_answered [OF Suc.prems pkg S E])
    have n2: "nt_recv N2 = nt_recv N1" using a by (auto simp: answered_def)
    have a0: "exchange (response E S pkg) N1 N' reqs' \<Longrightarrow> exchange (response E S pkg) N N' reqs'" for N' reqs'
      using p0 ni by (simp add: exchange_def)
    have bytes: "carry @ inbound (nt_recv N) = head @ carry' @ inbound (nt_recv N2)"
      using ni p0 n2 whole by (metis append_assoc)
    note step = conn_loop.simps(2) [of k E c S N s carry] p nr split sv(1) Let_def
    show ?thesis
    proof (cases "i \<noteq> None \<and> v = Some SERVE_KEEP")
      case False
      have "exchange (response E S pkg) N1 N2 [head]"
        using a by (auto simp: exchange_def answered_def)
      moreover have "\<exists>e. conn_loop (Suc k) E c S N s carry = Some (N2, s2, e)"
        using True False by (cases v; cases "the v") (auto simp: step)
      then obtain e where "conn_loop (Suc k) E c S N s carry = Some (N2, s2, e)" by blast
      ultimately show ?thesis using bytes a0
        by (intro exI [of _ N2] exI [of _ s2] exI [of _ e] exI [of _ "[head]"] exI [of _ "carry' @ inbound (nt_recv N2)"]) simp
    next
      case go: True
      obtain N' s' e reqs rest where r: "conn_loop k E c S N2 s2 carry' = Some (N', s', e)"
        "exchange (response E S pkg) N2 N' reqs" "carry' @ inbound (nt_recv N2) = concat reqs @ rest" "length reqs \<le> k"
        using Suc.IH [OF sv(2) Suc.prems(2), of N2 carry'] by blast
      have "exchange (response E S pkg) N1 N' (head # reqs)"
        using go hd r(2) by (intro exchange_Cons [where resp = "response E S pkg", OF a]) simp_all
      moreover have "conn_loop (Suc k) E c S N s carry = Some (N', s', e)" using True go r(1) by (auto simp: step)
      ultimately show ?thesis using bytes r(3,4) a0
        by (intro exI [of _ N'] exI [of _ s'] exI [of _ e] exI [of _ "head # reqs"] exI [of _ rest]) simp
    qed
  qed
qed

section \<open>Complete delivery\<close>

lemma send_body_complete:
  assumes m: "mounted_source F pkg s" and hi: "start \<le> hi" "hi < length pkg" "length pkg < 2 ^ 63"
    and N: "keeps_running N" "sends_ok N" and E: "se_sbuf E = Some sbuf" "ss_vs S \<noteq> None"
  shows "\<exists>N' s'. send_body E None S N s start hi keep = Some (N', s', Some (if keep then SERVE_KEEP else SERVE_CLOSE)) \<and>
    nt_out N' = nt_out N @ extent start (hi + 1 - start) pkg"
proof -
  obtain N1 run where p: "poll_running N = (N1, run)" by (metis prod.collapse)
  have ps: "run" "keeps_running N1" "sends_ok N1" "nt_out N1 = nt_out N"
    using poll_running_spec [OF p] N by (auto simp: sends_ok_def)
  obtain N' s' where b: "body_loop source_read hi N1 s sbuf start = Some (N', s', At (hi + 1))"
    using mounted_stream.body_loop_complete [of F pkg s hi start N1 sbuf] m hi ps by auto
  have "nt_out N' = nt_out N1 @ extent start (hi + 1 - start) pkg"
    using vs_source.body_loop_exact [of F pkg s hi start N1 sbuf] mounted_source_good [OF m] hi b by auto
  moreover have "\<not> (\<not> run \<or> ss_vs S = None)" using ps E by simp
  ultimately show ?thesis using ps(4) b
    by (cases s') (simp only: send_body_def E(1) p option.case prod.case if_False body_read_None option.map body_end.case, simp)
qed

text \<open>C2: A range request for the session's package is answered in full: when all parts are
  mounted, the server keeps running, memory is there and the peer takes what it is sent, the
  worker sends the header and every byte of the range (whatever the sizes of the reads, the
  sends and the parts), and then keeps or closes the connection as the request asked.\<close>

theorem request_answered_in_full:
  assumes m: "mounted_source F pkg s" and pkg: "pkg \<noteq> []" "length pkg < 2 ^ 63"
    and S: "ss_total_size S = length pkg" "ss_vs S \<noteq> None" and E: "length (se_date E) < 64" "se_sbuf E \<noteq> None"
    and N: "keeps_running N" "sends_ok N" and t: "route_target E S (parse_line req) = Package"
    and r: "find_range req (length pkg) \<noteq> Unsatisfiable"
  shows "\<exists>N' s'. serve_one_request E None S N s req =
      Some (N', s', Some (if keep_alive_wanted req (rq_version (parse_line req)) then SERVE_KEEP else SERVE_CLOSE)) \<and>
    nt_out N' = nt_out N @ response E S pkg req"
proof -
  define keep where "keep = keep_alive_wanted req (rq_version (parse_line req))"
  obtain sbuf where sb: "se_sbuf E = Some sbuf" using E(2) by blast
  obtain a b h where ph: "a \<le> b" "b < length pkg"
    and resp: "\<forall>hd. package_response (se_date E) pkg req hd keep = chars_bytes h @ (if hd then [] else extent a (b + 1 - a) pkg)"
    and sp: "\<forall>hd. serve_package E None S N s req hd keep =
      (case send_all N (chars_bytes h) of
         (N1, ok) \<Rightarrow> if \<not> ok then Some (N1, s, Some SERVE_CLOSE)
                    else if hd then Some (N1, s, Some (if keep then SERVE_KEEP else SERVE_CLOSE))
                    else send_body E None S N1 s a b keep)"
    by (rule serve_package_plan [OF r pkg S(1) E(1), where c = None and N = N and s = s and keep = keep])
  obtain N1 ok where sd: "send_all N (chars_bytes h) = (N1, ok)" by (metis prod.collapse)
  have N1: "ok" "nt_out N1 = nt_out N @ chars_bytes h" "keeps_running N1" "sends_ok N1"
    using send_all_spec [OF sd] N by (auto simp: keeps_running_def)
  obtain N2 s2 where sb2: "send_body E None S N1 s a b keep = Some (N2, s2, Some (if keep then SERVE_KEEP else SERVE_CLOSE))"
    "nt_out N2 = nt_out N1 @ extent a (b + 1 - a) pkg"
    using send_body_complete [OF m ph(1,2) pkg(2) N1(3,4) sb S(2)] by blast
  define is_head where "is_head = (rq_method (parse_line req) = ''HEAD'')"
  define N3 s3 where "N3 = (if is_head then N1 else N2)" and "s3 = (if is_head then s else s2)"
  have "serve_one_request E None S N s req = serve_package E None S N s req is_head keep"
    and "response E S pkg req = package_response (se_date E) pkg req is_head keep"
    using t by (simp_all add: serve_one_request_def response_def Let_def keep_def is_head_def)
  moreover have "serve_package E None S N s req is_head keep = Some (N3, s3, Some (if keep then SERVE_KEEP else SERVE_CLOSE))"
    using sp N1(1) sd sb2(1) by (simp add: N3_def s3_def)
  moreover have "nt_out N3 = nt_out N @ package_response (se_date E) pkg req is_head keep"
    using resp N1(2) sb2(2) by (simp add: N3_def)
  ultimately show ?thesis unfolding keep_def [symmetric] by metis
qed

section \<open>A whole connection\<close>

text \<open>C1: Whatever a client sends in whatever pieces, and however its reads, the discs and the
  sends go, a connection ends within a hundred requests, and everything it was sent is the
  responses to the requests it sent, in their order and none left out: each request is the next
  stretch of the input up to a blank line, and only the last answer can be cut short.\<close>

theorem connection_answers:
  assumes g: "source_good F pkg s" and smb: "\<And>u. conn_good pkg (smb_open u)"
    and pkg: "pkg \<noteq> []" "length pkg < 2 ^ 63" and S: "ss_total_size S = length pkg" and E: "length (se_date E) < 64"
  shows "\<exists>N' s' e reqs rest. serve_connection E smb_open S N s = Some (N', s', e) \<and>
    inbound (nt_recv N) = concat reqs @ rest \<and> length reqs \<le> 100 \<and> exchange (response E S pkg) N N' reqs"
proof -
  have none: "conn_good pkg None" by (simp add: conn_good_def)
  define c where "c = (case (case stream_vs_acquire S of (_, None) \<Rightarrow> None | (_, Some vs) \<Rightarrow> virtual_stream_get_smb_url vs) of
    None \<Rightarrow> None | Some u \<Rightarrow> smb_open u)"
  have "conn_good pkg c" using smb none by (simp add: c_def split: option.split)
  moreover have "serve_connection E smb_open S N s = conn_loop 100 E c S N s []"
    by (simp add: serve_connection_def c_def STREAM_MAX_REQ_PER_CONN_def)
  ultimately show ?thesis using conn_loop_exchange [OF g _ pkg S E, of c 100 N "[]"] by (simp only: append_Nil) blast
qed

section \<open>A package served\<close>

text \<open>The package of VirtualClaims on two discs, to a client that reads slowly.\<close>

definition demo_req :: string where
  "demo_req = ''GET /stream/a.pkg?r=1 HTTP/1.1'' @ CRLF @ ''Host: x'' @ CRLF @ CRLF"

definition demo_env :: serve_env where
  "demo_env = \<lparr>se_date = ''Wed, 01 Jan 2025 00:00:00 GMT'', se_icon_room = True, se_sbuf = Some [9, 9, 9]\<rparr>"

definition demo_session :: stream_session where
  "demo_session = g_ss_init\<lparr>ss_running := True, ss_vs := Some (demo_vs demo_part2), ss_total_size := 6\<rparr>"

definition demo_net :: "recv_ev list \<Rightarrow> net" where
  "demo_net es = \<lparr>nt_recv = es, nt_send = [Sent 3, SendIntr, Sent 500, Sent 1], nt_run = [True, True], nt_out = [], nt_streamed = 0\<rparr>"

lemma demo_mounted_source: "mounted_source demo_F demo_pkg ([], demo_world demo_F, demo_vs demo_part2)"
  using demo_mounted by (simp add: mounted_source_def answers_ok_def)

lemma demo_request:
  "parse_line demo_req = \<lparr>rq_method = ''GET'', rq_path = ''/stream/a.pkg?r=1'', rq_version = ''HTTP/1.1''\<rparr>"
  "route_of ''/stream/a.pkg?r=1'' = ''/stream/a.pkg''" "base_name ''/stream/a.pkg'' = ''a.pkg''" "is_pkg_name ''a.pkg''"
  "starts_with ''/stream/'' ''/stream/a.pkg''" "find_range demo_req 6 = NoRange" "keep_alive_wanted demo_req ''HTTP/1.1''"
  by code_simp+

lemma demo_route: "route_target demo_env demo_session (parse_line demo_req) = Package"
proof -
  have "ss_icon_name demo_session = []" "ss_session_name demo_session = []"
    by (simp_all add: demo_session_def g_ss_init_def)
  then show ?thesis by (simp only: route_target_def demo_request request.simps Let_def) simp
qed

theorem request_answered_in_full_witness:
  "\<exists>N' s'. serve_one_request demo_env None demo_session (demo_net []) ([], demo_world demo_F, demo_vs demo_part2) demo_req =
      Some (N', s', Some SERVE_KEEP) \<and>
    nt_out N' = response demo_env demo_session demo_pkg demo_req"
proof -
  have p: "demo_pkg \<noteq> []" "length demo_pkg < 2 ^ 63" "length demo_pkg = 6" by (simp_all add: demo_pkg_def)
  have s: "ss_total_size demo_session = length demo_pkg" "ss_vs demo_session \<noteq> None"
    by (simp_all add: demo_session_def g_ss_init_def p)
  have e: "length (se_date demo_env) < 64" "se_sbuf demo_env \<noteq> None" by (simp_all add: demo_env_def)
  have n: "keeps_running (demo_net [])" "sends_ok (demo_net [])" "nt_out (demo_net []) = []"
    by (simp_all add: demo_net_def keeps_running_def sends_ok_def)
  have r: "find_range demo_req (length demo_pkg) \<noteq> Unsatisfiable" by (simp only: p(3) demo_request(6)) simp
  have k: "keep_alive_wanted demo_req (rq_version (parse_line demo_req))"
    by (simp only: demo_request(1) request.simps demo_request(7))
  show ?thesis
    using request_answered_in_full [OF demo_mounted_source p(1,2) s e n(1,2) demo_route r] by (simp only: k n(3) if_True append_Nil)
qed

theorem connection_answers_witness:
  "\<exists>N' s' e reqs rest. serve_connection demo_env (\<lambda>_. None) demo_session (demo_net [Data (take 10 demo_req), Data (drop 10 demo_req)])
      ([], demo_world demo_F, demo_vs demo_part2) = Some (N', s', e) \<and> demo_req = concat reqs @ rest"
proof -
  have p: "demo_pkg \<noteq> []" "length demo_pkg < 2 ^ 63" by (simp_all add: demo_pkg_def)
  have s: "ss_total_size demo_session = length demo_pkg" by (simp add: demo_session_def g_ss_init_def demo_pkg_def)
  have e: "length (se_date demo_env) < 64" by (simp add: demo_env_def)
  have c: "conn_good demo_pkg None" by (simp add: conn_good_def)
  have i: "inbound (nt_recv (demo_net [Data (take 10 demo_req), Data (drop 10 demo_req)])) = demo_req"
    by (simp add: demo_net_def)
  show ?thesis
    using connection_answers [OF mounted_source_good [OF demo_mounted_source] c p s e,
        of "demo_net [Data (take 10 demo_req), Data (drop 10 demo_req)]"]
    unfolding i by blast
qed

end
