(* ===== verification/RangeClaims.thy ===== *)
theory RangeClaims
  imports StreamServer
begin

text \<open>
  Range headers: the three forms of RFC 9110 are read as the standard says, wherever in the
  request the header stands and whatever the case of its name; and what the reader makes of
  malformed ones.
\<close>

section \<open>Searching in a request\<close>

lemma find_at_first: "c \<notin> set a \<Longrightarrow> find_at (c # p) (a @ c # p @ s) = Some (length a)"
proof (induction a)
  case Nil
  then show ?case by (simp add: starts_with_def)
next
  case (Cons x a)
  then have "\<not> starts_with (c # p) (x # a @ c # p @ s)" by (auto simp: starts_with_def)
  with Cons show ?case by simp
qed

lemma cstr_bytes_id: "NUL \<notin> set s \<Longrightarrow> c_str s = s"
  by (auto simp: c_str_def takeWhile_eq_all_conv)

lemma range_line_skip:
  assumes "CHR 0x0A \<notin> set h"
  shows "range_line (h @ CRLF @ s) =
    (let t = dropWhile is_blank s in if iprefix ''range:'' t then Some t else range_line t)"
proof -
  have "find_at [CHR 0x0A] ((h @ [CHR 0x0D]) @ CHR 0x0A # [] @ s) = Some (length (h @ [CHR 0x0D]))"
    using assms by (intro find_at_first) auto
  then have f: "find_at [CHR 0x0A] (h @ CRLF @ s) = Some (length h + 1)" by (simp add: CRLF_def)
  have d: "drop (length h + 1 + 1) (h @ CRLF @ s) = s" by (simp add: CRLF_def)
  show ?thesis by (simp only: range_line.simps [of "h @ CRLF @ s"] f option.case d)
qed

text \<open>A header line that is not a Range line.\<close>

definition other_line :: "string \<Rightarrow> bool" where
  "other_line h = (CHR 0x0A \<notin> set h \<and> \<not> iprefix ''range:'' (dropWhile is_blank h))"

lemma iprefix_stop: "iprefix p (h @ c # s) \<Longrightarrow> lower c \<notin> set (map lower p) \<Longrightarrow> iprefix p h"
proof (cases "length p \<le> length h")
  case False
  assume i: "iprefix p (h @ c # s)" and n: "lower c \<notin> set (map lower p)"
  have "map lower p ! length h = lower c"
    using False i unfolding iprefix_def by (simp add: nth_append)
  moreover have "map lower p ! length h \<in> set (map lower p)" using False by (intro nth_mem) simp
  ultimately show ?thesis using n by simp
qed (simp add: iprefix_def)

lemma other_line_text:
  assumes "other_line h"
  shows "\<not> iprefix ''range:'' (dropWhile is_blank (h @ CRLF @ s))"
    and "dropWhile is_blank (h @ CRLF @ s) = dropWhile is_blank h @ CRLF @ s"
    and "CHR 0x0A \<notin> set (dropWhile is_blank h)"
proof -
  show t: "dropWhile is_blank (h @ CRLF @ s) = dropWhile is_blank h @ CRLF @ s"
    by (induction h) (simp_all add: CRLF_def is_blank_def)
  have "lower (CHR 0x0D) \<notin> set (map lower ''range:'')" by code_simp
  then show "\<not> iprefix ''range:'' (dropWhile is_blank (h @ CRLF @ s))"
    using assms iprefix_stop [of "''range:''" "dropWhile is_blank h" "CHR 0x0D" "CHR 0x0A # s"]
    unfolding t by (auto simp: other_line_def CRLF_def)
  show "CHR 0x0A \<notin> set (dropWhile is_blank h)"
    using assms by (auto simp: other_line_def dest: set_dropWhileD)
qed

lemma range_line_found:
  assumes "CHR 0x0A \<notin> set l" and "\<forall>h \<in> set hs. other_line h" and "iprefix ''range:'' s"
    and "s = c # cs" "\<not> is_blank c"
  shows "range_line (l @ CRLF @ concat (map (\<lambda>h. h @ CRLF) hs) @ s) = Some s"
  using assms(1,2)
proof (induction hs arbitrary: l)
  case Nil
  have "dropWhile is_blank s = s" using assms(4,5) by simp
  then show ?case using Nil assms(3) range_line_skip [of l s] by simp
next
  case (Cons h hs)
  have h: "other_line h" using Cons.prems by simp
  note o = other_line_text(1,2) [OF h, of "concat (map (\<lambda>h. h @ CRLF) hs) @ s"]
  have "range_line (l @ CRLF @ concat (map (\<lambda>h. h @ CRLF) (h # hs)) @ s) =
      range_line (dropWhile is_blank h @ CRLF @ concat (map (\<lambda>h. h @ CRLF) hs) @ s)"
    using o range_line_skip [OF Cons.prems(1), of "h @ CRLF @ concat (map (\<lambda>h. h @ CRLF) hs) @ s"] by simp
  then show ?case using Cons.IH [OF other_line_text(3) [OF h]] Cons.prems(2) by simp
qed

section \<open>The three forms\<close>

datatype range_form = FromTo nat nat | From nat | Suffix nat

fun range_text :: "range_form \<Rightarrow> string" where
  "range_text (FromTo a b) = show_nat a @ ''-'' @ show_nat b"
| "range_text (From a) = show_nat a @ ''-''"
| "range_text (Suffix n) = ''-'' @ show_nat n"

fun range_fits :: "range_form \<Rightarrow> bool" where
  "range_fits (FromTo a b) = (a < 2 ^ 64 \<and> b < 2 ^ 64)"
| "range_fits (From a) = (a < 2 ^ 64)"
| "range_fits (Suffix n) = (n < 2 ^ 64)"

fun range_meaning :: "range_form \<Rightarrow> nat \<Rightarrow> range_answer" where
  "range_meaning (FromTo a b) tot =
     (if a \<le> b \<and> a < tot then Satisfiable a (min b (tot - 1)) else Unsatisfiable)"
| "range_meaning (From a) tot = (if a < tot then Satisfiable a (tot - 1) else Unsatisfiable)"
| "range_meaning (Suffix n) tot =
     (if 0 < n \<and> 0 < tot then Satisfiable (tot - min n tot) (tot - 1) else Unsatisfiable)"

lemma range_name:
  assumes "ieq nm ''range''"
  shows "length nm = 5" and "NUL \<notin> set nm" and "CHR 0x0D \<notin> set nm" and "CHR ''b'' \<notin> set nm"
    and "iprefix ''range:'' (nm @ '':'' @ s)" and "\<exists>c cs. nm = c # cs \<and> \<not> is_blank c"
proof -
  have m: "map lower nm = map lower ''range''" using assms by (simp add: ieq_def)
  then show l: "length nm = 5" by (metis length_map list.size(3,4) numeral_eq_Suc One_nat_def add_Suc_right add_0_right pred_numeral_simps BitM.simps)
  have low: "lower c \<in> set (map lower ''range'')" if "c \<in> set nm" for c
    using that by (metis image_eqI list.set_map m)
  have "lower NUL \<notin> set (map lower ''range'')" "lower (CHR 0x0D) \<notin> set (map lower ''range'')"
    "lower (CHR ''b'') \<notin> set (map lower ''range'')" "lower (CHR '' '') \<notin> set (map lower ''range'')"
    "lower (CHR 0x09) \<notin> set (map lower ''range'')" by code_simp+
  then have n: "NUL \<notin> set nm" "CHR 0x0D \<notin> set nm" "CHR ''b'' \<notin> set nm" "CHR '' '' \<notin> set nm" "CHR 0x09 \<notin> set nm"
    using low by metis+
  then show "NUL \<notin> set nm" "CHR 0x0D \<notin> set nm" "CHR ''b'' \<notin> set nm" by simp_all
  show "iprefix ''range:'' (nm @ '':'' @ s)" using m l by (simp add: iprefix_def)
  show "\<exists>c cs. nm = c # cs \<and> \<not> is_blank c" using l n(4,5) by (cases nm) (auto simp: is_blank_def)
qed

text \<open>A Range header line of the request: the positions its reader finds.\<close>

lemma find_range_header:
  assumes rl: "range_line (c_str req) = Some rl" "rl = nm @ '': bytes='' @ body @ CRLF @ rest"
    and nm: "ieq nm ''range''" and body: "CHR 0x0D \<notin> set body" and d: "find_at ''-'' (body @ CRLF @ rest) = Some d" "d < length body"
  shows "find_range req tot = range_bounds rl (Some (13 + length body)) 13 (13 + d) tot"
proof -
  note n = range_name [OF nm]
  have "CHR 0x0D \<notin> set (nm @ '': bytes='' @ body)" using n(3) body by simp
  from find_at_first [OF this, of "[CHR 0x0A]" rest] have le: "find_at CRLF rl = Some (13 + length body)"
    by (simp add: rl(2) CRLF_def n(1))
  have "CHR ''b'' \<notin> set (nm @ '': '')" using n(4) by simp
  from find_at_first [OF this, of "''ytes=''" "body @ CRLF @ rest"] have b: "find_at ''bytes='' rl = Some 7"
    by (simp add: rl(2) n(1))
  have dr: "drop 13 rl = body @ CRLF @ rest" by (simp add: rl(2) n(1))
  show ?thesis using d le b dr by (simp add: find_range_def rl(1) Let_def)
qed

lemma not_digit_CRLF: "CRLF @ rest = [] \<or> \<not> is_digit (hd (CRLF @ rest))"
  by (simp add: CRLF_def is_digit_def)

lemma find_at_dash:
  assumes "\<And>c. c \<in> set a \<Longrightarrow> is_digit c"
  shows "find_at ''-'' (a @ CHR ''-'' # s) = Some (length a)"
proof -
  have "CHR ''-'' \<notin> set a" using assms is_digit_not_sign by blast
  from find_at_first [OF this, of "[]" s] show ?thesis by simp
qed

lemma range_bounds_meaning:
  assumes rl: "drop 13 rl = range_text f @ CRLF @ rest" "13 < length rl" and f: "range_fits f"
    and d: "find_at ''-'' (range_text f @ CRLF @ rest) = Some d"
  shows "range_bounds rl (Some (13 + length (range_text f))) 13 (13 + d) tot = range_meaning f tot"
proof -
  have dg: "\<And>n c. c \<in> set (show_nat n) \<Longrightarrow> is_digit c" "\<And>n. show_nat n \<noteq> []" using show_nat_digits by blast+
  have dr: "drop (13 + k) rl = drop k (range_text f @ CRLF @ rest)" for k by (metis add.commute drop_drop rl(1))
  have ca: "c_at rl (13 + k) = c_at (range_text f @ CRLF @ rest) k" for k
  proof -
    have "length rl - 13 = length (range_text f @ CRLF @ rest)" using arg_cong [OF rl(1), of length] by simp
    moreover have "13 + k < length rl \<Longrightarrow> rl ! (13 + k) = drop 13 rl ! k" by simp
    ultimately show ?thesis using rl by (auto simp: c_at_def)
  qed
  show ?thesis
  proof (cases f)
    case (FromTo a b)
    have dd: "d = length (show_nat a)" using d find_at_dash [of "show_nat a"] dg by (simp add: FromTo)
    have s: "strtoull (drop 13 rl) = (a, ''-'' @ show_nat b @ CRLF @ rest)"
      "strtoull (drop (13 + d + 1) rl) = (b, CRLF @ rest)"
      using f strtoull_show_nat [of a "''-'' @ show_nat b @ CRLF @ rest"] strtoull_show_nat [OF _ not_digit_CRLF, of b rest]
      by (simp_all only: add.assoc dr) (simp_all add: rl(1) FromTo dd is_digit_def)
    obtain x xs where x: "show_nat b = x # xs" "is_digit x" using dg by (metis list.exhaust list.set_intros(1))
    have c: "c_at rl (13 + d + 1) = x" using ca [of "d + 1"] by (simp add: FromTo dd x c_at_def nth_append)
    have nn: "x \<noteq> NUL" using x(2) by (auto simp: is_digit_def NUL_def)
    have "d \<noteq> 0" using dg(2) by (simp add: dd)
    then show ?thesis using s c nn x f
      by (simp add: range_bounds_def Let_def FromTo dd)
  next
    case (From a)
    have dd: "d = length (show_nat a)" using d find_at_dash [of "show_nat a"] dg by (simp add: From)
    have s: "strtoull (drop 13 rl) = (a, ''-'' @ CRLF @ rest)"
      using f strtoull_show_nat [of a "''-'' @ CRLF @ rest"] by (simp add: rl(1) From is_digit_def)
    have "d \<noteq> 0" using dg(2) by (simp add: dd)
    then show ?thesis using s f by (auto simp add: range_bounds_def Let_def From dd)
  next
    case (Suffix n)
    have dd: "d = 0" using d by (simp add: Suffix starts_with_def)
    have s: "strtoull (drop 14 rl) = (n, CRLF @ rest)"
      using f strtoull_show_nat [OF _ not_digit_CRLF, of n rest] dr [of 1] by (simp add: Suffix)
    then show ?thesis by (auto simp add: range_bounds_def Let_def Suffix dd min_def)
  qed
qed

text \<open>C8: A Range header means what RFC 9110 says. In a request with any other header lines
  before and anything after it, with the field name in any case, "a-b", "a-" and "-n" give the
  first and last byte of the range clipped to the package, and exactly the ranges that start
  past its end, are empty or run backwards are unsatisfiable.\<close>

theorem range_header_meaning:
  assumes l: "CHR 0x0A \<notin> set l" and hs: "\<forall>h \<in> set hs. other_line h" and nm: "ieq nm ''range''" and f: "range_fits f"
    and nul: "NUL \<notin> set l" "\<forall>h \<in> set hs. NUL \<notin> set h" "NUL \<notin> set rest"
  shows "find_range (l @ CRLF @ concat (map (\<lambda>h. h @ CRLF) hs) @ nm @ '': bytes='' @ range_text f @ CRLF @ rest) tot =
    range_meaning f tot"
proof -
  define rl where "rl = nm @ '': bytes='' @ range_text f @ CRLF @ rest"
  note n = range_name [OF nm]
  have dg: "\<And>n c. c \<in> set (show_nat n) \<Longrightarrow> is_digit c" using show_nat_digits by blast
  have tx: "c \<in> set (range_text f) \<Longrightarrow> is_digit c \<or> c = CHR ''-''" for c using dg by (cases f) auto
  have nodig: "\<not> is_digit NUL" "\<not> is_digit (CHR 0x0D)" by (simp_all add: is_digit_def NUL_def)
  have "NUL \<notin> set rl" using n(2) nul(3) tx [of NUL] nodig by (auto simp: rl_def CRLF_def NUL_def)
  then have "NUL \<notin> set (l @ CRLF @ concat (map (\<lambda>h. h @ CRLF) hs) @ rl)" using nul by (auto simp: CRLF_def NUL_def)
  then have "c_str (l @ CRLF @ concat (map (\<lambda>h. h @ CRLF) hs) @ rl) = l @ CRLF @ concat (map (\<lambda>h. h @ CRLF) hs) @ rl"
    by (rule cstr_bytes_id)
  moreover obtain c cs where "rl = c # cs" "\<not> is_blank c" using n(6) by (auto simp: rl_def)
  ultimately have line: "range_line (c_str (l @ CRLF @ concat (map (\<lambda>h. h @ CRLF) hs) @ rl)) = Some rl"
    using range_line_found [OF l hs, of rl c cs] n(5) [of "'' bytes='' @ range_text f @ CRLF @ rest"] by (simp add: rl_def)
  have d: "\<exists>d < length (range_text f). find_at ''-'' (range_text f @ CRLF @ rest) = Some d"
  proof (cases f)
    case (Suffix k)
    then show ?thesis by (simp add: starts_with_def)
  qed (use find_at_dash dg in auto)
  then obtain d where d: "d < length (range_text f)" "find_at ''-'' (range_text f @ CRLF @ rest) = Some d" by blast
  have "CHR 0x0D \<notin> set (range_text f)" using tx nodig by blast
  from find_range_header [OF line rl_def nm this d(2,1)]
  have "find_range (l @ CRLF @ concat (map (\<lambda>h. h @ CRLF) hs) @ rl) tot =
      range_bounds rl (Some (13 + length (range_text f))) 13 (13 + d) tot" .
  moreover have "drop 13 rl = range_text f @ CRLF @ rest" "13 < length rl"
    using n(1) d(1) by (simp_all add: rl_def CRLF_def)
  ultimately show ?thesis using range_bounds_meaning [OF _ _ f d(2), of rl tot] by (simp add: rl_def)
qed

theorem range_header_meaning_witness:
  "find_range (''GET /stream/a.pkg HTTP/1.1'' @ CRLF @ concat (map (\<lambda>h. h @ CRLF) [''Host: x'']) @
     ''raNGe'' @ '': bytes='' @ range_text (FromTo 2 900) @ CRLF @ CRLF) 10 = Satisfiable 2 9"
proof -
  have "CHR 0x0A \<notin> set ''GET /stream/a.pkg HTTP/1.1''" "\<forall>h \<in> set [''Host: x'']. other_line h" "ieq ''raNGe'' ''range''"
    "NUL \<notin> set ''GET /stream/a.pkg HTTP/1.1''" "\<forall>h \<in> set [''Host: x'']. NUL \<notin> set h" "NUL \<notin> set CRLF" by code_simp+
  moreover have "range_fits (FromTo 2 900)" by simp
  moreover have "range_meaning (FromTo 2 900) 10 = Satisfiable 2 9" by simp
  ultimately show ?thesis by (metis range_header_meaning)
qed

text \<open>Text that no part of a range value: no digit, blank, sign or NUL.\<close>

definition junk :: "string \<Rightarrow> bool" where
  "junk x = (x \<noteq> [] \<and> (\<forall>c \<in> set x. \<not> is_digit c \<and> \<not> is_space c \<and> c \<noteq> CHR ''-'' \<and> c \<noteq> CHR ''+'' \<and> c \<noteq> NUL))"

lemma strtoull_junk: "junk x \<Longrightarrow> strtoull (x @ s) = (0, x @ s)"
  by (cases x) (auto simp: junk_def strtoull_def)

text \<open>A malformed range is answered instead of ignored: whatever stands between "bytes=" and
  the dash and does not begin with a number counts as offset 0, so "bytes=x-5" is served as the
  first six bytes, with status 206.\<close>

theorem malformed_range_served:
  assumes l: "CHR 0x0A \<notin> set l" and nul: "NUL \<notin> set l" and x: "junk x" and b: "b < 2 ^ 64" "b < tot"
  shows "find_range (l @ CRLF @ ''Range: bytes='' @ x @ ''-'' @ show_nat b @ CRLF @ CRLF) tot = Satisfiable 0 b"
proof -
  define body where "body = x @ ''-'' @ show_nat b"
  define rl where "rl = ''Range'' @ '': bytes='' @ body @ CRLF @ CRLF"
  have nm: "ieq ''Range'' ''range''" by code_simp
  note n = range_name [OF nm]
  have dg: "\<And>n c. c \<in> set (show_nat n) \<Longrightarrow> is_digit c" using show_nat_digits by blast
  have nodig: "\<not> is_digit NUL" "\<not> is_digit (CHR 0x0D)" "is_space (CHR 0x0D)" by (simp_all add: is_digit_def is_space_def NUL_def)
  have bd: "NUL \<notin> set body" "CHR 0x0D \<notin> set body"
    using x dg nodig by (auto simp: body_def junk_def NUL_def)
  then have "NUL \<notin> set (l @ CRLF @ rl)" using nul n(2) by (auto simp: rl_def CRLF_def NUL_def)
  then have line: "range_line (c_str (l @ CRLF @ rl)) = Some rl"
    using range_line_found [OF l, of "[]" rl "CHR ''R''" "tl rl"] n(5)
    by (simp add: cstr_bytes_id) (simp add: rl_def is_blank_def)
  have "CHR ''-'' \<notin> set x" using x by (auto simp: junk_def)
  from find_at_first [OF this, of "[]" "show_nat b @ CRLF @ CRLF"]
  have d: "find_at ''-'' (body @ CRLF @ CRLF) = Some (length x)" by (simp add: body_def)
  have "length x < length body" by (simp add: body_def)
  from find_range_header [OF line rl_def nm bd(2) d this]
  have fr: "find_range (l @ CRLF @ rl) tot = range_bounds rl (Some (13 + length body)) 13 (13 + length x) tot" .
  have dr: "drop 13 rl = body @ CRLF @ CRLF" by (simp add: rl_def)
  have dr2: "drop (13 + length x + 1) rl = show_nat b @ CRLF @ CRLF"
  proof -
    have "drop (13 + length x + 1) rl = drop (length x + 1) (drop 13 rl)" by (simp only: drop_drop ac_simps)
    then show ?thesis by (simp only: dr) (simp add: body_def)
  qed
  obtain y ys where y: "show_nat b = y # ys" "is_digit y" using dg show_nat_digits [of b] by (metis list.exhaust list.set_intros(1))
  have "c_at rl (13 + length x + 1) = y" using y(1) by (simp add: c_at_def rl_def body_def nth_append)
  moreover have "strtoull (drop 13 rl) = (0, body @ CRLF @ CRLF)" using strtoull_junk [OF x] by (simp add: dr body_def)
  moreover have "strtoull (drop (13 + length x + 1) rl) = (b, CRLF @ CRLF)"
    using strtoull_show_nat [OF b(1) not_digit_CRLF] by (simp only: dr2)
  moreover have "y \<noteq> NUL" using y(2) nodig(1) by auto
  ultimately have "range_bounds rl (Some (13 + length body)) 13 (13 + length x) tot = Satisfiable 0 b"
    using x y b(2) by (simp add: range_bounds_def Let_def body_def junk_def)
  then show ?thesis using fr by (simp add: rl_def body_def)
qed

theorem malformed_range_served_witness:
  "find_range (''GET /stream/a.pkg HTTP/1.1'' @ CRLF @ ''Range: bytes='' @ ''x'' @ ''-'' @ show_nat 5 @ CRLF @ CRLF) 10 =
    Satisfiable 0 5"
proof -
  have "CHR 0x0A \<notin> set ''GET /stream/a.pkg HTTP/1.1''" "NUL \<notin> set ''GET /stream/a.pkg HTTP/1.1''" "junk ''x''" by code_simp+
  then show ?thesis using malformed_range_served [of "''GET /stream/a.pkg HTTP/1.1''" "''x''" 5 10] by simp
qed

end
