(* ===== verification/StreamSystem.thy ===== *)
theory StreamSystem
  imports StreamServer VirtualClaims
begin

text \<open>
  The threads around the range server's session: installer threads that start and stop it,
  workers that pin its stream for a body. Each step is one critical section of
  src/src/stream_server.c; a stop is the sequence of its sections, with the join of the listener
  and the wait on vs_cond between them.
\<close>

section \<open>Steps\<close>

text \<open>
  Where a stop call is: joining the listener, holding the mutex before the test of vs_refs,
  asleep on vs_cond, returned.
\<close>

datatype stop_phase = Joining | Checking | Asleep | Stopped

record srv =
  sv_ss :: stream_session
  sv_live :: live
  sv_gen :: nat                  \<comment> \<open>number of the installed stream\<close>
  sv_pins :: "nat list"          \<comment> \<open>the streams the bodies in flight hold, by number\<close>
  sv_stops :: "stop_phase list"  \<comment> \<open>the stop calls so far\<close>
  sv_freed :: "nat set"          \<comment> \<open>the streams closed and freed\<close>

definition srv_init :: "live \<Rightarrow> srv" where
  "srv_init L = \<lparr>sv_ss = g_ss_init, sv_live = L, sv_gen = 0, sv_pins = [], sv_stops = [], sv_freed = {}\<rparr>"

definition no_stop :: "srv \<Rightarrow> bool" where
  "no_stop V = (\<forall>p \<in> set (sv_stops V). p = Stopped)"

text \<open>overlap: whether a start or stop may come while another thread's stop is under way.\<close>

inductive srv_step :: "bool \<Rightarrow> srv \<Rightarrow> srv \<Rightarrow> bool" for overlap where
  step_start: "overlap \<or> no_stop V \<Longrightarrow> \<not> ss_running (sv_ss V) \<Longrightarrow>
    start_fresh T W (sv_ss V) (sv_live V) path name = (S', L', rc) \<Longrightarrow>
    srv_step overlap V (V\<lparr>sv_ss := S', sv_live := L', sv_gen := (if rc = 0 then sv_gen V + 1 else sv_gen V)\<rparr>)"
| step_name: "srv_step overlap V (V\<lparr>sv_ss := stream_server_set_session_name (sv_ss V) name\<rparr>)"
| step_icon: "srv_step overlap V (V\<lparr>sv_ss := stream_server_set_icon (sv_ss V) data name alloc\<rparr>)"
| step_add: "srv_step overlap V (V\<lparr>sv_ss := stream_track_add (sv_ss V) fd\<rparr>)"
| step_remove: "srv_step overlap V (V\<lparr>sv_ss := stream_track_remove (sv_ss V) fd\<rparr>)"
| step_acquire: "stream_vs_acquire (sv_ss V) = (S', Some vs) \<Longrightarrow>
    srv_step overlap V (V\<lparr>sv_ss := S', sv_pins := sv_pins V @ [sv_gen V]\<rparr>)"
| step_release: "sv_pins V = xs @ g # ys \<Longrightarrow> stream_vs_release (sv_ss V) = (S', signal) \<Longrightarrow>
    \<not> signal \<or> Asleep \<notin> set (sv_stops V) \<Longrightarrow>
    srv_step overlap V (V\<lparr>sv_ss := S', sv_pins := xs @ ys\<rparr>)"
| step_wake: "sv_pins V = xs @ g # ys \<Longrightarrow> stream_vs_release (sv_ss V) = (S', True) \<Longrightarrow>
    i < length (sv_stops V) \<Longrightarrow> sv_stops V ! i = Asleep \<Longrightarrow>
    srv_step overlap V (V\<lparr>sv_ss := S', sv_pins := xs @ ys, sv_stops := (sv_stops V)[i := Checking]\<rparr>)"
| step_stop: "overlap \<or> no_stop V \<Longrightarrow> stop_begin (sv_ss V) = (S', joined, kicked) \<Longrightarrow>
    srv_step overlap V (V\<lparr>sv_ss := S', sv_stops := sv_stops V @ [Joining]\<rparr>)"
| step_join: "i < length (sv_stops V) \<Longrightarrow> sv_stops V ! i = Joining \<Longrightarrow>
    srv_step overlap V (V\<lparr>sv_stops := (sv_stops V)[i := Checking]\<rparr>)"
| step_wait: "i < length (sv_stops V) \<Longrightarrow> sv_stops V ! i = Checking \<Longrightarrow> ss_vs_refs (sv_ss V) > 0 \<Longrightarrow>
    srv_step overlap V (V\<lparr>sv_stops := (sv_stops V)[i := Asleep]\<rparr>)"
| step_spurious: "i < length (sv_stops V) \<Longrightarrow> sv_stops V ! i = Asleep \<Longrightarrow>
    srv_step overlap V (V\<lparr>sv_stops := (sv_stops V)[i := Checking]\<rparr>)"
| step_end: "i < length (sv_stops V) \<Longrightarrow> sv_stops V ! i = Checking \<Longrightarrow> ss_vs_refs (sv_ss V) = 0 \<Longrightarrow>
    stop_end (sv_ss V) (sv_live V) = (S', L') \<Longrightarrow>
    srv_step overlap V (V\<lparr>sv_ss := S', sv_live := L', sv_stops := (sv_stops V)[i := Stopped],
      sv_freed := (if ss_vs (sv_ss V) = None then sv_freed V else insert (sv_gen V) (sv_freed V))\<rparr>)"

inductive srv_reach :: "bool \<Rightarrow> srv \<Rightarrow> bool" for overlap where
  reach_init: "srv_reach overlap (srv_init L)"
| reach_step: "srv_reach overlap V \<Longrightarrow> srv_step overlap V V' \<Longrightarrow> srv_reach overlap V'"

section \<open>One stop at a time\<close>

text \<open>
  The invariant of a session whose callers do not overlap: the count is the number of pins, all
  on the installed stream; only the latest stop can be under way, and it sleeps only while
  somebody is there to wake it.
\<close>

definition srv_inv :: "srv \<Rightarrow> bool" where
  "srv_inv V =
     (ss_vs_refs (sv_ss V) = length (sv_pins V) \<and> (\<forall>g \<in> set (sv_pins V). g = sv_gen V) \<and>
      (sv_pins V \<noteq> [] \<longrightarrow> ss_vs (sv_ss V) \<noteq> None) \<and> (ss_running (sv_ss V) \<longrightarrow> ss_vs (sv_ss V) \<noteq> None) \<and>
      (ss_vs (sv_ss V) \<noteq> None \<longrightarrow> sv_gen V \<notin> sv_freed V) \<and> (\<forall>g \<in> sv_freed V. g \<le> sv_gen V) \<and>
      (\<forall>p \<in> set (butlast (sv_stops V)). p = Stopped) \<and>
      (no_stop V \<and> \<not> ss_running (sv_ss V) \<longrightarrow> ss_vs (sv_ss V) = None) \<and>
      (\<not> no_stop V \<longrightarrow> \<not> ss_running (sv_ss V) \<and> (sv_pins V \<noteq> [] \<longrightarrow> ss_stopping (sv_ss V))) \<and>
      (Asleep \<in> set (sv_stops V) \<longrightarrow> sv_pins V \<noteq> []))"

lemma no_stop_snoc: "no_stop (V\<lparr>sv_stops := xs @ [p]\<rparr>) = ((\<forall>q \<in> set xs. q = Stopped) \<and> p = Stopped)"
  by (auto simp: no_stop_def)

text \<open>A stop that has not returned is the latest one.\<close>

lemma active_last:
  assumes "\<forall>p \<in> set (butlast xs). p = Stopped" and "i < length xs" and "xs ! i \<noteq> Stopped"
  shows "\<exists>ys. xs = ys @ [xs ! i] \<and> (\<forall>p \<in> set ys. p = Stopped) \<and> xs[i := q] = ys @ [q]"
proof -
  have ne: "xs \<noteq> []" using assms(2) by auto
  have i: "i = length xs - 1"
  proof (rule ccontr)
    assume "i \<noteq> length xs - 1"
    then have "i < length (butlast xs)" using assms(2) by simp
    then show False using assms(1,3) by (metis nth_butlast nth_mem)
  qed
  have "xs = butlast xs @ [xs ! i]" using ne i by (metis append_butlast_last_id last_conv_nth)
  moreover have "(butlast xs @ [xs ! i])[i := q] = butlast xs @ [q]" using i by (simp add: list_update_append)
  ultimately show ?thesis using assms(1) by metis
qed

text \<open>The fields of the session the invariant speaks about.\<close>

lemma start_fresh_fields:
  assumes "start_fresh T W S L path name = (S', L', rc)"
  shows "rc = 0 \<Longrightarrow> ss_running S' \<and> ss_vs S' \<noteq> None \<and> ss_vs_refs S' = 0 \<and> \<not> ss_stopping S'"
    and "rc \<noteq> 0 \<Longrightarrow> S' = S \<or> \<not> ss_running S' \<and> ss_vs S' = None \<and> ss_vs_refs S' = 0"
  using assms by (auto simp: start_fresh_def start_install_def start_undo_def no_icon_def split: if_splits prod.splits)

lemma stop_begin_fields:
  assumes "stop_begin S = (S', j, k)"
  shows "\<not> ss_running S'" "ss_vs S' = ss_vs S" "ss_vs_refs S' = ss_vs_refs S"
    "ss_stopping S' = (ss_running S \<or> ss_thread_created S \<or> ss_stopping S)"
  using assms by (cases "ss_running S"; cases "ss_thread_created S"; auto simp: stop_begin_def Let_def)+

lemma stop_end_fields:
  assumes "stop_end S L = (S', L')"
  shows "ss_vs S' = None" "ss_vs_refs S' = ss_vs_refs S" "ss_running S' = ss_running S"
  using assms by (auto simp: stop_end_def no_icon_def)

lemma acquire_fields:
  assumes "stream_vs_acquire S = (S', Some vs)"
  shows "ss_running S" "ss_running S' = ss_running S" "ss_vs S' = ss_vs S" "ss_vs S = Some vs"
    "ss_vs_refs S' = ss_vs_refs S + 1" "ss_stopping S' = ss_stopping S"
  using assms by (auto simp: stream_vs_acquire_def split: if_splits)

lemma release_fields:
  assumes "stream_vs_release S = (S', signal)"
  shows "ss_running S' = ss_running S" "ss_vs S' = ss_vs S" "ss_vs_refs S' = ss_vs_refs S - 1"
    "ss_stopping S' = ss_stopping S" "signal = (ss_stopping S \<and> ss_vs_refs S \<le> 1)"
  using assms by (cases "ss_vs_refs S > 0"; auto simp: stream_vs_release_def Let_def)+

lemma setter_fields [simp]:
  "ss_running (stream_server_set_session_name S nm) = ss_running S" "ss_vs (stream_server_set_session_name S nm) = ss_vs S"
  "ss_vs_refs (stream_server_set_session_name S nm) = ss_vs_refs S" "ss_stopping (stream_server_set_session_name S nm) = ss_stopping S"
  "ss_running (stream_server_set_icon S d nm al) = ss_running S" "ss_vs (stream_server_set_icon S d nm al) = ss_vs S"
  "ss_vs_refs (stream_server_set_icon S d nm al) = ss_vs_refs S" "ss_stopping (stream_server_set_icon S d nm al) = ss_stopping S"
  "ss_running (stream_track_add S fd) = ss_running S" "ss_vs (stream_track_add S fd) = ss_vs S"
  "ss_vs_refs (stream_track_add S fd) = ss_vs_refs S" "ss_stopping (stream_track_add S fd) = ss_stopping S"
  "ss_running (stream_track_remove S fd) = ss_running S" "ss_vs (stream_track_remove S fd) = ss_vs S"
  "ss_vs_refs (stream_track_remove S fd) = ss_vs_refs S" "ss_stopping (stream_track_remove S fd) = ss_stopping S"
  by (simp_all add: stream_server_set_session_name_def stream_server_set_icon_def stream_track_add_def
      stream_track_remove_def Let_def split: option.split)

lemma no_stop_fields [simp]: "no_stop (V\<lparr>sv_ss := S, sv_live := L, sv_gen := n\<rparr>) = no_stop V"
  "no_stop (V\<lparr>sv_ss := S\<rparr>) = no_stop V" "no_stop (V\<lparr>sv_ss := S, sv_pins := ps\<rparr>) = no_stop V"
  by (simp_all add: no_stop_def)

text \<open>The call under way moves on to another phase.\<close>

lemma srv_inv_phase:
  assumes v: "srv_inv V" and i: "i < length (sv_stops V)" "sv_stops V ! i \<noteq> Stopped"
    and q: "q \<noteq> Stopped" "q = Asleep \<longrightarrow> sv_pins V \<noteq> []"
  shows "srv_inv (V\<lparr>sv_stops := (sv_stops V)[i := q]\<rparr>)"
proof -
  obtain ys where y: "sv_stops V = ys @ [sv_stops V ! i]" "\<forall>p \<in> set ys. p = Stopped" "(sv_stops V)[i := q] = ys @ [q]"
    using active_last [of "sv_stops V" i q] v i by (auto simp: srv_inv_def)
  have "\<not> no_stop V" using i by (auto simp: no_stop_def)
  moreover have "\<not> no_stop (V\<lparr>sv_stops := ys @ [q]\<rparr>)" using q(1) by (auto simp: no_stop_def)
  moreover have "Asleep \<in> set (ys @ [q]) \<Longrightarrow> q = Asleep" using y(2) by auto
  ultimately show ?thesis using v y(2) q(2) unfolding y(3) by (simp add: srv_inv_def)
qed

lemma srv_inv_step: "srv_step False V V' \<Longrightarrow> srv_inv V \<Longrightarrow> srv_inv V'"
proof (induction rule: srv_step.induct)
  case (step_start V T W path name S' L' rc)
  then have n: "no_stop V" "ss_vs (sv_ss V) = None" "sv_pins V = []" "\<not> ss_running (sv_ss V)" "ss_vs_refs (sv_ss V) = 0"
    by (auto simp: srv_inv_def)
  then have "Asleep \<notin> set (sv_stops V)" by (auto simp: no_stop_def)
  moreover have "sv_gen V + 1 \<notin> sv_freed V" "\<forall>g \<in> sv_freed V. g \<le> sv_gen V"
    using step_start(4) by (auto simp: srv_inv_def)
  moreover have "\<forall>p \<in> set (butlast (sv_stops V)). p = Stopped" using step_start(4) by (simp add: srv_inv_def)
  ultimately show ?case using n start_fresh_fields [OF step_start(3)]
    by (cases "rc = 0") (auto simp: srv_inv_def)
next
  case (step_acquire V S' vs)
  note a = acquire_fields [OF step_acquire(1)]
  then have "no_stop V" using step_acquire(2) by (auto simp: srv_inv_def)
  then have "Asleep \<notin> set (sv_stops V)" by (auto simp: no_stop_def)
  then show ?case using step_acquire(2) a \<open>no_stop V\<close> by (auto simp: srv_inv_def)
next
  case (step_release V xs g ys S' signal)
  note r = release_fields [OF step_release(2)]
  have refs: "ss_vs_refs (sv_ss V) = Suc (length (xs @ ys))" using step_release(1,4) by (simp add: srv_inv_def)
  have "Asleep \<in> set (sv_stops V) \<Longrightarrow> xs @ ys \<noteq> []"
  proof
    assume sl: "Asleep \<in> set (sv_stops V)" and e: "xs @ ys = []"
    then have "\<not> no_stop V" by (auto simp: no_stop_def)
    then have "ss_stopping (sv_ss V)" using step_release(1,4) by (simp add: srv_inv_def)
    then show False using step_release(3) r(5) sl refs e by simp
  qed
  then show ?case using step_release(1,4) r refs by (auto simp: srv_inv_def)
next
  case (step_wake V xs g ys S' i)
  note r = release_fields [OF step_wake(2)]
  define U where "U = V\<lparr>sv_stops := (sv_stops V)[i := Checking]\<rparr>"
  have u: "srv_inv U" unfolding U_def using step_wake(3,4,5) by (intro srv_inv_phase) auto
  have us: "\<not> no_stop U" using step_wake(3) by (auto simp: no_stop_def U_def set_update_memI)
  have na: "Asleep \<notin> set (sv_stops U)"
  proof -
    obtain zs where "\<forall>p \<in> set zs. p = Stopped" "(sv_stops V)[i := Checking] = zs @ [Checking]"
      using active_last [of "sv_stops V" i Checking] step_wake(3,4,5) by (auto simp: srv_inv_def)
    then show ?thesis by (auto simp: U_def)
  qed
  have ps: "sv_pins U = xs @ g # ys" "sv_ss U = sv_ss V" using step_wake(1) by (simp_all add: U_def)
  have "srv_inv (U\<lparr>sv_ss := S', sv_pins := xs @ ys\<rparr>)"
    using u us na ps r by (auto simp: srv_inv_def)
  moreover have "U\<lparr>sv_ss := S', sv_pins := xs @ ys\<rparr> =
      V\<lparr>sv_ss := S', sv_pins := xs @ ys, sv_stops := (sv_stops V)[i := Checking]\<rparr>"
    by (cases V) (simp add: U_def)
  ultimately show ?case by simp
next
  case (step_stop V S' joined kicked)
  note b = stop_begin_fields [OF step_stop(2)]
  have n: "no_stop V" using step_stop(1) by simp
  then have "\<forall>p \<in> set (sv_stops V). p = Stopped" by (simp add: no_stop_def)
  moreover have "\<not> no_stop (V\<lparr>sv_ss := S', sv_stops := sv_stops V @ [Joining]\<rparr>)" by (simp add: no_stop_def)
  moreover have "sv_pins V \<noteq> [] \<Longrightarrow> ss_running (sv_ss V)" using step_stop(3) n by (auto simp: srv_inv_def)
  ultimately show ?case using step_stop(3) b by (auto simp: srv_inv_def)
next
  case (step_end i V S' L')
  note e = stop_end_fields [OF step_end(4)]
  obtain ys where y: "\<forall>p \<in> set ys. p = Stopped" "(sv_stops V)[i := Stopped] = ys @ [Stopped]"
    using active_last [of "sv_stops V" i Stopped] step_end(1,2,5) by (auto simp: srv_inv_def)
  have "\<not> no_stop V" using step_end(1,2) nth_mem [of i "sv_stops V"] by (auto simp: no_stop_def)
  moreover have "sv_pins V = []" using step_end(3,5) by (simp add: srv_inv_def)
  ultimately show ?case using step_end(5) e y(1) unfolding y(2)
    by (auto simp: srv_inv_def no_stop_def)
next
  case (step_join i V)
  then show ?case by (intro srv_inv_phase) simp_all
next
  case (step_wait i V)
  then show ?case by (intro srv_inv_phase) (auto simp: srv_inv_def)
next
  case (step_spurious i V)
  then show ?case by (intro srv_inv_phase) simp_all
qed (simp_all add: srv_inv_def)

lemma srv_reach_inv: "srv_reach False V \<Longrightarrow> srv_inv V"
proof (induction rule: srv_reach.induct)
  case (reach_init L)
  show ?case by (simp add: srv_inv_def srv_init_def g_ss_init_def no_stop_def)
qed (rule srv_inv_step)

section \<open>What the reference count protects\<close>

text \<open>C6: While calls that start and stop the server do not overlap, a request body never works on
  a stream that has been freed, whatever the order of its sections with those of a stop: every
  pinned stream is the installed one, the count equals the number of pins, and a stop sleeps only
  while a body that will wake it is in flight.\<close>

theorem pinned_stream_alive:
  assumes "srv_reach False V"
  shows "(\<forall>g \<in> set (sv_pins V). g = sv_gen V \<and> g \<notin> sv_freed V \<and> ss_vs (sv_ss V) \<noteq> None) \<and>
    ss_vs_refs (sv_ss V) = length (sv_pins V) \<and>
    (Asleep \<in> set (sv_stops V) \<longrightarrow> ss_stopping (sv_ss V) \<and> sv_pins V \<noteq> [])"
proof -
  have v: "srv_inv V" using assms by (rule srv_reach_inv)
  have "Asleep \<in> set (sv_stops V) \<Longrightarrow> \<not> no_stop V" by (auto simp: no_stop_def)
  then show ?thesis using v by (auto simp: srv_inv_def)
qed

section \<open>A stop gets through\<close>

text \<open>
  The steps that carry a stop forward, by what they change: a body that lets go of the stream or
  the stop that moves on. A step that only rewrites the name, the icon or the list of tracked
  sockets is idle; a wake-up nobody signalled is not counted on, so it is no firm step.
\<close>

definition idle_step :: "srv \<Rightarrow> srv \<Rightarrow> bool" where
  "idle_step V U = (srv_step False V U \<and> sv_pins U = sv_pins V \<and> sv_stops U = sv_stops V)"

definition unsignalled_wake :: "srv \<Rightarrow> srv \<Rightarrow> bool" where
  "unsignalled_wake V U =
     (sv_pins U = sv_pins V \<and> (\<exists>i < length (sv_stops V). sv_stops V ! i = Asleep \<and> sv_stops U ! i = Checking))"

definition firm_step :: "srv \<Rightarrow> srv \<Rightarrow> bool" where
  "firm_step V U = (srv_step False V U \<and> \<not> idle_step V U \<and> \<not> unsignalled_wake V U)"

text \<open>
  A goal every run of firm steps comes to, with idle steps anywhere between them: at each state
  before it some firm step can be taken, and whichever is taken leads there.
\<close>

inductive inevitable :: "(srv \<Rightarrow> bool) \<Rightarrow> srv \<Rightarrow> bool" for goal where
  inevitable_now: "goal V \<Longrightarrow> inevitable goal V"
| inevitable_later: "(\<And>U. idle_step\<^sup>*\<^sup>* V U \<Longrightarrow> \<exists>V'. firm_step U V') \<Longrightarrow>
    (\<And>U V'. idle_step\<^sup>*\<^sup>* V U \<Longrightarrow> firm_step U V' \<Longrightarrow> inevitable goal V') \<Longrightarrow> inevitable goal V"

definition pending :: "nat \<Rightarrow> srv \<Rightarrow> bool" where
  "pending i V = (srv_inv V \<and> i < length (sv_stops V) \<and> sv_stops V ! i \<noteq> Stopped)"

definition stop_closed :: "nat \<Rightarrow> srv \<Rightarrow> bool" where
  "stop_closed i V = (sv_stops V ! i = Stopped \<and> ss_vs (sv_ss V) = None)"

fun phase_weight :: "stop_phase \<Rightarrow> nat" where
  "phase_weight Joining = 2"
| "phase_weight Checking = 1"
| "phase_weight Asleep = 0"
| "phase_weight Stopped = 0"

definition stop_weight :: "nat \<Rightarrow> srv \<Rightarrow> nat" where
  "stop_weight i V = 2 * length (sv_pins V) + phase_weight (sv_stops V ! i)"

lemma pending_idle:
  assumes "idle_step\<^sup>*\<^sup>* V U" "pending i V"
  shows "pending i U \<and> stop_weight i U = stop_weight i V"
  using assms
proof (induction rule: rtranclp_induct)
  case (step U U')
  then have "srv_inv U'" by (auto simp: idle_step_def pending_def intro: srv_inv_step)
  then show ?case using step by (simp add: idle_step_def pending_def stop_weight_def)
qed simp

text \<open>While a stop is pending it is the only one, the server does not run and nobody else stops.\<close>

lemma pendingD:
  assumes "pending i V"
  shows "\<not> no_stop V" "\<not> ss_running (sv_ss V)" "j < length (sv_stops V) \<Longrightarrow> sv_stops V ! j \<noteq> Stopped \<Longrightarrow> j = i"
    "ss_vs_refs (sv_ss V) = length (sv_pins V)" "sv_pins V \<noteq> [] \<Longrightarrow> ss_stopping (sv_ss V)"
    "sv_stops V ! i = Asleep \<Longrightarrow> sv_pins V \<noteq> []"
proof -
  have v: "srv_inv V" using assms by (simp add: pending_def)
  show n: "\<not> no_stop V" using assms by (auto simp: pending_def no_stop_def)
  have "\<not> no_stop V \<longrightarrow> \<not> ss_running (sv_ss V) \<and> (sv_pins V \<noteq> [] \<longrightarrow> ss_stopping (sv_ss V))"
    using v unfolding srv_inv_def by (elim conjE) assumption
  with n show "\<not> ss_running (sv_ss V)" "sv_pins V \<noteq> [] \<Longrightarrow> ss_stopping (sv_ss V)" by blast+
  show "ss_vs_refs (sv_ss V) = length (sv_pins V)" using v unfolding srv_inv_def by (elim conjE) assumption
  have "Asleep \<in> set (sv_stops V) \<longrightarrow> sv_pins V \<noteq> []" using v unfolding srv_inv_def by (elim conjE) assumption
  then show "sv_stops V ! i = Asleep \<Longrightarrow> sv_pins V \<noteq> []"
    using assms by (metis nth_mem pending_def)
  have al: "\<forall>p \<in> set (butlast (sv_stops V)). p = Stopped" using v unfolding srv_inv_def by (elim conjE) assumption
  have l: "k = length (sv_stops V) - 1" if k: "k < length (sv_stops V)" "sv_stops V ! k \<noteq> Stopped" for k
  proof -
    obtain ys where y: "sv_stops V = ys @ [sv_stops V ! k]" "\<forall>p \<in> set ys. p = Stopped"
      using active_last [OF al k] by blast
    have "k = length ys"
    proof (rule ccontr)
      assume "k \<noteq> length ys"
      moreover have "length (sv_stops V) = length ys + 1" by (subst y(1)) simp
      ultimately have "k < length ys" using that(1) by simp
      then have "sv_stops V ! k \<in> set ys" using y(1) by (metis nth_append nth_mem)
      then show False using y(2) k(2) by blast
    qed
    then show ?thesis using arg_cong [OF y(1), of length] by simp
  qed
  show "j < length (sv_stops V) \<Longrightarrow> sv_stops V ! j \<noteq> Stopped \<Longrightarrow> j = i"
    using l [of j] l [of i] assms by (simp add: pending_def)
qed

text \<open>No lost wake-up: whatever the stop waits for, a step that brings it nearer can be taken.\<close>

lemma pending_enabled:
  assumes p: "pending i V"
  shows "\<exists>V'. firm_step V V'"
proof -
  note d = pendingD [OF p]
  have i: "i < length (sv_stops V)" using p by (simp add: pending_def)
  consider "sv_stops V ! i = Joining" | "sv_stops V ! i = Checking" "sv_pins V = []"
    | "sv_stops V ! i = Checking" "sv_pins V \<noteq> []" | "sv_stops V ! i = Asleep"
    using p by (cases "sv_stops V ! i") (auto simp: pending_def)
  then show ?thesis
  proof cases
    case 1
    have ne: "(sv_stops V)[i := Checking] \<noteq> sv_stops V" using 1 i by (metis nth_list_update_eq stop_phase.distinct(1))
    have "\<not> (\<exists>j < length (sv_stops V). sv_stops V ! j = Asleep)" using d(3) 1 by force
    then show ?thesis using step_join [OF i 1, of False] ne
      by (intro exI [of _ "V\<lparr>sv_stops := (sv_stops V)[i := Checking]\<rparr>"])
        (auto simp: firm_step_def idle_step_def unsignalled_wake_def)
  next
    case 2
    obtain S' L' where e: "stop_end (sv_ss V) (sv_live V) = (S', L')" by (metis prod.collapse)
    have ne: "(sv_stops V)[i := Stopped] \<noteq> sv_stops V" using 2 i by (metis nth_list_update_eq stop_phase.distinct)
    have na: "\<not> (\<exists>j < length (sv_stops V). sv_stops V ! j = Asleep)" using d(3) 2 by force
    have r: "ss_vs_refs (sv_ss V) = 0" using d(4) 2 by simp
    show ?thesis
      by (rule exI, unfold firm_step_def, intro conjI, rule step_end [OF i 2(1) r e])
        (use ne na in \<open>auto simp: idle_step_def unsignalled_wake_def\<close>)
  next
    case 3
    have ne: "(sv_stops V)[i := Asleep] \<noteq> sv_stops V" using 3 i by (metis nth_list_update_eq stop_phase.distinct(7))
    have na: "\<not> (\<exists>j < length (sv_stops V). sv_stops V ! j = Asleep)" using d(3) 3 by force
    have "ss_vs_refs (sv_ss V) > 0" using d(4) 3 by simp
    then show ?thesis using step_wait [OF i 3(1), of False] ne na
      by (intro exI [of _ "V\<lparr>sv_stops := (sv_stops V)[i := Asleep]\<rparr>"])
        (auto simp: firm_step_def idle_step_def unsignalled_wake_def)
  next
    case 4
    then have ne: "sv_pins V \<noteq> []" and st: "ss_stopping (sv_ss V)" using d by auto
    obtain g ys where gy: "sv_pins V = [] @ g # ys" using ne by (metis append_Nil list.exhaust)
    obtain S' sg where rel: "stream_vs_release (sv_ss V) = (S', sg)" by (metis prod.collapse)
    have ch: "ys \<noteq> sv_pins V" using gy by (metis append_Nil not_Cons_self)
    show ?thesis
    proof (cases sg)
      case True
      show ?thesis
        by (rule exI, unfold firm_step_def, intro conjI, rule step_wake [OF gy _ i 4])
          (use rel True ch in \<open>auto simp: idle_step_def unsignalled_wake_def\<close>)
    next
      case False
      then have a: "\<not> sg \<or> Asleep \<notin> set (sv_stops V)" by simp
      show ?thesis
        by (rule exI, unfold firm_step_def, intro conjI, rule step_release [OF gy rel a])
          (use ch in \<open>auto simp: idle_step_def unsignalled_wake_def\<close>)
    qed
  qed
qed

text \<open>Every firm step closes the stream or leaves the stop pending with less before it.\<close>

lemma pending_descends:
  assumes p: "pending i V" and f: "firm_step V V'"
  shows "stop_closed i V' \<or> pending i V' \<and> stop_weight i V' < stop_weight i V"
proof -
  note d = pendingD [OF p]
  have s: "srv_step False V V'" and ni: "\<not> idle_step V V'" and nu: "\<not> unsignalled_wake V V'"
    using f by (simp_all add: firm_step_def)
  have v': "srv_inv V'" using srv_inv_step [OF s] p by (simp add: pending_def)
  have i: "i < length (sv_stops V)" and ns: "sv_stops V ! i \<noteq> Stopped" using p by (simp_all add: pending_def)
  from s show ?thesis
  proof cases
    case step_start
    then show ?thesis using d(1) by simp
  next
    case step_stop
    then show ?thesis using d(1) by simp
  next
    case (step_acquire S' vs)
    then show ?thesis using acquire_fields(1) d(2) by blast
  next
    case (step_release xs g ys S' signal)
    then show ?thesis using v' i ns by (simp add: pending_def stop_weight_def)
  next
    case (step_wake xs g ys S' j)
    then have "j = i" using d(3) by simp
    then show ?thesis using step_wake v' i by (simp add: pending_def stop_weight_def)
  next
    case (step_join j)
    then have "j = i" using d(3) by simp
    then show ?thesis using step_join v' i by (simp add: pending_def stop_weight_def)
  next
    case (step_wait j)
    then have "j = i" using d(3) by simp
    then show ?thesis using step_wait v' i by (simp add: pending_def stop_weight_def)
  next
    case (step_spurious j)
    then show ?thesis using nu by (auto simp: unsignalled_wake_def)
  next
    case (step_end j S' L')
    then have "j = i" using d(3) by simp
    then show ?thesis using step_end stop_end_fields(1) [OF step_end(5)] i by (simp add: stop_closed_def)
  qed (use ni s in \<open>simp_all add: idle_step_def\<close>)
qed

lemma pending_inevitable: "pending i V \<Longrightarrow> inevitable (stop_closed i) V"
proof (induction "stop_weight i V" arbitrary: V rule: less_induct)
  case less
  show ?case
  proof (rule inevitable_later)
    fix U assume "idle_step\<^sup>*\<^sup>* V U"
    then have "pending i U" using pending_idle less.prems by blast
    then show "\<exists>V'. firm_step U V'" by (rule pending_enabled)
  next
    fix U V' assume u: "idle_step\<^sup>*\<^sup>* V U" and f: "firm_step U V'"
    have "pending i U" "stop_weight i U = stop_weight i V" using pending_idle [OF u less.prems] by simp_all
    with pending_descends [OF _ f] consider "stop_closed i V'"
      | "pending i V'" "stop_weight i V' < stop_weight i V" by metis
    then show "inevitable (stop_closed i) V'"
      by cases (auto intro: inevitable_now less.hyps)
  qed
qed

text \<open>C7: While calls that start and stop the server do not overlap, a stop call always gets
  through, with the stream closed: as long as the bodies in flight let go of the stream, and
  without any wake-up that was not signalled, every run of the remaining steps comes to its
  return, in whatever order they are taken; no wake-up is lost and nothing deadlocks.\<close>

theorem stop_gets_through:
  assumes "srv_reach False V" "i < length (sv_stops V)" "sv_stops V ! i \<noteq> Stopped"
  shows "inevitable (\<lambda>V'. sv_stops V' ! i = Stopped \<and> ss_vs (sv_ss V') = None) V"
proof -
  have "pending i V" using srv_reach_inv [OF assms(1)] assms(2,3) by (simp add: pending_def)
  then show ?thesis using pending_inevitable [of i V] by (simp add: stop_closed_def [abs_def])
qed

section \<open>When callers overlap\<close>

definition demo_start :: start_env where
  "demo_start = \<lparr>st_alloc = True, st_socket = 5, st_bind = True, st_listen = True, st_thread = True\<rparr>"

lemma demo_start_ok:
  assumes "start_fresh demo_start (demo_world demo_F) S live_init demo_p1 [] = (S', L', rc)"
  shows "rc = 0"
  using assms by (simp add: start_fresh_def demo_start_def demo_open)

text \<open>A server that runs and serves one body.\<close>

lemma demo_serving:
  obtains V where "srv_reach overlap V" "ss_running (sv_ss V)" "ss_vs (sv_ss V) \<noteq> None" "ss_vs_refs (sv_ss V) = 1"
    "sv_pins V = [1]" "sv_gen V = 1" "sv_stops V = []" "sv_live V = live_init" "sv_freed V = {}"
proof -
  obtain S L rc where st: "start_fresh demo_start (demo_world demo_F) g_ss_init live_init demo_p1 [] = (S, L, rc)"
    by (metis prod_cases3)
  have L: "L = live_init" using st by (simp add: start_fresh_def demo_start_def demo_open)
  have rc: "rc = 0" by (rule demo_start_ok [OF st])
  note f = start_fresh_fields(1) [OF st rc]
  define V1 where "V1 = (srv_init live_init)\<lparr>sv_ss := S, sv_live := L, sv_gen := 1\<rparr>"
  have "srv_step overlap (srv_init live_init) ((srv_init live_init)\<lparr>sv_ss := S, sv_live := L,
      sv_gen := (if rc = 0 then sv_gen (srv_init live_init) + 1 else sv_gen (srv_init live_init))\<rparr>)"
    by (rule step_start [where T = demo_start and W = "demo_world demo_F" and path = demo_p1 and name = "[]"])
      (use st in \<open>simp_all add: srv_init_def no_stop_def g_ss_init_def\<close>)
  then have r1: "srv_reach overlap V1" using reach_step [OF reach_init] by (simp add: V1_def rc srv_init_def)
  obtain vs where vs: "ss_vs S = Some vs" using f by blast
  have a: "stream_vs_acquire (sv_ss V1) = (S\<lparr>ss_vs_refs := 1\<rparr>, Some vs)"
    using f vs by (simp add: stream_vs_acquire_def V1_def)
  show thesis
    by (rule that [OF reach_step [OF r1 step_acquire [OF a]]]) (use f L in \<open>simp_all add: V1_def srv_init_def\<close>)
qed

theorem pinned_stream_alive_witness:
  "\<exists>V :: srv. sv_pins V = [1] \<and> sv_gen V = 1 \<and> ss_vs (sv_ss V) \<noteq> None \<and> ss_vs_refs (sv_ss V) = 1"
proof -
  obtain V where "srv_reach False V" "sv_pins V = [1]" "sv_gen V = 1" by (rule demo_serving)
  then show ?thesis using pinned_stream_alive [OF \<open>srv_reach False V\<close>]
    by (intro exI [of _ V] conjI) simp_all
qed

theorem stop_gets_through_witness:
  "\<exists>V. sv_stops V = [Joining] \<and> sv_pins V = [1] \<and> ss_vs (sv_ss V) \<noteq> None \<and>
     inevitable (\<lambda>V'. sv_stops V' ! 0 = Stopped \<and> ss_vs (sv_ss V') = None) V"
proof -
  obtain V where v: "srv_reach False V" "ss_vs (sv_ss V) \<noteq> None" "sv_pins V = [1]" "sv_stops V = []"
    by (rule demo_serving)
  obtain S j k where b: "stop_begin (sv_ss V) = (S, j, k)" by (metis prod_cases3)
  let ?U = "V\<lparr>sv_ss := S, sv_stops := sv_stops V @ [Joining]\<rparr>"
  have "srv_reach False ?U" by (rule reach_step [OF v(1) step_stop [OF _ b]]) (simp add: no_stop_def v(4))
  from stop_gets_through [OF this, of 0]
  have "inevitable (\<lambda>V'. sv_stops V' ! 0 = Stopped \<and> ss_vs (sv_ss V') = None) ?U" using v(4) by simp
  then show ?thesis using v stop_begin_fields(2) [OF b] by (intro exI [of _ ?U]) simp
qed

text \<open>Two stop calls at once: from any state with nobody asleep, both are under way.\<close>

lemma stop_twice:
  assumes r: "srv_reach True V" and s: "sv_stops V = []"
  obtains U where "srv_reach True U" "sv_stops U = [Checking, Checking]" "sv_pins U = sv_pins V"
    "\<not> ss_running (sv_ss U)" "ss_vs (sv_ss U) = ss_vs (sv_ss V)" "ss_vs_refs (sv_ss U) = ss_vs_refs (sv_ss V)"
    "ss_running (sv_ss V) \<longrightarrow> ss_stopping (sv_ss U)"
proof -
  obtain S1 j1 k1 where b1: "stop_begin (sv_ss V) = (S1, j1, k1)" by (metis prod_cases3)
  obtain S2 j2 k2 where b2: "stop_begin S1 = (S2, j2, k2)" by (metis prod_cases3)
  define V1 where "V1 = V\<lparr>sv_ss := S1, sv_stops := [Joining]\<rparr>"
  define V2 where "V2 = V1\<lparr>sv_ss := S2, sv_stops := [Joining, Joining]\<rparr>"
  define V3 where "V3 = V2\<lparr>sv_stops := [Checking, Joining]\<rparr>"
  define V4 where "V4 = V3\<lparr>sv_stops := [Checking, Checking]\<rparr>"
  have "srv_step True V V1" using step_stop [of True V, OF _ b1] s by (simp add: V1_def)
  moreover have "srv_step True V1 V2" using step_stop [of True V1, OF _ , of S2 j2 k2] b2 by (simp add: V1_def V2_def)
  moreover have "srv_step True V2 V3" using step_join [of 0 V2 True] by (simp add: V2_def V3_def)
  moreover have "srv_step True V3 V4" using step_join [of 1 V3 True] by (simp add: V3_def V4_def)
  ultimately have "srv_reach True V4" using r by (meson reach_step)
  then show thesis
    using stop_begin_fields [OF b1] stop_begin_fields [OF b2]
    by (intro that [of V4]) (simp_all add: V4_def V3_def V2_def V1_def)
qed

text \<open>C9: When a stop of the API thread overlaps one of the installer thread, one of them can sleep
  for ever: the last body's release signals vs_cond once, the stop it wakes closes the stream,
  and the other stays asleep with no body left to wake it and the stopping flag cleared.\<close>

theorem overlapping_stops_hang:
  "\<exists>V. srv_reach True V \<and> Asleep \<in> set (sv_stops V) \<and> sv_pins V = [] \<and> ss_vs_refs (sv_ss V) = 0 \<and>
     ss_vs (sv_ss V) = None \<and> \<not> ss_stopping (sv_ss V) \<and> \<not> ss_running (sv_ss V)"
proof -
  obtain V where v: "srv_reach True V" "ss_running (sv_ss V)" "ss_vs_refs (sv_ss V) = 1" "sv_pins V = [1]" "sv_stops V = []"
    by (rule demo_serving)
  obtain U where u: "srv_reach True U" "sv_stops U = [Checking, Checking]" "sv_pins U = [1]"
    "\<not> ss_running (sv_ss U)" "ss_vs_refs (sv_ss U) = 1" "ss_stopping (sv_ss U)"
    using stop_twice [OF v(1,5)] v by metis
  define U1 where "U1 = U\<lparr>sv_stops := [Asleep, Checking]\<rparr>"
  define U2 where "U2 = U1\<lparr>sv_stops := [Asleep, Asleep]\<rparr>"
  obtain S sg where rel: "stream_vs_release (sv_ss U) = (S, sg)" by (metis prod.collapse)
  note rf = release_fields [OF rel]
  have sg: "sg" using rf(5) u by simp
  define U3 where "U3 = U2\<lparr>sv_ss := S, sv_pins := [], sv_stops := [Checking, Asleep]\<rparr>"
  obtain S' L' where e: "stop_end S (sv_live U) = (S', L')" by (metis prod.collapse)
  define U4 where "U4 = U3\<lparr>sv_ss := S', sv_live := L', sv_stops := [Stopped, Asleep],
    sv_freed := (if ss_vs S = None then sv_freed U3 else insert (sv_gen U3) (sv_freed U3))\<rparr>"
  have "srv_step True U U1" using step_wait [of 0 U True] u by (simp add: U1_def)
  moreover have "srv_step True U1 U2" using step_wait [of 1 U1 True] u by (simp add: U1_def U2_def)
  moreover have "srv_step True U2 U3"
    using step_wake [of U2 "[]" 1 "[]" S 0 True] u rel sg by (simp add: U1_def U2_def U3_def)
  moreover have "srv_step True U3 U4"
    using step_end [of 0 U3 S' L' True] u rf e by (simp add: U1_def U2_def U3_def U4_def)
  ultimately have "srv_reach True U4" using u(1) by (meson reach_step)
  then show ?thesis
    using stop_end_fields [OF e] rf u e
    by (intro exI [of _ U4]) (auto simp: U4_def U3_def U2_def U1_def stop_end_def)
qed

text \<open>A start that overlaps an unfinished stop breaks the count: it resets vs_refs while a body
  of the old session is still in flight, whose release is then charged to a body of the new
  one, so the next stop frees the stream that body reads.\<close>

theorem overlapping_start_frees_pinned:
  "\<exists>V g. srv_reach True V \<and> g \<in> set (sv_pins V) \<and> g \<in> sv_freed V"
proof -
  obtain V where v: "srv_reach True V" "ss_running (sv_ss V)" "ss_vs_refs (sv_ss V) = 1" "sv_pins V = [1]"
    "sv_gen V = 1" "sv_stops V = []" "sv_live V = live_init"
    by (rule demo_serving)
  obtain S1 j1 k1 where b1: "stop_begin (sv_ss V) = (S1, j1, k1)" by (metis prod_cases3)
  note f1 = stop_begin_fields [OF b1]
  define V1 where "V1 = V\<lparr>sv_ss := S1, sv_stops := [Joining]\<rparr>"
  define V2 where "V2 = V1\<lparr>sv_stops := [Checking]\<rparr>"
  define V3 where "V3 = V2\<lparr>sv_stops := [Asleep]\<rparr>"
  have "srv_step True V V1" using step_stop [of True V, OF _ b1] v by (simp add: V1_def)
  moreover have "srv_step True V1 V2" using step_join [of 0 V1 True] by (simp add: V1_def V2_def)
  moreover have "srv_step True V2 V3" using step_wait [of 0 V2 True] v f1 by (simp add: V1_def V2_def V3_def)
  ultimately have r3: "srv_reach True V3" using v(1) by (meson reach_step)
  obtain S2 L2 rc where st: "start_fresh demo_start (demo_world demo_F) S1 live_init demo_p1 [] = (S2, L2, rc)"
    by (metis prod_cases3)
  have rc: "rc = 0" by (rule demo_start_ok [OF st])
  note f2 = start_fresh_fields(1) [OF st rc]
  define V4 where "V4 = V3\<lparr>sv_ss := S2, sv_live := L2, sv_gen := 2\<rparr>"
  have "srv_step True V3 V4"
    using step_start [of True V3 demo_start "demo_world demo_F" demo_p1 "[]" S2 L2 rc] st f1 v rc
    by (simp add: V4_def V3_def V2_def V1_def numeral_2_eq_2)
  then have r4: "srv_reach True V4" by (rule reach_step [OF r3])
  obtain vs where vs: "ss_vs S2 = Some vs" using f2 by blast
  have "stream_vs_acquire (sv_ss V4) = (S2\<lparr>ss_vs_refs := 1\<rparr>, Some vs)"
    using f2 vs by (simp add: stream_vs_acquire_def V4_def)
  note r5 = reach_step [OF r4 step_acquire [OF this]]
  define V5 where "V5 = V4\<lparr>sv_ss := S2\<lparr>ss_vs_refs := 1\<rparr>, sv_pins := [1, 2]\<rparr>"
  have r5: "srv_reach True V5" using r5 v by (simp add: V5_def V4_def V3_def V2_def V1_def)
  obtain S3 sg where rel: "stream_vs_release (S2\<lparr>ss_vs_refs := 1\<rparr>) = (S3, sg)" by (metis prod.collapse)
  note f3 = release_fields [OF rel]
  define V6 where "V6 = V5\<lparr>sv_ss := S3, sv_pins := [2]\<rparr>"
  have "srv_step True V5 V6"
    using step_release [of V5 "[]" 1 "[2]" S3 sg True] rel f3 f2 by (simp add: V5_def V6_def)
  then have r6: "srv_reach True V6" by (rule reach_step [OF r5])
  obtain S4 j4 k4 where b4: "stop_begin S3 = (S4, j4, k4)" by (metis prod_cases3)
  note f4 = stop_begin_fields [OF b4]
  define V7 where "V7 = V6\<lparr>sv_ss := S4, sv_stops := [Asleep, Joining]\<rparr>"
  define V8 where "V8 = V7\<lparr>sv_stops := [Asleep, Checking]\<rparr>"
  obtain S5 L5 where e: "stop_end S4 (sv_live V8) = (S5, L5)" by (metis prod.collapse)
  define V9 where "V9 = V8\<lparr>sv_ss := S5, sv_live := L5, sv_stops := [Asleep, Stopped],
    sv_freed := (if ss_vs S4 = None then sv_freed V8 else insert (sv_gen V8) (sv_freed V8))\<rparr>"
  have "srv_step True V6 V7" using step_stop [of True V6 S4 j4 k4] b4 by (simp add: V3_def V4_def V5_def V6_def V7_def)
  moreover have "srv_step True V7 V8" using step_join [of 1 V7 True] by (simp add: V7_def V8_def)
  moreover have "srv_step True V8 V9"
    using step_end [of 1 V8 S5 L5 True] f3 f4 e by (simp add: V7_def V8_def V9_def)
  ultimately have "srv_reach True V9" using r6 by (meson reach_step)
  moreover have "2 \<in> set (sv_pins V9)" "2 \<in> sv_freed V9"
    using f2 f3 f4 vs by (simp_all add: V9_def V8_def V7_def V6_def V5_def V4_def)
  ultimately show ?thesis by blast
qed

end
