(* ===== verification/CText.thy ===== *)
theory CText
  imports WsCodec
begin

text \<open>
  C text inside a block of memory whose end matters. A pointer is the list of the characters
  from it to the end of the block, NULs included; a function that reads past the end answers
  None. A loop bounded by an end pointer has the number of characters left before that pointer
  as its second argument. The package parser (PkgJson, PkgSfo, PkgParser) reads its buffers
  with these functions, so that a read outside a buffer is visible in its result.
\<close>

section \<open>Strings in memory\<close>

definition QUOTE :: char where "QUOTE = CHR 0x22"
definition BSLASH :: char where "BSLASH = CHR 0x5C"

text \<open>The string a pointer stands for once its NUL is found.\<close>

definition c_str :: "string \<Rightarrow> string" where
  "c_str xs = takeWhile (\<lambda>c. c \<noteq> NUL) xs"

lemma c_str_no_NUL [simp]: "NUL \<notin> set (c_str xs)"
  by (auto simp: c_str_def dest: set_takeWhileD)

lemma c_str_id [cstr_simps]: "NUL \<notin> set xs \<Longrightarrow> c_str xs = xs"
  by (auto simp: c_str_def takeWhile_eq_all_conv)

lemma c_str_stop [cstr_simps]: "NUL \<notin> set xs \<Longrightarrow> c_str (xs @ NUL # ys) = xs"
  by (auto simp: c_str_def takeWhile_append)

lemma length_c_str: "length (c_str xs) \<le> length xs"
  by (simp add: c_str_def length_takeWhile_le)

text \<open>strncpy into a zeroed buffer of n characters whose last one stays NUL.\<close>

definition c_copy :: "nat \<Rightarrow> string \<Rightarrow> string" where
  "c_copy n xs = c_trunc n (c_str xs)"

lemma length_c_copy: "0 < n \<Longrightarrow> length (c_copy n xs) < n"
  by (simp add: c_copy_def length_c_trunc)

lemma c_copy_short [cstr_simps]: "NUL \<notin> set xs \<Longrightarrow> length xs < n \<Longrightarrow> c_copy n xs = xs"
  by (simp add: c_copy_def cstr_simps)

text \<open>strstr and strchr on memory: None past the end, Some None when the NUL comes first.\<close>

fun strstr_m :: "string \<Rightarrow> string \<Rightarrow> string option option" where
  "strstr_m pat [] = None"
| "strstr_m pat (c # xs) =
     (if starts_with pat (c # xs) then Some (Some (c # xs))
      else if c = NUL then Some None else strstr_m pat xs)"

fun strchr_m :: "char \<Rightarrow> string \<Rightarrow> string option option" where
  "strchr_m d [] = None"
| "strchr_m d (c # xs) = (if c = d then Some (Some (c # xs)) else if c = NUL then Some None else strchr_m d xs)"

text \<open>while (p < end \&\& P *p) p++: the pointer it stops at and what is left before end.\<close>

fun skip_m :: "(char \<Rightarrow> bool) \<Rightarrow> string \<Rightarrow> nat \<Rightarrow> (string \<times> nat) option" where
  "skip_m P xs 0 = Some (xs, 0)"
| "skip_m P [] (Suc n) = None"
| "skip_m P (c # xs) (Suc n) = (if P c then skip_m P xs n else Some (c # xs, Suc n))"

text \<open>How far the pointer ys is past the pointer xs.\<close>

definition moved :: "string \<Rightarrow> string \<Rightarrow> nat" where
  "moved xs ys = length xs - length ys"

section \<open>Terminated text\<close>

text \<open>The n-th character from the pointer is a NUL inside the block: reads up to it are safe.\<close>

definition terminated :: "string \<Rightarrow> nat \<Rightarrow> bool" where
  "terminated xs n = (n < length xs \<and> xs ! n = NUL)"

named_theorems text_safe \<open>reads of terminated text stay inside the block\<close>

lemma terminated_drop [text_safe]: "terminated xs n \<Longrightarrow> k \<le> n \<Longrightarrow> terminated (drop k xs) (n - k)"
  by (auto simp: terminated_def)

lemma terminated_tl [text_safe]: "terminated xs n \<Longrightarrow> 0 < n \<Longrightarrow> terminated (tl xs) (n - 1)"
  using terminated_drop [of xs n 1] by (simp add: drop_Suc)

lemma terminated_Cons: "terminated xs n \<Longrightarrow> \<exists>c ys. xs = c # ys"
  by (cases xs) (auto simp: terminated_def)

lemma strstr_m_terminated:
  assumes "terminated xs n" and "pat \<noteq> []" and "NUL \<notin> set pat"
  shows "strstr_m pat xs = Some None \<or>
    (\<exists>k. strstr_m pat xs = Some (Some (drop k xs)) \<and> starts_with pat (drop k xs) \<and> k + length pat \<le> n)"
  using assms(1)
proof (induction xs arbitrary: n)
  case Nil
  then show ?case by (simp add: terminated_def)
next
  case (Cons c xs)
  show ?case
  proof (cases "starts_with pat (c # xs)")
    case True
    have "\<not> n < length pat"
    proof
      assume l: "n < length pat"
      then have "pat ! n = (c # xs) ! n" using True by (metis nth_take starts_with_def)
      then show False using Cons.prems assms(3) l by (metis nth_mem terminated_def)
    qed
    then show ?thesis using True by (intro disjI2 exI [of _ 0]) simp
  next
    case False
    show ?thesis
    proof (cases "c = NUL")
      case nc: False
      then obtain m where m: "n = Suc m" using Cons.prems by (cases n) (auto simp: terminated_def)
      then have "terminated xs m" using Cons.prems by (simp add: terminated_def)
      from Cons.IH [OF this] show ?thesis
        using False nc m by (auto intro: exI [of _ "Suc _"])
    qed (use False in simp)
  qed
qed

lemma strchr_m_terminated:
  assumes "terminated xs n" and "d \<noteq> NUL"
  shows "strchr_m d xs = Some None \<or>
    (\<exists>k. strchr_m d xs = Some (Some (drop k xs)) \<and> k < n \<and> xs ! k = d)"
  using assms(1)
proof (induction xs arbitrary: n)
  case Nil
  then show ?case by (simp add: terminated_def)
next
  case (Cons c xs)
  show ?case
  proof (cases "c = d \<or> c = NUL")
    case True
    then show ?thesis using Cons.prems assms(2) by (cases n) (auto simp: terminated_def intro: exI [of _ 0])
  next
    case False
    then obtain m where m: "n = Suc m" using Cons.prems by (cases n) (auto simp: terminated_def)
    then have "terminated xs m" using Cons.prems by (simp add: terminated_def)
    from Cons.IH [OF this] show ?thesis
      using False m by (auto intro: exI [of _ "Suc _"])
  qed
qed

lemma skip_m_inside:
  assumes "n \<le> length xs"
  obtains k where "k \<le> n" and "skip_m P xs n = Some (drop k xs, n - k)"
proof -
  have "\<exists>k\<le>n. skip_m P xs n = Some (drop k xs, n - k)"
    using assms
  proof (induction P xs n rule: skip_m.induct)
    case (3 P c xs n)
    show ?case
    proof (cases "P c")
      case True
      then obtain k where "k \<le> n" "skip_m P xs n = Some (drop k xs, n - k)" using 3 by auto
      then show ?thesis using True by (intro exI [of _ "Suc k"]) simp
    qed (auto intro: exI [of _ 0])
  qed auto
  then show ?thesis using that by blast
qed

lemma skip_m_stop:
  "skip_m P xs n = Some (q, k) \<Longrightarrow> \<exists>i. q = drop i xs \<and> i \<le> length xs \<and> i + k = n \<and> (\<forall>c \<in> set (take i xs). P c) \<and>
     (0 < k \<longrightarrow> i < length xs \<and> \<not> P (xs ! i))"
proof (induction P xs n rule: skip_m.induct)
  case (3 P c xs n)
  show ?case
  proof (cases "P c")
    case True
    then obtain i where "q = drop i xs" "i \<le> length xs" "i + k = n" "\<forall>c \<in> set (take i xs). P c"
      "0 < k \<longrightarrow> i < length xs \<and> \<not> P (xs ! i)" using 3 by auto
    then show ?thesis using True by (intro exI [of _ "Suc i"]) simp
  next
    case False
    then show ?thesis using 3 by (intro exI [of _ 0]) auto
  qed
qed auto

lemma moved_drop [simp]: "k \<le> length xs \<Longrightarrow> moved xs (drop k xs) = k"
  by (simp add: moved_def)

section \<open>Computations that may read outside\<close>

text \<open>
  yields m P: m stays inside its memory and its value has the property P. The rules compute it
  backwards through binds and case distinctions, as a weakest precondition.
\<close>

definition yields :: "'a option \<Rightarrow> ('a \<Rightarrow> bool) \<Rightarrow> bool" where
  "yields m P = (case m of None \<Rightarrow> False | Some x \<Rightarrow> P x)"

named_theorems yields_rules \<open>safety of the computations on memory\<close>

lemma yields_Some [simp]: "yields (Some x) P = P x"
  by (simp add: yields_def)

lemma yields_None [simp]: "yields None P = False"
  by (simp add: yields_def)

lemma yields_bind [simp]: "yields (Option.bind m f) P = yields m (\<lambda>x. yields (f x) P)"
  by (cases m) simp_all

lemma yields_map [simp]: "yields (map_option f m) P = yields m (\<lambda>x. P (f x))"
  by (cases m) simp_all

lemma yields_if [simp]: "yields (if b then x else y) P = ((b \<longrightarrow> yields x P) \<and> (\<not> b \<longrightarrow> yields y P))"
  by simp

lemma yields_prod [simp]: "yields (case x of (a, b) \<Rightarrow> f a b) P = (case x of (a, b) \<Rightarrow> yields (f a b) P)"
  by (simp split: prod.split)

lemma yields_mono: "yields m P \<Longrightarrow> (\<And>x. P x \<Longrightarrow> Q x) \<Longrightarrow> yields m Q"
  by (cases m) simp_all

lemma yields_True: "yields m P \<Longrightarrow> yields m (\<lambda>_. True)"
  by (erule yields_mono) simp

lemma yields_iff: "yields m P = (\<exists>x. m = Some x \<and> P x)"
  by (cases m) simp_all

text \<open>The pointer ys is still in terminated text with k characters left before its NUL.\<close>

lemma strstr_m_yields:
  assumes "terminated xs n" and "pat \<noteq> []" and "NUL \<notin> set pat"
  shows "yields (strstr_m pat xs) (\<lambda>r. \<forall>f. r = Some f \<longrightarrow>
    moved xs f + length pat \<le> n \<and> terminated f (n - moved xs f) \<and>
    drop (length pat) f = drop (moved xs f + length pat) xs)"
  using strstr_m_terminated [OF assms]
proof
  assume "\<exists>k. strstr_m pat xs = Some (Some (drop k xs)) \<and> starts_with pat (drop k xs) \<and> k + length pat \<le> n"
  then obtain k where k: "strstr_m pat xs = Some (Some (drop k xs))" "k + length pat \<le> n" by blast
  have "k \<le> length xs" using k assms(1) by (simp add: terminated_def)
  then show ?thesis using k assms(1) by (simp add: terminated_drop add.commute)
qed simp

lemma strchr_m_yields:
  assumes "terminated xs n" and "d \<noteq> NUL"
  shows "yields (strchr_m d xs) (\<lambda>r. \<forall>f. r = Some f \<longrightarrow>
    moved xs f < n \<and> terminated f (n - moved xs f) \<and> hd f = d)"
  using strchr_m_terminated [OF assms]
proof
  assume "\<exists>k. strchr_m d xs = Some (Some (drop k xs)) \<and> k < n \<and> xs ! k = d"
  then obtain k where k: "strchr_m d xs = Some (Some (drop k xs))" "k < n" "xs ! k = d" by blast
  have "k < length xs" using k assms(1) by (simp add: terminated_def)
  then show ?thesis using k assms(1) by (simp add: terminated_drop hd_drop_conv_nth)
qed simp

text \<open>Below, n characters are left before an end pointer and the NUL is d characters past that.\<close>

lemma terminated_next: "terminated p (n + d) \<Longrightarrow> 0 < n \<Longrightarrow> terminated (tl p) (n - 1 + d)"
  using terminated_tl [of p "n + d"] by simp

lemma skip_m_yields:
  assumes "terminated xs (n + d)"
  shows "yields (skip_m P xs n) (\<lambda>(q, k). k \<le> n \<and> terminated q (k + d) \<and> q = drop (n - k) xs)"
proof -
  have "n \<le> length xs" using assms by (simp add: terminated_def)
  then obtain k where "k \<le> n" "skip_m P xs n = Some (drop k xs, n - k)" by (rule skip_m_inside)
  then show ?thesis using assms terminated_drop [of xs "n + d" k] by simp
qed

end
