(* ===== verification/PkgJson.thy ===== *)
theory PkgJson
  imports CText "HOL-Library.Monad_Syntax"
begin

text \<open>
  The JSON half of src/src/pkg_parser.c: looking keys up in param.json, the localised titles,
  the version text, and the object of localised titles that the cache keeps and from which a
  title is resolved for a browser's language. The functions on param.json work on a block of
  memory (CText) and answer None when they read outside it; those on the titles object work
  on C strings.
\<close>

section \<open>The text a parser fills in\<close>

text \<open>
  The output buffers of the parsers as the strings in them, and their sizes. A size of 0
  stands for a null pointer.
\<close>

record meta =
  m_title_id :: string
  m_title :: string
  m_category :: string
  m_version :: string
  m_localized :: string
  m_lang :: string

record meta_sizes =
  z_title_id :: nat
  z_title :: nat
  z_category :: nat
  z_version :: nat
  z_localized :: nat
  z_lang :: nat

definition PKG_TITLE_ID_LEN :: nat where "PKG_TITLE_ID_LEN = 32"
definition PKG_TITLE_NAME_LEN :: nat where "PKG_TITLE_NAME_LEN = 256"
definition PKG_LOCALIZED_TITLES_LEN :: nat where "PKG_LOCALIZED_TITLES_LEN = 2048"
definition PKG_DEFAULT_LANG_LEN :: nat where "PKG_DEFAULT_LANG_LEN = 32"

section \<open>Keys and values\<close>

text \<open>
  A quoted value: its characters without the backslashes, where it ends (the closing quote
  or the end pointer), and what is left there.
\<close>

fun json_chars :: "string \<Rightarrow> nat \<Rightarrow> (string \<times> string \<times> nat) option" where
  "json_chars xs 0 = Some ([], xs, 0)"
| "json_chars [] (Suc n) = None"
| "json_chars (c # xs) (Suc n) =
     (if c = QUOTE then Some ([], c # xs, Suc n)
      else if c = BSLASH \<and> 0 < n
      then (case xs of [] \<Rightarrow> None
            | d # ys \<Rightarrow> map_option (\<lambda>(v, r). (d # v, r)) (json_chars ys (n - 1)))
      else map_option (\<lambda>(v, r). (c # v, r)) (json_chars xs n))"

datatype json_found = NoColon | NotString | Quoted string

text \<open>The value behind a key: the next colon, blanks, a quoted string.\<close>

definition quoted_after :: "string \<Rightarrow> nat \<Rightarrow> json_found option" where
  "quoted_after g n =
     do { c \<leftarrow> strchr_m CHR '':'' g;
          case c of
            None \<Rightarrow> Some NoColon
          | Some c \<Rightarrow>
              (if n \<le> moved g c then Some NoColon
               else do { (q, k) \<leftarrow> skip_m is_space (tl c) (n - moved g c - 1);
                         if 0 < k \<and> hd q = QUOTE
                         then do { (v, r) \<leftarrow> json_chars (tl q) (k - 1); Some (Quoted v) }
                         else Some NotString }) }"

definition json_pattern :: "string \<Rightarrow> string" where
  "json_pattern key = c_trunc 128 (QUOTE # key @ [QUOTE])"

lemma json_pattern_ne: "json_pattern key \<noteq> []"
  by (simp add: json_pattern_def c_trunc_def)

lemma strstr_m_suffix:
  "strstr_m pat xs = Some (Some f) \<Longrightarrow> \<exists>k. f = drop k xs \<and> k + length pat \<le> length xs \<and> starts_with pat f"
proof (induction pat xs rule: strstr_m.induct)
  case (2 pat c xs)
  show ?case
  proof (cases "starts_with pat (c # xs)")
    case True
    then have "length pat \<le> length (c # xs)"
      unfolding starts_with_def by (metis length_take min.cobounded1)
    with 2 True show ?thesis by (intro exI [of _ 0]) simp
  next
    case False
    then obtain k where "f = drop k xs" "k + length pat \<le> length xs" "starts_with pat f"
      using 2 by (auto split: if_splits)
    then show ?thesis by (intro exI [of _ "Suc k"]) simp
  qed
qed simp

lemma strstr_m_moved:
  assumes "strstr_m pat xs = Some (Some f)" and "pat \<noteq> []" and "moved xs f < n"
  shows "n - moved xs (drop (length pat) f) < n"
proof -
  obtain k where k: "f = drop k xs" "k + length pat \<le> length xs"
    using strstr_m_suffix [OF assms(1)] by blast
  then have "drop (length pat) f = drop (k + length pat) xs" by (simp add: add.commute)
  then have "moved xs (drop (length pat) f) = k + length pat" using k by (simp only: moved_drop)
  moreover have "0 < length pat" using assms(2) by simp
  ultimately show ?thesis using assms(3) by linarith
qed

text \<open>
  json_extract_key: None for a read outside the memory, Some None for -1, else the string left
  in the buffer of m characters.
\<close>

function json_extract_key :: "string \<Rightarrow> nat \<Rightarrow> string \<Rightarrow> nat \<Rightarrow> string option option" where
  "json_extract_key p n key m =
     (if n = 0 then Some None
      else case strstr_m (json_pattern key) p of
        None \<Rightarrow> None
      | Some None \<Rightarrow> Some None
      | Some (Some f) \<Rightarrow>
          (if n \<le> moved p f then Some None
           else let g = drop (length (json_pattern key)) f in
           case quoted_after g (n - moved p g) of
             None \<Rightarrow> None
           | Some NoColon \<Rightarrow> Some None
           | Some (Quoted v) \<Rightarrow> Some (Some (c_copy m v))
           | Some NotString \<Rightarrow> json_extract_key g (n - moved p g) key m))"
  by pat_completeness auto
termination
  by (relation "measure (\<lambda>(p, n, key, m). n)")
    (auto intro!: strstr_m_moved json_pattern_ne simp: not_le)

declare json_extract_key.simps [simp del]

text \<open>json_has_key: memcmp at every place where the pattern fits before the end.\<close>

fun pattern_before :: "string \<Rightarrow> string \<Rightarrow> nat \<Rightarrow> bool option" where
  "pattern_before pat [] n = (if n < length pat then Some False else if pat = [] then Some True else None)"
| "pattern_before pat (c # xs) n =
     (if n < length pat then Some False
      else if length (c # xs) < length pat then None
      else if starts_with pat (c # xs) then Some True
      else pattern_before pat xs (n - 1))"

definition json_has_key :: "string \<Rightarrow> nat \<Rightarrow> string \<Rightarrow> bool option" where
  "json_has_key json n key =
     (if 128 \<le> length key + 2 then Some False else pattern_before (QUOTE # key @ [QUOTE]) json n)"

section \<open>Versions\<close>

text \<open>sscanf's %d and printf's %02d.\<close>

definition to_int :: "int \<Rightarrow> int" where
  "to_int z = (z + 2 ^ 31) mod 2 ^ 32 - 2 ^ 31"

definition scan_int :: "string \<Rightarrow> (int \<times> string) option" where
  "scan_int s =
     (let t = dropWhile is_space s;
          u = (if t \<noteq> [] \<and> (hd t = CHR ''-'' \<or> hd t = CHR ''+'') then tl t else t)
      in if takeWhile is_digit u = [] then None else Some (to_int (strtol t), dropWhile is_digit u))"

definition scan_dot :: "string \<Rightarrow> string option" where
  "scan_dot s = (case s of c # t \<Rightarrow> if c = CHR ''.'' then Some t else None | [] \<Rightarrow> None)"

definition scan_version :: "string \<Rightarrow> (int \<times> int \<times> int) option" where
  "scan_version s =
     do { (maj, s) \<leftarrow> scan_int s; s \<leftarrow> scan_dot s; (mn, s) \<leftarrow> scan_int s; s \<leftarrow> scan_dot s;
          (patch, s) \<leftarrow> scan_int s; Some (maj, mn, patch) }"

definition show_02 :: "int \<Rightarrow> string" where
  "show_02 i = (if 0 \<le> i \<and> i < 10 then CHR ''0'' # show_int i else show_int i)"

definition version_text :: "string \<Rightarrow> nat \<Rightarrow> string" where
  "version_text ver m =
     (case scan_version ver of
        Some (maj, mn, patch) \<Rightarrow>
          c_trunc m (if mn = 0 \<and> 0 < patch then ''v'' @ show_int maj @ ''.'' @ show_02 patch
                     else if patch = 0 then ''v'' @ show_int maj @ ''.'' @ show_02 mn
                     else ''v'' @ show_int maj @ ''.'' @ show_int mn @ ''.'' @ show_int patch)
      | None \<Rightarrow>
          (if hd ver \<noteq> CHR ''v'' \<and> hd ver \<noteq> CHR ''V'' then c_trunc m (''v'' @ take 29 ver)
           else c_trunc m ver))"

text \<open>The first of the three version keys that is there, if its value is not empty.\<close>

definition json_version :: "string \<Rightarrow> nat \<Rightarrow> string option option" where
  "json_version js n =
     do { a \<leftarrow> json_extract_key js n ''contentVersion'' 32;
          case a of Some v \<Rightarrow> Some (Some v)
          | None \<Rightarrow>
              do { b \<leftarrow> json_extract_key js n ''appVersion'' 32;
                   case b of Some v \<Rightarrow> Some (Some v)
                   | None \<Rightarrow> json_extract_key js n ''version'' 32 } }"

section \<open>The localizedParameters object\<close>

text \<open>
  From an opening brace to the brace that closes it, strings skipped; Some None when the end
  pointer comes first.
\<close>

fun close_brace :: "string \<Rightarrow> nat \<Rightarrow> int \<Rightarrow> bool \<Rightarrow> (string \<times> nat) option option" where
  "close_brace xs 0 depth in_str = Some None"
| "close_brace [] (Suc n) depth in_str = None"
| "close_brace (c # xs) (Suc n) depth in_str =
     (if c = BSLASH \<and> in_str \<and> 0 < n then close_brace (tl xs) (n - 1) depth in_str
      else if c = QUOTE then close_brace xs n depth (\<not> in_str)
      else if \<not> in_str \<and> c = CHR ''{'' then close_brace xs n (depth + 1) in_str
      else if \<not> in_str \<and> c = CHR ''}''
      then (if depth - 1 = 0 then Some (Some (c # xs, Suc n)) else close_brace xs n (depth - 1) in_str)
      else close_brace xs n depth in_str)"

text \<open>Where the object starts and ends: the pointers lp_start and lp_end, and the distance.\<close>

definition localized_block :: "string \<Rightarrow> nat \<Rightarrow> (string \<times> string \<times> nat) option option" where
  "localized_block js n =
     do { lp \<leftarrow> strstr_m (QUOTE # ''localizedParameters'' @ [QUOTE]) js;
          case lp of None \<Rightarrow> Some None
          | Some lp \<Rightarrow>
              (if n \<le> moved js lp then Some None
               else do { colon \<leftarrow> strchr_m CHR '':'' (drop 21 lp);
                 case colon of None \<Rightarrow> Some None
                 | Some colon \<Rightarrow>
                     (if n \<le> moved js colon then Some None
                      else do { brace \<leftarrow> strchr_m CHR ''{'' (tl colon);
                        case brace of None \<Rightarrow> Some None
                        | Some brace \<Rightarrow>
                            (if n \<le> moved js brace then Some None
                             else do { e \<leftarrow> close_brace brace (n - moved js brace) 0 False;
                                       case e of None \<Rightarrow> Some None
                                       | Some (e, k) \<Rightarrow> Some (Some (brace, e, moved brace e)) }) }) }) }"

text \<open>
  The first quoted value of a key outside the object (between the offsets a and b). An empty
  result means there is none.
\<close>

function outside_title :: "string \<Rightarrow> (nat \<times> nat) option \<Rightarrow> string \<Rightarrow> nat \<Rightarrow> nat \<Rightarrow> string option" where
  "outside_title pat lp p off n =
     (if n = 0 \<or> pat = [] then Some []
      else case strstr_m pat p of
        None \<Rightarrow> None
      | Some None \<Rightarrow> Some []
      | Some (Some f) \<Rightarrow>
          (if n \<le> moved p f then Some []
           else let g = drop (length pat) f; fo = off + moved p f; go = off + moved p g; k = n - moved p g in
           if (case lp of None \<Rightarrow> True | Some (a, b) \<Rightarrow> fo < a \<or> b < fo)
           then (case quoted_after g k of
                   None \<Rightarrow> None
                 | Some (Quoted v) \<Rightarrow> Some (c_copy PKG_TITLE_NAME_LEN v)
                 | Some _ \<Rightarrow> outside_title pat lp g go k)
           else outside_title pat lp g go k))"
  by pat_completeness auto
termination
  by (relation "measure (\<lambda>(pat, lp, p, off, n). n)") (auto intro!: strstr_m_moved simp: not_le)

declare outside_title.simps [simp del]

definition global_title :: "string \<Rightarrow> nat \<Rightarrow> (nat \<times> nat) option \<Rightarrow> string option" where
  "global_title js n lp =
     do { t \<leftarrow> outside_title (QUOTE # ''titleName'' @ [QUOTE]) lp js 0 n;
          if t = [] then outside_title (QUOTE # ''title'' @ [QUOTE]) lp js 0 n else Some t }"

text \<open>A quoted value of a key inside [p, p + n), into a buffer of m characters; empty if none.\<close>

definition value_inside :: "string \<Rightarrow> string \<Rightarrow> nat \<Rightarrow> nat \<Rightarrow> string option" where
  "value_inside pat p n m =
     do { f \<leftarrow> strstr_m pat p;
          case f of None \<Rightarrow> Some []
          | Some f \<Rightarrow>
              (if n \<le> moved p f then Some []
               else do { v \<leftarrow> quoted_after (drop (length pat) f) (n - moved p f - length pat);
                         case v of Quoted v \<Rightarrow> Some (c_copy m v) | _ \<Rightarrow> Some [] }) }"

text \<open>One round of the loop over the languages: stop, or go on with an entry or without.\<close>

datatype lang_step = LangStop | LangNext string nat "(string \<times> string) option"

definition lang_value :: "string \<Rightarrow> string \<Rightarrow> nat \<Rightarrow> lang_step option" where
  "lang_value key p n =
     (if hd p = QUOTE
      then do { (v, q, k) \<leftarrow> json_chars (tl p) (n - 1);
                Some (if 0 < k then LangNext (tl q) (k - 1) None else LangNext q 0 None) }
      else if hd p = CHR ''{''
      then do { e \<leftarrow> close_brace p n 0 False;
                case e of None \<Rightarrow> Some LangStop
                | Some (e, k) \<Rightarrow>
                    do { t \<leftarrow> value_inside (QUOTE # ''titleName'' @ [QUOTE]) p (n - k) PKG_TITLE_NAME_LEN;
                         Some (LangNext (tl e) (k - 1)
                                 (if t \<noteq> [] \<and> key \<noteq> [] then Some (c_copy 32 key, t) else None)) } }
      else Some (LangNext p n None))"

definition lang_round :: "string \<Rightarrow> nat \<Rightarrow> lang_step option" where
  "lang_round p n =
     do { (p1, n1) \<leftarrow> skip_m (\<lambda>c. c \<noteq> QUOTE) p n;
          if n1 = 0 then Some LangStop
          else do { (p2, n2) \<leftarrow> skip_m (\<lambda>c. c \<noteq> QUOTE) (tl p1) (n1 - 1);
            let key = c_copy 64 (take (moved (tl p1) p2) (tl p1));
            if n2 = 0 then Some LangStop
            else do { (p3, n3) \<leftarrow> skip_m is_space (tl p2) (n2 - 1);
              if n3 = 0 \<or> hd p3 \<noteq> CHR '':'' then Some (LangNext p3 n3 None)
              else do { (p4, n4) \<leftarrow> skip_m is_space (tl p3) (n3 - 1);
                        if n4 = 0 then Some LangStop else lang_value key p4 n4 } } } }"

lemma skip_m_left: "skip_m P xs n = Some (ys, k) \<Longrightarrow> k \<le> n"
  by (induction P xs n rule: skip_m.induct) (auto split: if_splits)

lemma json_chars_left: "json_chars xs n = Some (v, ys, k) \<Longrightarrow> k \<le> n"
proof (induction xs n arbitrary: v rule: json_chars.induct)
  case (3 c xs n)
  show ?case
  proof (cases "c = BSLASH \<and> 0 < n \<and> c \<noteq> QUOTE")
    case True
    then show ?thesis using 3 by (cases xs) fastforce+
  next
    case False
    then show ?thesis using 3 by (fastforce split: if_splits)
  qed
qed auto

lemma close_brace_left: "close_brace xs n d s = Some (Some (ys, k)) \<Longrightarrow> k \<le> n"
proof (induction xs n d s rule: close_brace.induct)
  case (3 c xs n d s)
  show ?case
  proof (cases "c = BSLASH \<and> s \<and> 0 < n")
    case True
    then have "k \<le> n - 1" using 3 by simp
    then show ?thesis by simp
  next
    case False
    then have "k \<le> n \<or> k = Suc n" using 3 by (auto split: if_splits)
    then show ?thesis by auto
  qed
qed auto

lemma lang_value_left: "lang_value key p n = Some (LangNext q k e) \<Longrightarrow> k \<le> n"
  by (auto simp: lang_value_def bind_eq_Some_conv split: if_splits option.splits
      dest!: json_chars_left close_brace_left)

lemma lang_round_left: "lang_round p n = Some (LangNext q k e) \<Longrightarrow> k < n"
  by (auto simp: lang_round_def Let_def bind_eq_Some_conv split: if_splits
      dest!: skip_m_left lang_value_left)

function lang_entries :: "string \<Rightarrow> nat \<Rightarrow> nat \<Rightarrow> (string \<times> string) list option" where
  "lang_entries p n count =
     (if n = 0 \<or> 64 \<le> count then Some []
      else case lang_round p n of
        None \<Rightarrow> None
      | Some LangStop \<Rightarrow> Some []
      | Some (LangNext q k None) \<Rightarrow> lang_entries q k count
      | Some (LangNext q k (Some e)) \<Rightarrow> map_option ((#) e) (lang_entries q k (count + 1)))"
  by pat_completeness auto
termination
  by (relation "measure (\<lambda>(p, n, count). n)") (auto dest: lang_round_left)

declare lang_entries.simps [simp del]

section \<open>The object of localised titles\<close>

text \<open>The escape loop, which fills at most 512 characters.\<close>

fun esc_title :: "nat \<Rightarrow> string \<Rightarrow> string" where
  "esc_title n [] = []"
| "esc_title n (c # s) =
     (if n + 2 < 2 * PKG_TITLE_NAME_LEN
      then (if c = QUOTE \<or> c = BSLASH then BSLASH # c # esc_title (n + 2) s else c # esc_title (n + 1) s)
      else [])"

definition loc_member :: "bool \<Rightarrow> string \<times> string \<Rightarrow> string" where
  "loc_member first e =
     (if first then [] else '','') @ QUOTE # fst e @ [QUOTE, CHR '':'', QUOTE] @ esc_title 0 (snd e) @ [QUOTE]"

fun loc_members :: "nat \<Rightarrow> bool \<Rightarrow> string \<Rightarrow> (string \<times> string) list \<Rightarrow> string" where
  "loc_members m first acc [] = acc"
| "loc_members m first acc (e # es) =
     (if length (loc_member first e) < m - length acc
      then loc_members m False (acc @ loc_member first e) es else acc)"

definition loc_object :: "nat \<Rightarrow> (string \<times> string) list \<Rightarrow> string" where
  "loc_object m es =
     (let s = loc_members m True ''{'' es in if length s < m - 1 then s @ ''}'' else s)"

section \<open>param.json\<close>

text \<open>The title shown when no language is asked for.\<close>

definition best_title :: "string \<Rightarrow> string \<Rightarrow> (string \<times> string) list \<Rightarrow> nat \<Rightarrow> string" where
  "best_title global lang es m =
     (let copy = (\<lambda>e. case e of None \<Rightarrow> [] | Some (l, t) \<Rightarrow> c_trunc m t);
          t1 = (if global \<noteq> [] then c_trunc m global
                else if lang \<noteq> [] then copy (List.find (\<lambda>(l, t). l = lang) es) else []);
          t2 = (if t1 = [] then copy (List.find (\<lambda>(l, t). starts_with ''en'' l) es) else t1)
      in if t2 = [] \<and> es \<noteq> [] then c_trunc m (snd (hd es)) else t2)"

definition json_identity :: "string \<Rightarrow> nat \<Rightarrow> meta_sizes \<Rightarrow> meta \<Rightarrow> meta option" where
  "json_identity js n Z M =
     do { M \<leftarrow> (if 0 < z_title_id Z \<and> m_title_id M = []
               then do { v \<leftarrow> json_extract_key js n ''titleId'' PKG_TITLE_ID_LEN;
                         Some (case v of None \<Rightarrow> M | Some v \<Rightarrow> M\<lparr>m_title_id := c_trunc (z_title_id Z) v\<rparr>) }
               else Some M);
          M \<leftarrow> (if 0 < z_category Z \<and> m_category M = []
               then do { v \<leftarrow> json_extract_key js n ''category'' 16;
                         Some (case v of None \<Rightarrow> M | Some v \<Rightarrow> M\<lparr>m_category := c_trunc (z_category Z) v\<rparr>) }
               else Some M);
          if 0 < z_version Z \<and> m_version M = []
          then do { v \<leftarrow> json_version js n;
                    Some (case v of None \<Rightarrow> M
                          | Some v \<Rightarrow> (if v = [] then M else M\<lparr>m_version := version_text v (z_version Z)\<rparr>)) }
          else Some M }"

definition clear_localized :: "meta_sizes \<Rightarrow> meta \<Rightarrow> meta" where
  "clear_localized Z M =
     (let M = (if 0 < z_lang Z then M\<lparr>m_lang := []\<rparr> else M)
      in if 0 < z_localized Z then M\<lparr>m_localized := []\<rparr> else M)"

definition json_localized :: "string \<Rightarrow> string \<Rightarrow> nat \<Rightarrow> meta_sizes \<Rightarrow> meta \<Rightarrow> meta option" where
  "json_localized global lp n Z M =
     do { lang \<leftarrow> value_inside (QUOTE # ''defaultLanguage'' @ [QUOTE]) lp n 32;
          let M = (if 0 < z_lang Z \<and> lang \<noteq> [] then M\<lparr>m_lang := c_trunc (z_lang Z) lang\<rparr> else M);
          es \<leftarrow> lang_entries (tl lp) (n - 1) 0;
          let M = (if 2 < z_localized Z \<and> es \<noteq> [] then M\<lparr>m_localized := loc_object (z_localized Z) es\<rparr> else M);
          Some (if 0 < z_title Z \<and> m_title M = [] then M\<lparr>m_title := best_title global lang es (z_title Z)\<rparr> else M) }"

definition pkg_parser_parse_param_json :: "string \<Rightarrow> nat \<Rightarrow> meta_sizes \<Rightarrow> meta \<Rightarrow> meta option" where
  "pkg_parser_parse_param_json js n Z M =
     (if n = 0 then Some M
      else do { M \<leftarrow> json_identity js n Z M;
                lp \<leftarrow> localized_block js n;
                global \<leftarrow> global_title js n (map_option (\<lambda>(s, e, k). (moved js s, moved js e)) lp);
                let M = clear_localized Z M;
                case lp of
                  Some (s, e, k) \<Rightarrow> json_localized global s k Z M
                | None \<Rightarrow> Some (if 0 < z_title Z \<and> m_title M = [] \<and> global \<noteq> []
                                then M\<lparr>m_title := c_trunc (z_title Z) global\<rparr> else M) })"

section \<open>Looking a title up\<close>

text \<open>The value of a key of a flat object (extract_val_for_key): -1 is None.\<close>

definition extract_val_for_key :: "string \<Rightarrow> string \<Rightarrow> nat \<Rightarrow> string option" where
  "extract_val_for_key json key m =
     (let pat = c_trunc 64 (QUOTE # key @ [QUOTE, CHR '':'', QUOTE]) in
      case strstr json pat of None \<Rightarrow> None
      | Some p \<Rightarrow> Some (unescape m (drop (length pat) p)))"

text \<open>A lookup that counts: the key is there and its value is not empty.\<close>

definition title_for :: "string \<Rightarrow> string \<Rightarrow> nat \<Rightarrow> string option" where
  "title_for json key m = (case extract_val_for_key json key m of Some (c # t) \<Rightarrow> Some (c # t) | _ \<Rightarrow> None)"

text \<open>The primary part of a language tag: up to the first dash, or else the first underscore.\<close>

definition primary_of :: "string \<Rightarrow> string" where
  "primary_of tag =
     (if CHR ''-'' \<in> set tag then takeWhile (\<lambda>c. c \<noteq> CHR ''-'') tag
      else takeWhile (\<lambda>c. c \<noteq> CHR ''_'') tag)"

text \<open>The title of the first key that begins with one of the patterns (tried in order).\<close>

fun first_match :: "string \<Rightarrow> string list \<Rightarrow> string option" where
  "first_match json [] = None"
| "first_match json (pat # pats) = (case strstr json pat of Some f \<Rightarrow> Some f | None \<Rightarrow> first_match json pats)"

definition title_near :: "string \<Rightarrow> string list \<Rightarrow> nat \<Rightarrow> string option" where
  "title_near json pats m =
     (case first_match json pats of None \<Rightarrow> None
      | Some f \<Rightarrow>
          (let key = takeWhile (\<lambda>c. c \<noteq> QUOTE) (tl f) in
           if QUOTE \<in> set (tl f) \<and> length key < 32 then title_for json key m else None))"

definition tag_title :: "string \<Rightarrow> string \<Rightarrow> nat \<Rightarrow> string option" where
  "tag_title json tag m =
     (case title_for json tag m of
        Some t \<Rightarrow> Some t
      | None \<Rightarrow>
          (if length (primary_of tag) < 16
           then title_near json [QUOTE # primary_of tag @ ''-'', QUOTE # primary_of tag @ [QUOTE, CHR '':'']] m
           else None))"

definition rstrip :: "string \<Rightarrow> string" where
  "rstrip s = rev (dropWhile is_space (rev s))"

text \<open>The tags of an Accept-Language header, in order: blanks around and quality values dropped.\<close>

function accept_tags :: "string \<Rightarrow> string list" where
  "accept_tags s =
     (let p = dropWhile (\<lambda>c. c = CHR '' '' \<or> c = CHR 0x09 \<or> c = CHR '','') s in
      if p = [] then []
      else let item = takeWhile (\<lambda>c. c \<noteq> CHR '','' \<and> c \<noteq> CHR '';'') p;
               q = dropWhile (\<lambda>c. c \<noteq> CHR '','') (drop (length item) p)
           in (if rstrip item \<noteq> [] \<and> length (rstrip item) < 32 then [rstrip item] else []) @ accept_tags (tl q))"
  by pat_completeness auto
termination
proof (relation "measure length", simp)
  fix s :: string and p item q
  assume p: "p = dropWhile (\<lambda>c. c = CHR '' '' \<or> c = CHR 0x09 \<or> c = CHR '','') s" "p \<noteq> []"
    and q: "q = dropWhile (\<lambda>c. c \<noteq> CHR '','') (drop (length item) p)"
  have "length p \<le> length s" using p(1) by (simp add: length_dropWhile_le)
  moreover have "length q \<le> length (drop (length item) p)" unfolding q by (rule length_dropWhile_le)
  then have "length q \<le> length p" by simp
  moreover have "0 < length p" using p(2) by simp
  ultimately have "length q - 1 < length s" by linarith
  then show "(tl q, s) \<in> measure length" by simp
qed

declare accept_tags.simps [simp del]

fun first_title :: "string \<Rightarrow> nat \<Rightarrow> string list \<Rightarrow> string option" where
  "first_title json m [] = None"
| "first_title json m (tag # tags) =
     (case tag_title json tag m of Some t \<Rightarrow> Some t | None \<Rightarrow> first_title json m tags)"

definition default_title :: "string \<Rightarrow> string \<Rightarrow> nat \<Rightarrow> string option" where
  "default_title json lang m =
     (if lang = [] then None
      else case title_for json lang m of
        Some t \<Rightarrow> Some t
      | None \<Rightarrow>
          (if length (primary_of lang) < 16 then title_near json [QUOTE # primary_of lang @ ''-''] m else None))"

text \<open>The last resort: the raw text of the first value.\<close>

definition any_title :: "string \<Rightarrow> nat \<Rightarrow> string option" where
  "any_title json m =
     (case strchr json CHR '':'' of
        Some (_ # q # v) \<Rightarrow>
          (let t = takeWhile (\<lambda>c. c \<noteq> QUOTE) v in
           if q = QUOTE \<and> QUOTE \<in> set v \<and> length t + 1 < m then Some t else None)
      | _ \<Rightarrow> None)"

definition pkg_parser_resolve_localized_title :: "string \<Rightarrow> string \<Rightarrow> string \<Rightarrow> nat \<Rightarrow> string option" where
  "pkg_parser_resolve_localized_title json default_lang accept_lang m =
     (if json = [] \<or> hd json \<noteq> CHR ''{'' \<or> m = 0 then None
      else case first_title json m (accept_tags accept_lang) of
        Some t \<Rightarrow> Some t
      | None \<Rightarrow>
          (case default_title json default_lang m of
             Some t \<Rightarrow> Some t
           | None \<Rightarrow>
               (case title_near json [QUOTE # ''en-'', QUOTE # ''en'' @ [QUOTE, CHR '':'']] m of
                  Some t \<Rightarrow> Some t
                | None \<Rightarrow> any_title json m)))"

end
