(* ===== verification/PkgSfo.thy ===== *)
theory PkgSfo
  imports PkgJson Multipart
begin

text \<open>
  The param.sfo half of src/src/pkg_parser.c: integers in either byte order, bounded reads, and
  the parser of the key table, which works on a block of bytes that may be longer or shorter
  than the length it is told; a read outside the block answers None.
\<close>

unbundle bit_operations_syntax

section \<open>Reading bytes\<close>

definition read_be32 :: "u8 list \<Rightarrow> nat" where
  "read_be32 p = unat (push_bit 24 (ucast (p ! 0)) OR push_bit 16 (ucast (p ! 1)) OR
                       push_bit 8 (ucast (p ! 2)) OR ucast (p ! 3) :: u32)"

definition read_le16 :: "u8 list \<Rightarrow> nat" where
  "read_le16 p = unat (ucast (p ! 0) OR push_bit 8 (ucast (p ! 1)) :: 16 word)"

definition read_le32 :: "u8 list \<Rightarrow> nat" where
  "read_le32 p = unat (ucast (p ! 0) OR push_bit 8 (ucast (p ! 1)) OR
                       push_bit 16 (ucast (p ! 2)) OR push_bit 24 (ucast (p ! 3)) :: u32)"

definition read_le64 :: "u8 list \<Rightarrow> nat" where
  "read_le64 p = unat (fold (\<lambda>i v. v OR push_bit (i * 8) (ucast (p ! i))) [0..<8] (0 :: 64 word))"

definition bytes_at :: "u8 list \<Rightarrow> nat \<Rightarrow> nat \<Rightarrow> u8 list option" where
  "bytes_at m i n = (if i + n \<le> length m then Some (take n (drop i m)) else None)"

definition be32_at :: "u8 list \<Rightarrow> nat \<Rightarrow> nat option" where
  "be32_at m i = map_option read_be32 (bytes_at m i 4)"

definition le64_at :: "u8 list \<Rightarrow> nat \<Rightarrow> nat option" where
  "le64_at m i = map_option read_le64 (bytes_at m i 8)"

definition chars_of :: "u8 list \<Rightarrow> string" where
  "chars_of bs = map (\<lambda>b. char_of (unat b)) bs"

lemma bytes_at_Some: "i + n \<le> length m \<Longrightarrow> bytes_at m i n = Some (take n (drop i m))"
  by (simp add: bytes_at_def)

lemma be32_at_Some: "i + 4 \<le> length m \<Longrightarrow> be32_at m i = Some (read_be32 (drop i m))"
  by (simp add: be32_at_def bytes_at_def read_be32_def)

lemma le64_at_Some: "i + 8 \<le> length m \<Longrightarrow> le64_at m i = Some (read_le64 (take 8 (drop i m)))"
  by (simp add: le64_at_def bytes_at_def)

lemma length_chars_of [simp]: "length (chars_of bs) = length bs"
  by (simp add: chars_of_def)

section \<open>Entries\<close>

definition s_sfo_lang_map :: "string list" where
  "s_sfo_lang_map = [
     ''ja-JP'', ''en-US'', ''fr-FR'', ''es-ES'', ''de-DE'', ''it-IT'', ''nl-NL'', ''pt-PT'',
     ''ru-RU'', ''ko-KR'', ''zh-Hant'', ''zh-Hans'', ''fi-FI'', ''sv-SE'', ''da-DK'', ''no-NO'',
     ''pl-PL'', ''pt-BR'', ''en-GB'', ''tr-TR'', ''es-419'', ''ar-AE'', ''fr-CA'', ''cs-CZ'',
     ''hu-HU'', ''el-GR'', ''ro-RO'', ''th-TH'', ''vi-VN'', ''id-ID'']"

text \<open>The language of a key TITLE_00 to TITLE_29.\<close>

definition sfo_lang :: "string \<Rightarrow> string option" where
  "sfo_lang key =
     (let suffix = drop 6 key; l = to_int (strtol suffix)
      in if suffix \<noteq> [] \<and> list_all is_digit suffix \<and> 0 \<le> l \<and> l < 30
         then Some (s_sfo_lang_map ! nat l) else None)"

text \<open>
  A value of len bytes at pos, copied into a buffer of m characters: clipped, trailing NULs
  stripped, and strncpy stops at a NUL inside.
\<close>

definition strip_nuls :: "string \<Rightarrow> string" where
  "strip_nuls s = rev (dropWhile (\<lambda>c. c = NUL) (rev s))"

definition sfo_text :: "u8 list \<Rightarrow> nat \<Rightarrow> nat \<Rightarrow> nat \<Rightarrow> string option" where
  "sfo_text mem pos len m =
     do { bs \<leftarrow> bytes_at mem pos (if len < m then len else m - 1); Some (c_str (strip_nuls (chars_of bs))) }"

text \<open>
  Entry i of the table: its key, the place of its data and the length of it; Some None when the
  code skips the entry. The sum of the key table's start and the key's offset is a uint32_t
  where it is compared, and a pointer where it is used.
\<close>

definition sfo_entry :: "u8 list \<Rightarrow> nat \<Rightarrow> nat \<Rightarrow> nat \<Rightarrow> nat \<Rightarrow> (string \<times> nat \<times> nat) option option" where
  "sfo_entry mem len kts dts i =
     do { k \<leftarrow> bytes_at mem (20 + i * 16) 2;
          l \<leftarrow> bytes_at mem (20 + i * 16 + 4) 4;
          d \<leftarrow> bytes_at mem (20 + i * 16 + 12) 4;
          let key_at = (kts + read_le16 k) mod 2 ^ 32;
          let dlen = read_le32 l;
          let doff = read_le32 d;
          if key_at \<ge> len then Some None
          else do { let key = chars_of (drop (kts + read_le16 k) mem);
                    (e, n) \<leftarrow> skip_m (\<lambda>c. c \<noteq> NUL) key (len - key_at);
                    Some (if n = 0 \<or> doff > len \<or> dlen > len \<or> dts + doff + dlen > len then None
                          else Some (take (moved key e) key, dts + doff, dlen)) } }"

record sfo_acc =
  sa_meta :: meta
  sa_app_ver :: string
  sa_version :: string
  sa_loc :: "(string \<times> string) list"

definition sfo_field :: "string \<Rightarrow> (nat \<Rightarrow> string option) \<Rightarrow> meta_sizes \<Rightarrow> sfo_acc \<Rightarrow> sfo_acc option" where
  "sfo_field key txt Z A =
     (let M = sa_meta A in
      if key = ''TITLE'' \<and> m_title M = []
      then do { t \<leftarrow> txt (z_title Z); Some (A\<lparr>sa_meta := M\<lparr>m_title := t\<rparr>\<rparr>) }
      else if key = ''TITLE_ID'' \<and> m_title_id M = []
      then do { t \<leftarrow> txt (z_title_id Z); Some (A\<lparr>sa_meta := M\<lparr>m_title_id := t\<rparr>\<rparr>) }
      else if starts_with ''TITLE_'' key \<and> length (sa_loc A) < 32
      then (case sfo_lang key of None \<Rightarrow> Some A
            | Some l \<Rightarrow> do { t \<leftarrow> txt PKG_TITLE_NAME_LEN; Some (A\<lparr>sa_loc := sa_loc A @ [(l, t)]\<rparr>) })
      else if key = ''CATEGORY'' \<and> 0 < z_category Z \<and> m_category M = []
      then do { t \<leftarrow> txt (z_category Z); Some (A\<lparr>sa_meta := M\<lparr>m_category := t\<rparr>\<rparr>) }
      else if key = ''APP_VER'' \<and> sa_app_ver A = []
      then do { t \<leftarrow> txt 32; Some (A\<lparr>sa_app_ver := t\<rparr>) }
      else if key = ''VERSION'' \<and> sa_version A = []
      then do { t \<leftarrow> txt 32; Some (A\<lparr>sa_version := t\<rparr>) }
      else Some A)"

text \<open>The loop from entry i on, k entries left.\<close>

primrec sfo_loop ::
    "u8 list \<Rightarrow> nat \<Rightarrow> nat \<Rightarrow> nat \<Rightarrow> meta_sizes \<Rightarrow> nat \<Rightarrow> nat \<Rightarrow> sfo_acc \<Rightarrow> sfo_acc option" where
  "sfo_loop mem len kts dts Z 0 i A = Some A"
| "sfo_loop mem len kts dts Z (Suc k) i A =
     (if 20 + (i + 1) * 16 > len then Some A
      else do { e \<leftarrow> sfo_entry mem len kts dts i;
                A \<leftarrow> (case e of None \<Rightarrow> Some A
                      | Some (key, pos, dlen) \<Rightarrow> sfo_field key (sfo_text mem pos dlen) Z A);
                sfo_loop mem len kts dts Z k (i + 1) A })"

definition sfo_title :: "meta_sizes \<Rightarrow> (string \<times> string) list \<Rightarrow> meta \<Rightarrow> meta" where
  "sfo_title Z es M =
     (if m_title M = [] \<and> es \<noteq> []
      then M\<lparr>m_title := c_trunc (z_title Z)
               (case List.find (\<lambda>(l, t). l = ''en-US'') es of Some (l, t) \<Rightarrow> t | None \<Rightarrow> snd (hd es))\<rparr>
      else M)"

definition sfo_localized :: "meta_sizes \<Rightarrow> (string \<times> string) list \<Rightarrow> meta \<Rightarrow> meta" where
  "sfo_localized Z es M =
     (if es = [] then M
      else let M = (if 0 < z_lang Z \<and> m_lang M = [] then M\<lparr>m_lang := c_trunc (z_lang Z) ''en-US''\<rparr> else M)
           in if 2 < z_localized Z then M\<lparr>m_localized := loc_object (z_localized Z) es\<rparr> else M)"

definition sfo_version :: "meta_sizes \<Rightarrow> string \<Rightarrow> meta \<Rightarrow> meta" where
  "sfo_version Z best M =
     (if best \<noteq> [] \<and> 0 < z_version Z \<and> m_version M = []
      then M\<lparr>m_version := c_trunc (z_version Z)
               (if hd best \<noteq> CHR ''v'' \<and> hd best \<noteq> CHR ''V'' then ''v'' @ best else best)\<rparr>
      else M)"

definition sfo_finish :: "meta_sizes \<Rightarrow> sfo_acc \<Rightarrow> meta" where
  "sfo_finish Z A =
     sfo_version Z (if sa_app_ver A \<noteq> [] then sa_app_ver A else sa_version A)
       (sfo_localized Z (sa_loc A) (sfo_title Z (sa_loc A) (sa_meta A)))"

definition pkg_parser_parse_param_sfo :: "u8 list \<Rightarrow> nat \<Rightarrow> meta_sizes \<Rightarrow> meta \<Rightarrow> meta option" where
  "pkg_parser_parse_param_sfo mem len Z M =
     (if len < 20 then Some M
      else do { magic \<leftarrow> bytes_at mem 0 4;
                if magic \<noteq> [0, 0x50, 0x53, 0x46] then Some M
                else do { k \<leftarrow> bytes_at mem 0x08 4; d \<leftarrow> bytes_at mem 0x0C 4; c \<leftarrow> bytes_at mem 0x10 4;
                          if read_le32 k \<ge> len \<or> read_le32 d \<ge> len \<or> read_le32 c > 1024 then Some M
                          else do { A \<leftarrow> sfo_loop mem len (read_le32 k) (read_le32 d) Z (read_le32 c) 0
                                        \<lparr>sa_meta = M, sa_app_ver = [], sa_version = [], sa_loc = []\<rparr>;
                                    Some (sfo_finish Z A) } } })"

end
