(* ===== verification/PkgParser.thy ===== *)
theory PkgParser
  imports PkgSfo
begin

text \<open>
  The package parsers: pkg_parser_parse (a file) and pkg_parser_parse_mem (the uploaded prefix
  of a live session) of src/src/pkg_parser.c, and smb_client_parse_pkg of src/src/smb_client.c,
  which is the same code over an SMB session. What the three share is written once, over the
  reader they use. None is a read outside a buffer; a parser's own failure is a value.
\<close>

section \<open>What is known of a package\<close>

datatype pkg_type = PKG_TYPE_UNKNOWN | PKG_TYPE_BASE | PKG_TYPE_UPDATE | PKG_TYPE_DLC

record pkg_detail =
  pd_path :: string
  pd_filename :: string
  pd_meta :: meta          \<comment> \<open>title_id, title_name, category, app_version, localized_titles, default_language\<close>
  pd_content_id :: string
  pd_file_size :: nat
  pd_total_pkg_size :: nat
  pd_icon_offset :: nat
  pd_icon_size :: nat
  pd_has_icon :: bool
  pd_is_valid :: bool
  pd_is_multipart :: bool
  pd_part_index :: nat
  pd_total_parts :: nat
  pd_pkg_type :: pkg_type
  pd_pkg_type_str :: string
  pd_mtime :: nat

definition no_meta :: meta where
  "no_meta = \<lparr>m_title_id = [], m_title = [], m_category = [], m_version = [], m_localized = [], m_lang = []\<rparr>"

definition no_detail :: pkg_detail where
  "no_detail = \<lparr>pd_path = [], pd_filename = [], pd_meta = no_meta, pd_content_id = [],
     pd_file_size = 0, pd_total_pkg_size = 0, pd_icon_offset = 0, pd_icon_size = 0,
     pd_has_icon = False, pd_is_valid = False, pd_is_multipart = False, pd_part_index = 0,
     pd_total_parts = 0, pd_pkg_type = PKG_TYPE_UNKNOWN, pd_pkg_type_str = [], pd_mtime = 0\<rparr>"

definition detail_sizes :: meta_sizes where
  "detail_sizes = \<lparr>z_title_id = PKG_TITLE_ID_LEN, z_title = PKG_TITLE_NAME_LEN, z_category = 16,
     z_version = 32, z_localized = PKG_LOCALIZED_TITLES_LEN, z_lang = PKG_DEFAULT_LANG_LEN\<rparr>"

definition PKG_CONTENT_ID_LEN :: nat where "PKG_CONTENT_ID_LEN = 64"
definition PKG_PATH_LEN :: nat where "PKG_PATH_LEN = 512"

definition type_str :: "pkg_type \<Rightarrow> string" where
  "type_str t = (case t of PKG_TYPE_BASE \<Rightarrow> ''base'' | PKG_TYPE_UPDATE \<Rightarrow> ''update''
                 | PKG_TYPE_DLC \<Rightarrow> ''dlc'' | PKG_TYPE_UNKNOWN \<Rightarrow> ''unknown'')"

section \<open>Finding the CNT header\<close>

text \<open>A reader: None outside memory, Some None when the bytes are not all there.\<close>

type_synonym reader = "nat \<Rightarrow> nat \<Rightarrow> u8 list option option"

definition CNT_MAGIC :: "u8 list" where "CNT_MAGIC = [0x7F, 0x43, 0x4E, 0x54]"
definition FIH_MAGIC :: "u8 list" where "FIH_MAGIC = [0x7F, 0x46, 0x49, 0x48]"

definition is_cnt_at :: "reader \<Rightarrow> nat \<Rightarrow> bool option" where
  "is_cnt_at rd cand = do { b \<leftarrow> rd cand 4; Some (b = Some CNT_MAGIC) }"

text \<open>The scan of the header window; the list holds the offsets still to be tried.\<close>

fun scan_cnt :: "reader \<Rightarrow> (nat \<Rightarrow> bool) \<Rightarrow> u8 list \<Rightarrow> nat list \<Rightarrow> nat option option" where
  "scan_cnt rd plausible hdr [] = Some None"
| "scan_cnt rd plausible hdr (off # offs) =
     do { cand \<leftarrow> le64_at hdr off;
          y \<leftarrow> (if 0x10000 \<le> cand \<and> plausible cand \<and> cand mod 0x1000 = 0 then is_cnt_at rd cand else Some False);
          if y then Some (Some cand) else scan_cnt rd plausible hdr offs }"

definition scan_offsets :: "u8 list \<Rightarrow> nat list" where
  "scan_offsets hdr = map (\<lambda>i. 0x10 + 8 * i) [0..<(length hdr - 0x10) div 8]"

definition find_cnt :: "reader \<Rightarrow> (nat \<Rightarrow> bool) \<Rightarrow> u8 list \<Rightarrow> nat option option" where
  "find_cnt rd plausible hdr =
     (if take 4 hdr = CNT_MAGIC then Some (Some 0)
      else if take 4 hdr = FIH_MAGIC
      then do { cand \<leftarrow> le64_at hdr 0x58;
                y \<leftarrow> (if 0 < cand \<and> plausible cand then is_cnt_at rd cand else Some False);
                if y then Some (Some cand) else scan_cnt rd plausible hdr (scan_offsets hdr) }
      else Some None)"

section \<open>The table of entries\<close>

text \<open>The 48 characters of the content id up to the first one that is not printable.\<close>

definition content_id_of :: "u8 list \<Rightarrow> string" where
  "content_id_of cid = chars_of (takeWhile (\<lambda>b. 32 \<le> unat b \<and> unat b \<le> 126) cid)"

record cnt_entry =
  ce_type :: nat
  ce_name_off :: nat
  ce_data_off :: nat
  ce_data_sz :: nat

text \<open>The reads of an entry: None when one of them leaves the table that was read.\<close>

definition entry_of :: "u8 list \<Rightarrow> nat \<Rightarrow> cnt_entry option" where
  "entry_of table i =
     do { ty \<leftarrow> be32_at table (i * 32); name_off \<leftarrow> be32_at table (i * 32 + 4);
          off \<leftarrow> be32_at table (i * 32 + 16); sz \<leftarrow> be32_at table (i * 32 + 20);
          Some \<lparr>ce_type = ty, ce_name_off = name_off, ce_data_off = off, ce_data_sz = sz\<rparr> }"

definition entries_of :: "u8 list \<Rightarrow> nat \<Rightarrow> cnt_entry list option" where
  "entries_of table n = those (map (entry_of table) [0..<n])"

text \<open>Offset and size of the string table: those of the first entry of type 0x0200.\<close>

definition string_table_at :: "cnt_entry list \<Rightarrow> nat \<times> nat" where
  "string_table_at es =
     (case List.find (\<lambda>e. ce_type e = 0x0200) es of
        Some e \<Rightarrow> (ce_data_off e, ce_data_sz e) | None \<Rightarrow> (0, 0))"

section \<open>The kind of a package\<close>

record entry_flags =
  ef_playgo_patch :: bool
  ef_delta_patch :: bool
  ef_base_metadata :: bool
  ef_sfo_category :: bool

definition no_flags :: entry_flags where
  "no_flags = \<lparr>ef_playgo_patch = False, ef_delta_patch = False, ef_base_metadata = False, ef_sfo_category = False\<rparr>"

definition patch_flags :: "nat \<Rightarrow> string \<Rightarrow> entry_flags \<Rightarrow> entry_flags" where
  "patch_flags ty name F =
     F\<lparr>ef_playgo_patch := ef_playgo_patch F \<or> ty = 0x1008 \<or> name = ''app/playgo-chunk.dat'',
       ef_delta_patch := ef_delta_patch F \<or> ty = 0x0407 \<or> ty = 0x0408 \<or>
         name = ''target-deltainfo.dat'' \<or> name = ''origin-deltainfo.dat''\<rparr>"

definition base_category :: "string \<Rightarrow> bool" where
  "base_category c = (starts_with ''gd'' c \<or> starts_with ''bd'' c \<or> starts_with ''gc'' c \<or> starts_with ''wt'' c)"

definition classify :: "nat \<Rightarrow> entry_flags \<Rightarrow> string \<Rightarrow> pkg_type" where
  "classify cnt_type F category =
     (if ef_playgo_patch F \<or> ef_delta_patch F \<or>
         cnt_type mod 0x100 = 0x1E \<or> cnt_type div 0x1000000 = 0x41 \<or> starts_with ''gp'' category
      then PKG_TYPE_UPDATE
      else if starts_with ''ac'' category \<or> starts_with ''al'' category \<or> category = ''addcont''
      then PKG_TYPE_DLC
      else if ef_sfo_category F \<and> base_category category then PKG_TYPE_BASE
      else if cnt_type mod 0x100 = 1 \<and> \<not> ef_base_metadata F then PKG_TYPE_DLC
      else PKG_TYPE_BASE)"

text \<open>The title id inside a content id: between its first dash and the next underscore.\<close>

definition title_id_in :: "string \<Rightarrow> string option" where
  "title_id_in cid =
     (case strchr cid CHR ''-'' of None \<Rightarrow> None
      | Some d \<Rightarrow>
          (case strchr (tl d) CHR ''_'' of None \<Rightarrow> None
           | Some u \<Rightarrow> (let n = length (tl d) - length u in
                        if n < PKG_TITLE_ID_LEN then Some (take n (tl d)) else None)))"

definition fallback_titles :: "pkg_detail \<Rightarrow> pkg_detail" where
  "fallback_titles D =
     (let M = pd_meta D;
          M = (if m_title_id M = [] \<and> pd_content_id D \<noteq> []
               then (case title_id_in (pd_content_id D) of Some t \<Rightarrow> M\<lparr>m_title_id := t\<rparr> | None \<Rightarrow> M) else M);
          M = (if m_title M = []
               then M\<lparr>m_title := (if m_title_id M \<noteq> [] then c_trunc PKG_TITLE_NAME_LEN (m_title_id M)
                                  else ''Unknown Package'')\<rparr> else M)
      in D\<lparr>pd_meta := M\<rparr>)"

definition finish_detail :: "nat \<Rightarrow> entry_flags \<Rightarrow> pkg_detail \<Rightarrow> pkg_detail" where
  "finish_detail cnt_type F D =
     (let t = classify cnt_type F (m_category (pd_meta D))
      in (fallback_titles (D\<lparr>pd_pkg_type := t, pd_pkg_type_str := type_str t\<rparr>))\<lparr>pd_is_valid := True\<rparr>)"

section \<open>One entry of a file or an SMB package\<close>

type_synonym pstate = "pkg_detail \<times> entry_flags"

text \<open>How the two parsers over a reader differ: the malloc, the test for a key, the icon.\<close>

definition has_base_key :: "(string \<Rightarrow> bool option) \<Rightarrow> bool option" where
  "has_base_key has =
     do { a \<leftarrow> has ''applicationDrmType'';
          if a then Some True
          else do { b \<leftarrow> has ''applicationCategoryType'';
                    if b then Some True else has ''contentBadgeType'' } }"

definition is_json_entry :: "cnt_entry \<Rightarrow> string \<Rightarrow> bool" where
  "is_json_entry e name =
     ((ce_type e = 0x2000 \<or> name = ''param.json'') \<and> 0 < ce_data_sz e \<and> ce_data_sz e < 262144)"

definition is_sfo_entry :: "cnt_entry \<Rightarrow> string \<Rightarrow> bool" where
  "is_sfo_entry e name =
     ((ce_type e = 0x1000 \<or> name = ''param.sfo'') \<and> 0 < ce_data_sz e \<and> ce_data_sz e < 262144)"

definition is_icon_entry :: "cnt_entry \<Rightarrow> string \<Rightarrow> bool" where
  "is_icon_entry e name = (ce_type e = 0x1200 \<or> name = ''icon0.png'')"

definition json_entry ::
    "reader \<Rightarrow> (nat \<Rightarrow> bool) \<Rightarrow> (string \<Rightarrow> nat \<Rightarrow> string \<Rightarrow> bool option) \<Rightarrow> nat \<Rightarrow> cnt_entry \<Rightarrow> pstate \<Rightarrow> pstate option" where
  "json_entry rd malloc has cnt e S =
     (case S of (D, F) \<Rightarrow>
        if \<not> malloc (ce_data_sz e + 1) then Some S
        else do { b \<leftarrow> rd (u64_add cnt (ce_data_off e)) (ce_data_sz e);
                  case b of None \<Rightarrow> Some S
                  | Some bs \<Rightarrow>
                      do { let js = chars_of bs @ [NUL];
                           base \<leftarrow> has_base_key (has js (ce_data_sz e));
                           M \<leftarrow> pkg_parser_parse_param_json js (ce_data_sz e) detail_sizes (pd_meta D);
                           Some (D\<lparr>pd_meta := M\<rparr>, F\<lparr>ef_base_metadata := ef_base_metadata F \<or> base\<rparr>) } })"

text \<open>What param.sfo said, taken over where nothing is known yet.\<close>

definition sfo_first :: "string \<Rightarrow> string \<Rightarrow> nat \<Rightarrow> string" where
  "sfo_first old new m = (if old = [] \<and> new \<noteq> [] then c_trunc m new else old)"

definition take_sfo :: "meta \<Rightarrow> meta \<Rightarrow> meta" where
  "take_sfo M S =
     M\<lparr>m_category := sfo_first (m_category M) (m_category S) 16,
       m_title_id := sfo_first (m_title_id M) (m_title_id S) PKG_TITLE_ID_LEN,
       m_title := sfo_first (m_title M) (m_title S) PKG_TITLE_NAME_LEN,
       m_version := sfo_first (m_version M) (m_version S) 32\<rparr>"

definition sfo_category_flag :: "meta \<Rightarrow> meta \<Rightarrow> entry_flags \<Rightarrow> entry_flags" where
  "sfo_category_flag M S F =
     F\<lparr>ef_sfo_category := ef_sfo_category F \<or> m_category S \<noteq> [] \<and> m_category M = []\<rparr>"

definition sfo_entry_of_reader :: "reader \<Rightarrow> (nat \<Rightarrow> bool) \<Rightarrow> nat \<Rightarrow> cnt_entry \<Rightarrow> pstate \<Rightarrow> pstate option" where
  "sfo_entry_of_reader rd malloc cnt e S =
     (case S of (D, F) \<Rightarrow>
        if \<not> malloc (ce_data_sz e) then Some S
        else do { b \<leftarrow> rd (u64_add cnt (ce_data_off e)) (ce_data_sz e);
                  case b of None \<Rightarrow> Some S
                  | Some bs \<Rightarrow>
                      do { let M = pd_meta D;
                           N \<leftarrow> pkg_parser_parse_param_sfo bs (ce_data_sz e) detail_sizes
                                  (no_meta\<lparr>m_localized := m_localized M, m_lang := m_lang M\<rparr>);
                           let M' = (take_sfo M N)\<lparr>m_localized := m_localized N, m_lang := m_lang N\<rparr>;
                           Some (D\<lparr>pd_meta := M'\<rparr>, sfo_category_flag M N F) } })"

definition set_icon :: "nat \<Rightarrow> cnt_entry \<Rightarrow> pkg_detail \<Rightarrow> pkg_detail" where
  "set_icon cnt e D = D\<lparr>pd_icon_offset := u64_add cnt (ce_data_off e), pd_icon_size := ce_data_sz e, pd_has_icon := True\<rparr>"

text \<open>
  The string at an offset of a buffer, None when no NUL follows in the buffer; and the name of an
  entry, a string of the copy of the string table, which has a NUL behind it.
\<close>

definition cstr_at :: "u8 list \<Rightarrow> nat \<Rightarrow> string option" where
  "cstr_at buf off = (if 0 \<in> set (drop off buf) then Some (c_str (chars_of (drop off buf))) else None)"

definition table_name :: "u8 list option \<Rightarrow> nat \<Rightarrow> nat \<Rightarrow> string option" where
  "table_name str sz off =
     (case str of Some buf \<Rightarrow> (if off < sz then cstr_at buf off else Some []) | None \<Rightarrow> Some [])"

definition reader_entry ::
    "reader \<Rightarrow> (nat \<Rightarrow> bool) \<Rightarrow> (string \<Rightarrow> nat \<Rightarrow> string \<Rightarrow> bool option) \<Rightarrow> (cnt_entry \<Rightarrow> bool) \<Rightarrow> nat \<Rightarrow>
     string \<Rightarrow> cnt_entry \<Rightarrow> pstate \<Rightarrow> pstate option" where
  "reader_entry rd malloc has icon_ok cnt name e S =
     do { let S = (fst S, patch_flags (ce_type e) name (snd S));
          S \<leftarrow> (if is_json_entry e name then json_entry rd malloc has cnt e S else Some S);
          S \<leftarrow> (if is_sfo_entry e name then sfo_entry_of_reader rd malloc cnt e S else Some S);
          Some (if is_icon_entry e name \<and> icon_ok e then (set_icon cnt e (fst S), snd S) else S) }"

fun each_entry :: "(cnt_entry \<Rightarrow> 's \<Rightarrow> 's option) \<Rightarrow> cnt_entry list \<Rightarrow> 's \<Rightarrow> 's option" where
  "each_entry f [] S = Some S"
| "each_entry f (e # es) S = do { S \<leftarrow> f e S; each_entry f es S }"

text \<open>
  From the CNT header on: the content id, the table, its strings, the entries, the kind. The
  inner None is the parser's -1; fits says whether the table lies inside the file.
\<close>

definition read_strings :: "reader \<Rightarrow> (nat \<Rightarrow> bool) \<Rightarrow> nat \<Rightarrow> nat \<times> nat \<Rightarrow> u8 list option option" where
  "read_strings rd malloc cnt at_sz =
     (case at_sz of (off, sz) \<Rightarrow>
        if 0 < sz \<and> sz < 65536 \<and> malloc (sz + 1)
        then do { b \<leftarrow> rd (u64_add cnt off) sz; Some (map_option (\<lambda>bs. bs @ [0]) b) } else Some None)"

definition parse_entries ::
    "reader \<Rightarrow> (nat \<Rightarrow> bool) \<Rightarrow> (string \<Rightarrow> nat \<Rightarrow> string \<Rightarrow> bool option) \<Rightarrow> (cnt_entry \<Rightarrow> bool) \<Rightarrow> nat \<Rightarrow>
     nat \<Rightarrow> cnt_entry list \<Rightarrow> pkg_detail \<Rightarrow> pkg_detail option" where
  "parse_entries rd malloc has icon_ok cnt cnt_type es D =
     do { let sz = snd (string_table_at es);
          str \<leftarrow> read_strings rd malloc cnt (string_table_at es);
          (D, F) \<leftarrow> each_entry (\<lambda>e S. do { name \<leftarrow> table_name str sz (ce_name_off e);
                                         reader_entry rd malloc has icon_ok cnt name e S }) es (D, no_flags);
          Some (finish_detail cnt_type F D) }"

definition parse_table ::
    "reader \<Rightarrow> (nat \<Rightarrow> bool) \<Rightarrow> (string \<Rightarrow> nat \<Rightarrow> string \<Rightarrow> bool option) \<Rightarrow> (nat \<Rightarrow> cnt_entry \<Rightarrow> bool) \<Rightarrow>
     (nat \<Rightarrow> nat \<Rightarrow> nat \<Rightarrow> bool) \<Rightarrow> nat \<Rightarrow> u8 list \<Rightarrow> pkg_detail \<Rightarrow> pkg_detail option option" where
  "parse_table rd malloc has icon_ok fits cnt cnt_hdr D =
     do { cnt_type \<leftarrow> be32_at cnt_hdr 0x04; cid \<leftarrow> bytes_at cnt_hdr 0x40 48;
          n \<leftarrow> be32_at cnt_hdr 0x10; toff \<leftarrow> be32_at cnt_hdr 0x18;
          if n = 0 \<or> 2048 < n \<or> 0x200000 < toff \<or> \<not> fits cnt toff (n * 32) \<or> \<not> malloc (n * 32) then Some None
          else do { t \<leftarrow> rd (u64_add cnt toff) (n * 32);
                    case t of None \<Rightarrow> Some None
                    | Some t \<Rightarrow>
                        do { es \<leftarrow> entries_of t n;
                             map_option Some (parse_entries rd malloc has (icon_ok cnt) cnt cnt_type es
                               (D\<lparr>pd_content_id := content_id_of cid\<rparr>)) } } }"

section \<open>A file\<close>

record parse_env =
  pe_files :: files
  pe_mtime :: "string \<Rightarrow> nat"
  pe_malloc :: "nat \<Rightarrow> bool"
  pe_smb :: "string \<Rightarrow> (nat \<times> nat \<times> (nat \<Rightarrow> nat \<Rightarrow> u8 list)) option"
    \<comment> \<open>smb_file_session_open: size, mtime, and what a read delivers (nothing on an error)\<close>

text \<open>pread, used only where all n bytes must come; an offset that is negative as off_t fails.\<close>

definition file_reader :: "u8 list \<Rightarrow> reader" where
  "file_reader f off n = Some (if off < 2 ^ 63 \<and> off + n \<le> length f then Some (take n (drop off f)) else None)"

definition text_field :: "u8 list \<Rightarrow> string" where
  "text_field f = cstr_of (take (length f - 1) f)"

definition multipart_kind :: "string \<Rightarrow> pkg_type" where
  "multipart_kind s = (if s = ''update'' then PKG_TYPE_UPDATE else if s = ''dlc'' then PKG_TYPE_DLC else PKG_TYPE_BASE)"

text \<open>The details a part's header gives (without the icon).\<close>

definition multipart_meta :: "mp_header \<Rightarrow> meta \<Rightarrow> meta" where
  "multipart_meta h M =
     (let tid = (if text_field (mh_title_id h) \<noteq> [] then c_trunc PKG_TITLE_ID_LEN (text_field (mh_title_id h))
                 else ''UNKNOWN'')
      in M\<lparr>m_title_id := tid,
           m_title := (if text_field (mh_title_name h) \<noteq> []
                       then c_trunc PKG_TITLE_NAME_LEN (text_field (mh_title_name h)) else tid),
           m_version := (if text_field (mh_app_version h) \<noteq> []
                         then c_trunc 32 (text_field (mh_app_version h)) else m_version M)\<rparr>)"

definition multipart_detail :: "mp_header \<Rightarrow> pkg_detail \<Rightarrow> pkg_detail" where
  "multipart_detail h D =
     (let t = multipart_kind (text_field (mh_pkg_type h))
      in D\<lparr>pd_is_multipart := True, pd_part_index := mh_part_index h, pd_total_parts := mh_total_parts h,
           pd_pkg_type := t, pd_pkg_type_str := type_str t, pd_meta := multipart_meta h (pd_meta D),
           pd_content_id := (if text_field (mh_content_id h) \<noteq> []
                             then c_trunc PKG_CONTENT_ID_LEN (text_field (mh_content_id h)) else pd_content_id D),
           pd_total_pkg_size := (if 0 < mh_total_pkg_size h then mh_total_pkg_size h else pd_total_pkg_size D),
           pd_has_icon := False, pd_is_valid := True\<rparr>)"

definition multipart_icon :: "mp_header \<Rightarrow> pkg_detail \<Rightarrow> pkg_detail" where
  "multipart_icon h D =
     (if 0 < mh_icon_offset h \<and> 0 < mh_icon_size h \<and> mh_icon_size h < 10 * 1024 * 1024
      then D\<lparr>pd_icon_offset := mh_icon_offset h, pd_icon_size := mh_icon_size h, pd_has_icon := True\<rparr> else D)"

text \<open>The rest of pkg_parser_parse once it is no part: the CNT header and what follows.\<close>

definition parse_cnt ::
    "reader \<Rightarrow> (nat \<Rightarrow> bool) \<Rightarrow> (string \<Rightarrow> nat \<Rightarrow> string \<Rightarrow> bool option) \<Rightarrow> (nat \<Rightarrow> cnt_entry \<Rightarrow> bool) \<Rightarrow>
     (nat \<Rightarrow> nat \<Rightarrow> nat \<Rightarrow> bool) \<Rightarrow> u8 list \<Rightarrow> pkg_detail \<Rightarrow> pkg_detail option option" where
  "parse_cnt rd malloc has icon_ok fits hdr D =
     do { c \<leftarrow> find_cnt rd (\<lambda>x. x < pd_file_size D) hdr;
          case c of None \<Rightarrow> Some None
          | Some cnt \<Rightarrow>
              do { h \<leftarrow> rd cnt 0x80;
                   case h of None \<Rightarrow> Some None
                   | Some h \<Rightarrow> (if take 4 h \<noteq> CNT_MAGIC then Some None
                                else parse_table rd malloc has icon_ok fits cnt h D) } }"

definition icon_in_file :: "nat \<Rightarrow> nat \<Rightarrow> cnt_entry \<Rightarrow> bool" where
  "icon_in_file file_size cnt e =
     (0 < ce_data_sz e \<and> ce_data_sz e < 10 * 1024 * 1024 \<and>
      (file_size = 0 \<or> u64_add (u64_add cnt (ce_data_off e)) (ce_data_sz e) \<le> file_size))"

definition table_in_file :: "nat \<Rightarrow> nat \<Rightarrow> nat \<Rightarrow> nat \<Rightarrow> bool" where
  "table_in_file file_size cnt toff n = (file_size = 0 \<or> u64_add (u64_add cnt toff) n \<le> file_size)"

definition parse_file :: "(nat \<Rightarrow> bool) \<Rightarrow> u8 list \<Rightarrow> pkg_detail \<Rightarrow> pkg_detail option option" where
  "parse_file malloc f D =
     (if length f < 0x80 then Some None
      else if take 8 f = MULTIPART_MAGIC \<and> MULTIPART_HEADER_SIZE \<le> length f \<and> multipart_is_valid_header (header_of f)
      then Some (Some (multipart_icon (header_of f) (multipart_detail (header_of f) D)))
      else parse_cnt (file_reader f) malloc json_has_key (icon_in_file (pd_file_size D))
             (table_in_file (pd_file_size D)) (take 0x200 f) D)"

section \<open>A package on a share\<close>

definition smb_reader :: "(nat \<Rightarrow> nat \<Rightarrow> u8 list) \<Rightarrow> reader" where
  "smb_reader rd off n = Some (if length (rd off n) = n then Some (rd off n) else None)"

text \<open>strstr for the quoted key in the NUL-terminated buffer.\<close>

definition strstr_has_key :: "string \<Rightarrow> nat \<Rightarrow> string \<Rightarrow> bool option" where
  "strstr_has_key js n key = map_option (\<lambda>f. f \<noteq> None) (strstr_m (QUOTE # key @ [QUOTE]) js)"

definition smb_filename :: "string \<Rightarrow> string" where
  "smb_filename url = (if base_name url \<noteq> [] then base_name url else url)"

definition smb_client_parse_pkg :: "parse_env \<Rightarrow> string \<Rightarrow> pkg_detail option option" where
  "smb_client_parse_pkg E url =
     (case pe_smb E url of None \<Rightarrow> Some None
      | Some (size', mtime, rd) \<Rightarrow>
          (let D = no_detail\<lparr>pd_path := c_trunc PKG_PATH_LEN url, pd_filename := c_trunc 256 (smb_filename url),
                             pd_file_size := size', pd_total_pkg_size := size', pd_mtime := mtime\<rparr>;
               hdr = rd 0 0x200 in
           if length hdr < 0x80 \<or> take 8 hdr = MULTIPART_MAGIC then Some None
           else parse_cnt (smb_reader rd) (pe_malloc E) strstr_has_key (\<lambda>cnt e. 0 < ce_data_sz e)
                  (\<lambda>cnt toff n. True) hdr D))"

definition pkg_parser_parse :: "parse_env \<Rightarrow> string \<Rightarrow> pkg_detail option option" where
  "pkg_parser_parse E path =
     (if starts_with ''smb://'' path then smb_client_parse_pkg E path
      else case pe_files E path of None \<Rightarrow> Some None
      | Some f \<Rightarrow> parse_file (pe_malloc E) f
          (no_detail\<lparr>pd_path := c_trunc PKG_PATH_LEN path, pd_filename := c_trunc 256 (base_name path),
                     pd_file_size := length f, pd_total_pkg_size := length f, pd_mtime := pe_mtime E path\<rparr>))"

section \<open>A prefix in memory\<close>

text \<open>
  The memory may be longer than data_len, the length the parser is told; mem_slice bounds by
  data_len, what is read is bounded by the memory.
\<close>

definition mem_slice :: "nat \<Rightarrow> nat \<Rightarrow> nat \<Rightarrow> nat option" where
  "mem_slice data_len off sz =
     (if sz = 0 \<or> off > data_len then None
      else if sz > data_len \<or> off > data_len - sz then None else Some off)"

definition mem_reader :: "u8 list \<Rightarrow> nat \<Rightarrow> reader" where
  "mem_reader mem data_len off sz =
     (case mem_slice data_len off sz of None \<Rightarrow> Some None
      | Some p \<Rightarrow> map_option Some (bytes_at mem p sz))"

text \<open>
  The copy of an entry's name: one character more than strnlen counted, when that fits the
  128 of the array.
\<close>

definition mem_name :: "u8 list \<Rightarrow> nat option \<Rightarrow> nat \<Rightarrow> nat \<Rightarrow> string option" where
  "mem_name mem str sz off =
     (case str of None \<Rightarrow> Some []
      | Some p \<Rightarrow>
          (if off < sz
           then do { let s = chars_of (drop (p + off) mem);
                     (q, k) \<leftarrow> skip_m (\<lambda>c. c \<noteq> NUL) s (sz - off);
                     if moved s q < 128
                     then do { b \<leftarrow> bytes_at mem (p + off) (moved s q + 1); Some (c_str (chars_of b)) }
                     else Some [] }
           else Some []))"

text \<open>What the parser takes from param.json; js is the memory from the slice on.\<close>

definition mem_json_meta :: "string option \<Rightarrow> string option \<Rightarrow> string option \<Rightarrow> string option \<Rightarrow> meta \<Rightarrow> meta" where
  "mem_json_meta tid name cat ver M =
     (let M = (case tid of None \<Rightarrow> M | Some v \<Rightarrow> M\<lparr>m_title_id := c_trunc PKG_TITLE_ID_LEN v\<rparr>);
          M = (case name of None \<Rightarrow> M | Some v \<Rightarrow> M\<lparr>m_title := c_trunc PKG_TITLE_NAME_LEN v\<rparr>);
          M = (case cat of None \<Rightarrow> M | Some v \<Rightarrow> (if m_category M = [] then M\<lparr>m_category := c_trunc 16 v\<rparr> else M))
      in case ver of None \<Rightarrow> M | Some v \<Rightarrow> (if v = [] then M else M\<lparr>m_version := version_text v 32\<rparr>))"

definition mem_json :: "string \<Rightarrow> nat \<Rightarrow> pstate \<Rightarrow> pstate option" where
  "mem_json js n S =
     (case S of (D, F) \<Rightarrow>
        do { base \<leftarrow> has_base_key (json_has_key js n);
             tid \<leftarrow> json_extract_key js n ''titleId'' PKG_TITLE_ID_LEN;
             name \<leftarrow> json_extract_key js n ''titleName'' PKG_TITLE_NAME_LEN;
             cat \<leftarrow> json_extract_key js n ''category'' 16;
             ver \<leftarrow> json_version js n;
             Some (D\<lparr>pd_meta := mem_json_meta tid name cat ver (pd_meta D)\<rparr>,
                   F\<lparr>ef_base_metadata := ef_base_metadata F \<or> base\<rparr>) })"

definition mem_json_entry :: "u8 list \<Rightarrow> nat \<Rightarrow> nat \<Rightarrow> cnt_entry \<Rightarrow> pstate \<Rightarrow> pstate option" where
  "mem_json_entry mem data_len cnt e S =
     (case mem_slice data_len (u64_add cnt (ce_data_off e)) (ce_data_sz e) of
        None \<Rightarrow> Some S
      | Some p \<Rightarrow> mem_json (chars_of (drop p mem)) (ce_data_sz e) S)"

definition mem_sfo_entry :: "u8 list \<Rightarrow> nat \<Rightarrow> nat \<Rightarrow> cnt_entry \<Rightarrow> pstate \<Rightarrow> pstate option" where
  "mem_sfo_entry mem data_len cnt e S =
     (case S of (D, F) \<Rightarrow>
        case mem_slice data_len (u64_add cnt (ce_data_off e)) (ce_data_sz e) of
          None \<Rightarrow> Some S
        | Some p \<Rightarrow>
            do { let M = pd_meta D;
                 N \<leftarrow> pkg_parser_parse_param_sfo (drop p mem) (ce_data_sz e) detail_sizes no_meta;
                 let M' = (take_sfo M N)
                   \<lparr>m_localized := sfo_first (m_localized M) (m_localized N) PKG_LOCALIZED_TITLES_LEN,
                    m_lang := sfo_first (m_lang M) (m_lang N) PKG_DEFAULT_LANG_LEN\<rparr>;
                 Some (D\<lparr>pd_meta := M'\<rparr>, sfo_category_flag M N F) })"

definition mem_entry ::
    "u8 list \<Rightarrow> nat \<Rightarrow> nat \<Rightarrow> nat option \<Rightarrow> nat \<Rightarrow> cnt_entry \<Rightarrow> pstate \<Rightarrow> pstate option" where
  "mem_entry mem data_len cnt str sz e S =
     do { name \<leftarrow> mem_name mem str sz (ce_name_off e);
          let S = (fst S, patch_flags (ce_type e) name (snd S));
          S \<leftarrow> (if is_json_entry e name then mem_json_entry mem data_len cnt e S else Some S);
          if is_sfo_entry e name then mem_sfo_entry mem data_len cnt e S else Some S }"

text \<open>The outcome: -1 with the stage left in *out_stage (None: not set), or the details.\<close>

datatype pm_result = PmFail "nat option" | PmOk pkg_detail

definition first_slash_base :: "string \<Rightarrow> string" where
  "first_slash_base s = (case strchr s CHR ''/'' of Some t \<Rightarrow> tl t | None \<Rightarrow> s)"

definition mem_detail :: "string \<Rightarrow> nat \<Rightarrow> pkg_detail" where
  "mem_detail filename total_size =
     (let base = first_slash_base filename;
          D = no_detail\<lparr>pd_file_size := total_size, pd_total_pkg_size := total_size\<rparr> in
      if filename = [] then D
      else if starts_with ''live:'' base
      then D\<lparr>pd_filename := c_trunc 256 (take 200 base @ ''.pkg''), pd_path := c_trunc PKG_PATH_LEN base\<rparr>
      else D\<lparr>pd_filename := c_trunc 256 base, pd_path := c_trunc PKG_PATH_LEN filename\<rparr>)"

definition mem_multipart :: "reader \<Rightarrow> pkg_detail \<Rightarrow> pm_result option" where
  "mem_multipart rd D =
     do { b \<leftarrow> rd 0 MULTIPART_HEADER_SIZE;
          Some (case b of None \<Rightarrow> PmFail None
                | Some b \<Rightarrow>
                    (if multipart_is_valid_header (header_of b)
                     then PmOk (multipart_detail (header_of b) D) else PmFail None)) }"

definition mem_table :: "u8 list \<Rightarrow> nat \<Rightarrow> nat \<Rightarrow> u8 list \<Rightarrow> pkg_detail \<Rightarrow> pm_result option" where
  "mem_table mem data_len cnt cnt_hdr D =
     do { cnt_type \<leftarrow> be32_at cnt_hdr 0x04; n \<leftarrow> be32_at cnt_hdr 0x10; toff \<leftarrow> be32_at cnt_hdr 0x18;
          if n = 0 \<or> 2048 < n \<or> 0x200000 < toff then Some (PmFail (Some 5))
          else do { t \<leftarrow> mem_reader mem data_len (u64_add cnt toff) (n * 32);
                    case t of None \<Rightarrow> Some (PmFail (Some 6))
                    | Some t \<Rightarrow>
                        do { es \<leftarrow> entries_of t n;
                             let (soff, sz) = string_table_at es;
                             let str = (if 0 < sz \<and> sz < 65536 then mem_slice data_len (u64_add cnt soff) sz else None);
                             (D, F) \<leftarrow> each_entry (mem_entry mem data_len cnt str sz) es (D, no_flags);
                             Some (PmOk (finish_detail cnt_type F D)) } } }"

definition mem_cnt :: "u8 list \<Rightarrow> nat \<Rightarrow> nat \<Rightarrow> pkg_detail \<Rightarrow> pm_result option" where
  "mem_cnt mem data_len cnt D =
     do { h \<leftarrow> mem_reader mem data_len cnt 0x80;
          case h of None \<Rightarrow> Some (PmFail (Some 3))
          | Some h \<Rightarrow>
              (if take 4 h \<noteq> CNT_MAGIC then Some (PmFail (Some 3))
               else do { cid \<leftarrow> mem_reader mem data_len (u64_add cnt 0x40) 48;
                         case cid of None \<Rightarrow> Some (PmFail (Some 4))
                         | Some cid \<Rightarrow> mem_table mem data_len cnt h (D\<lparr>pd_content_id := content_id_of cid\<rparr>) }) }"

definition pkg_parser_parse_mem :: "u8 list \<Rightarrow> nat \<Rightarrow> nat \<Rightarrow> string \<Rightarrow> pm_result option" where
  "pkg_parser_parse_mem mem data_len total_size filename =
     (if data_len = 0 then Some (PmFail (Some 1))
      else let rd = mem_reader mem data_len; D = mem_detail filename total_size in
      do { h \<leftarrow> rd 0 0x80;
           case h of None \<Rightarrow> Some (PmFail (Some 1))
           | Some h \<Rightarrow>
               do { w \<leftarrow> rd 0 (min data_len 0x200);
                    if take 8 h = MULTIPART_MAGIC then mem_multipart rd D
                    else do { c \<leftarrow> find_cnt rd (\<lambda>x. total_size = 0 \<or> x < total_size) (case w of Some w \<Rightarrow> w | None \<Rightarrow> h);
                              case c of None \<Rightarrow> Some (PmFail (Some 2))
                              | Some cnt \<Rightarrow> mem_cnt mem data_len cnt D } } })"

end
