(* ===== verification/PkgSafe.thy ===== *)
theory PkgSafe
  imports PkgParser
begin

text \<open>
  Memory safety of the package parsers. On text that a NUL ends, the JSON functions never read
  past it; the param.sfo parser never leaves the length it is told; and what they leave in a
  buffer fits it.
\<close>

section \<open>Scanning JSON text\<close>

lemma json_chars_yields:
  "terminated xs (n + d) \<Longrightarrow> yields (json_chars xs n) (\<lambda>(v, q, k). k \<le> n \<and> terminated q (k + d))"
proof (induction xs n rule: json_chars.induct)
  case (2 n)
  then show ?case by (simp add: terminated_def)
next
  case (3 c xs n)
  have t: "terminated xs (n + d)" using terminated_next [OF "3.prems"] by simp
  consider "c = QUOTE" | "c \<noteq> QUOTE" "c = BSLASH" "0 < n" | "c \<noteq> QUOTE" "\<not> (c = BSLASH \<and> 0 < n)" by blast
  then show ?case
  proof cases
    case 1
    then show ?thesis using "3.prems" by simp
  next
    case 2
    obtain y ys where xs: "xs = y # ys" using terminated_Cons [OF t] by blast
    have "terminated ys (n - 1 + d)" using terminated_next [OF t 2(3)] xs by simp
    from "3.IH"(1) [OF 2(1) _ xs this] 2 xs show ?thesis by (auto elim!: yields_mono)
  next
    case 3
    from "3.IH"(2) [OF 3 t] 3 show ?thesis by (auto elim!: yields_mono)
  qed
qed simp

lemma close_brace_yields:
  "terminated xs (n + d) \<Longrightarrow> yields (close_brace xs n dp s) (\<lambda>r. \<forall>e k. r = Some (e, k) \<longrightarrow>
     0 < k \<and> k \<le> n \<and> terminated e (k + d) \<and> e = drop (n - k) xs)"
proof (induction xs n dp s rule: close_brace.induct)
  case (2 n dp s)
  then show ?case by (simp add: terminated_def)
next
  case (3 c xs n dp s)
  have t: "terminated xs (n + d)" using terminated_next [OF "3.prems"] by simp
  have fin: ?case
    if h: "yields m (\<lambda>r. \<forall>e k. r = Some (e, k) \<longrightarrow> 0 < k \<and> k \<le> n \<and> terminated e (k + d) \<and> e = drop (n - k) xs)"
      and eq: "close_brace (c # xs) (Suc n) dp s = m" for m
    unfolding eq by (rule yields_mono [OF h]) (auto simp: Suc_diff_le)
  consider (esc) "c = BSLASH" "s" "0 < n" | (q) "\<not> (c = BSLASH \<and> s \<and> 0 < n)" "c = QUOTE"
    | (o) "\<not> (c = BSLASH \<and> s \<and> 0 < n)" "c \<noteq> QUOTE" "\<not> s \<and> c = CHR ''{''"
    | (cl) "\<not> (c = BSLASH \<and> s \<and> 0 < n)" "c \<noteq> QUOTE" "\<not> (\<not> s \<and> c = CHR ''{'')" "\<not> s \<and> c = CHR ''}''"
    | (el) "\<not> (c = BSLASH \<and> s \<and> 0 < n)" "c \<noteq> QUOTE" "\<not> (\<not> s \<and> c = CHR ''{'')" "\<not> (\<not> s \<and> c = CHR ''}'')" by blast
  then show ?case
  proof cases
    case esc
    have "terminated (tl xs) (n - 1 + d)" by (rule terminated_next [OF t esc(3)])
    then have "yields (close_brace (tl xs) (n - 1) dp s) (\<lambda>r. \<forall>e k. r = Some (e, k) \<longrightarrow>
      0 < k \<and> k \<le> n - 1 \<and> terminated e (k + d) \<and> e = drop (n - 1 - k) (tl xs))" using "3.IH"(1) esc by blast
    then have "yields (close_brace (tl xs) (n - 1) dp s) (\<lambda>r. \<forall>e k. r = Some (e, k) \<longrightarrow>
      0 < k \<and> k \<le> n \<and> terminated e (k + d) \<and> e = drop (n - k) xs)"
      by (rule yields_mono) (auto simp: drop_Suc [symmetric] Suc_diff_Suc)
    then show ?thesis by (rule fin) (use esc in simp)
  next
    case q
    show ?thesis by (rule fin [OF "3.IH"(2) [OF q t]]) (use q in simp)
  next
    case o
    show ?thesis by (rule fin [OF "3.IH"(3) [OF o t]]) (use o in simp)
  next
    case cl
    show ?thesis
    proof (cases "dp - 1 = 0")
      case True
      then show ?thesis using cl "3.prems" by simp
    next
      case False
      show ?thesis by (rule fin [OF "3.IH"(4) [OF cl False t]]) (use cl False in simp)
    qed
  next
    case el
    show ?thesis by (rule fin [OF "3.IH"(5) [OF el t]]) (use el in auto)
  qed
qed simp

lemma quoted_after_yields:
  assumes "terminated g (n + d)"
  shows "yields (quoted_after g n) (\<lambda>_. True)"
proof -
  have inner: "yields (if n \<le> moved g c then Some NoColon
      else do { (q, k) \<leftarrow> skip_m is_space (tl c) (n - moved g c - 1);
                if 0 < k \<and> hd q = QUOTE then do { (v, r) \<leftarrow> json_chars (tl q) (k - 1); Some (Quoted v) }
                else Some NotString }) (\<lambda>_. True)"
    if c: "moved g c < n + d" "terminated c (n + d - moved g c)" for c
  proof (cases "n \<le> moved g c")
    case False
    then have "terminated (tl c) (n - moved g c - 1 + d)" using c terminated_next [of c "n - moved g c" d] by simp
    note sk = skip_m_yields [OF this, of is_space]
    have "yields (json_chars (tl q) (k - 1)) (\<lambda>_. True)" if "terminated q (k + d)" "0 < k" for q k
      by (rule yields_mono [OF json_chars_yields [OF terminated_next [OF that]]]) simp
    then have "yields (skip_m is_space (tl c) (n - moved g c - 1))
        (\<lambda>(q, k). 0 < k \<and> hd q = QUOTE \<longrightarrow> yields (json_chars (tl q) (k - 1)) (\<lambda>_. True))"
      by (intro yields_mono [OF sk]) auto
    with False show ?thesis by simp
  qed simp
  have "CHR '':'' \<noteq> NUL" by (simp add: NUL_def)
  from strchr_m_yields [OF assms this] show ?thesis
    unfolding quoted_after_def using inner by (auto elim!: yields_mono split: option.splits)
qed

text \<open>A pattern the code searches for: not empty, without a NUL.\<close>

definition good_pattern :: "string \<Rightarrow> bool" where
  "good_pattern pat = (pat \<noteq> [] \<and> NUL \<notin> set pat)"

lemma good_key: "NUL \<notin> set key \<Longrightarrow> good_pattern (QUOTE # key @ [QUOTE])"
  by (simp add: good_pattern_def QUOTE_def NUL_def)

lemma good_json_pattern: "NUL \<notin> set key \<Longrightarrow> good_pattern (json_pattern key)"
  using good_key [of key] json_pattern_ne [of key]
  by (auto simp: good_pattern_def json_pattern_def c_trunc_def dest: in_set_takeD)

lemma find_pattern:
  assumes "terminated p (n + d)" and "good_pattern pat"
  shows "yields (strstr_m pat p) (\<lambda>r. \<forall>f. r = Some f \<longrightarrow> moved p f + length pat \<le> n + d \<and>
    drop (length pat) f = drop (moved p f + length pat) p \<and> moved p (drop (length pat) f) = moved p f + length pat \<and>
    terminated f (n + d - moved p f) \<and> terminated (drop (length pat) f) (n + d - (moved p f + length pat)))"
proof -
  have l: "n + d < length p" using assms(1) by (simp add: terminated_def)
  have "pat \<noteq> []" "NUL \<notin> set pat" using assms(2) by (simp_all add: good_pattern_def)
  from strstr_m_yields [OF assms(1) this] show ?thesis
  proof (rule yields_mono, intro allI impI)
    fix r f
    assume "\<forall>f. r = Some f \<longrightarrow> moved p f + length pat \<le> n + d \<and> terminated f (n + d - moved p f) \<and>
      drop (length pat) f = drop (moved p f + length pat) p" and "r = Some f"
    then have h: "moved p f + length pat \<le> n + d" "terminated f (n + d - moved p f)"
      "drop (length pat) f = drop (moved p f + length pat) p" by auto
    moreover have "moved p (drop (length pat) f) = moved p f + length pat"
      unfolding h(3) using h(1) l by (intro moved_drop) simp
    moreover have "terminated (drop (length pat) f) (n + d - (moved p f + length pat))"
      unfolding h(3) by (rule terminated_drop [OF assms(1) h(1)])
    ultimately show "moved p f + length pat \<le> n + d \<and>
      drop (length pat) f = drop (moved p f + length pat) p \<and> moved p (drop (length pat) f) = moved p f + length pat \<and>
      terminated f (n + d - moved p f) \<and> terminated (drop (length pat) f) (n + d - (moved p f + length pat))" by blast
  qed
qed

lemma terminated_after:
  assumes "terminated g (n + d - x)"
  obtains d' where "terminated g (n - x + d')"
proof -
  have "n + d - x = n - x + (n + d - x - (n - x))" by arith
  with assms show thesis using that by metis
qed

lemma json_extract_key_yields:
  assumes "NUL \<notin> set key" and "0 < m"
  shows "terminated p (n + d) \<Longrightarrow>
    yields (json_extract_key p n key m) (\<lambda>r. \<forall>v. r = Some v \<longrightarrow> length v < m \<and> NUL \<notin> set v)"
proof (induction n arbitrary: p d rule: less_induct)
  case (less n)
  let ?pat = "json_pattern key"
  show ?case
  proof (cases "n = 0")
    case n: False
    from find_pattern [OF less.prems good_json_pattern [OF assms(1)]]
    obtain r where r: "strstr_m ?pat p = Some r" and
      f: "\<And>f. r = Some f \<Longrightarrow> moved p (drop (length ?pat) f) = moved p f + length ?pat \<and>
        terminated (drop (length ?pat) f) (n + d - (moved p f + length ?pat))"
      by (auto simp: yields_iff)
    show ?thesis
    proof (cases r)
      case None
      then show ?thesis using n r by (subst json_extract_key.simps) simp
    next
      case (Some f)
      let ?g = "drop (length ?pat) f" and ?k = "n - (moved p f + length ?pat)"
      note h = f [OF Some]
      have lt: "?k < n" using json_pattern_ne [of key] n by (cases ?pat) auto
      obtain d' where d': "terminated ?g (?k + d')" using terminated_after h by blast
      obtain q where q: "quoted_after ?g ?k = Some q"
        using quoted_after_yields [OF d'] by (auto simp: yields_iff)
      have u: "json_extract_key p n key m =
        (if n \<le> moved p f then Some None
         else case q of NoColon \<Rightarrow> Some None | Quoted v \<Rightarrow> Some (Some (c_copy m v))
              | NotString \<Rightarrow> json_extract_key ?g ?k key m)"
        using n r Some h q by (subst json_extract_key.simps) (auto simp: Let_def split: json_found.splits)
      show ?thesis
        unfolding u using less.IH [OF lt d'] assms(2)
        by (auto split: json_found.splits simp: length_c_copy c_copy_def c_trunc_def dest: in_set_takeD)
    qed
  qed (simp add: json_extract_key.simps)
qed

lemma pattern_before_yields: "n \<le> length xs \<Longrightarrow> yields (pattern_before pat xs n) (\<lambda>_. True)"
  by (induction pat xs n rule: pattern_before.induct) auto

lemma json_has_key_yields: "n \<le> length xs \<Longrightarrow> yields (json_has_key xs n key) (\<lambda>_. True)"
  by (simp add: json_has_key_def pattern_before_yields)

lemma json_version_yields:
  "terminated p (n + d) \<Longrightarrow> yields (json_version p n) (\<lambda>r. \<forall>v. r = Some v \<longrightarrow> length v < 32 \<and> NUL \<notin> set v)"
proof -
  assume t: "terminated p (n + d)"
  have k: "yields (json_extract_key p n key 32) (\<lambda>r. \<forall>v. r = Some v \<longrightarrow> length v < 32 \<and> NUL \<notin> set v)"
    if "NUL \<notin> set key" for key using that t by (intro json_extract_key_yields) auto
  show ?thesis
    unfolding json_version_def using k [of "''contentVersion''"] k [of "''appVersion''"] k [of "''version''"]
    by (auto simp: NUL_def elim!: yields_mono split: option.splits)
qed

section \<open>The localised titles\<close>

lemma NUL_consts [simp]: "CHR '':'' \<noteq> NUL" "CHR ''{'' \<noteq> NUL" "QUOTE \<noteq> NUL" "NUL \<noteq> QUOTE"
  by (simp_all add: NUL_def QUOTE_def)

lemma good_keys:
  "good_pattern (QUOTE # ''localizedParameters'' @ [QUOTE])" "good_pattern (QUOTE # ''titleName'' @ [QUOTE])"
  "good_pattern (QUOTE # ''title'' @ [QUOTE])" "good_pattern (QUOTE # ''defaultLanguage'' @ [QUOTE])"
  by (rule good_key, simp add: NUL_def)+

text \<open>p points into the n characters of js or at its NUL.\<close>

definition within :: "string \<Rightarrow> nat \<Rightarrow> string \<Rightarrow> bool" where
  "within js n p = (\<exists>i\<le>n. p = drop i js)"

lemma within_self [simp]: "within js n js"
  by (auto simp: within_def intro: exI [of _ 0])

lemma within_moved:
  assumes "terminated js n" and "within js n p"
  shows "moved js p \<le> n" and "p = drop (moved js p) js" and "terminated p (n - moved js p)"
proof -
  obtain i where i: "i \<le> n" "p = drop i js" using assms(2) by (auto simp: within_def)
  moreover have "i \<le> length js" using i(1) assms(1) by (simp add: terminated_def)
  ultimately show "moved js p \<le> n" "p = drop (moved js p) js" "terminated p (n - moved js p)"
    using terminated_drop [OF assms(1) i(1)] by simp_all
qed

lemma within_drop:
  assumes "terminated js n" and "within js n p" and "moved js p + k \<le> n"
  shows "within js n (drop k p)" and "moved js (drop k p) = moved js p + k"
proof -
  have e: "drop k p = drop (moved js p + k) js"
    by (subst within_moved(2) [OF assms(1,2)]) (simp add: add.commute)
  show "within js n (drop k p)" unfolding e within_def using assms(3) by blast
  have "moved js p + k \<le> length js" using assms(1,3) by (simp add: terminated_def)
  then show "moved js (drop k p) = moved js p + k" by (simp only: e moved_drop)
qed

lemma within_tl:
  "terminated js n \<Longrightarrow> within js n p \<Longrightarrow> moved js p < n \<Longrightarrow> within js n (tl p)"
  using within_drop(1) [of js n p 1] by (simp add: drop_Suc)

lemma strchr_within:
  assumes "terminated js n" and "within js n p" and "d \<noteq> NUL"
  shows "yields (strchr_m d p) (\<lambda>r. \<forall>f. r = Some f \<longrightarrow> within js n f \<and> moved js f < n)"
proof (rule yields_mono)
  show "yields (strchr_m d p) (\<lambda>r. r = None \<or> (\<exists>k. r = Some (drop k p) \<and> moved js p + k < n))"
    using strchr_m_terminated [OF within_moved(3) [OF assms(1,2)] assms(3)] by (auto simp: less_diff_conv add.commute)
qed (use within_drop [OF assms(1,2)] in auto)

lemma strstr_within:
  assumes "terminated js n" and "within js n p" and "good_pattern pat"
  shows "yields (strstr_m pat p) (\<lambda>r. \<forall>f. r = Some f \<longrightarrow>
    within js n f \<and> moved js f + length pat \<le> n \<and> within js n (drop (length pat) f))"
proof (rule yields_mono)
  have g: "pat \<noteq> []" "NUL \<notin> set pat" using assms(3) by (simp_all add: good_pattern_def)
  show "yields (strstr_m pat p) (\<lambda>r. r = None \<or> (\<exists>k. r = Some (drop k p) \<and> moved js p + k + length pat \<le> n))"
    using strstr_m_terminated [OF within_moved(3) [OF assms(1,2)] g] within_moved(1) [OF assms(1,2)]
    by (auto simp: le_diff_conv2 add.commute add.left_commute intro!: exI [where x = "_ :: nat"])
  fix r
  assume "r = None \<or> (\<exists>k. r = Some (drop k p) \<and> moved js p + k + length pat \<le> n)"
  then show "\<forall>f. r = Some f \<longrightarrow> within js n f \<and> moved js f + length pat \<le> n \<and> within js n (drop (length pat) f)"
  proof
    assume "\<exists>k. r = Some (drop k p) \<and> moved js p + k + length pat \<le> n"
    then obtain k where k: "r = Some (drop k p)" "moved js p + k + length pat \<le> n" by blast
    then have "within js n (drop k p)" "moved js (drop k p) = moved js p + k" using within_drop [OF assms(1,2)] by auto
    then show ?thesis using k within_drop [OF assms(1), of "drop k p" "length pat"] by auto
  qed simp
qed

lemma brace_yields:
  assumes "terminated b n"
  shows "yields (close_brace b n dp s) (\<lambda>r. \<forall>e k. r = Some (e, k) \<longrightarrow>
    moved b e = n - k \<and> 0 < k \<and> k \<le> n \<and> terminated e k)"
proof -
  have "terminated b (n + 0)" using assms by simp
  note c = close_brace_yields [OF this, of dp s]
  have l: "n < length b" using assms by (simp add: terminated_def)
  then show ?thesis by (auto intro!: yields_mono [OF c])
qed

lemma localized_block_yields:
  assumes t: "terminated js n"
  shows "yields (localized_block js n) (\<lambda>r. \<forall>s e k. r = Some (s, e, k) \<longrightarrow> (\<exists>d. terminated s (k + d)))"
proof -
  let ?P = "\<lambda>r. \<forall>s e k. r = Some (s, e, k) \<longrightarrow> (\<exists>d. terminated s (k + d))"
  have brace: "yields (close_brace b (n - moved js b) 0 False)
      (\<lambda>r. \<forall>e. (\<exists>k. r = Some (e, k)) \<longrightarrow> (\<exists>d. terminated b (moved b e + d)))"
    if "within js n b" for b
  proof (rule yields_mono [OF brace_yields [OF within_moved(3) [OF t that]]], intro allI impI)
    fix r e
    assume r: "\<forall>e k. r = Some (e, k) \<longrightarrow> moved b e = n - moved js b - k \<and> 0 < k \<and> k \<le> n - moved js b \<and> terminated e k"
      and "\<exists>k. r = Some (e, k)"
    then obtain k where "r = Some (e, k)" by blast
    then have "moved b e + k = n - moved js b" using r by auto
    then have "terminated b (moved b e + k)" using within_moved(3) [OF t \<open>within js n b\<close>] by (simp only:)
    then show "\<exists>d. terminated b (moved b e + d)" ..
  qed
  have colon: "yields (do { brace \<leftarrow> strchr_m CHR ''{'' (tl c);
      case brace of None \<Rightarrow> Some None
      | Some brace \<Rightarrow> (if n \<le> moved js brace then Some None
          else do { e \<leftarrow> close_brace brace (n - moved js brace) 0 False;
                    case e of None \<Rightarrow> Some None | Some (e, k) \<Rightarrow> Some (Some (brace, e, moved brace e)) }) }) ?P"
    if "within js n c" "moved js c < n" for c
    using strchr_within [OF t within_tl [OF t that] NUL_consts(2)] brace
    by (auto elim!: yields_mono split: option.splits)
  have lp: "yields (strchr_m CHR '':'' (drop 21 lp)) (\<lambda>c. \<forall>f. c = Some f \<longrightarrow> within js n f \<and> moved js f < n)"
    if "within js n (drop 21 lp)" for lp by (rule strchr_within [OF t that NUL_consts(1)])
  have l: "length (QUOTE # ''localizedParameters'' @ [QUOTE]) = 21" by simp
  have start: "yields (strstr_m (QUOTE # ''localizedParameters'' @ [QUOTE]) js)
      (\<lambda>r. \<forall>lp. r = Some lp \<longrightarrow> within js n (drop 21 lp))"
    by (rule yields_mono [OF strstr_within [OF t within_self good_keys(1), unfolded l]]) simp
  show ?thesis
    unfolding localized_block_def yields_bind
  proof (rule yields_mono [OF start])
    fix r
    assume r: "\<forall>lp. r = Some lp \<longrightarrow> within js n (drop 21 lp)"
    show "yields (case r of None \<Rightarrow> Some None
      | Some lp \<Rightarrow> (if n \<le> moved js lp then Some None
          else do { colon \<leftarrow> strchr_m CHR '':'' (drop 21 lp);
            case colon of None \<Rightarrow> Some None
            | Some colon \<Rightarrow> (if n \<le> moved js colon then Some None
                else do { brace \<leftarrow> strchr_m CHR ''{'' (tl colon);
                  case brace of None \<Rightarrow> Some None
                  | Some brace \<Rightarrow> (if n \<le> moved js brace then Some None
                      else do { e \<leftarrow> close_brace brace (n - moved js brace) 0 False;
                                case e of None \<Rightarrow> Some None
                                | Some (e, k) \<Rightarrow> Some (Some (brace, e, moved brace e)) }) }) })) ?P"
    proof (cases r)
      case (Some lp)
      with r have "within js n (drop 21 lp)" by simp
      note c = yields_mono [OF lp [OF this]]
      show ?thesis
        unfolding Some option.case yields_if yields_bind
        by (intro conjI impI c) (use colon in \<open>auto split: option.splits\<close>)
    qed simp
  qed
qed

text \<open>A string that fits a buffer of z characters with its NUL; a null pointer has no room.\<close>

definition fits :: "nat \<Rightarrow> string \<Rightarrow> bool" where
  "fits z s = (length s \<le> z - 1 \<and> NUL \<notin> set s)"

lemma fits_Nil [simp]: "fits z []"
  by (simp add: fits_def)

lemma fits_c_trunc [simp]: "NUL \<notin> set s \<Longrightarrow> fits z (c_trunc z s)"
  by (auto simp: fits_def c_trunc_def dest: in_set_takeD)

lemma fits_c_copy [simp]: "fits z (c_copy z s)"
  by (simp add: c_copy_def)

lemma fits_no_NUL: "fits z s \<Longrightarrow> NUL \<notin> set s"
  by (simp add: fits_def)

lemma value_inside_yields:
  assumes "terminated p (n + d)" and "good_pattern pat"
  shows "yields (value_inside pat p n m) (fits m)"
proof -
  have "yields (quoted_after (drop (length pat) f) (n - moved p f - length pat))
      (\<lambda>v. yields (case v of Quoted v \<Rightarrow> Some (c_copy m v) | _ \<Rightarrow> Some []) (fits m))"
    if f: "terminated (drop (length pat) f) (n + d - (moved p f + length pat))" for f
  proof -
    let ?l = "n - moved p f - length pat"
    have "n + d - (moved p f + length pat) = ?l + (n + d - (moved p f + length pat) - ?l)" by arith
    with f obtain e where "terminated (drop (length pat) f) (?l + e)" by metis
    from yields_mono [OF quoted_after_yields [OF this]] show ?thesis by (auto split: json_found.splits)
  qed
  then show ?thesis
    unfolding value_inside_def
    by (auto intro!: yields_mono [OF find_pattern [OF assms]] split: option.splits)
qed

lemma outside_title_yields:
  assumes "good_pattern pat"
  shows "terminated p n \<Longrightarrow> yields (outside_title pat lp p off n) (fits PKG_TITLE_NAME_LEN)"
proof (induction n arbitrary: p off rule: less_induct)
  case (less n)
  show ?case
  proof (cases "n = 0 \<or> pat = []")
    case n: False
    from find_pattern [of p n 0, OF _ assms] less.prems
    obtain r where r: "strstr_m pat p = Some r" and
      f: "\<And>f. r = Some f \<Longrightarrow> moved p f + length pat \<le> n \<and> moved p (drop (length pat) f) = moved p f + length pat \<and>
        terminated (drop (length pat) f) (n - (moved p f + length pat))"
      by (auto simp: yields_iff)
    show ?thesis
    proof (cases r)
      case None
      then show ?thesis using n r by (subst outside_title.simps) simp
    next
      case (Some f)
      let ?g = "drop (length pat) f" and ?k = "n - (moved p f + length pat)"
      note h = f [OF Some]
      have lt: "?k < n" using n by (cases pat) auto
      obtain q where q: "quoted_after ?g ?k = Some q"
        using quoted_after_yields [of ?g ?k 0] h by (auto simp: yields_iff)
      note IH = less.IH [OF lt, of ?g]
      show ?thesis
        using n r Some h q IH by (subst outside_title.simps) (auto simp: Let_def split: json_found.splits)
    qed
  qed (simp add: outside_title.simps)
qed

lemma global_title_yields:
  "terminated js n \<Longrightarrow> yields (global_title js n lp) (fits PKG_TITLE_NAME_LEN)"
  unfolding global_title_def using outside_title_yields good_keys(2,3) by (auto intro!: yields_mono [OF outside_title_yields])

text \<open>What the loop over the languages keeps.\<close>

definition good_entry :: "string \<times> string \<Rightarrow> bool" where
  "good_entry e = (fst e \<noteq> [] \<and> fits 32 (fst e) \<and> snd e \<noteq> [] \<and> fits PKG_TITLE_NAME_LEN (snd e))"

definition good_step :: "nat \<Rightarrow> lang_step \<Rightarrow> bool" where
  "good_step d r = (\<forall>q k e. r = LangNext q k e \<longrightarrow> terminated q (k + d) \<and> (\<forall>x. e = Some x \<longrightarrow> good_entry x))"

lemma good_step_simps [simp]:
  "good_step d LangStop"
  "good_step d (LangNext q k e) = (terminated q (k + d) \<and> (\<forall>x. e = Some x \<longrightarrow> good_entry x))"
  by (auto simp: good_step_def)

lemma c_copy_Nil: "NUL \<notin> set key \<Longrightarrow> 1 < m \<Longrightarrow> c_copy m key = [] \<longleftrightarrow> key = []"
  by (auto simp: c_copy_def c_trunc_def cstr_simps)

lemma lang_value_yields:
  assumes p: "terminated p (n + d)" and n: "0 < n" and key: "NUL \<notin> set key"
  shows "yields (lang_value key p n) (good_step d)"
proof -
  have str: "yields (json_chars (tl p) (n - 1)) (\<lambda>(v, q, k). good_step d (if 0 < k then LangNext (tl q) (k - 1) None else LangNext q 0 None))"
    by (rule yields_mono [OF json_chars_yields [OF terminated_next [OF p n]]]) (auto dest: terminated_next)
  have obj: "yields (close_brace p n 0 False)
      (\<lambda>r. \<forall>e k. r = Some (e, k) \<longrightarrow> terminated (tl e) (k - 1 + d) \<and> (\<exists>d'. terminated p (n - k + d')))"
  proof (rule yields_mono [OF close_brace_yields [OF p]], intro allI impI)
    fix r e k
    assume "\<forall>e k. r = Some (e, k) \<longrightarrow> 0 < k \<and> k \<le> n \<and> terminated e (k + d) \<and> e = drop (n - k) p" "r = Some (e, k)"
    then have k: "0 < k" "k \<le> n" "terminated e (k + d)" by auto
    have "n + d = n - k + (k + d)" using k(2) by simp
    then have "terminated p (n - k + (k + d))" using p by (simp only:)
    with terminated_next [OF k(3,1)] show "terminated (tl e) (k - 1 + d) \<and> (\<exists>d'. terminated p (n - k + d'))" by blast
  qed
  have title: "yields (value_inside (QUOTE # ''titleName'' @ [QUOTE]) p (n - k) PKG_TITLE_NAME_LEN)
      (\<lambda>t. good_step d (LangNext (tl e) (k - 1) (if t \<noteq> [] \<and> key \<noteq> [] then Some (c_copy 32 key, t) else None)))"
    if e: "terminated (tl e) (k - 1 + d)" and p': "\<exists>d'. terminated p (n - k + d')" for e k
  proof -
    obtain d' where "terminated p (n - k + d')" using p' ..
    from value_inside_yields [OF this good_keys(2)] show ?thesis
      by (rule yields_mono) (use e key in \<open>simp add: good_entry_def c_copy_Nil\<close>)
  qed
  show ?thesis
    unfolding lang_value_def yields_if yields_bind
  proof (intro conjI impI yields_mono [OF str] yields_mono [OF obj])
    fix r
    assume r: "\<forall>e k. r = Some (e, k) \<longrightarrow> terminated (tl e) (k - 1 + d) \<and> (\<exists>d'. terminated p (n - k + d'))"
    show "yields (case r of None \<Rightarrow> Some LangStop
        | Some (e, k) \<Rightarrow> do { t \<leftarrow> value_inside (QUOTE # ''titleName'' @ [QUOTE]) p (n - k) PKG_TITLE_NAME_LEN;
            Some (LangNext (tl e) (k - 1) (if t \<noteq> [] \<and> key \<noteq> [] then Some (c_copy 32 key, t) else None)) })
        (good_step d)"
    proof (cases r)
      case (Some x)
      then obtain e k where x: "r = Some (e, k)" by (cases x) simp
      then have "terminated (tl e) (k - 1 + d)" "\<exists>d'. terminated p (n - k + d')" using r by auto
      from title [OF this] show ?thesis
        unfolding x by (simp only: option.case prod.case yields_bind yields_Some)
    qed simp
  qed (use p in \<open>auto split: prod.splits\<close>)
qed

lemma lang_round_yields:
  assumes p: "terminated p (n + d)"
  shows "yields (lang_round p n) (good_step d)"
proof -
  note skip = skip_m_yields
  have val: "yields (if n4 = 0 then Some LangStop else lang_value key p4 n4) (good_step d)"
    if "terminated p4 (n4 + d)" "NUL \<notin> set key" for p4 n4 key
    using lang_value_yields [OF that(1) _ that(2)] by simp
  have colon: "yields (if n3 = 0 \<or> hd p3 \<noteq> CHR '':'' then Some (LangNext p3 n3 None)
      else do { (p4, n4) \<leftarrow> skip_m is_space (tl p3) (n3 - 1);
                if n4 = 0 then Some LangStop else lang_value key p4 n4 }) (good_step d)"
    if "terminated p3 (n3 + d)" "NUL \<notin> set key" for p3 n3 key
  proof (cases "n3 = 0")
    case False
    then have "terminated (tl p3) (n3 - 1 + d)" using terminated_next [OF that(1)] by simp
    note s = yields_mono [OF skip [OF this, of is_space]]
    show ?thesis
      unfolding yields_if yields_bind using that val by (intro conjI impI s) auto
  qed (use that in simp)
  have key: "yields (if n2 = 0 then Some LangStop
      else do { (p3, n3) \<leftarrow> skip_m is_space (tl p2) (n2 - 1);
                if n3 = 0 \<or> hd p3 \<noteq> CHR '':'' then Some (LangNext p3 n3 None)
                else do { (p4, n4) \<leftarrow> skip_m is_space (tl p3) (n3 - 1);
                          if n4 = 0 then Some LangStop else lang_value key p4 n4 } }) (good_step d)"
    if "terminated p2 (n2 + d)" "NUL \<notin> set key" for p2 n2 key
  proof (cases "n2 = 0")
    case False
    then have "terminated (tl p2) (n2 - 1 + d)" using terminated_next [OF that(1)] by simp
    note s = yields_mono [OF skip [OF this, of is_space]]
    show ?thesis
      unfolding if_not_P [OF False] yields_bind by (rule s) (use colon that in auto)
  qed simp
  show ?thesis
    unfolding lang_round_def yields_bind Let_def
  proof (rule yields_mono [OF skip [OF p]], clarify)
    fix p1 n1
    assume "n1 \<le> n" and t: "terminated (drop (n - n1) p) (n1 + d)"
    show "yields (if n1 = 0 then Some LangStop else do { (p2, n2) \<leftarrow> skip_m (\<lambda>c. c \<noteq> QUOTE) (tl (drop (n - n1) p)) (n1 - 1);
        if n2 = 0 then Some LangStop
        else do { (p3, n3) \<leftarrow> skip_m is_space (tl p2) (n2 - 1);
          if n3 = 0 \<or> hd p3 \<noteq> CHR '':'' then Some (LangNext p3 n3 None)
          else do { (p4, n4) \<leftarrow> skip_m is_space (tl p3) (n3 - 1);
            if n4 = 0 then Some LangStop
            else lang_value (c_copy 64 (take (moved (tl (drop (n - n1) p)) p2) (tl (drop (n - n1) p)))) p4 n4 } } }) (good_step d)"
    proof (cases "n1 = 0")
      case False
      then have "terminated (tl (drop (n - n1) p)) (n1 - 1 + d)" using terminated_next [OF t] by simp
      note s = yields_mono [OF skip [OF this]]
      show ?thesis
        unfolding if_not_P [OF False] yields_bind
        by (rule s) (use key fits_no_NUL [OF fits_c_copy] in auto)
    qed simp
  qed
qed

lemma lang_entries_yields:
  "terminated p (n + d) \<Longrightarrow> yields (lang_entries p n count) (\<lambda>es. list_all good_entry es)"
proof (induction n arbitrary: p count rule: less_induct)
  case (less n)
  show ?case
  proof (cases "n = 0 \<or> 64 \<le> count")
    case n: False
    from lang_round_yields [OF less.prems] obtain r where
      r: "lang_round p n = Some r" "good_step d r" by (auto simp: yields_iff)
    show ?thesis
    proof (cases r)
      case LangStop
      then show ?thesis using n r by (subst lang_entries.simps) simp
    next
      case (LangNext q k e)
      have "k < n" using lang_round_left r(1) LangNext by blast
      note IH = less.IH [OF this, of q]
      show ?thesis
        using n r LangNext IH by (subst lang_entries.simps) (auto split: option.splits)
    qed
  qed (simp add: lang_entries.simps)
qed

section \<open>What is left in the buffers\<close>

definition meta_fits :: "meta_sizes \<Rightarrow> meta \<Rightarrow> bool" where
  "meta_fits Z M = (fits (z_title_id Z) (m_title_id M) \<and> fits (z_title Z) (m_title M) \<and>
     fits (z_category Z) (m_category M) \<and> fits (z_version Z) (m_version M) \<and>
     fits (z_localized Z) (m_localized M) \<and> fits (z_lang Z) (m_lang M))"

lemma esc_title_no_NUL: "NUL \<notin> set s \<Longrightarrow> NUL \<notin> set (esc_title n s)"
  by (induction n s rule: esc_title.induct) (auto simp: BSLASH_def NUL_def)

text \<open>A language and a title without NULs.\<close>

definition text_entry :: "string \<times> string \<Rightarrow> bool" where
  "text_entry e = (NUL \<notin> set (fst e) \<and> NUL \<notin> set (snd e))"

lemma good_entries_text: "list_all good_entry es \<Longrightarrow> list_all text_entry es"
  by (auto simp: list_all_iff good_entry_def text_entry_def dest!: fits_no_NUL)

lemma loc_member_no_NUL: "text_entry e \<Longrightarrow> NUL \<notin> set (loc_member first e)"
  by (auto simp: loc_member_def text_entry_def esc_title_no_NUL) (auto simp: NUL_def QUOTE_def)

lemma loc_members_fits:
  "fits m acc \<Longrightarrow> list_all text_entry es \<Longrightarrow> fits m (loc_members m first acc es)"
proof (induction m first acc es rule: loc_members.induct)
  case (2 m first acc e es)
  then show ?case using loc_member_no_NUL [of e first] by (auto simp: fits_def)
qed simp

lemma loc_object_fits: "2 < m \<Longrightarrow> list_all text_entry es \<Longrightarrow> fits m (loc_object m es)"
  using loc_members_fits [of m "''{''" es True]
  by (auto simp: loc_object_def Let_def fits_def NUL_def)

lemma best_title_fits:
  assumes "NUL \<notin> set global" and "list_all text_entry es"
  shows "fits m (best_title global lang es m)"
proof -
  have f: "fits m (case List.find P es of None \<Rightarrow> [] | Some (l, t) \<Rightarrow> c_trunc m t)" for P
  proof (cases "List.find P es")
    case (Some x)
    then have "x \<in> set es" by (auto simp: find_Some_iff)
    then have "text_entry x" using assms(2) by (simp add: list_all_iff)
    then show ?thesis using Some by (cases x) (simp add: text_entry_def)
  qed simp
  have h: "es \<noteq> [] \<Longrightarrow> NUL \<notin> set (snd (hd es))"
    using assms(2) by (cases es) (simp_all add: text_entry_def)
  show ?thesis using assms(1) f h by (auto simp: best_title_def Let_def)
qed

lemma show_nat_no_NUL: "NUL \<notin> set (show_nat n)"
  using show_nat_digits [of n] by (auto simp: is_digit_def NUL_def)

lemma show_int_no_NUL: "NUL \<notin> set (show_int i)"
  using show_nat_no_NUL by (auto simp: show_int_def NUL_def)

lemma version_text_fits: "NUL \<notin> set ver \<Longrightarrow> fits m (version_text ver m)"
  using show_int_no_NUL
  by (auto simp: version_text_def show_02_def NUL_def dest: in_set_takeD split: option.splits intro!: fits_c_trunc)

lemma json_identity_yields:
  assumes "terminated js n" and "meta_fits Z M"
  shows "yields (json_identity js n Z M) (meta_fits Z)"
proof -
  have k: "yields (json_extract_key js n key m) (\<lambda>r. \<forall>v. r = Some v \<longrightarrow> NUL \<notin> set v)"
    if "NUL \<notin> set key" "0 < m" for key m
    by (rule yields_mono [OF json_extract_key_yields [OF that, of js n 0]]) (use assms(1) in simp_all)
  have tid: "yields (json_extract_key js n ''titleId'' PKG_TITLE_ID_LEN) (\<lambda>r. \<forall>v. r = Some v \<longrightarrow> NUL \<notin> set v)"
    and cat: "yields (json_extract_key js n ''category'' 16) (\<lambda>r. \<forall>v. r = Some v \<longrightarrow> NUL \<notin> set v)"
    by (rule k; simp add: NUL_def PKG_TITLE_ID_LEN_def)+
  have "terminated js (n + 0)" using assms(1) by simp
  note ver = json_version_yields [OF this]
  have v: "yields (if 0 < z_version Z \<and> m_version N = []
      then do { v \<leftarrow> json_version js n;
                Some (case v of None \<Rightarrow> N | Some v \<Rightarrow> (if v = [] then N else N\<lparr>m_version := version_text v (z_version Z)\<rparr>)) }
      else Some N) (meta_fits Z)" if "meta_fits Z N" for N
    using that by (auto intro!: yields_mono [OF ver] simp: meta_fits_def version_text_fits split: option.splits)
  have c: "yields (if 0 < z_category Z \<and> m_category N = []
      then do { v \<leftarrow> json_extract_key js n ''category'' 16;
                Some (case v of None \<Rightarrow> N | Some v \<Rightarrow> N\<lparr>m_category := c_trunc (z_category Z) v\<rparr>) }
      else Some N) (meta_fits Z)" if "meta_fits Z N" for N
    using that by (auto intro!: yields_mono [OF cat] simp: meta_fits_def split: option.splits)
  have t: "yields (if 0 < z_title_id Z \<and> m_title_id M = []
      then do { v \<leftarrow> json_extract_key js n ''titleId'' PKG_TITLE_ID_LEN;
                Some (case v of None \<Rightarrow> M | Some v \<Rightarrow> M\<lparr>m_title_id := c_trunc (z_title_id Z) v\<rparr>) }
      else Some M) (meta_fits Z)"
    using assms(2) by (auto intro!: yields_mono [OF tid] simp: meta_fits_def split: option.splits)
  show ?thesis
    unfolding json_identity_def yields_bind
    by (rule yields_mono [OF t], rule yields_mono [OF c], assumption, rule v)
qed

lemma json_localized_yields:
  assumes "terminated lp (n + d)" and "meta_fits Z M" and "NUL \<notin> set global"
  shows "yields (json_localized global lp n Z M) (meta_fits Z)"
proof -
  have es: "yields (lang_entries (tl lp) (n - 1) 0) (\<lambda>es. list_all good_entry es)"
  proof (cases "n = 0")
    case False
    then have "terminated (tl lp) (n - 1 + d)" using terminated_next [OF assms(1)] by simp
    then show ?thesis by (rule lang_entries_yields)
  qed (simp add: lang_entries.simps)
  note lang = value_inside_yields [OF assms(1) good_keys(4), of 32]
  show ?thesis
    unfolding json_localized_def yields_bind Let_def
  proof (rule yields_mono [OF lang], rule yields_mono [OF es])
    fix lang es
    assume l: "fits 32 lang" and e: "list_all good_entry es"
    let ?M1 = "if 0 < z_lang Z \<and> lang \<noteq> [] then M\<lparr>m_lang := c_trunc (z_lang Z) lang\<rparr> else M"
    let ?M2 = "if 2 < z_localized Z \<and> es \<noteq> [] then ?M1\<lparr>m_localized := loc_object (z_localized Z) es\<rparr> else ?M1"
    have "meta_fits Z ?M1" using assms(2) l by (simp add: meta_fits_def fits_no_NUL)
    then have "meta_fits Z ?M2" using loc_object_fits good_entries_text [OF e] by (simp add: meta_fits_def)
    then show "yields (Some (if 0 < z_title Z \<and> m_title ?M2 = []
        then ?M2\<lparr>m_title := best_title global lang es (z_title Z)\<rparr> else ?M2)) (meta_fits Z)"
      using best_title_fits [OF assms(3) good_entries_text [OF e]] by (simp add: meta_fits_def)
  qed
qed

lemma clear_localized_fits: "meta_fits Z M \<Longrightarrow> meta_fits Z (clear_localized Z M)"
  by (cases "z_lang Z = 0"; cases "z_localized Z = 0") (auto simp: clear_localized_def Let_def meta_fits_def)

lemma param_json_yields:
  assumes "terminated js n" and "meta_fits Z M"
  shows "yields (pkg_parser_parse_param_json js n Z M) (meta_fits Z)"
proof -
  have fin: "yields (case lp of
        Some (s, e, k) \<Rightarrow> json_localized global s k Z (clear_localized Z N)
      | None \<Rightarrow> Some (if 0 < z_title Z \<and> m_title (clear_localized Z N) = [] \<and> global \<noteq> []
                      then (clear_localized Z N)\<lparr>m_title := c_trunc (z_title Z) global\<rparr> else clear_localized Z N))
      (meta_fits Z)"
    if N: "meta_fits Z N" and lp: "\<forall>s e k. lp = Some (s, e, k) \<longrightarrow> (\<exists>d. terminated s (k + d))"
      and g: "fits PKG_TITLE_NAME_LEN global" for N lp global
  proof (cases lp)
    case None
    then show ?thesis using clear_localized_fits [OF N] fits_no_NUL [OF g] by (simp add: meta_fits_def)
  next
    case (Some x)
    then obtain s e k where x: "lp = Some (s, e, k)" by (cases x) simp
    then obtain d where "terminated s (k + d)" using lp by blast
    from json_localized_yields [OF this clear_localized_fits [OF N] fits_no_NUL [OF g]] show ?thesis by (simp add: x)
  qed
  show ?thesis
  proof (cases "n = 0")
    case False
    show ?thesis
      unfolding pkg_parser_parse_param_json_def if_not_P [OF False] yields_bind Let_def
      by (rule yields_mono [OF json_identity_yields [OF assms]], rule yields_mono [OF localized_block_yields [OF assms(1)]],
          rule yields_mono [OF global_title_yields [OF assms(1)]], rule fin)
  qed (use assms in \<open>simp add: pkg_parser_parse_param_json_def\<close>)
qed

section \<open>param.sfo\<close>

lemma read_le16_less: "read_le16 p < 2 ^ 16"
  unfolding read_le16_def by (rule less_le_trans [OF unsigned_less]) simp

lemma sfo_entry_yields:
  assumes "len \<le> length mem" and "20 + (i + 1) * 16 \<le> len" and "kts < len" and "len + 2 ^ 16 \<le> 2 ^ 32"
  shows "yields (sfo_entry mem len kts dts i) (\<lambda>r. \<forall>key pos dlen. r = Some (key, pos, dlen) \<longrightarrow>
    NUL \<notin> set key \<and> pos + dlen \<le> len)"
proof -
  have b: "bytes_at mem (20 + i * 16) 2 = Some (take 2 (drop (20 + i * 16) mem))"
    "bytes_at mem (20 + i * 16 + 4) 4 = Some (take 4 (drop (20 + i * 16 + 4) mem))"
    "bytes_at mem (20 + i * 16 + 12) 4 = Some (take 4 (drop (20 + i * 16 + 12) mem))"
    using assms(1,2) by (intro bytes_at_Some; simp)+
  let ?k = "read_le16 (take 2 (drop (20 + i * 16) mem))"
  have k: "(kts + ?k) mod 2 ^ 32 = kts + ?k"
    using read_le16_less [of "take 2 (drop (20 + i * 16) mem)"] assms(3,4) by (intro mod_less) linarith
  have "yields (skip_m (\<lambda>c. c \<noteq> NUL) (chars_of (drop (kts + ?k) mem)) (len - (kts + ?k)))
      (\<lambda>(e, n). NUL \<notin> set (take (moved (chars_of (drop (kts + ?k) mem)) e) (chars_of (drop (kts + ?k) mem))))"
  proof -
    let ?xs = "chars_of (drop (kts + ?k) mem)"
    have "len - (kts + ?k) \<le> length ?xs" using assms(1) by simp
    then obtain j where j: "skip_m (\<lambda>c. c \<noteq> NUL) ?xs (len - (kts + ?k)) = Some (drop j ?xs, len - (kts + ?k) - j)"
      by (rule skip_m_inside)
    from skip_m_stop [OF j] obtain i where "drop j ?xs = drop i ?xs" "i \<le> length ?xs" "\<forall>c \<in> set (take i ?xs). c \<noteq> NUL" by blast
    then show ?thesis using j by (auto simp del: length_chars_of)
  qed
  then show ?thesis
    unfolding sfo_entry_def b bind.simps Let_def k by (auto elim!: yields_mono)
qed

lemma strip_nuls_set: "set (strip_nuls s) \<subseteq> set s"
  by (auto simp: strip_nuls_def dest: set_dropWhileD)

lemma sfo_text_yields:
  assumes "pos + len \<le> length mem"
  shows "yields (sfo_text mem pos len m) (fits m)"
proof -
  let ?n = "if len < m then len else m - 1"
  have n: "pos + ?n \<le> length mem" "?n \<le> m - 1" using assms by auto
  have "length (strip_nuls (chars_of (take ?n (drop pos mem)))) \<le> ?n"
    unfolding strip_nuls_def by (simp add: le_trans [OF length_dropWhile_le])
  then have "length (c_str (strip_nuls (chars_of (take ?n (drop pos mem))))) \<le> m - 1"
    using n(2) length_c_str le_trans by meson
  then show ?thesis
    unfolding sfo_text_def bytes_at_Some [OF n(1)] by (simp add: fits_def)
qed

definition sfo_ok :: "meta_sizes \<Rightarrow> sfo_acc \<Rightarrow> bool" where
  "sfo_ok Z A = (meta_fits Z (sa_meta A) \<and> NUL \<notin> set (sa_app_ver A) \<and> NUL \<notin> set (sa_version A) \<and>
     list_all text_entry (sa_loc A))"

lemma sfo_lang_text: "sfo_lang key = Some l \<Longrightarrow> l \<in> set s_sfo_lang_map"
proof -
  assume "sfo_lang key = Some l"
  then obtain i where i: "i < 30" "l = s_sfo_lang_map ! i"
    by (auto simp: sfo_lang_def Let_def split: if_splits intro: that [of "nat (to_int (strtol (drop 6 key)))"])
  have "length s_sfo_lang_map = 30" by (simp add: s_sfo_lang_map_def)
  then show ?thesis using i by simp
qed

lemma lang_map_text: "l \<in> set s_sfo_lang_map \<Longrightarrow> NUL \<notin> set l"
  by (auto simp: s_sfo_lang_map_def NUL_def)

lemma sfo_field_yields:
  assumes "sfo_ok Z A" and "\<And>m. yields (txt m) (fits m)"
  shows "yields (sfo_field key txt Z A) (sfo_ok Z)"
proof -
  note t = yields_mono [OF assms(2)]
  have "yields (case sfo_lang key of None \<Rightarrow> Some A
      | Some l \<Rightarrow> do { t \<leftarrow> txt PKG_TITLE_NAME_LEN; Some (A\<lparr>sa_loc := sa_loc A @ [(l, t)]\<rparr>) }) (sfo_ok Z)"
    using assms(1) lang_map_text [OF sfo_lang_text]
    by (auto intro!: t simp: sfo_ok_def text_entry_def dest: fits_no_NUL split: option.splits)
  then show ?thesis
    unfolding sfo_field_def Let_def yields_if yields_bind
    using assms(1) by (intro conjI impI t) (auto simp: sfo_ok_def meta_fits_def dest: fits_no_NUL)
qed

lemma sfo_loop_yields:
  assumes "len \<le> length mem" and "kts < len" and "len + 2 ^ 16 \<le> 2 ^ 32"
  shows "sfo_ok Z A \<Longrightarrow> yields (sfo_loop mem len kts dts Z k i A) (sfo_ok Z)"
proof (induction k arbitrary: i A)
  case (Suc k)
  show ?case
  proof (cases "20 + (i + 1) * 16 > len")
    case False
    have step: "yields (case e of None \<Rightarrow> Some A
        | Some (key, pos, dlen) \<Rightarrow> sfo_field key (sfo_text mem pos dlen) Z A) (sfo_ok Z)"
      if e: "\<forall>key pos dlen. e = Some (key, pos, dlen) \<longrightarrow> NUL \<notin> set key \<and> pos + dlen \<le> len" for e
      using e Suc.prems assms(1) by (auto intro!: sfo_field_yields sfo_text_yields split: option.splits)
    have "20 + (i + 1) * 16 \<le> len" using False by simp
    note e = sfo_entry_yields [OF assms(1) this assms(2,3)]
    show ?thesis
      unfolding sfo_loop.simps if_not_P [OF False] yields_bind
      by (rule yields_mono [OF e], rule yields_mono [OF step], assumption, rule Suc.IH)
  qed (use Suc.prems in simp)
qed simp

lemma sfo_title_fits:
  assumes "meta_fits Z M" and "list_all text_entry es"
  shows "meta_fits Z (sfo_title Z es M)"
proof (cases "es = []")
  case False
  have "NUL \<notin> set (case List.find P es of Some (l, t) \<Rightarrow> t | None \<Rightarrow> snd (hd es))" for P
  proof (cases "List.find P es")
    case None
    then show ?thesis using assms(2) False by (cases es) (auto simp: text_entry_def)
  next
    case (Some x)
    then have "x \<in> set es" by (auto simp: find_Some_iff)
    then have "text_entry x" using assms(2) by (simp add: list_all_iff)
    then show ?thesis using Some by (cases x) (simp add: text_entry_def)
  qed
  then show ?thesis using assms(1) by (simp add: sfo_title_def meta_fits_def)
qed (use assms(1) in \<open>simp add: sfo_title_def\<close>)

lemma sfo_localized_fits:
  "meta_fits Z M \<Longrightarrow> list_all text_entry es \<Longrightarrow> meta_fits Z (sfo_localized Z es M)"
  using loc_object_fits [of "z_localized Z" es] fits_c_trunc [of "''en-US''" "z_lang Z"]
  by (simp add: sfo_localized_def Let_def meta_fits_def NUL_def)

lemma sfo_version_fits: "meta_fits Z M \<Longrightarrow> NUL \<notin> set v \<Longrightarrow> meta_fits Z (sfo_version Z v M)"
  using fits_c_trunc [of "''v'' @ v" "z_version Z"]
  by (simp add: sfo_version_def meta_fits_def) (simp add: NUL_def)

lemma sfo_finish_fits: "sfo_ok Z A \<Longrightarrow> meta_fits Z (sfo_finish Z A)"
  unfolding sfo_finish_def sfo_ok_def by (intro sfo_version_fits sfo_localized_fits sfo_title_fits) auto

lemma param_sfo_yields:
  assumes "len \<le> length mem" and "len + 2 ^ 16 \<le> 2 ^ 32" and "meta_fits Z M"
  shows "yields (pkg_parser_parse_param_sfo mem len Z M) (meta_fits Z)"
proof (cases "len < 20")
  case False
  have b: "bytes_at mem i 4 = Some (take 4 (drop i mem))" if "i \<le> 16" for i
    using assms(1) False that by (intro bytes_at_Some) simp
  have ok: "sfo_ok Z \<lparr>sa_meta = M, sa_app_ver = [], sa_version = [], sa_loc = []\<rparr>"
    using assms(3) by (simp add: sfo_ok_def)
  show ?thesis
    unfolding pkg_parser_parse_param_sfo_def if_not_P [OF False]
    using assms(3) by (auto simp: b not_le intro!: yields_mono [OF sfo_loop_yields [OF assms(1) _ assms(2) ok]] sfo_finish_fits)
qed (use assms in \<open>simp add: pkg_parser_parse_param_sfo_def\<close>)

end
