(* ===== verification/PkgReader.thy ===== *)
theory PkgReader
  imports PkgSafe
begin

text \<open>
  The parsers over their readers. A safe reader answers with all the bytes it is asked for or
  with none (locale safe_reader); over such a reader the CNT parser returns, without a read
  outside a buffer, and fills each field of the details within its size. The file, the SMB
  session and the memory prefix provide the contract.
\<close>

section \<open>Details that fit\<close>

definition detail_ok :: "pkg_detail \<Rightarrow> bool" where
  "detail_ok D = (meta_fits detail_sizes (pd_meta D) \<and> fits PKG_CONTENT_ID_LEN (pd_content_id D) \<and>
     length (pd_path D) < PKG_PATH_LEN \<and> length (pd_filename D) < 256)"

lemma detail_ok_start: "length p < PKG_PATH_LEN \<Longrightarrow> length f < 256 \<Longrightarrow> detail_ok (no_detail\<lparr>pd_path := p, pd_filename := f\<rparr>)"
  by (simp add: detail_ok_def no_detail_def no_meta_def meta_fits_def)

lemma detail_ok_cong:
  "pd_meta D = pd_meta E \<Longrightarrow> pd_content_id D = pd_content_id E \<Longrightarrow> pd_path D = pd_path E \<Longrightarrow>
   pd_filename D = pd_filename E \<Longrightarrow> detail_ok D = detail_ok E"
  by (simp add: detail_ok_def)

lemma title_id_in_fits:
  assumes "title_id_in cid = Some t" and "NUL \<notin> set cid"
  shows "fits PKG_TITLE_ID_LEN t"
proof -
  obtain d where d: "strchr cid CHR ''-'' = Some d" "length t < PKG_TITLE_ID_LEN" "set t \<subseteq> set (tl d)"
    using assms(1) set_take_subset by (fastforce simp: title_id_in_def Let_def split: option.splits if_splits)
  have "set d \<subseteq> set cid"
    using d(1) by (auto simp: strchr_def dest: set_dropWhileD split: list.splits)
  then have "set t \<subseteq> set cid" using d(3) by (cases d) auto
  then show ?thesis using d(2) assms(2) by (auto simp: fits_def)
qed

lemma fallback_titles_ok: "detail_ok D \<Longrightarrow> detail_ok (fallback_titles D)"
proof -
  assume ok: "detail_ok D"
  let ?M = "if m_title_id (pd_meta D) = [] \<and> pd_content_id D \<noteq> []
    then (case title_id_in (pd_content_id D) of Some t \<Rightarrow> (pd_meta D)\<lparr>m_title_id := t\<rparr> | None \<Rightarrow> pd_meta D) else pd_meta D"
  have m: "meta_fits detail_sizes ?M"
    using ok title_id_in_fits [of "pd_content_id D"]
    by (auto simp: detail_ok_def meta_fits_def detail_sizes_def fits_no_NUL split: option.splits)
  have "fits PKG_TITLE_NAME_LEN ''Unknown Package''" by (simp add: fits_def PKG_TITLE_NAME_LEN_def NUL_def)
  then have "meta_fits detail_sizes (if m_title ?M = [] then ?M\<lparr>m_title := (if m_title_id ?M \<noteq> []
      then c_trunc PKG_TITLE_NAME_LEN (m_title_id ?M) else ''Unknown Package'')\<rparr> else ?M)"
    using m by (auto simp: meta_fits_def detail_sizes_def fits_no_NUL simp del: option.case_distrib)
  then show ?thesis using ok by (simp add: fallback_titles_def Let_def detail_ok_def)
qed

lemma finish_detail_ok: "detail_ok D \<Longrightarrow> detail_ok (finish_detail t F D)"
proof -
  assume "detail_ok D"
  then have "detail_ok (D\<lparr>pd_pkg_type := x, pd_pkg_type_str := y\<rparr>)" for x y by (simp add: detail_ok_def)
  from fallback_titles_ok [OF this] show ?thesis by (simp add: finish_detail_def Let_def detail_ok_def)
qed

lemma content_id_fits: "length c \<le> 48 \<Longrightarrow> fits PKG_CONTENT_ID_LEN (content_id_of c)"
proof -
  assume "length c \<le> 48"
  let ?w = "takeWhile (\<lambda>b. 32 \<le> unat b \<and> unat b \<le> 126) c"
  have "length ?w \<le> 48" using length_takeWhile_le [of _ c] \<open>length c \<le> 48\<close> by (rule le_trans)
  moreover have "char_of (unat b) \<noteq> NUL" if "b \<in> set ?w" for b
  proof
    assume "char_of (unat b) = NUL"
    then have "(of_char (char_of (unat b) :: char) :: nat) = 0" by (simp add: NUL_def)
    moreover have "unat b < 256" using unsigned_less [of b] by simp
    ultimately have "unat b = 0" by (simp add: of_char_of)
    then show False using set_takeWhileD [OF that] by simp
  qed
  ultimately show ?thesis by (force simp: content_id_of_def fits_def chars_of_def PKG_CONTENT_ID_LEN_def)
qed

section \<open>Reads inside what was read\<close>

text \<open>The entries of a table that is all there, and the names of a string table with its NUL.\<close>

lemma those_Some: "(\<And>x. x \<in> set xs \<Longrightarrow> \<exists>y. f x = Some y) \<Longrightarrow> \<exists>ys. those (map f xs) = Some ys"
  by (induction xs) fastforce+

lemma those_in: "those xs = Some ys \<Longrightarrow> y \<in> set ys \<Longrightarrow> Some y \<in> set xs"
  by (induction xs arbitrary: ys) (auto split: option.splits)

lemma entries_of_total:
  assumes "length t = n * 32"
  shows "\<exists>es. entries_of t n = Some es"
proof -
  have "\<exists>e. entry_of t i = Some e" if "i < n" for i
  proof -
    have "i * 32 + 32 \<le> length t" using that assms by simp
    then show ?thesis by (simp add: entry_of_def be32_at_Some)
  qed
  then show ?thesis unfolding entries_of_def by (intro those_Some) simp
qed

definition ended_strings :: "u8 list option \<Rightarrow> nat \<Rightarrow> bool" where
  "ended_strings str sz = (\<forall>buf. str = Some buf \<longrightarrow> (\<exists>bs. buf = bs @ [0] \<and> length bs = sz))"

definition name_in :: "u8 list option \<Rightarrow> nat \<Rightarrow> nat \<Rightarrow> string" where
  "name_in str sz off = the (table_name str sz off)"

lemma table_name_total:
  assumes "ended_strings str sz"
  shows "table_name str sz off = Some (name_in str sz off)"
proof (cases str)
  case (Some buf)
  then obtain bs where "buf = bs @ [0]" "length bs = sz" using assms by (auto simp: ended_strings_def)
  then show ?thesis by (simp add: name_in_def table_name_def cstr_at_def Some)
qed (simp add: name_in_def table_name_def)

lemma named_entry:
  "ended_strings str sz \<Longrightarrow>
   (\<lambda>e S. do { name \<leftarrow> table_name str sz (ce_name_off e); reader_entry rd malloc has ic cnt name e S }) =
   (\<lambda>e. reader_entry rd malloc has ic cnt (name_in str sz (ce_name_off e)) e)"
  by (simp add: table_name_total)

text \<open>The numbers of a CNT header of 0x80 bytes.\<close>

lemma parse_table_full:
  assumes "length h = 0x80"
  shows "parse_table rd malloc has icon_ok fits' cnt h D =
     (let n = read_be32 (drop 0x10 h); toff = read_be32 (drop 0x18 h) in
      if n = 0 \<or> 2048 < n \<or> 0x200000 < toff \<or> \<not> fits' cnt toff (n * 32) \<or> \<not> malloc (n * 32) then Some None
      else do { t \<leftarrow> rd (u64_add cnt toff) (n * 32);
                case t of None \<Rightarrow> Some None
                | Some t \<Rightarrow> do { es \<leftarrow> entries_of t n;
                    map_option Some (parse_entries rd malloc has (icon_ok cnt) cnt (read_be32 (drop 4 h)) es
                       (D\<lparr>pd_content_id := content_id_of (take 48 (drop 0x40 h))\<rparr>)) } })"
  using assms by (simp add: parse_table_def be32_at_Some bytes_at_def Let_def)

lemma mem_table_full:
  assumes "length h = 0x80"
  shows "mem_table mem data_len cnt h D =
     (let n = read_be32 (drop 0x10 h); toff = read_be32 (drop 0x18 h) in
      if n = 0 \<or> 2048 < n \<or> 0x200000 < toff then Some (PmFail (Some 5))
      else do { t \<leftarrow> mem_reader mem data_len (u64_add cnt toff) (n * 32);
                case t of None \<Rightarrow> Some (PmFail (Some 6))
                | Some t \<Rightarrow>
                    do { es \<leftarrow> entries_of t n;
                         let (soff, sz) = string_table_at es;
                         let str = (if 0 < sz \<and> sz < 65536 then mem_slice data_len (u64_add cnt soff) sz else None);
                         (D, F) \<leftarrow> each_entry (mem_entry mem data_len cnt str sz) es (D, no_flags);
                         Some (PmOk (finish_detail (read_be32 (drop 4 h)) F D)) } })"
  using assms by (simp add: mem_table_def be32_at_Some Let_def)

section \<open>The parser over a safe reader\<close>

text \<open>How a parser may look for a key in its NUL-terminated copy of param.json.\<close>

definition good_has :: "(string \<Rightarrow> nat \<Rightarrow> string \<Rightarrow> bool option) \<Rightarrow> bool" where
  "good_has has = (\<forall>js n key. terminated js n \<longrightarrow> NUL \<notin> set key \<longrightarrow> yields (has js n key) (\<lambda>_. True))"

lemma json_has_key_good: "good_has json_has_key"
  by (auto simp: good_has_def terminated_def intro!: json_has_key_yields)

lemma strstr_has_key_good: "good_has strstr_has_key"
proof -
  have "yields (strstr_m (QUOTE # key @ [QUOTE]) js) (\<lambda>_. True)" if "terminated js n" "NUL \<notin> set key" for js n key
    using yields_True [OF find_pattern [of js n 0, OF _ good_key [OF that(2)]]] that(1) by simp
  then show ?thesis by (auto simp: good_has_def strstr_has_key_def)
qed

definition state_ok :: "pstate \<Rightarrow> bool" where
  "state_ok S = detail_ok (fst S)"

lemma chars_terminated: "length bs = n \<Longrightarrow> terminated (chars_of bs @ [NUL]) n"
  by (simp add: terminated_def nth_append)

lemma has_base_key_yields:
  assumes "\<And>key. NUL \<notin> set key \<Longrightarrow> yields (has key) (\<lambda>_. True)"
  shows "yields (has_base_key has) (\<lambda>_. True)"
proof -
  have "yields (has ''applicationDrmType'') (\<lambda>_. True)" "yields (has ''applicationCategoryType'') (\<lambda>_. True)"
    "yields (has ''contentBadgeType'') (\<lambda>_. True)" by (rule assms, simp add: NUL_def)+
  then show ?thesis by (auto simp: has_base_key_def elim!: yields_mono)
qed

lemma sfo_first_fits: "fits z a \<Longrightarrow> fits z' b \<Longrightarrow> fits z (sfo_first a b z)"
  by (simp add: sfo_first_def fits_no_NUL)

lemma take_sfo_fits:
  "meta_fits detail_sizes M \<Longrightarrow> meta_fits detail_sizes N \<Longrightarrow> meta_fits detail_sizes (take_sfo M N)"
  by (auto simp: meta_fits_def take_sfo_def detail_sizes_def intro: sfo_first_fits)

lemma each_entry_yields:
  "(\<And>e S. P S \<Longrightarrow> yields (f e S) P) \<Longrightarrow> P S \<Longrightarrow> yields (each_entry f es S) P"
proof (induction es arbitrary: S)
  case (Cons e es)
  show ?case
    unfolding each_entry.simps yields_bind by (rule yields_mono [OF Cons.prems(1) [OF Cons.prems(2)]], rule Cons.IH [OF Cons.prems(1)])
qed simp

locale safe_reader =
  fixes rd :: reader
  assumes rd_all: "yields (rd off n) (\<lambda>b. \<forall>bs. b = Some bs \<longrightarrow> length bs = n)"
begin

lemma is_cnt_at_total: "yields (is_cnt_at rd c) (\<lambda>_. True)"
  unfolding is_cnt_at_def by (auto intro: yields_mono [OF rd_all])

lemma candidate_total: "yields (if b then is_cnt_at rd c else Some False) (\<lambda>_. True)"
  using is_cnt_at_total by simp

lemma scan_cnt_total: "(\<And>off. off \<in> set offs \<Longrightarrow> off + 8 \<le> length hdr) \<Longrightarrow> yields (scan_cnt rd ok hdr offs) (\<lambda>_. True)"
proof (induction offs)
  case (Cons off offs)
  have l: "off + 8 \<le> length hdr" by (rule Cons.prems) simp
  have "yields (scan_cnt rd ok hdr offs) (\<lambda>_. True)" using Cons by simp
  then show ?case
    unfolding scan_cnt.simps le64_at_Some [OF l] Option.bind.simps yields_bind
    by (intro yields_mono [OF candidate_total]) simp
qed simp

lemma scan_offsets_inside: "off \<in> set (scan_offsets hdr) \<Longrightarrow> off + 8 \<le> length hdr"
  by (auto simp: scan_offsets_def)

lemma find_cnt_total:
  assumes "0x60 \<le> length hdr"
  shows "yields (find_cnt rd ok hdr) (\<lambda>_. True)"
proof -
  have l: "0x58 + 8 \<le> length hdr" using assms by simp
  have s: "yields (scan_cnt rd ok hdr (scan_offsets hdr)) (\<lambda>_. True)"
    by (rule scan_cnt_total) (rule scan_offsets_inside)
  show ?thesis
    unfolding find_cnt_def le64_at_Some [OF l] Option.bind.simps yields_if yields_bind
    using s is_cnt_at_total by (auto elim: yields_mono)
qed

lemma json_entry_ok:
  assumes "good_has has" and "state_ok S"
  shows "yields (json_entry rd malloc has cnt e S) state_ok"
proof -
  obtain D F where S: "S = (D, F)" by (cases S)
  have step: "yields (has_base_key (has (chars_of bs @ [NUL]) n)) (\<lambda>_. True)"
    "yields (pkg_parser_parse_param_json (chars_of bs @ [NUL]) n detail_sizes (pd_meta D)) (meta_fits detail_sizes)"
    if "length bs = n" for bs n
    using assms chars_terminated [OF that]
    by (auto simp: good_has_def state_ok_def S detail_ok_def intro!: has_base_key_yields param_json_yields)
  show ?thesis
    using assms(2) unfolding json_entry_def S prod.case yields_if
    by (auto intro!: yields_mono [OF rd_all] yields_mono [OF step(1)] yields_mono [OF step(2)]
        simp: Let_def state_ok_def detail_ok_def split: option.splits)
qed

lemma sfo_entry_ok:
  assumes "state_ok S" and "ce_data_sz e < 262144"
  shows "yields (sfo_entry_of_reader rd malloc cnt e S) state_ok"
proof -
  obtain D F where S: "S = (D, F)" by (cases S)
  let ?M = "pd_meta D"
  have M: "meta_fits detail_sizes ?M" using assms(1) by (simp add: S state_ok_def detail_ok_def)
  have N: "meta_fits detail_sizes (no_meta\<lparr>m_localized := m_localized ?M, m_lang := m_lang ?M\<rparr>)"
    using M by (simp add: meta_fits_def no_meta_def)
  have step: "yields (pkg_parser_parse_param_sfo bs (ce_data_sz e) detail_sizes
      (no_meta\<lparr>m_localized := m_localized ?M, m_lang := m_lang ?M\<rparr>)) (meta_fits detail_sizes)"
    if "length bs = ce_data_sz e" for bs using that assms(2) N by (intro param_sfo_yields) auto
  have fin: "meta_fits detail_sizes ((take_sfo ?M N)\<lparr>m_localized := m_localized N, m_lang := m_lang N\<rparr>)"
    if "meta_fits detail_sizes N" for N using take_sfo_fits [OF M that] that by (simp add: meta_fits_def)
  show ?thesis
    using assms(1) fin unfolding sfo_entry_of_reader_def S prod.case yields_if
    by (auto intro!: yields_mono [OF rd_all] yields_mono [OF step]
        simp: Let_def state_ok_def detail_ok_def split: option.splits)
qed

lemma reader_entry_ok:
  assumes "good_has has" and "state_ok S"
  shows "yields (reader_entry rd malloc has icon_ok cnt name e S) state_ok"
proof -
  have s1: "state_ok (fst S, patch_flags (ce_type e) name (snd S))" using assms(2) by (simp add: state_ok_def)
  have j: "yields (if is_json_entry e name then json_entry rd malloc has cnt e T else Some T) state_ok"
    if "state_ok T" for T using that json_entry_ok [OF assms(1)] by simp
  have f: "yields (if is_sfo_entry e name then sfo_entry_of_reader rd malloc cnt e T else Some T) state_ok"
    if "state_ok T" for T using that sfo_entry_ok by (simp add: is_sfo_entry_def)
  show ?thesis
    unfolding reader_entry_def Let_def yields_bind
    by (rule yields_mono [OF j [OF s1]], rule yields_mono [OF f], assumption)
      (simp add: state_ok_def set_icon_def detail_ok_def)
qed

lemma read_strings_total: "yields (read_strings rd malloc cnt x) (\<lambda>str. ended_strings str (snd x))"
proof -
  obtain off sz where x: "x = (off, sz)" by (cases x)
  show ?thesis
    unfolding read_strings_def x prod.case yields_if yields_bind
    by (intro conjI impI yields_mono [OF rd_all]) (auto simp: ended_strings_def)
qed

lemma parse_entries_ok:
  assumes "good_has has" and "detail_ok D"
  shows "yields (parse_entries rd malloc has icon_ok cnt ty es D) detail_ok"
proof -
  have s0: "state_ok (D, no_flags)" using assms(2) by (simp add: state_ok_def)
  note run = each_entry_yields [where P = state_ok, OF reader_entry_ok [OF assms(1)] s0]
  show ?thesis
    unfolding parse_entries_def Let_def yields_bind
    by (rule yields_mono [OF read_strings_total], unfold named_entry, rule yields_mono [OF run])
      (auto intro: finish_detail_ok simp: state_ok_def)
qed

lemma parse_table_ok:
  assumes "good_has has" and "detail_ok D" and "length h = 0x80"
  shows "yields (parse_table rd malloc has icon_ok fits' cnt h D) (\<lambda>r. \<forall>E. r = Some E \<longrightarrow> detail_ok E)"
proof -
  have "detail_ok (D\<lparr>pd_content_id := content_id_of (take 48 (drop 0x40 h))\<rparr>)"
    using assms(2) content_id_fits by (simp add: detail_ok_def)
  note run = parse_entries_ok [OF assms(1) this]
  have t: "yields (case t of None \<Rightarrow> Some None
      | Some t \<Rightarrow> do { es \<leftarrow> entries_of t n; map_option Some (parse_entries rd malloc has (icon_ok cnt) cnt ty es
          (D\<lparr>pd_content_id := content_id_of (take 48 (drop 0x40 h))\<rparr>)) }) (\<lambda>r. \<forall>E. r = Some E \<longrightarrow> detail_ok E)"
    if l: "\<forall>bs. t = Some bs \<longrightarrow> length bs = n * 32" for t n ty
  proof (cases t)
    case (Some bs)
    then obtain es where "entries_of bs n = Some es" using l entries_of_total by blast
    then show ?thesis by (auto simp: Some intro: yields_mono [OF run])
  qed simp
  show ?thesis
    unfolding parse_table_full [OF assms(3)] Let_def yields_if yields_bind
    by (intro conjI impI yields_mono [OF rd_all] t) simp_all
qed

lemma parse_cnt_ok:
  assumes "good_has has" and "detail_ok D" and "0x80 \<le> length hdr"
  shows "yields (parse_cnt rd malloc has icon_ok fits' hdr D) (\<lambda>r. \<forall>E. r = Some E \<longrightarrow> detail_ok E)"
proof -
  have "0x60 \<le> length hdr" using assms(3) by simp
  then show ?thesis
    unfolding parse_cnt_def
    by (auto intro!: yields_mono [OF find_cnt_total] yields_mono [OF rd_all] parse_table_ok [OF assms(1,2)]
        split: option.splits)
qed

end

interpretation file_rd: safe_reader "file_reader f"
  by unfold_locales (auto simp: file_reader_def min_def)

interpretation smb_rd: safe_reader "smb_reader r"
  by unfold_locales (simp add: smb_reader_def)

end
