(* ===== verification/PkgClaims.thy ===== *)
theory PkgClaims
  imports PkgReader
begin

text \<open>
  Properties of the package parsers (src/src/pkg_parser.c, smb_client_parse_pkg): they stay
  inside their buffers, what a live prefix needs for that, and where the code falls short.
\<close>

section \<open>The parser of files and shares\<close>

lemma cstr_of_no_NUL: "NUL \<notin> set (cstr_of bs)"
proof
  assume "NUL \<in> set (cstr_of bs)"
  then obtain b where b: "b \<in> set (takeWhile (\<lambda>b. b \<noteq> 0) bs)" "char_of (unat b) = NUL"
    by (auto simp: cstr_of_def)
  have "unat b < 256" using unsigned_less [of b] by simp
  then have "(of_char (char_of (unat b) :: char) :: nat) = unat b" by (simp add: of_char_of)
  then have "unat b = 0" using b(2) by (simp add: NUL_def)
  then have "b = 0" by (simp add: unat_eq_0)
  then show False using set_takeWhileD [OF b(1)] by simp
qed

lemma multipart_detail_ok: "detail_ok D \<Longrightarrow> detail_ok (multipart_detail h D)"
proof -
  have n: "NUL \<notin> set (text_field f)" for f by (simp add: text_field_def cstr_of_no_NUL)
  have u: "fits PKG_TITLE_ID_LEN ''UNKNOWN''" by (simp add: fits_def PKG_TITLE_ID_LEN_def NUL_def)
  have w: "fits PKG_TITLE_NAME_LEN s" if "fits PKG_TITLE_ID_LEN s" for s
    using that by (simp add: fits_def PKG_TITLE_ID_LEN_def PKG_TITLE_NAME_LEN_def)
  have m: "meta_fits detail_sizes M \<Longrightarrow> meta_fits detail_sizes (multipart_meta h M)" for M
    using n u w by (auto simp: multipart_meta_def Let_def meta_fits_def detail_sizes_def)
  assume "detail_ok D"
  then show ?thesis using n m by (auto simp: multipart_detail_def Let_def detail_ok_def)
qed

lemma parse_file_ok:
  assumes "detail_ok D"
  shows "yields (parse_file malloc f D) (\<lambda>r. \<forall>E. r = Some E \<longrightarrow> detail_ok E)"
proof -
  have "detail_ok (multipart_icon h (multipart_detail h D))" for h
    using multipart_detail_ok [OF assms] by (simp add: multipart_icon_def detail_ok_def)
  then show ?thesis
    unfolding parse_file_def using file_rd.parse_cnt_ok [OF json_has_key_good assms, of "take 0x200 f"] by auto
qed

lemma start_ok: "detail_ok (no_detail\<lparr>pd_path := c_trunc PKG_PATH_LEN p, pd_filename := c_trunc 256 q,
    pd_file_size := a, pd_total_pkg_size := b, pd_mtime := c\<rparr>)"
  using detail_ok_start [of "c_trunc PKG_PATH_LEN p" "c_trunc 256 q"]
  by (simp add: detail_ok_def length_c_trunc PKG_PATH_LEN_def no_detail_def)

lemma parse_yields: "yields (pkg_parser_parse E path) (\<lambda>r. \<forall>D. r = Some D \<longrightarrow> detail_ok D)"
proof -
  have smb: "yields (smb_client_parse_pkg E path) (\<lambda>r. \<forall>D. r = Some D \<longrightarrow> detail_ok D)"
    unfolding smb_client_parse_pkg_def Let_def
    using smb_rd.parse_cnt_ok [OF strstr_has_key_good start_ok]
    by (auto split: option.splits)
  show ?thesis
    unfolding pkg_parser_parse_def using smb parse_file_ok [OF start_ok] by (auto split: option.splits)
qed

text \<open>
  C18: whatever bytes a file or a share holds, and whatever mallocs fail, pkg_parser_parse ends
  without a read outside a buffer (the header window, the CNT header, the table of entries, the
  string table with its NUL, the copies of param.json and param.sfo): it answers -1, or details in which every text fits its
  array with the NUL.
\<close>
theorem package_parser_safe:
  "case pkg_parser_parse E path of None \<Rightarrow> False | Some None \<Rightarrow> True | Some (Some D) \<Rightarrow> detail_ok D"
  using parse_yields [of E path] by (auto simp: yields_def split: option.splits)

section \<open>The parser of a prefix in memory\<close>

interpretation mem_rd: safe_reader "mem_reader (bs @ rest) (length bs)"
proof
  fix off n
  have "bytes_at (bs @ rest) p n = Some (take n (drop p (bs @ rest))) \<and> length (take n (drop p (bs @ rest))) = n"
    if "mem_slice (length bs) off n = Some p" for p
    using that by (auto simp: mem_slice_def bytes_at_def split: if_splits)
  then show "yields (mem_reader (bs @ rest) (length bs) off n) (\<lambda>b. \<forall>bs. b = Some bs \<longrightarrow> length bs = n)"
    by (auto simp: mem_reader_def split: option.splits)
qed

lemma mem_slice_Some: "mem_slice len off sz = Some p \<Longrightarrow> p = off \<and> 0 < sz \<and> p + sz \<le> len"
  by (auto simp: mem_slice_def split: if_splits)

text \<open>The memory of the live prefix with a NUL behind it.\<close>

abbreviation (input) ended :: "u8 list \<Rightarrow> u8 list \<Rightarrow> u8 list" where
  "ended bs rest \<equiv> bs @ 0 # rest"

lemma ended_text:
  assumes "p + n \<le> length bs"
  shows "terminated (chars_of (drop p (ended bs rest))) (n + (length bs - p - n))"
proof -
  have e: "n + (length bs - p - n) = length bs - p" using assms by simp
  have l: "length bs - p < length (drop p (ended bs rest))" using assms by simp
  have "drop p (ended bs rest) ! (length bs - p) = ended bs rest ! (p + (length bs - p))"
    using assms by (intro nth_drop) simp
  also have "p + (length bs - p) = length bs" using assms by simp
  also have "ended bs rest ! length bs = 0" by simp
  finally have "chars_of (drop p (ended bs rest)) ! (length bs - p) = char_of (unat (0 :: u8))"
    unfolding chars_of_def nth_map [OF l] by (simp only:)
  moreover have "char_of (unat (0 :: u8)) = NUL" by (simp add: NUL_def char_of_def)
  ultimately show ?thesis using l unfolding e by (simp only: terminated_def length_chars_of)
qed

lemma mem_name_yields:
  assumes "\<forall>p. str = Some p \<longrightarrow> p + sz \<le> length bs"
  shows "yields (mem_name (ended bs rest) str sz off) (\<lambda>_. True)"
proof (cases str)
  case (Some p)
  show ?thesis
  proof (cases "off < sz")
    case True
    let ?s = "chars_of (drop (p + off) (ended bs rest))"
    have l: "p + off + (sz - off) \<le> length bs" using assms Some True by simp
    have "yields (skip_m (\<lambda>c. c \<noteq> NUL) ?s (sz - off)) (\<lambda>(q, k). moved ?s q \<le> sz - off)"
    proof (rule yields_mono [OF skip_m_yields [OF ended_text [OF l]]], clarify)
      fix k assume "k \<le> sz - off"
      have "moved ?s (drop (sz - off - k) ?s) = sz - off - k" using l by (intro moved_drop) simp
      then show "moved ?s (drop (sz - off - k) ?s) \<le> sz - off" by simp
    qed
    moreover have "yields (bytes_at (ended bs rest) (p + off) (m + 1)) (\<lambda>_. True)" if "m \<le> sz - off" for m
    proof -
      have "p + off + (m + 1) \<le> length (ended bs rest)" using that l by simp
      then show ?thesis by (simp add: bytes_at_def)
    qed
    ultimately show ?thesis
      unfolding mem_name_def Some option.case Let_def using True
      by (auto elim!: yields_mono simp del: length_chars_of)
  qed (simp add: mem_name_def Some)
qed (simp add: mem_name_def)

lemma mem_json_yields:
  assumes "terminated js (n + d)" and "state_ok S"
  shows "yields (mem_json js n S) state_ok"
proof -
  obtain D F where S: "S = (D, F)" by (cases S)
  have k: "yields (json_extract_key js n key m) (\<lambda>r. \<forall>v. r = Some v \<longrightarrow> NUL \<notin> set v)"
    if "NUL \<notin> set key" "0 < m" for key m
    by (rule yields_mono [OF json_extract_key_yields [OF that assms(1)]]) simp
  have keys: "NUL \<notin> set ''titleId''" "NUL \<notin> set ''titleName''" "NUL \<notin> set ''category''"
    "0 < PKG_TITLE_ID_LEN" "0 < PKG_TITLE_NAME_LEN"
    by (simp_all add: NUL_def PKG_TITLE_ID_LEN_def PKG_TITLE_NAME_LEN_def)
  have "n \<le> length js" using assms(1) by (simp add: terminated_def)
  then have base: "yields (has_base_key (json_has_key js n)) (\<lambda>_. True)"
    by (intro has_base_key_yields json_has_key_yields)
  have M: "meta_fits detail_sizes (pd_meta D)" using assms(2) by (simp add: S state_ok_def detail_ok_def)
  have fin: "meta_fits detail_sizes N' \<Longrightarrow> state_ok (D\<lparr>pd_meta := N'\<rparr>, F')" for N' F'
    using assms(2) by (simp add: S state_ok_def detail_ok_def)
  show ?thesis
    unfolding mem_json_def S prod.case yields_bind
  proof (rule yields_mono [OF base], rule yields_mono [OF k [OF keys(1,4)]], rule yields_mono [OF k [OF keys(2,5)]],
      rule yields_mono [OF k [OF keys(3), of 16]], simp, rule yields_mono [OF json_version_yields [OF assms(1)]],
      unfold yields_Some, rule fin)
    fix tid name cat ver
    assume "\<forall>v. tid = Some v \<longrightarrow> NUL \<notin> set v" "\<forall>v. name = Some v \<longrightarrow> NUL \<notin> set v"
      "\<forall>v. cat = Some v \<longrightarrow> NUL \<notin> set v" "\<forall>v. ver = Some v \<longrightarrow> length v < 32 \<and> NUL \<notin> set v"
    then show "meta_fits detail_sizes (mem_json_meta tid name cat ver (pd_meta D))"
      using M by (auto simp: mem_json_meta_def Let_def meta_fits_def detail_sizes_def version_text_fits split: option.splits)
  qed
qed

lemma mem_entry_yields:
  assumes "\<forall>p. str = Some p \<longrightarrow> p + sz \<le> length bs" and "state_ok S"
  shows "yields (mem_entry (ended bs rest) (length bs) cnt str sz e S) state_ok"
proof -
  have j: "yields (mem_json_entry (ended bs rest) (length bs) cnt e T) state_ok" if "state_ok T" for T
    using that mem_json_yields [OF ended_text that]
    by (auto simp: mem_json_entry_def dest!: mem_slice_Some split: option.splits)
  have f: "yields (mem_sfo_entry (ended bs rest) (length bs) cnt e T) state_ok"
    if "state_ok T" "ce_data_sz e < 262144" for T
  proof -
    obtain D F where T: "T = (D, F)" by (cases T)
    have M: "meta_fits detail_sizes (pd_meta D)" using that(1) by (simp add: T state_ok_def detail_ok_def)
    have z: "meta_fits detail_sizes no_meta" by (simp add: meta_fits_def no_meta_def)
    have p: "yields (pkg_parser_parse_param_sfo (drop p (ended bs rest)) (ce_data_sz e) detail_sizes no_meta) (meta_fits detail_sizes)"
      if "p + ce_data_sz e \<le> length bs" for p
      using that \<open>ce_data_sz e < 262144\<close> by (intro param_sfo_yields z) auto
    have "meta_fits detail_sizes ((take_sfo (pd_meta D) N)\<lparr>m_localized := sfo_first (m_localized (pd_meta D)) (m_localized N) PKG_LOCALIZED_TITLES_LEN,
        m_lang := sfo_first (m_lang (pd_meta D)) (m_lang N) PKG_DEFAULT_LANG_LEN\<rparr>)" if "meta_fits detail_sizes N" for N
      using take_sfo_fits [OF M that] M that by (auto simp: meta_fits_def detail_sizes_def intro: sfo_first_fits)
    then show ?thesis
      using that(1) unfolding mem_sfo_entry_def T prod.case
      by (auto simp: Let_def state_ok_def detail_ok_def simp del: drop_append dest!: mem_slice_Some
          split: option.splits intro!: yields_mono [OF p])
  qed
  have s1: "state_ok (fst S, F)" for F using assms(2) by (simp add: state_ok_def)
  have step: "yields (do { T \<leftarrow> (if is_json_entry e name then mem_json_entry (ended bs rest) (length bs) cnt e T else Some T);
      if is_sfo_entry e name then mem_sfo_entry (ended bs rest) (length bs) cnt e T else Some T }) state_ok"
    if "state_ok T" for T name
    unfolding yields_bind
    by (rule yields_mono [where P = state_ok]) (use j f that in \<open>auto simp: is_sfo_entry_def\<close>)
  show ?thesis
    unfolding mem_entry_def yields_bind Let_def
    by (rule yields_mono [OF mem_name_yields [OF assms(1)]]) (use step [OF s1] in simp)
qed

text \<open>
  What a call of the parser can answer: -1 with a stage from 1 to 6, -1 without a stage (only for
  a part of a multi-part archive), or details.
\<close>

definition good_outcome :: "bool \<Rightarrow> pm_result \<Rightarrow> bool" where
  "good_outcome part r =
     (case r of PmFail None \<Rightarrow> part | PmFail (Some st) \<Rightarrow> 1 \<le> st \<and> st \<le> 6 | PmOk D \<Rightarrow> detail_ok D)"

lemma good_outcome_simps [simp]:
  "good_outcome part (PmFail None) = part" "good_outcome part (PmFail (Some st)) = (1 \<le> st \<and> st \<le> 6)"
  "good_outcome part (PmOk D) = detail_ok D"
  by (simp_all add: good_outcome_def)

lemma mem_table_yields:
  assumes "detail_ok D" and "length h = 0x80"
  shows "yields (mem_table (ended bs rest) (length bs) cnt h D) (good_outcome part)"
proof -
  have str: "\<forall>p. (if 0 < sz \<and> sz < 65536 then mem_slice (length bs) off sz else None) = Some p \<longrightarrow> p + sz \<le> length bs"
    for off sz by (auto dest: mem_slice_Some)
  have s0: "state_ok (D, no_flags)" using assms(1) by (simp add: state_ok_def)
  have es: "yields (each_entry (mem_entry (ended bs rest) (length bs) cnt
        (if 0 < sz \<and> sz < 65536 then mem_slice (length bs) (u64_add cnt off) sz else None) sz) es (D, no_flags))
      (\<lambda>x. detail_ok (finish_detail ty (snd x) (fst x)))" for off sz es ty
    by (rule yields_mono [OF each_entry_yields [where P = state_ok, OF mem_entry_yields [OF str] s0]])
      (auto simp: state_ok_def intro: finish_detail_ok)
  have step: "yields (case t of None \<Rightarrow> Some (PmFail (Some 6))
      | Some t \<Rightarrow> do { es \<leftarrow> entries_of t n;
          let (soff, sz) = string_table_at es;
          let str = (if 0 < sz \<and> sz < 65536 then mem_slice (length bs) (u64_add cnt soff) sz else None);
          (D, F) \<leftarrow> each_entry (mem_entry (ended bs rest) (length bs) cnt str sz) es (D, no_flags);
          Some (PmOk (finish_detail ty F D)) }) (good_outcome part)"
    if l: "\<forall>x. t = Some x \<longrightarrow> length x = n * 32" for t n ty
  proof (cases t)
    case (Some x)
    then obtain l where "entries_of x n = Some l" using l entries_of_total by blast
    then show ?thesis using es by (simp add: Some Let_def case_prod_unfold)
  qed simp
  show ?thesis
    unfolding mem_table_full [OF assms(2)] Let_def yields_if yields_bind
    by (intro conjI impI yields_mono [OF mem_rd.rd_all] step [unfolded Let_def]) simp_all
qed

lemma mem_cnt_yields: "detail_ok D \<Longrightarrow> yields (mem_cnt (ended bs rest) (length bs) cnt D) (good_outcome part)"
  unfolding mem_cnt_def
  by (auto split: option.splits intro!: yields_mono [OF mem_rd.rd_all] mem_table_yields simp: detail_ok_def content_id_fits)

lemma mem_detail_ok: "detail_ok (mem_detail filename n)"
  by (auto simp: mem_detail_def Let_def detail_ok_def no_detail_def no_meta_def meta_fits_def PKG_PATH_LEN_def c_trunc_def)

lemma parse_mem_yields:
  "yields (pkg_parser_parse_mem (ended bs rest) (length bs) n filename) (good_outcome (take 8 bs = MULTIPART_MAGIC))"
proof -
  have mp: "yields (mem_multipart (mem_reader (ended bs rest) (length bs)) (mem_detail filename n)) (good_outcome True)"
    unfolding mem_multipart_def
    by (auto split: option.splits intro!: yields_mono [OF mem_rd.rd_all] multipart_detail_ok mem_detail_ok)
  show ?thesis
  proof (cases "length bs < 0x80")
    case True
    then have "mem_reader (ended bs rest) (length bs) 0 0x80 = Some None" by (simp add: mem_reader_def mem_slice_def)
    then show ?thesis by (simp add: pkg_parser_parse_mem_def)
  next
    case False
    then have h: "mem_reader (ended bs rest) (length bs) 0 0x80 = Some (Some (take 0x80 bs))"
      by (simp add: mem_reader_def mem_slice_def bytes_at_def)
    have t8: "take 8 (take 0x80 bs) = take 8 bs" by (simp add: min_def)
    show ?thesis
    proof (cases "take 8 bs = MULTIPART_MAGIC")
      case True
      then show ?thesis
        unfolding pkg_parser_parse_mem_def Let_def h using mp t8 False
        by (auto intro!: yields_mono [OF mem_rd.rd_all])
    next
      case multi: False
      then show ?thesis
        unfolding pkg_parser_parse_mem_def Let_def h using t8 False
        by (auto split: option.splits intro!: yields_mono [OF mem_rd.rd_all] yields_mono [OF mem_rd.find_cnt_total]
            mem_cnt_yields mem_detail_ok)
    qed
  qed
qed

text \<open>
  C19: when a NUL follows the prefix in memory, pkg_parser_parse_mem ends without a read outside
  the memory, the header, the table of entries or a name, for every content, length and file
  name: it fails with a stage from 1 to 6 (without one only when the prefix is of a part of a
  multi-part archive), or leaves details in which every text fits its array.
\<close>
theorem live_prefix_parser_safe:
  "case pkg_parser_parse_mem (bs @ 0 # rest) (length bs) n filename of None \<Rightarrow> False
   | Some r \<Rightarrow> good_outcome (take 8 bs = MULTIPART_MAGIC) r"
  using parse_mem_yields [of bs rest n filename] by (simp add: yields_def)

end
