(* ===== verification/PkgTitles.thy ===== *)
theory PkgTitles
  imports PkgClaims
begin

text \<open>
  Localised titles: the object that param.json and param.sfo leave in localized_titles is read
  back by the lookup, title for title, although both work on raw text.
\<close>

section \<open>Languages and titles that survive the text\<close>

definition plain_lang :: "string \<Rightarrow> bool" where
  "plain_lang l = (l \<noteq> [] \<and> length l < 32 \<and> QUOTE \<notin> set l \<and> BSLASH \<notin> set l \<and> CHR '':'' \<notin> set l \<and> CHR '','' \<notin> set l)"

definition plain_entry :: "string \<times> string \<Rightarrow> bool" where
  "plain_entry e = (plain_lang (fst e) \<and> length (snd e) < PKG_TITLE_NAME_LEN)"

text \<open>The entries that loc_object has room for, in a buffer of m characters of which some are used.\<close>

fun kept :: "nat \<Rightarrow> bool \<Rightarrow> nat \<Rightarrow> (string \<times> string) list \<Rightarrow> (string \<times> string) list" where
  "kept m first used [] = []"
| "kept m first used (e # es) =
     (if length (loc_member first e) < m - used
      then e # kept m False (used + length (loc_member first e)) es else [])"

section \<open>The text of the object\<close>

abbreviation lookup_pattern :: "string \<Rightarrow> string" where
  "lookup_pattern l \<equiv> QUOTE # l @ [QUOTE, CHR '':'', QUOTE]"

fun members_text :: "bool \<Rightarrow> (string \<times> string) list \<Rightarrow> string" where
  "members_text first [] = []"
| "members_text first (e # es) = loc_member first e @ members_text False es"

lemma loc_members_text: "loc_members m first acc es = acc @ members_text first (kept m first (length acc) es)"
  by (induction m first acc es rule: loc_members.induct) (auto simp: add.commute)

text \<open>Looking for a pattern past a piece of text in which it does not begin.\<close>

lemma strstr_skip:
  assumes "\<And>i. i < length xs \<Longrightarrow> \<not> starts_with pat (drop i xs @ ys)"
  shows "strstr (xs @ ys) pat = strstr ys pat"
  using assms
proof (induction xs)
  case (Cons c xs)
  have "strstr (xs @ ys) pat = strstr ys pat"
    using Cons.prems [of "Suc _"] by (intro Cons.IH) auto
  moreover have "\<not> starts_with pat (c # xs @ ys)" using Cons.prems [of 0] by simp
  ultimately show ?case by simp
qed simp

lemma strstr_here: "starts_with pat s \<Longrightarrow> s \<noteq> [] \<Longrightarrow> strstr s pat = Some s"
  by (cases s) simp_all

lemma starts_with_Cons [simp]: "starts_with (a # p) (b # s) = (a = b \<and> starts_with p s)"
  by (auto simp: starts_with_def)

lemma starts_with_Nil [simp]: "starts_with (a # p) [] = False" "starts_with [] s"
  by (simp_all add: starts_with_def)

lemma same_key:
  "QUOTE \<notin> set l \<Longrightarrow> QUOTE \<notin> set k \<Longrightarrow> starts_with (l @ QUOTE # xs) (k @ QUOTE # ys) \<Longrightarrow> l = k"
proof (induction l arbitrary: k)
  case Nil
  then show ?case by (cases k) auto
next
  case (Cons c l)
  then show ?case by (cases k) auto
qed

text \<open>An escaped title never holds the end of a key: the quote in it follows a backslash.\<close>

lemma esc_no_key:
  assumes "QUOTE \<notin> set l" and "BSLASH \<notin> set l" and "\<And>r. tail \<noteq> CHR '':'' # r"
  shows "\<not> starts_with (l @ [QUOTE, CHR '':'', QUOTE]) (esc_title n t @ QUOTE # tail)"
  using assms(1,2)
proof (induction l arbitrary: t n)
  case Nil
  have "\<not> starts_with [CHR '':'', QUOTE] tail" using assms(3) by (cases tail) auto
  then show ?case by (cases t) (auto simp: BSLASH_def QUOTE_def)
next
  case (Cons c l)
  show ?case
  proof (cases t)
    case Nil
    then show ?thesis using Cons.prems by auto
  next
    case (Cons d s)
    have "\<not> starts_with (l @ [QUOTE, CHR '':'', QUOTE]) (esc_title k s @ QUOTE # tail)" for k
      using Cons.IH \<open>QUOTE \<notin> set (c # l)\<close> \<open>BSLASH \<notin> set (c # l)\<close> by auto
    then show ?thesis using \<open>QUOTE \<notin> set (c # l)\<close> \<open>BSLASH \<notin> set (c # l)\<close> Cons by auto
  qed
qed

text \<open>No pattern begins inside an escaped title or at the quote that ends it.\<close>

lemma esc_no_pattern:
  assumes "plain_lang l" and "\<And>r. tail \<noteq> CHR '':'' # r" and "\<not> starts_with (l @ [QUOTE, CHR '':'', QUOTE]) tail"
  shows "strstr (esc_title n t @ QUOTE # tail) (lookup_pattern l) = strstr tail (lookup_pattern l)"
proof (induction n t rule: esc_title.induct)
  case (1 n)
  then show ?case using assms(3) by simp
next
  case (2 n c s)
  have k: "\<not> starts_with (l @ [QUOTE, CHR '':'', QUOTE]) (esc_title j s @ QUOTE # tail)" for j
    using assms(1,2) by (intro esc_no_key) (auto simp: plain_lang_def)
  show ?case
    using 2 k assms(3) by (auto simp: BSLASH_def QUOTE_def)
qed

lemma key_no_pattern:
  assumes "plain_lang k" and "plain_lang l" and "k \<noteq> l"
  shows "strstr (QUOTE # k @ [QUOTE, CHR '':''] @ QUOTE # s) (lookup_pattern l) = strstr (QUOTE # s) (lookup_pattern l)"
proof -
  have n: "\<not> starts_with (l @ [QUOTE, CHR '':'', QUOTE]) (k @ [QUOTE, CHR '':''] @ QUOTE # s)"
    using assms same_key [of l k "[CHR '':'', QUOTE]" "CHR '':'' # QUOTE # s"] by (auto simp: plain_lang_def)
  have "strstr (k @ ([QUOTE, CHR '':''] @ QUOTE # s)) (lookup_pattern l) = strstr ([QUOTE, CHR '':''] @ QUOTE # s) (lookup_pattern l)"
    using assms(1) by (intro strstr_skip) (auto simp: plain_lang_def Cons_nth_drop_Suc [symmetric] dest!: nth_mem)
  moreover have "\<not> starts_with (l @ [QUOTE, CHR '':'', QUOTE]) (CHR '':'' # QUOTE # s)"
    using assms(2) by (cases l) (auto simp: plain_lang_def)
  ultimately show ?thesis using n by (simp add: QUOTE_def)
qed

text \<open>What may follow a member: the next one, the closing brace, nothing.\<close>

definition closing :: "string \<Rightarrow> bool" where
  "closing r = (r = [] \<or> r = ''}'')"

lemma tail_no_pattern:
  assumes "plain_lang l" and "closing r"
  shows "members_text False es @ r \<noteq> CHR '':'' # x"
    and "\<not> starts_with (l @ [QUOTE, CHR '':'', QUOTE]) (members_text False es @ r)"
proof -
  have r: "r = [] \<or> r = ''}''" using assms(2) by (simp add: closing_def)
  show "members_text False es @ r \<noteq> CHR '':'' # x" using r by (cases es) (auto simp: loc_member_def)
  show "\<not> starts_with (l @ [QUOTE, CHR '':'', QUOTE]) (members_text False es @ r)"
  proof (cases es)
    case Nil
    have "length (l @ [QUOTE, CHR '':'', QUOTE]) \<le> length s \<or> \<not> starts_with (l @ [QUOTE, CHR '':'', QUOTE]) s" for s
      unfolding starts_with_def by (metis length_take min.cobounded1)
    from this [of r] show ?thesis using Nil r by auto
  next
    case (Cons e es')
    then show ?thesis using assms(1) by (cases l) (auto simp: loc_member_def plain_lang_def)
  qed
qed

lemma lookup_members:
  assumes "plain_lang l" and "closing r" and "list_all plain_entry es"
  shows "strstr (members_text first es @ r) (lookup_pattern l) =
    (case map_of es l of None \<Rightarrow> None
     | Some t \<Rightarrow> Some (lookup_pattern l @ esc_title 0 t @ QUOTE # members_text False (tl (dropWhile (\<lambda>e. fst e \<noteq> l) es)) @ r))"
  using assms(3)
proof (induction es arbitrary: first)
  case Nil
  have "r = [] \<or> r = ''}''" using assms(2) by (simp add: closing_def)
  then show ?case by (auto simp: QUOTE_def starts_with_def)
next
  case (Cons e es)
  obtain k t where e: "e = (k, t)" by (cases e)
  let ?tail = "members_text False es @ r"
  have first: "strstr ((if first then [] else '','') @ s) (lookup_pattern l) = strstr s (lookup_pattern l)" for s
    by (simp add: QUOTE_def)
  have shape: "members_text first (e # es) @ r =
      (if first then [] else '','') @ QUOTE # k @ [QUOTE, CHR '':''] @ QUOTE # esc_title 0 t @ QUOTE # ?tail"
    by (simp add: e loc_member_def)
  show ?case
  proof (cases "k = l")
    case True
    have "starts_with (lookup_pattern l) (lookup_pattern l @ esc_title 0 t @ QUOTE # ?tail)" by (rule starts_with_append)
    from strstr_here [OF this] show ?thesis unfolding shape first by (simp add: True e)
  next
    case False
    have k: "plain_lang k" using Cons.prems by (simp add: e plain_entry_def)
    note n = tail_no_pattern [OF assms(1,2), of es]
    have "\<not> starts_with (l @ [QUOTE, CHR '':'', QUOTE]) (esc_title 0 t @ QUOTE # ?tail)"
      using assms(1) n(1) by (intro esc_no_key) (auto simp: plain_lang_def)
    then have "strstr (QUOTE # esc_title 0 t @ QUOTE # ?tail) (lookup_pattern l) = strstr (esc_title 0 t @ QUOTE # ?tail) (lookup_pattern l)"
      by simp
    also have "\<dots> = strstr ?tail (lookup_pattern l)" by (rule esc_no_pattern [OF assms(1) n])
    finally have "strstr (members_text first (e # es) @ r) (lookup_pattern l) = strstr ?tail (lookup_pattern l)"
      unfolding shape first key_no_pattern [OF k assms(1) False] .
    then show ?thesis using Cons False by (simp add: e split: option.split)
  qed
qed

lemma unescape_esc:
  "k + 2 * length t < 2 * PKG_TITLE_NAME_LEN \<Longrightarrow> unescape m (esc_title k t @ QUOTE # r) = take (m - 1) t"
proof (induction t arbitrary: k m)
  case (Cons c t)
  have c: "unescape n (esc_title (k + j) t @ QUOTE # r) = take (n - 1) t" if "j \<le> 2" for n j
    using Cons.prems that by (intro Cons.IH) simp
  show ?case
    using Cons.prems c [of 1] c [of 2] by (cases "m - 1") (auto simp: QUOTE_def BSLASH_def)
qed (simp add: QUOTE_def)

lemma kept_plain: "list_all plain_entry es \<Longrightarrow> list_all plain_entry (kept m first used es)"
  by (induction m first used es rule: kept.induct) auto

lemma titles_lookup:
  assumes "list_all plain_entry es" and "plain_lang l"
  shows "extract_val_for_key (loc_object m es) l n = map_option (take (n - 1)) (map_of (kept m True 1 es) l)"
proof -
  let ?es = "kept m True 1 es"
  have s: "loc_members m True ''{'' es = CHR ''{'' # members_text True ?es" by (simp add: loc_members_text)
  define r where "r = (if length (loc_members m True ''{'' es) < m - 1 then ''}'' else [])"
  have c: "closing r" by (simp add: closing_def r_def)
  have o': "loc_object m es = CHR ''{'' # members_text True ?es @ r"
    by (simp add: loc_object_def Let_def r_def s)
  have p: "c_trunc 64 (QUOTE # l @ [QUOTE, CHR '':'', QUOTE]) = lookup_pattern l"
    using assms(2) by (intro c_trunc_short) (simp add: plain_lang_def)
  have "strstr (loc_object m es) (lookup_pattern l) = strstr (members_text True ?es @ r) (lookup_pattern l)"
    unfolding o' by (simp add: QUOTE_def)
  moreover note lookup_members [OF assms(2) c kept_plain [OF assms(1)], of True m True 1]
  moreover have "length t < PKG_TITLE_NAME_LEN" if "map_of ?es l = Some t" for t
    using kept_plain [OF assms(1), of m True 1] map_of_SomeD [OF that] by (auto simp: list_all_iff plain_entry_def)
  ultimately show ?thesis
    unfolding extract_val_for_key_def p Let_def
    by (auto simp: unescape_esc split: option.splits)
qed

text \<open>
  C20: the object of localised titles, looked up by language, answers exactly the map of the
  titles that went into it: the first title of that language among those that had room, cut to
  the caller's buffer, whatever quotes, backslashes or key-like text the titles contain.
\<close>
theorem titles_read_back:
  assumes "list_all plain_entry es" and "plain_lang l"
  shows "extract_val_for_key (loc_object m es) l n = map_option (take (n - 1)) (map_of (kept m True 1 es) l)"
  using titles_lookup [OF assms] .

text \<open>When everything has room, the lookup answers the map of the entries themselves.\<close>

lemma kept_all: "used + length (members_text first es) < m \<Longrightarrow> kept m first used es = es"
  by (induction m first used es rule: kept.induct) auto

lemma titles_read_back_witness:
  "extract_val_for_key (loc_object 2048 [(''de-DE'', [QUOTE, BSLASH, CHR ''a'']), (''en-US'', ''Game'')]) ''de-DE'' 256 =
     Some [QUOTE, BSLASH, CHR ''a'']"
proof -
  have "plain_entry (''de-DE'', [QUOTE, BSLASH, CHR ''a''])" "plain_entry (''en-US'', ''Game'')" "plain_lang ''de-DE''"
    by (simp_all add: plain_entry_def plain_lang_def PKG_TITLE_NAME_LEN_def QUOTE_def BSLASH_def)
  then have "list_all plain_entry [(''de-DE'', [QUOTE, BSLASH, CHR ''a'']), (''en-US'', ''Game'')]" "plain_lang ''de-DE''" by simp_all
  from titles_read_back [OF this, of 2048 256] show ?thesis
    by (subst (asm) kept_all) (simp_all add: loc_member_def PKG_TITLE_NAME_LEN_def QUOTE_def BSLASH_def)
qed

section \<open>The title for a browser\<close>

text \<open>
  the title shown is that of the first language of the browser's Accept-Language header
  whenever the package has one under exactly that tag (cut to the buffer).
\<close>
theorem first_choice_honoured:
  assumes "list_all plain_entry es" and "plain_lang l" and "accept_tags accept = l # later"
    and "map_of (kept m True 1 es) l = Some t" and "t \<noteq> []" and "1 < n"
  shows "pkg_parser_resolve_localized_title (loc_object m es) default_lang accept n = Some (take (n - 1) t)"
proof -
  have "extract_val_for_key (loc_object m es) l n = Some (take (n - 1) t)"
    using titles_lookup [OF assms(1,2)] assms(4) by simp
  then have "title_for (loc_object m es) l n = Some (take (n - 1) t)"
    using assms(5,6) by (cases "take (n - 1) t") (auto simp: title_for_def)
  moreover have "\<exists>x. loc_object m es = CHR ''{'' # x" by (auto simp: loc_object_def Let_def loc_members_text)
  ultimately show ?thesis
    using assms(3,6) by (auto simp: pkg_parser_resolve_localized_title_def tag_title_def)
qed

lemma first_choice_honoured_witness:
  "pkg_parser_resolve_localized_title (loc_object 2048 [(''en-US'', ''Game''), (''de-DE'', ''Spiel'')]) ''en-US''
     '' de-DE;q=0.9, en'' 256 = Some ''Spiel''"
proof -
  have "list_all plain_entry [(''en-US'', ''Game''), (''de-DE'', ''Spiel'')]" "plain_lang ''de-DE''"
    by (simp_all add: plain_entry_def plain_lang_def PKG_TITLE_NAME_LEN_def QUOTE_def BSLASH_def)
  moreover have "accept_tags '' de-DE;q=0.9, en'' = [''de-DE'', ''en'']" by code_simp
  moreover have "map_of (kept 2048 True 1 [(''en-US'', ''Game''), (''de-DE'', ''Spiel'')]) ''de-DE'' = Some ''Spiel''"
    by (subst kept_all) (simp_all add: loc_member_def PKG_TITLE_NAME_LEN_def QUOTE_def BSLASH_def)
  ultimately show ?thesis
    using first_choice_honoured [of "[(''en-US'', ''Game''), (''de-DE'', ''Spiel'')]" "''de-DE''" "'' de-DE;q=0.9, en''"
        "[''en'']" 2048 "''Spiel''" 256 "''en-US''"] by simp
qed

end
