(* ===== verification/PkgSfoFormat.thy ===== *)
theory PkgSfoFormat
  imports PkgTitles MultipartClaims
begin

text \<open>
  The param.sfo format, written by a reference encoder: header, index, key table, data table.
  The parser reads such a file as its entries, in their order.
\<close>

section \<open>Little-endian words\<close>

lemma or_shifted: "(y :: nat) < 2 ^ n \<Longrightarrow> y OR push_bit n x = y + 2 ^ n * x"
proof -
  assume y: "y < 2 ^ n"
  have "\<not> bit y m \<or> \<not> bit (push_bit n x) m" for m
  proof (cases "m < n")
    case False
    then have "y < 2 ^ m" using y by (meson less_le_trans not_less one_le_numeral power_increasing)
    then show ?thesis by (simp add: bit_iff_odd)
  qed (simp add: bit_simps)
  then have "y OR push_bit n x = y + push_bit n x" by (intro disjunctive_add [symmetric]) blast
  then show ?thesis by (simp add: push_bit_eq_mult mult.commute)
qed

lemma unat_byte_shift32: "k \<le> 24 \<Longrightarrow> unat (push_bit k (ucast (b :: u8)) :: u32) = push_bit k (unat b)"
proof -
  assume k: "k \<le> 24"
  have "unat b < 2 ^ 8" using unsigned_less [of b] by simp
  moreover have "(2 :: nat) ^ k \<le> 2 ^ 24" using k by (intro power_increasing) simp_all
  ultimately have "unat b * 2 ^ k < 2 ^ 8 * 2 ^ 24" by (intro mult_less_le_imp_less) simp_all
  then have "take_bit 32 (push_bit k (unat b)) = push_bit k (unat b)"
    by (intro take_bit_nat_eq_self) (simp add: push_bit_eq_mult)
  moreover have "take_bit 32 (unat b) = unat b" using \<open>unat b < 2 ^ 8\<close> by (intro take_bit_nat_eq_self) simp
  ultimately show ?thesis by (simp only: unsigned_push_bit_eq unsigned_ucast_eq) simp
qed

lemma unat_byte32: "unat (ucast (b :: u8) :: u32) = unat b"
  using unat_byte_shift32 [of 0 b] by simp

lemma byte_less: "unat (b :: u8) < 256"
  using unsigned_less [of b] by simp

lemma read_le32_val: "read_le32 [a, b, c, d] = le_val [a, b, c, d]"
proof -
  have "read_le32 [a, b, c, d] = unat a OR push_bit 8 (unat b) OR push_bit 16 (unat c) OR push_bit 24 (unat d)"
    by (simp add: read_le32_def unsigned_or_eq unat_byte_shift32 unat_byte32)
  also have "\<dots> = ((unat a OR push_bit 8 (unat b)) OR push_bit 16 (unat c)) OR push_bit 24 (unat d)"
    by (simp add: or.assoc)
  also have "\<dots> = unat a + 2 ^ 8 * unat b + 2 ^ 16 * unat c + 2 ^ 24 * unat d"
    using byte_less [of a] byte_less [of b] byte_less [of c] by (simp add: or_shifted)
  finally show ?thesis by simp
qed

lemma read_le16_val: "read_le16 [a, b] = le_val [a, b]"
proof -
  have "take_bit 16 (push_bit 8 (unat b)) = push_bit 8 (unat b)" "take_bit 16 (unat b) = unat b"
    using byte_less [of b] by (intro take_bit_nat_eq_self; simp add: push_bit_eq_mult)+
  then have "unat (push_bit 8 (ucast b) :: 16 word) = push_bit 8 (unat b)"
    by (simp only: unsigned_push_bit_eq unsigned_ucast_eq) simp
  moreover have "unat (ucast a :: 16 word) = unat a"
    using byte_less [of a] by (simp add: unsigned_ucast_eq take_bit_nat_eq_self)
  ultimately have "read_le16 [a, b] = unat a OR push_bit 8 (unat b)" by (simp add: read_le16_def unsigned_or_eq)
  then show ?thesis using byte_less [of a] by (simp add: or_shifted)
qed

lemma read_le_bytes:
  "v < 2 ^ 16 \<Longrightarrow> read_le16 (le_bytes 2 v) = v" "v < 2 ^ 32 \<Longrightarrow> read_le32 (le_bytes 4 v) = v"
proof -
  have "le_bytes (Suc (Suc 0)) v = [word_of_nat v, word_of_nat (v div 256)]" by (simp only: le_bytes.simps)
  then have "le_bytes 2 v = [word_of_nat v, word_of_nat (v div 256)]" by (simp only: numeral_2_eq_2)
  moreover have "v < 2 ^ 16 \<Longrightarrow> le_val (le_bytes 2 v) = v" by (rule le_val_bytes) simp
  ultimately show "v < 2 ^ 16 \<Longrightarrow> read_le16 (le_bytes 2 v) = v" by (simp only: read_le16_val)
  have "le_bytes (Suc (Suc (Suc (Suc 0)))) v =
      [word_of_nat v, word_of_nat (v div 256), word_of_nat (v div 256 div 256), word_of_nat (v div 256 div 256 div 256)]"
    by (simp only: le_bytes.simps)
  then have "le_bytes 4 v =
      [word_of_nat v, word_of_nat (v div 256), word_of_nat (v div 256 div 256), word_of_nat (v div 256 div 256 div 256)]"
    by (simp only: eval_nat_numeral BitM.simps)
  moreover have "v < 2 ^ 32 \<Longrightarrow> le_val (le_bytes 4 v) = v" by (rule le_val_bytes) simp
  ultimately show "v < 2 ^ 32 \<Longrightarrow> read_le32 (le_bytes 4 v) = v" by (simp only: read_le32_val)
qed

section \<open>A file of entries\<close>

type_synonym sfo_entries = "(string \<times> u8 list) list"

definition sfo_keys :: "sfo_entries \<Rightarrow> u8 list" where
  "sfo_keys es = concat (map (\<lambda>e. chars_bytes (fst e) @ [0]) es)"

definition sfo_data :: "sfo_entries \<Rightarrow> u8 list" where
  "sfo_data es = concat (map snd es)"

definition sfo_index_entry :: "nat \<Rightarrow> nat \<Rightarrow> string \<times> u8 list \<Rightarrow> u8 list" where
  "sfo_index_entry koff doff e =
     le_bytes 2 koff @ [4, 2] @ le_bytes 4 (length (snd e)) @ le_bytes 4 (length (snd e)) @ le_bytes 4 doff"

fun sfo_index :: "nat \<Rightarrow> nat \<Rightarrow> sfo_entries \<Rightarrow> u8 list" where
  "sfo_index koff doff [] = []"
| "sfo_index koff doff (e # es) =
     sfo_index_entry koff doff e @ sfo_index (koff + length (fst e) + 1) (doff + length (snd e)) es"

definition sfo_file :: "sfo_entries \<Rightarrow> u8 list" where
  "sfo_file es =
     (let kts = 20 + 16 * length es in
      [0, 0x50, 0x53, 0x46] @ le_bytes 4 0x101 @ le_bytes 4 kts @ le_bytes 4 (kts + length (sfo_keys es)) @
      le_bytes 4 (length es) @ sfo_index 0 0 es @ sfo_keys es @ sfo_data es)"

text \<open>What the entries mean: each value, clipped to the buffer it goes to, in their order.\<close>

definition sfo_value :: "u8 list \<Rightarrow> nat \<Rightarrow> string" where
  "sfo_value data m = c_str (strip_nuls (chars_of (take (if length data < m then length data else m - 1) data)))"

fun sfo_meaning :: "meta_sizes \<Rightarrow> sfo_entries \<Rightarrow> sfo_acc \<Rightarrow> sfo_acc option" where
  "sfo_meaning Z [] A = Some A"
| "sfo_meaning Z (e # es) A =
     do { A \<leftarrow> sfo_field (fst e) (\<lambda>m. Some (sfo_value (snd e) m)) Z A; sfo_meaning Z es A }"

text \<open>Entries the format can hold and the parser accepts.\<close>

definition sfo_small :: "sfo_entries \<Rightarrow> bool" where
  "sfo_small es = (length es \<le> 1024 \<and> length (sfo_keys es) < 2 ^ 16 \<and> length (sfo_file es) < 2 ^ 31 \<and>
     sfo_data es \<noteq> [] \<and> list_all (\<lambda>e. NUL \<notin> set (fst e)) es)"

section \<open>Reading it\<close>

lemma length_chars_bytes [simp]: "length (chars_bytes s) = length s"
  by (simp add: chars_bytes_def)

lemma chars_of_bytes [simp]: "chars_of (chars_bytes s) = s"
proof -
  have "char_of (unat (of_char c :: u8)) = c" for c
  proof -
    have "(of_char c :: nat) < 256" by simp
    moreover have "(of_char c :: u8) = word_of_nat (of_char c)" by (rule of_nat_of_char [symmetric])
    ultimately have "unat (of_char c :: u8) = of_char c" by (simp only: unsigned_of_nat) (simp add: take_bit_nat_eq_self)
    then show ?thesis by simp
  qed
  then show ?thesis by (simp add: chars_of_def chars_bytes_def comp_def)
qed

lemma chars_of_append [simp]: "chars_of (a @ b) = chars_of a @ chars_of b"
  by (simp add: chars_of_def)

lemma length_sfo_index_entry [simp]: "length (sfo_index_entry k d e) = 16"
  by (simp add: sfo_index_entry_def)

lemma length_sfo_index [simp]: "length (sfo_index k d es) = 16 * length es"
  by (induction k d es rule: sfo_index.induct) simp_all

lemma sfo_index_append:
  "sfo_index k d (a @ b) = sfo_index k d a @ sfo_index (k + length (sfo_keys a)) (d + length (sfo_data a)) b"
  by (induction a arbitrary: k d) (simp_all add: sfo_keys_def sfo_data_def add.assoc)

lemma sfo_tables_append [simp]: "sfo_keys (a @ b) = sfo_keys a @ sfo_keys b" "sfo_data (a @ b) = sfo_data a @ sfo_data b"
  by (simp_all add: sfo_keys_def sfo_data_def)

lemma bytes_at_middle: "n = length a \<Longrightarrow> k = length b \<Longrightarrow> bytes_at (a @ b @ c) n k = Some b"
  by (simp add: bytes_at_def)

lemma skip_m_to_NUL: "NUL \<notin> set xs \<Longrightarrow> length xs < n \<Longrightarrow>
    skip_m (\<lambda>c. c \<noteq> NUL) (xs @ NUL # ys) n = Some (NUL # ys, n - length xs)"
proof (induction xs arbitrary: n)
  case Nil
  then show ?case by (cases n) simp_all
next
  case (Cons c xs)
  then have "c \<noteq> NUL" by auto
  then show ?case using Cons by (cases n) simp_all
qed

text \<open>Entry number length a of the file, whatever comes before and after it.\<close>

lemma sfo_entry_read:
  assumes "es = a @ e # b" and "sfo_small es"
  shows "sfo_entry (sfo_file es) (length (sfo_file es)) (20 + 16 * length es) (20 + 16 * length es + length (sfo_keys es)) (length a) =
      Some (Some (fst e, 20 + 16 * length es + length (sfo_keys es) + length (sfo_data a), length (snd e)))"
    and "bytes_at (sfo_file es) (20 + 16 * length es + length (sfo_keys es) + length (sfo_data a)) (length (snd e)) = Some (snd e)"
proof -
  let ?kts = "20 + 16 * length es" and ?dts = "20 + 16 * length es + length (sfo_keys es)"
  let ?k = "length (sfo_keys a)" and ?d = "length (sfo_data a)" and ?f = "sfo_file es"
  define H where "H = [0, 0x50, 0x53, 0x46] @ le_bytes 4 0x101 @ le_bytes 4 ?kts @ le_bytes 4 ?dts @ le_bytes 4 (length es)"
  have sk': "sfo_keys es = sfo_keys a @ chars_bytes (fst e) @ 0 # sfo_keys b"
    by (simp add: assms(1)) (simp add: sfo_keys_def)
  have sd': "sfo_data es = sfo_data a @ snd e @ sfo_data b"
    by (simp add: assms(1)) (simp add: sfo_data_def)
  have lH: "length H = 20" by (simp add: H_def)
  define I1 where "I1 = sfo_index 0 0 a"
  define I2 where "I2 = sfo_index (?k + length (fst e) + 1) (?d + length (snd e)) b"
  have lI: "length I1 = 16 * length a" "length I2 = 16 * length b" by (simp_all add: I1_def I2_def)
  have idx: "sfo_index 0 0 es = I1 @ sfo_index_entry ?k ?d e @ I2"
    by (simp add: assms(1) sfo_index_append I1_def I2_def)
  have f: "?f = H @ I1 @ sfo_index_entry ?k ?d e @ I2 @ sfo_keys es @ sfo_data es"
    by (simp add: sfo_file_def Let_def H_def flip: idx)
  have lf: "length ?f = ?dts + length (sfo_data es)" by (simp add: sfo_file_def Let_def)
  have small: "?k < 2 ^ 16" "?d < 2 ^ 32" "length (snd e) < 2 ^ 32" "?kts + ?k < 2 ^ 32"
    using assms lf by (auto simp: sfo_small_def sfo_keys_def sfo_data_def)
  have r: "bytes_at ?f (20 + length a * 16) 2 = Some (le_bytes 2 ?k)"
    "bytes_at ?f (20 + length a * 16 + 4) 4 = Some (le_bytes 4 (length (snd e)))"
    "bytes_at ?f (20 + length a * 16 + 12) 4 = Some (le_bytes 4 ?d)"
    using bytes_at_middle [of "20 + length a * 16" "H @ I1" 2 "le_bytes 2 ?k"]
      bytes_at_middle [of "20 + length a * 16 + 4" "H @ I1 @ le_bytes 2 ?k @ [4, 2]" 4 "le_bytes 4 (length (snd e))"]
      bytes_at_middle [of "20 + length a * 16 + 12" "H @ I1 @ le_bytes 2 ?k @ [4, 2] @ le_bytes 4 (length (snd e)) @ le_bytes 4 (length (snd e))"
        4 "le_bytes 4 ?d"]
    by (simp_all add: f sfo_index_entry_def lH lI)
  have ktab: "drop (?kts + ?k) ?f = chars_bytes (fst e) @ 0 # sfo_keys b @ sfo_data es"
  proof -
    have "?f = (H @ I1 @ sfo_index_entry ?k ?d e @ I2 @ sfo_keys a) @ chars_bytes (fst e) @ 0 # sfo_keys b @ sfo_data es"
      by (simp only: f sk' append_assoc append_Cons)
    moreover have "length (H @ I1 @ sfo_index_entry ?k ?d e @ I2 @ sfo_keys a) = ?kts + ?k" by (simp add: lH lI assms(1))
    ultimately show ?thesis by (metis append_eq_conv_conj)
  qed
  have dtab: "?f = (H @ I1 @ sfo_index_entry ?k ?d e @ I2 @ sfo_keys es @ sfo_data a) @ snd e @ sfo_data b"
    by (simp only: f sd' append_assoc)
  have ld: "length (H @ I1 @ sfo_index_entry ?k ?d e @ I2 @ sfo_keys es @ sfo_data a) = ?dts + ?d"
    by (simp add: lH lI assms(1))
  show "bytes_at ?f (?dts + ?d) (length (snd e)) = Some (snd e)"
    by (subst dtab) (rule bytes_at_middle; simp only: ld)
  have lk: "length (sfo_keys es) = ?k + length (fst e) + 1 + length (sfo_keys b)" by (simp add: sk')
  have le: "length (sfo_data es) = ?d + length (snd e) + length (sfo_data b)" by (simp add: sd')
  have chars: "chars_of (drop (?kts + ?k) ?f) = fst e @ NUL # chars_of (sfo_keys b @ sfo_data es)"
    by (simp add: ktab chars_of_def NUL_def flip: chars_of_def) (simp add: chars_of_def char_of_def)
  have n: "NUL \<notin> set (fst e)" using assms by (simp add: sfo_small_def)
  have sk: "skip_m (\<lambda>c. c \<noteq> NUL) (fst e @ NUL # chars_of (sfo_keys b @ sfo_data es)) (length ?f - (?kts + ?k)) =
      Some (NUL # chars_of (sfo_keys b @ sfo_data es), length ?f - (?kts + ?k) - length (fst e))"
    using n lf lk by (intro skip_m_to_NUL) simp_all
  have m: "moved (fst e @ NUL # chars_of (sfo_keys b @ sfo_data es)) (NUL # chars_of (sfo_keys b @ sfo_data es)) = length (fst e)"
    by (simp add: moved_def)
  have mo: "(?kts + ?k) mod 2 ^ 32 = ?kts + ?k" using small by simp
  have room: "?kts + ?k < length ?f" "length ?f - (?kts + ?k) - length (fst e) \<noteq> 0" "?d \<le> length ?f" "length (snd e) \<le> length ?f"
    "?dts + ?d + length (snd e) \<le> length ?f" using lf lk le by simp_all
  show "sfo_entry ?f (length ?f) ?kts ?dts (length a) = Some (Some (fst e, ?dts + ?d, length (snd e)))"
    unfolding sfo_entry_def r Option.bind.simps Let_def read_le_bytes(1) [OF small(1)] read_le_bytes(2) [OF small(2)]
      read_le_bytes(2) [OF small(3)] mo chars sk m
    using room m by simp
qed

lemma bytes_at_shorter:
  "bytes_at m p n = Some bs \<Longrightarrow> k \<le> n \<Longrightarrow> bytes_at m p k = Some (take k bs)"
  by (auto simp: bytes_at_def min_def split: if_splits)

lemma sfo_text_value: "bytes_at m p (length bs) = Some bs \<Longrightarrow> sfo_text m p (length bs) = (\<lambda>k. Some (sfo_value bs k))"
proof
  fix k
  assume b: "bytes_at m p (length bs) = Some bs"
  have "(if length bs < k then length bs else k - 1) \<le> length bs" by auto
  from bytes_at_shorter [OF b this] show "sfo_text m p (length bs) k = Some (sfo_value bs k)"
    unfolding sfo_text_def by (simp add: sfo_value_def)
qed

lemma sfo_loop_meaning:
  assumes "sfo_small es"
  shows "es = a @ b \<Longrightarrow>
    sfo_loop (sfo_file es) (length (sfo_file es)) (20 + 16 * length es) (20 + 16 * length es + length (sfo_keys es)) Z
      (length b) (length a) A = sfo_meaning Z b A"
proof (induction b arbitrary: a A)
  case (Cons e b)
  have g: "\<not> 20 + (length a + 1) * 16 > length (sfo_file es)"
    by (simp add: sfo_file_def Let_def Cons.prems)
  note r = sfo_entry_read [OF Cons.prems assms]
  have IH: "sfo_loop (sfo_file es) (length (sfo_file es)) (20 + 16 * length es) (20 + 16 * length es + length (sfo_keys es)) Z
      (length b) (length a + 1) B = sfo_meaning Z b B" for B
    using Cons.IH [of "a @ [e]" B] Cons.prems by simp
  show ?case
    unfolding list.size(4) add_Suc_right add_0_right sfo_loop.simps if_not_P [OF g] r(1) Option.bind.simps option.case prod.case
      sfo_text_value [OF r(2)] sfo_meaning.simps IH by simp
qed simp

text \<open>
  C21: a param.sfo written by the reference encoder, whatever its entries are within the limits
  of the format, is parsed as exactly those entries in that order: index, key table and data
  table are read at the right places and every value is its own bytes.
\<close>
theorem sfo_reads_its_entries:
  assumes "sfo_small es"
  shows "pkg_parser_parse_param_sfo (sfo_file es) (length (sfo_file es)) Z M =
    map_option (sfo_finish Z) (sfo_meaning Z es \<lparr>sa_meta = M, sa_app_ver = [], sa_version = [], sa_loc = []\<rparr>)"
proof -
  let ?f = "sfo_file es" and ?kts = "20 + 16 * length es" and ?dts = "20 + 16 * length es + length (sfo_keys es)"
  let ?T = "sfo_index 0 0 es @ sfo_keys es @ sfo_data es"
  have f: "?f = [0, 0x50, 0x53, 0x46] @ le_bytes 4 0x101 @ le_bytes 4 ?kts @ le_bytes 4 ?dts @ le_bytes 4 (length es) @ ?T"
    by (simp add: sfo_file_def Let_def)
  have lf: "length ?f = ?dts + length (sfo_data es)" by (simp add: sfo_file_def Let_def)
  have r: "bytes_at ?f 0 4 = Some [0, 0x50, 0x53, 0x46]" "bytes_at ?f 0x08 4 = Some (le_bytes 4 ?kts)"
    "bytes_at ?f 0x0C 4 = Some (le_bytes 4 ?dts)" "bytes_at ?f 0x10 4 = Some (le_bytes 4 (length es))"
    using bytes_at_middle [of 0 "[]" 4 "[0, 0x50, 0x53, 0x46]"]
      bytes_at_middle [of 8 "[0, 0x50, 0x53, 0x46] @ le_bytes 4 0x101" 4 "le_bytes 4 ?kts"]
      bytes_at_middle [of 12 "[0, 0x50, 0x53, 0x46] @ le_bytes 4 0x101 @ le_bytes 4 ?kts" 4 "le_bytes 4 ?dts"]
      bytes_at_middle [of 16 "[0, 0x50, 0x53, 0x46] @ le_bytes 4 0x101 @ le_bytes 4 ?kts @ le_bytes 4 ?dts" 4 "le_bytes 4 (length es)"]
    by (simp_all add: f)
  have d: "0 < length (sfo_data es)" using assms by (simp add: sfo_small_def)
  have b: "\<not> length ?f < 20" "?kts < length ?f" "?dts < length ?f" "length es \<le> 1024"
    using assms d lf by (simp_all add: sfo_small_def)
  have small: "?kts < 2 ^ 32" "?dts < 2 ^ 32" "length es < 2 ^ 32" using assms lf by (simp_all add: sfo_small_def)
  note v = read_le_bytes(2) [OF small(1)] read_le_bytes(2) [OF small(2)] read_le_bytes(2) [OF small(3)]
  have loop: "sfo_loop ?f (length ?f) ?kts ?dts Z (length es) 0 A = sfo_meaning Z es A" for A
    using sfo_loop_meaning [OF assms, of "[]" es] by simp
  show ?thesis
    unfolding pkg_parser_parse_param_sfo_def if_not_P [OF b(1)] r Option.bind.simps v loop
    using b by (simp add: map_conv_bind_option comp_def)
qed

lemma sfo_reads_its_entries_witness:
  "let es = [(''APP_VER'', chars_bytes ''01.02'' @ [0]), (''TITLE'', chars_bytes ''Game''), (''TITLE_ID'', chars_bytes ''CUSA00001'')]
   in pkg_parser_parse_param_sfo (sfo_file es) (length (sfo_file es)) detail_sizes no_meta =
     Some (no_meta\<lparr>m_title := ''Game'', m_title_id := ''CUSA00001'', m_version := ''v01.02''\<rparr>)"
proof -
  let ?es = "[(''APP_VER'', chars_bytes ''01.02'' @ [0]), (''TITLE'', chars_bytes ''Game''), (''TITLE_ID'', chars_bytes ''CUSA00001'')]"
  have s: "sfo_small ?es"
    by (simp add: sfo_small_def sfo_file_def Let_def sfo_keys_def sfo_data_def NUL_def chars_bytes_def)
  have "map_option (sfo_finish detail_sizes) (sfo_meaning detail_sizes ?es
      \<lparr>sa_meta = no_meta, sa_app_ver = [], sa_version = [], sa_loc = []\<rparr>) =
    Some (no_meta\<lparr>m_title := ''Game'', m_title_id := ''CUSA00001'', m_version := ''v01.02''\<rparr>)" by code_simp
  then show ?thesis unfolding Let_def by (simp only: sfo_reads_its_entries [OF s])
qed

end
