(* ===== verification/PkgShare.thy ===== *)
theory PkgShare
  imports PkgClaims
begin

text \<open>
  The parser of shares against the parser of files: on the same bytes they find the same
  package, although the code is written twice.
\<close>

section \<open>Readers that agree\<close>

definition agree :: "reader \<Rightarrow> reader \<Rightarrow> bool" where
  "agree r s = (\<forall>off n. 0 < n \<longrightarrow> r off n = s off n)"

lemma agreeD: "agree r s \<Longrightarrow> 0 < n \<Longrightarrow> r off n = s off n"
  by (simp add: agree_def)

lemma scan_cnt_agree: "agree r s \<Longrightarrow> scan_cnt r ok hdr offs = scan_cnt s ok hdr offs"
  by (induction offs) (simp_all add: is_cnt_at_def agreeD cong: if_cong Option.bind_cong)

lemma find_cnt_agree: "agree r s \<Longrightarrow> find_cnt r ok hdr = find_cnt s ok hdr"
  by (simp add: find_cnt_def is_cnt_at_def agreeD scan_cnt_agree [of r s] cong: if_cong Option.bind_cong)

lemma reader_entry_agree:
  "agree r s \<Longrightarrow> reader_entry r malloc has icon cnt name e S = reader_entry s malloc has icon cnt name e S"
  by (simp add: reader_entry_def json_entry_def sfo_entry_of_reader_def is_json_entry_def is_sfo_entry_def agreeD
      cong: if_cong)

lemma parse_table_agree:
  assumes "agree r s"
  shows "parse_table r malloc has icon ok cnt h D = parse_table s malloc has icon ok cnt h D"
proof -
  have "read_strings r malloc cnt x = read_strings s malloc cnt x" for x
    using assms by (simp add: read_strings_def agreeD split: prod.split)
  moreover have "(\<lambda>e S. do { name \<leftarrow> nm e; reader_entry r malloc has (icon cnt) cnt name e S }) =
      (\<lambda>e S. do { name \<leftarrow> nm e; reader_entry s malloc has (icon cnt) cnt name e S })" for nm
    by (simp add: reader_entry_agree [OF assms])
  ultimately have pe: "parse_entries r malloc has (icon cnt) cnt ty es D = parse_entries s malloc has (icon cnt) cnt ty es D" for ty es D
    by (simp add: parse_entries_def Let_def)
  have rs: "n \<noteq> 0 \<Longrightarrow> r x (n * 32) = s x (n * 32)" for x n by (simp add: agreeD [OF assms])
  show ?thesis unfolding parse_table_def pe
    by (intro Option.bind_cong if_cong refl) (simp_all add: rs)
qed

lemma parse_cnt_agree:
  "agree r s \<Longrightarrow> parse_cnt r malloc has icon ok hdr D = parse_cnt s malloc has icon ok hdr D"
  unfolding parse_cnt_def by (simp only: find_cnt_agree parse_table_agree agreeD zero_less_numeral)

section \<open>What the two parsers find\<close>

definition same_text :: "pkg_detail \<Rightarrow> pkg_detail \<Rightarrow> bool" where
  "same_text D D' = (pd_meta D = pd_meta D' \<and> pd_content_id D = pd_content_id D')"

definition same_state :: "pstate \<Rightarrow> pstate \<Rightarrow> bool" where
  "same_state S S' = same_text (fst S) (fst S')"

context safe_reader
begin

lemma json_entry_same:
  assumes "good_has has" and "good_has has'" and "same_state S S'"
  shows "rel_option same_state (json_entry rd malloc has cnt e S) (json_entry rd malloc has' cnt e S')"
proof -
  obtain D F where S: "S = (D, F)" by (cases S)
  obtain D' F' where S': "S' = (D', F')" by (cases S')
  have m: "pd_meta D' = pd_meta D" "pd_content_id D' = pd_content_id D"
    using assms(3) by (simp_all add: S S' same_state_def same_text_def)
  obtain b where b: "rd (u64_add cnt (ce_data_off e)) (ce_data_sz e) = Some b"
    and l: "\<And>bs. b = Some bs \<Longrightarrow> length bs = ce_data_sz e"
    using rd_all [of "u64_add cnt (ce_data_off e)" "ce_data_sz e"] by (auto simp: yields_iff)
  show ?thesis
  proof (cases b)
    case (Some bs)
    let ?js = "chars_of bs @ [NUL]"
    have t: "terminated ?js (ce_data_sz e)" by (rule chars_terminated [OF l [OF Some]])
    have "yields (has_base_key (h ?js (ce_data_sz e))) (\<lambda>_. True)" if "good_has h" for h
      using that t by (intro has_base_key_yields) (auto simp: good_has_def)
    then obtain x y where "has_base_key (has ?js (ce_data_sz e)) = Some x" "has_base_key (has' ?js (ce_data_sz e)) = Some y"
      using assms(1,2) by (metis yields_iff)
    then show ?thesis
      using assms(3) by (cases "pkg_parser_parse_param_json ?js (ce_data_sz e) detail_sizes (pd_meta D)")
        (simp_all add: json_entry_def S S' b Some m Let_def same_state_def same_text_def)
  qed (use assms(3) in \<open>simp add: json_entry_def S S' b\<close>)
qed

lemma sfo_entry_same:
  assumes "same_state S S'"
  shows "rel_option same_state (sfo_entry_of_reader rd malloc cnt e S) (sfo_entry_of_reader rd malloc cnt e S')"
proof -
  obtain D F where S: "S = (D, F)" by (cases S)
  obtain D' F' where S': "S' = (D', F')" by (cases S')
  have m: "pd_meta D' = pd_meta D" "pd_content_id D' = pd_content_id D"
    using assms by (simp_all add: S S' same_state_def same_text_def)
  obtain b where b: "rd (u64_add cnt (ce_data_off e)) (ce_data_sz e) = Some b"
    using rd_all [of "u64_add cnt (ce_data_off e)" "ce_data_sz e"] by (auto simp: yields_iff)
  show ?thesis
  proof (cases b)
    case (Some bs)
    show ?thesis
      using assms by (cases "pkg_parser_parse_param_sfo bs (ce_data_sz e) detail_sizes
          (no_meta\<lparr>m_localized := m_localized (pd_meta D), m_lang := m_lang (pd_meta D)\<rparr>)")
        (simp_all add: sfo_entry_of_reader_def S S' b Some m Let_def same_state_def same_text_def)
  qed (use assms in \<open>simp add: sfo_entry_of_reader_def S S' b\<close>)
qed

lemma reader_entry_same:
  assumes "good_has has" and "good_has has'" and "same_state S S'"
  shows "rel_option same_state (reader_entry rd malloc has ic cnt name e S) (reader_entry rd malloc has' ic' cnt name e S')"
proof -
  have bind: "rel_option same_state m m' \<Longrightarrow> (\<And>T T'. same_state T T' \<Longrightarrow> rel_option same_state (f T) (f' T')) \<Longrightarrow>
    rel_option same_state (Option.bind m f) (Option.bind m' f')" for m m' f f'
    by (cases m; cases m') simp_all
  have s1: "same_state (fst S, G) (fst S', G')" for G G' using assms(3) by (simp add: same_state_def)
  have j: "rel_option same_state (if is_json_entry e name then json_entry rd malloc has cnt e T else Some T)
      (if is_json_entry e name then json_entry rd malloc has' cnt e T' else Some T')" if "same_state T T'" for T T'
    using json_entry_same [OF assms(1,2) that] that by simp
  have f: "rel_option same_state (if is_sfo_entry e name then sfo_entry_of_reader rd malloc cnt e T else Some T)
      (if is_sfo_entry e name then sfo_entry_of_reader rd malloc cnt e T' else Some T')" if "same_state T T'" for T T'
    using sfo_entry_same [OF that] that by simp
  show ?thesis
    unfolding reader_entry_def Let_def
    by (rule bind [OF j [OF s1]], rule bind [OF f], assumption) (auto simp: same_state_def same_text_def set_icon_def)
qed

lemma each_entry_same:
  assumes "good_has has" and "good_has has'"
  shows "same_state S S' \<Longrightarrow> rel_option same_state
    (each_entry (\<lambda>e. reader_entry rd malloc has ic cnt (nm e) e) es S)
    (each_entry (\<lambda>e. reader_entry rd malloc has' ic' cnt (nm e) e) es S')"
proof (induction es arbitrary: S S')
  case (Cons e es)
  from reader_entry_same [OF assms Cons.prems, of malloc ic cnt "nm e" e ic'] show ?case
    by (cases "reader_entry rd malloc has ic cnt (nm e) e S"; cases "reader_entry rd malloc has' ic' cnt (nm e) e S'")
      (simp_all add: Cons.IH)
qed simp

end

lemma finish_same: "same_text D D' \<Longrightarrow> same_text (finish_detail t F D) (finish_detail t F' D')"
  by (simp add: same_text_def finish_detail_def fallback_titles_def Let_def)

context safe_reader
begin

lemma parse_entries_same:
  assumes "good_has has" and "good_has has'" and "same_text D D'"
  shows "rel_option same_text (parse_entries rd malloc has ic cnt ty es D) (parse_entries rd malloc has' ic' cnt ty es D')"
proof -
  obtain str where str: "read_strings rd malloc cnt (string_table_at es) = Some str"
    and z: "ended_strings str (snd (string_table_at es))"
    using read_strings_total [of malloc cnt "string_table_at es"] by (auto simp: yields_iff)
  let ?nm = "\<lambda>e. name_in str (snd (string_table_at es)) (ce_name_off e)"
  let ?run = "\<lambda>ha i E. each_entry (\<lambda>e. reader_entry rd malloc ha i cnt (?nm e) e) es (E, no_flags)"
  have "rel_option same_state (?run has ic D) (?run has' ic' D')"
    using assms(3) by (intro each_entry_same [OF assms(1,2)]) (simp add: same_state_def)
  then show ?thesis
    unfolding parse_entries_def Let_def str Option.bind.simps named_entry [OF z]
    by (cases "?run has ic D"; cases "?run has' ic' D'") (auto simp: same_state_def finish_same split: prod.splits)
qed

lemma parse_table_same:
  assumes "good_has has" and "good_has has'" and "same_text D D'" and h: "length h = 0x80"
    and ok: "\<And>toff n. 0 < n \<Longrightarrow> \<not> (ok cnt toff n \<longleftrightarrow> ok' cnt toff n) \<Longrightarrow> toff \<le> 0x200000 \<Longrightarrow> n \<le> 2048 * 32 \<Longrightarrow> rd (u64_add cnt toff) n = Some None"
  shows "rel_option (rel_option same_text) (parse_table rd malloc has ic ok cnt h D) (parse_table rd malloc has' ic' ok' cnt h D')"
proof -
  let ?n = "read_be32 (drop 16 h)" and ?t = "read_be32 (drop 24 h)"
  define G where "G = (?n = 0 \<or> 2048 < ?n \<or> 0x200000 < ?t \<or> \<not> malloc (?n * 32))"
  define R where "R ha i E = do { t \<leftarrow> rd (u64_add cnt ?t) (?n * 32);
      case t of None \<Rightarrow> Some None
      | Some t \<Rightarrow> do { es \<leftarrow> entries_of t ?n;
          map_option Some (parse_entries rd malloc ha i cnt (read_be32 (drop 4 h)) es
            (E\<lparr>pd_content_id := content_id_of (take 48 (drop 0x40 h))\<rparr>)) } }" for ha i E
  have pt: "parse_table rd malloc ha i o' cnt h E = (if G \<or> \<not> o' cnt ?t (?n * 32) then Some None else R ha (i cnt) E)" for ha i o' E
    by (auto simp: parse_table_full [OF h] G_def R_def Let_def)
  obtain t where t: "rd (u64_add cnt ?t) (?n * 32) = Some t"
    using rd_all [of "u64_add cnt ?t" "?n * 32"] by (auto simp: yields_iff)
  have e: "same_text (D\<lparr>pd_content_id := c\<rparr>) (D'\<lparr>pd_content_id := c\<rparr>)" for c using assms(3) by (simp add: same_text_def)
  have rest: "rel_option (rel_option same_text) (R has (ic cnt) D) (R has' (ic' cnt) D')"
  proof (cases t)
    case (Some x)
    show ?thesis using parse_entries_same [OF assms(1,2) e]
      by (cases "entries_of x ?n") (simp_all add: R_def t Some option.rel_map)
  qed (simp add: R_def t)
  have fail: "R ha i E = Some None" if "\<not> G" "\<not> (ok cnt ?t (?n * 32) \<longleftrightarrow> ok' cnt ?t (?n * 32))" for ha i E
  proof -
    have "0 < ?n * 32" "?t \<le> 0x200000" "?n * 32 \<le> 2048 * 32" using that(1) unfolding G_def by linarith+
    then have "rd (u64_add cnt ?t) (?n * 32) = Some None" using ok [of "?n * 32" ?t] that(2) by simp
    then show ?thesis by (simp add: R_def)
  qed
  show ?thesis
    unfolding pt using rest fail by (cases "ok cnt ?t (?n * 32) = ok' cnt ?t (?n * 32)") auto
qed

lemma parse_cnt_same:
  assumes "good_has has" and "good_has has'" and "same_text D D'" and "pd_file_size D = pd_file_size D'"
    and hdr: "0x60 \<le> length hdr"
    and ok: "\<And>cnt h toff n. rd cnt 0x80 = Some (Some h) \<Longrightarrow> 0 < n \<Longrightarrow> \<not> (ok cnt toff n \<longleftrightarrow> ok' cnt toff n) \<Longrightarrow>
      toff \<le> 0x200000 \<Longrightarrow> n \<le> 2048 * 32 \<Longrightarrow> rd (u64_add cnt toff) n = Some None"
  shows "rel_option (rel_option same_text) (parse_cnt rd malloc has ic ok hdr D) (parse_cnt rd malloc has' ic' ok' hdr D')"
proof -
  obtain c where c: "find_cnt rd (\<lambda>x. x < pd_file_size D') hdr = Some c"
    using find_cnt_total [OF hdr] by (auto simp: yields_iff)
  show ?thesis
  proof (cases c)
    case (Some cnt)
    obtain h where h: "rd cnt 0x80 = Some h" "\<forall>x. h = Some x \<longrightarrow> length x = 0x80"
      using rd_all [of cnt "0x80"] by (auto simp: yields_iff)
    show ?thesis
    proof (cases h)
      case (Some x)
      have "rel_option (rel_option same_text) (parse_table rd malloc has ic ok cnt x D) (parse_table rd malloc has' ic' ok' cnt x D')"
        using ok [of cnt x] h Some by (intro parse_table_same [OF assms(1-3)]) auto
      then show ?thesis using assms(4) c \<open>c = Some cnt\<close> h Some by (simp add: parse_cnt_def)
    qed (use assms(4) c \<open>c = Some cnt\<close> h in \<open>simp add: parse_cnt_def\<close>)
  qed (use assms(4) c in \<open>simp add: parse_cnt_def\<close>)
qed

end

section \<open>The equivalence\<close>

definition serves :: "(nat \<Rightarrow> nat \<Rightarrow> u8 list) \<Rightarrow> u8 list \<Rightarrow> bool" where
  "serves rd f = (\<forall>off n. rd off n = take n (drop off f))"

lemma serves_agree:
  assumes "serves rd f" and "length f < 2 ^ 63"
  shows "agree (smb_reader rd) (file_reader f)"
proof -
  have "length (take n (drop off f)) = n \<longleftrightarrow> off < 2 ^ 63 \<and> off + n \<le> length f" if "0 < n" for off n
    using that assms(2) by auto
  then show ?thesis using assms(1) by (simp add: agree_def smb_reader_def file_reader_def serves_def)
qed

text \<open>
  C22: when a share serves the bytes of a file, smb_client_parse_pkg and pkg_parser_parse fail on
  the same packages, and on the others they find the same content id, titles, title id, category
  and version (for packages that are no part of a multi-part archive, which shares refuse).
\<close>
theorem share_parses_like_file:
  assumes "starts_with ''smb://'' url" and "pe_smb E url = Some (length f, mt, rd)" and "serves rd f"
    and "\<not> starts_with ''smb://'' path" and "pe_files E path = Some f"
    and "length f < 2 ^ 63" and "take 8 f \<noteq> MULTIPART_MAGIC"
  shows "rel_option (rel_option same_text) (pkg_parser_parse E url) (pkg_parser_parse E path)"
proof -
  define D where "D = no_detail\<lparr>pd_path := c_trunc PKG_PATH_LEN url, pd_filename := c_trunc 256 (smb_filename url),
    pd_file_size := length f, pd_total_pkg_size := length f, pd_mtime := mt\<rparr>"
  define D' where "D' = no_detail\<lparr>pd_path := c_trunc PKG_PATH_LEN path, pd_filename := c_trunc 256 (base_name path),
    pd_file_size := length f, pd_total_pkg_size := length f, pd_mtime := pe_mtime E path\<rparr>"
  have d: "same_text D D'" "pd_file_size D = length f" "pd_file_size D' = length f"
    by (simp_all add: D_def D'_def same_text_def no_detail_def)
  have h: "rd 0 0x200 = take 0x200 f" using assms(3) by (simp add: serves_def)
  have t8: "take 8 (take 0x200 f) = take 8 f" by (simp add: min_def)
  have len: "length (take 0x200 f) < 0x80 \<longleftrightarrow> length f < 0x80" by auto
  have smb: "pkg_parser_parse E url = (if length f < 0x80 then Some None
      else parse_cnt (file_reader f) (pe_malloc E) strstr_has_key (\<lambda>cnt e. 0 < ce_data_sz e) (\<lambda>cnt toff n. True) (take 0x200 f) D)"
    unfolding pkg_parser_parse_def smb_client_parse_pkg_def
    using assms(1,2,7) by (simp only: h Let_def option.case prod.case t8 len parse_cnt_agree [OF serves_agree [OF assms(3,6)]]
        if_True simp_thms flip: D_def)
  have local_file: "pkg_parser_parse E path = (if length f < 0x80 then Some None
      else parse_cnt (file_reader f) (pe_malloc E) json_has_key (icon_in_file (length f)) (table_in_file (length f)) (take 0x200 f) D')"
    using assms(4,5,7) by (simp add: pkg_parser_parse_def parse_file_def d(3) flip: D'_def)
  have ok: "file_reader f (u64_add cnt toff) n = Some None"
    if r: "file_reader f cnt 0x80 = Some (Some x)" and n: "toff \<le> 0x200000" "n \<le> 2048 * 32"
      and out: "\<not> (True \<longleftrightarrow> table_in_file (length f) cnt toff n)" for cnt x toff n
  proof -
    have "cnt + 0x80 \<le> length f" using r by (auto simp: file_reader_def split: if_splits)
    then have w: "u64_add cnt toff = cnt + toff" "u64_add (cnt + toff) n = cnt + toff + n"
      using n assms(6) by (intro u64_add_small; simp)+
    then show ?thesis using out by (auto simp: table_in_file_def file_reader_def)
  qed
  have "rel_option (rel_option same_text)
      (parse_cnt (file_reader f) (pe_malloc E) strstr_has_key (\<lambda>cnt e. 0 < ce_data_sz e) (\<lambda>cnt toff n. True) (take 0x200 f) D)
      (parse_cnt (file_reader f) (pe_malloc E) json_has_key (icon_in_file (length f)) (table_in_file (length f)) (take 0x200 f) D')"
    if "0x80 \<le> length f"
    using ok d that by (intro file_rd.parse_cnt_same strstr_has_key_good json_has_key_good) auto
  then show ?thesis unfolding smb local_file by simp
qed

text \<open>A small package: a CNT header, one entry of type param.sfo without a table in it.\<close>

definition tiny_pkg :: "nat \<Rightarrow> u8 list \<Rightarrow> u8 list" where
  "tiny_pkg ty data =
     CNT_MAGIC @ replicate 12 0 @ [0, 0, 0, 1] @ replicate 4 0 @ [0, 0, 0, 0x80] @ replicate 36 0 @
     chars_bytes ''UP0001-CUSA00001_00-0000000000000001'' @ replicate 28 0 @
     [0, 0, word_of_nat (ty div 256), word_of_nat ty] @ replicate 12 0 @ [0, 0, 0, 0xA0] @ [0, 0, 0, word_of_nat (length data)] @
     replicate 8 0 @ data"

end
