(* ===== verification/PkgParity.thy ===== *)
theory PkgParity
  imports PkgShare "HOL-Library.Code_Target_Nat"
begin

text \<open>
  The parser of a live prefix against the parser of files, and runs of both on small packages.
\<close>

section \<open>The same packages are accepted\<close>

lemma mem_file_agree:
  assumes "length f < 2 ^ 63"
  shows "agree (mem_reader (f @ rest) (length f)) (file_reader f)"
proof -
  have "mem_reader (f @ rest) (length f) off n = file_reader f off n" if "0 < n" for off n
    using that assms by (auto simp: mem_reader_def mem_slice_def file_reader_def bytes_at_def)
  then show ?thesis by (simp add: agree_def)
qed

lemma each_entry_keeps:
  assumes "\<And>e S T. f e S = Some T \<Longrightarrow> g T = g S"
  shows "each_entry f es S = Some T \<Longrightarrow> g T = g S"
  using assms by (induction es arbitrary: S) (auto simp: bind_eq_Some_conv)

lemma json_entry_content_id:
  "json_entry rd malloc has cnt e S = Some T \<Longrightarrow> pd_content_id (fst T) = pd_content_id (fst S)"
  by (cases S) (auto simp: json_entry_def bind_eq_Some_conv Let_def split: if_splits option.splits)

lemma sfo_entry_content_id:
  "sfo_entry_of_reader rd malloc cnt e S = Some T \<Longrightarrow> pd_content_id (fst T) = pd_content_id (fst S)"
  by (cases S) (auto simp: sfo_entry_of_reader_def bind_eq_Some_conv Let_def split: if_splits option.splits)

lemma reader_entry_content_id:
  "reader_entry rd malloc has ic cnt name e S = Some T \<Longrightarrow> pd_content_id (fst T) = pd_content_id (fst S)"
  by (auto simp: reader_entry_def set_icon_def bind_eq_Some_conv Let_def
      dest!: json_entry_content_id sfo_entry_content_id split: if_splits)

lemma mem_json_content_id:
  "mem_json js n S = Some T \<Longrightarrow> pd_content_id (fst T) = pd_content_id (fst S)"
  by (cases S) (auto simp: mem_json_def bind_eq_Some_conv)

lemma mem_sfo_content_id:
  "mem_sfo_entry mem len cnt e S = Some T \<Longrightarrow> pd_content_id (fst T) = pd_content_id (fst S)"
  by (cases S) (auto simp: mem_sfo_entry_def bind_eq_Some_conv Let_def split: option.splits)

lemma mem_entry_content_id:
  "mem_entry mem len cnt str sz e S = Some T \<Longrightarrow> pd_content_id (fst T) = pd_content_id (fst S)"
  by (auto simp: mem_entry_def mem_json_entry_def bind_eq_Some_conv Let_def
      dest!: mem_json_content_id mem_sfo_content_id split: if_splits option.splits)

lemma finish_content_id [simp]: "pd_content_id (finish_detail t F D) = pd_content_id D"
  by (simp add: finish_detail_def fallback_titles_def Let_def)

lemma parse_entries_content_id:
  assumes "parse_entries rd malloc has ic cnt ty es D = Some E"
  shows "pd_content_id E = pd_content_id D"
proof -
  obtain str T where e: "each_entry (\<lambda>e S. do { name \<leftarrow> table_name str (snd (string_table_at es)) (ce_name_off e);
      reader_entry rd malloc has ic cnt name e S }) es (D, no_flags) = Some T" and E: "E = finish_detail ty (snd T) (fst T)"
    using assms by (auto simp: parse_entries_def bind_eq_Some_conv Let_def split: prod.splits)
  have "pd_content_id (fst T) = pd_content_id (fst (D, no_flags))"
    by (rule each_entry_keeps [where g = "\<lambda>S. pd_content_id (fst S)", OF _ e])
      (auto simp: bind_eq_Some_conv dest: reader_entry_content_id)
  then show ?thesis by (simp add: E)
qed

text \<open>What the two say of a package: that it is none, or one with this content id.\<close>

definition verdict :: "pkg_detail option \<Rightarrow> string option" where
  "verdict r = map_option pd_content_id r"

definition pm_detail :: "pm_result \<Rightarrow> pkg_detail option" where
  "pm_detail r = (case r of PmFail _ \<Rightarrow> None | PmOk D \<Rightarrow> Some D)"

lemma pm_detail_simps [simp]: "pm_detail (PmFail st) = None" "pm_detail (PmOk D) = Some D"
  by (simp_all add: pm_detail_def)

text \<open>Whether the table of entries is refused or not there: the same test over the file for both.\<close>

definition no_table :: "u8 list \<Rightarrow> nat \<Rightarrow> u8 list \<Rightarrow> bool" where
  "no_table f cnt h =
     (let n = read_be32 (drop 16 h); toff = read_be32 (drop 24 h) in
      n = 0 \<or> 2048 < n \<or> 0x200000 < toff \<or> file_reader f (u64_add cnt toff) (n * 32) = Some None)"

lemma mem_table_verdict:
  assumes "length f < 2 ^ 63" and "detail_ok D" and h: "length h = 0x80"
  obtains r where "mem_table (ended f rest) (length f) cnt h D = Some r"
    and "verdict (pm_detail r) = (if no_table f cnt h then None else Some (pd_content_id D))"
proof -
  from mem_table_yields [OF assms(2) h, of f rest cnt] obtain r where r: "mem_table (ended f rest) (length f) cnt h D = Some r"
    by (auto simp: yields_iff)
  let ?n = "read_be32 (drop 16 h)" and ?t = "read_be32 (drop 24 h)"
  have rd: "0 < ?n \<Longrightarrow> mem_reader (ended f rest) (length f) (u64_add cnt ?t) (?n * 32) = file_reader f (u64_add cnt ?t) (?n * 32)"
    by (rule agreeD [OF mem_file_agree [OF assms(1)]]) simp
  obtain t where t: "file_reader f (u64_add cnt ?t) (?n * 32) = Some t" by (simp add: file_reader_def)
  have "verdict (pm_detail r) = (if no_table f cnt h then None else Some (pd_content_id D))"
  proof (cases "?n = 0 \<or> 2048 < ?n \<or> 0x200000 < ?t")
    case True
    then have "r = PmFail (Some 5)" using r unfolding mem_table_full [OF h] Let_def by (simp only: if_P) simp
    then show ?thesis using True by (auto simp: verdict_def no_table_def Let_def)
  next
    case False
    note run = r [unfolded mem_table_full [OF h] Let_def if_not_P [OF False]]
    show ?thesis
    proof (cases t)
      case None
      then have "r = PmFail (Some 6)" using run False rd t by simp
      then show ?thesis using False None t by (auto simp: verdict_def no_table_def Let_def)
    next
      case (Some x)
      then obtain es str sz T where e: "each_entry (mem_entry (ended f rest) (length f) cnt str sz) es (D, no_flags) = Some T"
        and "r = PmOk (finish_detail (read_be32 (drop 4 h)) (snd T) (fst T))"
        using run False rd t by (auto simp: bind_eq_Some_conv case_prod_unfold)
      moreover have "pd_content_id (fst T) = pd_content_id D"
        using each_entry_keeps [where g = "\<lambda>S. pd_content_id (fst S)", OF mem_entry_content_id e] by simp
      ultimately show ?thesis using False Some t by (auto simp: verdict_def no_table_def Let_def)
    qed
  qed
  with r show thesis using that by blast
qed

lemma parse_table_verdict:
  assumes "length f < 2 ^ 63" and "file_reader f cnt 0x80 = Some (Some x)" and "detail_ok D" and "good_has has" and h: "length h = 0x80"
  obtains r where "parse_table (file_reader f) (\<lambda>_. True) has ic (table_in_file (length f)) cnt h D = Some r"
    and "verdict r = (if no_table f cnt h then None else Some (content_id_of (take 48 (drop 0x40 h))))"
proof -
  note full = parse_table_full [OF h]
  from file_rd.parse_table_ok [OF assms(4,3) h]
  obtain r where r: "parse_table (file_reader f) (\<lambda>_. True) has ic (table_in_file (length f)) cnt h D = Some r"
    by (fastforce simp: yields_iff)
  let ?n = "read_be32 (drop 16 h)" and ?t = "read_be32 (drop 24 h)"
  obtain t where t: "file_reader f (u64_add cnt ?t) (?n * 32) = Some t" by (simp add: file_reader_def)
  have "verdict r = (if no_table f cnt h then None else Some (content_id_of (take 48 (drop 0x40 h))))"
  proof (cases "?n = 0 \<or> 2048 < ?n \<or> 0x200000 < ?t")
    case True
    then have "r = None" using r by (auto simp: full Let_def)
    then show ?thesis using True by (auto simp: verdict_def no_table_def Let_def)
  next
    case False
    have "cnt + 0x80 \<le> length f" using assms(2) by (auto simp: file_reader_def split: if_splits)
    then have w: "u64_add cnt ?t = cnt + ?t" "u64_add (cnt + ?t) (?n * 32) = cnt + ?t + ?n * 32"
      using False assms(1) by (intro u64_add_small; simp)+
    show ?thesis
    proof (cases t)
      case None
      then have "r = None" using r t by (auto simp: full Let_def split: if_splits)
      then show ?thesis using None t by (simp add: verdict_def no_table_def Let_def)
    next
      case (Some y)
      then have "table_in_file (length f) cnt ?t (?n * 32)" using t w by (auto simp: table_in_file_def file_reader_def split: if_splits)
      then obtain es E where e: "parse_entries (file_reader f) (\<lambda>_. True) has (ic cnt) cnt (read_be32 (drop 4 h)) es
          (D\<lparr>pd_content_id := content_id_of (take 48 (drop 0x40 h))\<rparr>) = Some E" and "r = Some E"
        using r False t Some by (auto simp: full Let_def bind_eq_Some_conv)
      then show ?thesis
        using parse_entries_content_id [OF e] False Some t by (auto simp: verdict_def no_table_def Let_def)
    qed
  qed
  with r show thesis using that by blast
qed

text \<open>The two find the CNT header at the same place and go on with it alike.\<close>

lemma cnt_parity:
  assumes len: "length f < 2 ^ 63" and ok: "detail_ok D" "detail_ok D'" and has: "good_has has"
  shows "map_option (\<lambda>r. verdict (pm_detail r)) (mem_cnt (ended f rest) (length f) cnt D) =
    map_option verdict (do { h \<leftarrow> file_reader f cnt 0x80;
      case h of None \<Rightarrow> Some None
      | Some h \<Rightarrow> (if take 4 h \<noteq> CNT_MAGIC then Some None
                   else parse_table (file_reader f) (\<lambda>_. True) has ic (table_in_file (length f)) cnt h D') })"
proof -
  note ag = agreeD [OF mem_file_agree [OF len]]
  obtain h where h: "file_reader f cnt 0x80 = Some h" by (simp add: file_reader_def)
  then have m: "mem_reader (ended f rest) (length f) cnt 0x80 = Some h" using ag [of "0x80"] by simp
  show ?thesis
  proof (cases h)
    case (Some x)
    have x: "x = take 0x80 (drop cnt f)" and c: "cnt + 0x80 \<le> length f" using h Some by (auto simp: file_reader_def split: if_splits)
    then have "u64_add cnt 0x40 = cnt + 0x40" using len by (intro u64_add_small) simp
    then have cid: "mem_reader (ended f rest) (length f) (u64_add cnt 0x40) 48 = Some (Some (take 48 (drop (cnt + 0x40) f)))"
      using c len ag [of 48 "0 # rest" "cnt + 0x40"] by (simp add: file_reader_def)
    have l: "length x = 0x80" using x c by simp
    have same: "take 48 (drop (cnt + 0x40) f) = take 48 (drop 0x40 x)" by (simp add: x take_drop min_def add.commute)
    let ?c = "content_id_of (take 48 (drop 0x40 x))"
    have ok': "detail_ok (D\<lparr>pd_content_id := ?c\<rparr>)"
      using ok(1) content_id_fits by (simp add: detail_ok_def)
    obtain r where r: "mem_table (ended f rest) (length f) cnt x (D\<lparr>pd_content_id := ?c\<rparr>) = Some r"
      "verdict (pm_detail r) = (if no_table f cnt x then None else Some (pd_content_id (D\<lparr>pd_content_id := ?c\<rparr>)))"
      by (rule mem_table_verdict [OF len ok' l])
    obtain r' where r': "parse_table (file_reader f) (\<lambda>_. True) has ic (table_in_file (length f)) cnt x D' = Some r'"
      "verdict r' = (if no_table f cnt x then None else Some ?c)"
      by (rule parse_table_verdict [OF len h [unfolded Some] ok(2) has l])
    show ?thesis using r r' by (simp add: mem_cnt_def m h Some cid same verdict_def)
  qed (simp add: mem_cnt_def m h verdict_def)
qed

lemma field_take: "off + n \<le> m \<Longrightarrow> field (take m f) off n = field f off n"
  by (simp add: field_def drop_take min_def)

lemma header_of_take: "header_of (take 4096 f) = header_of f"
  by (simp only: header_of_def field_take arith_simps rel_simps simp_thms add_0 order.refl zero_le_numeral)

text \<open>
  C23: for the same bytes, all of them in memory, the parser of the live prefix accepts exactly
  the packages that the parser of files accepts (when every malloc succeeds), and reads the
  same content id.
\<close>
theorem live_prefix_accepts_same:
  assumes "pe_files E path = Some f" and "\<not> starts_with ''smb://'' path" and "pe_malloc E = (\<lambda>_. True)"
    and "length f < 2 ^ 63"
  shows "map_option (\<lambda>r. verdict (pm_detail r)) (pkg_parser_parse_mem (f @ 0 # rest) (length f) (length f) name) =
    map_option verdict (pkg_parser_parse E path)"
proof -
  let ?rd = "mem_reader (f @ 0 # rest) (length f)" and ?m = "mem_detail name (length f)"
  define D where "D = no_detail\<lparr>pd_path := c_trunc PKG_PATH_LEN path, pd_filename := c_trunc 256 (base_name path),
    pd_file_size := length f, pd_total_pkg_size := length f, pd_mtime := pe_mtime E path\<rparr>"
  have D: "detail_ok D" "pd_file_size D = length f" unfolding D_def by (rule start_ok) (simp add: no_detail_def)
  note ag = mem_file_agree [OF assms(4)]
  have parse: "pkg_parser_parse E path = parse_file (\<lambda>_. True) f D"
    using assms(1-3) by (simp add: pkg_parser_parse_def flip: D_def)
  show ?thesis
  proof (cases "length f < 0x80")
    case True
    then have "?rd 0 0x80 = Some None" by (simp add: mem_reader_def mem_slice_def)
    then show ?thesis using True by (simp add: parse parse_file_def pkg_parser_parse_mem_def verdict_def)
  next
    case False
    then have "f \<noteq> []" by auto
    then have h: "?rd 0 0x80 = Some (Some (take 0x80 f))" and w: "?rd 0 (min (length f) 0x200) = Some (Some (take 0x200 f))"
      using False agreeD [OF ag, of "0x80" "0 # rest" 0] agreeD [OF ag, of "min (length f) 0x200" "0 # rest" 0]
      by (simp_all add: file_reader_def min_def)
    have t8: "take 8 (take 0x80 f) = take 8 f" "take 8 (take 0x200 f) = take 8 f" by (simp_all add: min_def)
    show ?thesis
    proof (cases "take 8 f = MULTIPART_MAGIC")
      case True
      have b: "?rd 0 4096 = Some (if 4096 \<le> length f then Some (take 4096 f) else None)"
        using agreeD [OF ag, of 4096 "0 # rest" 0] by (simp add: file_reader_def)
      have "take 4 f = take 4 (take 8 f)" by (simp add: min_def)
      then have "take 4 (take 0x200 f) = take 4 MULTIPART_MAGIC" using True by (simp add: min_def)
      then have no: "find_cnt rd ok (take 0x200 f) = Some None" for rd ok
        by (simp add: find_cnt_def MULTIPART_MAGIC_def CNT_MAGIC_def FIH_MAGIC_def chars_bytes_def)
      have cid: "pd_content_id ?m = []" "pd_content_id D = []"
        by (simp_all add: mem_detail_def D_def no_detail_def Let_def)
      show ?thesis
        using False True h w t8 no cid \<open>f \<noteq> []\<close>
        by (simp add: parse parse_file_def parse_cnt_def pkg_parser_parse_mem_def mem_multipart_def b MULTIPART_HEADER_SIZE_def
            header_of_take verdict_def multipart_detail_def multipart_icon_def Let_def)
    next
      case multi: False
      have plaus: "(\<lambda>x. length f = 0 \<or> x < length f) = (\<lambda>x. x < length f)" using \<open>f \<noteq> []\<close> by simp
      have "0x60 \<le> length (take 0x200 f)" using False by simp
      then obtain c where c: "find_cnt (file_reader f) (\<lambda>x. x < length f) (take 0x200 f) = Some c"
        using file_rd.find_cnt_total [of "take 0x200 f" f "\<lambda>x. x < length f"] by (auto simp: yields_iff)
      have mem: "pkg_parser_parse_mem (f @ 0 # rest) (length f) (length f) name =
          (case c of None \<Rightarrow> Some (PmFail (Some 2)) | Some cnt \<Rightarrow> mem_cnt (f @ 0 # rest) (length f) cnt ?m)"
        using multi \<open>f \<noteq> []\<close> unfolding pkg_parser_parse_mem_def Let_def
        by (simp only: h w Option.bind.simps option.case t8 if_False plaus find_cnt_agree [OF ag] c length_0_conv simp_thms)
      have fil: "parse_file (\<lambda>_. True) f D = (case c of None \<Rightarrow> Some None
          | Some cnt \<Rightarrow> do { h \<leftarrow> file_reader f cnt 0x80;
              case h of None \<Rightarrow> Some None
              | Some h \<Rightarrow> (if take 4 h \<noteq> CNT_MAGIC then Some None
                           else parse_table (file_reader f) (\<lambda>_. True) json_has_key (icon_in_file (length f)) (table_in_file (length f)) cnt h D) })"
        using multi False c unfolding parse_file_def parse_cnt_def D(2) by (simp only: if_False simp_thms Option.bind.simps)
      show ?thesis
        unfolding mem parse fil using cnt_parity [OF assms(4) mem_detail_ok D(1) json_has_key_good]
        by (cases c) (simp_all add: verdict_def)
    qed
  qed
qed

section \<open>Running the parsers\<close>

text \<open>The loops over a pointer and a count, for evaluation with binary numbers.\<close>

lemma skip_m_code [code]:
  "skip_m P xs n = (if n = 0 then Some (xs, 0) else case xs of [] \<Rightarrow> None
     | c # ys \<Rightarrow> if P c then skip_m P ys (n - 1) else Some (c # ys, n))"
  by (cases n; cases xs) simp_all

lemma json_chars_code [code]:
  "json_chars xs n = (if n = 0 then Some ([], xs, 0) else case xs of [] \<Rightarrow> None
     | c # ys \<Rightarrow> (if c = QUOTE then Some ([], c # ys, n)
        else if c = BSLASH \<and> 1 < n
        then (case ys of [] \<Rightarrow> None | d # zs \<Rightarrow> map_option (\<lambda>(v, r). (d # v, r)) (json_chars zs (n - 2)))
        else map_option (\<lambda>(v, r). (c # v, r)) (json_chars ys (n - 1))))"
  by (cases n; cases xs) (simp_all add: numeral_2_eq_2 split: list.split)

lemma close_brace_code [code]:
  "close_brace xs n depth in_str = (if n = 0 then Some None else case xs of [] \<Rightarrow> None
     | c # ys \<Rightarrow> (if c = BSLASH \<and> in_str \<and> 1 < n then close_brace (tl ys) (n - 2) depth in_str
        else if c = QUOTE then close_brace ys (n - 1) depth (\<not> in_str)
        else if \<not> in_str \<and> c = CHR ''{'' then close_brace ys (n - 1) (depth + 1) in_str
        else if \<not> in_str \<and> c = CHR ''}''
        then (if depth - 1 = 0 then Some (Some (c # ys, n)) else close_brace ys (n - 1) (depth - 1) in_str)
        else close_brace ys (n - 1) depth in_str))"
  by (cases n; cases xs) (simp_all add: numeral_2_eq_2)

text \<open>A machine on which one file holds a package and a share serves the same bytes.\<close>

definition demo_env :: "u8 list \<Rightarrow> parse_env" where
  "demo_env f = \<lparr>pe_files = (\<lambda>p. if p = ''/data/a.pkg'' then Some f else None), pe_mtime = (\<lambda>_. 0), pe_malloc = (\<lambda>_. True),
     pe_smb = (\<lambda>u. if u = ''smb://nas/a.pkg'' then Some (length f, 0, \<lambda>off n. take n (drop off f)) else None)\<rparr>"

lemma share_parses_like_file_witness:
  "rel_option (rel_option same_text) (pkg_parser_parse (demo_env (tiny_pkg 0x2000 [])) ''smb://nas/a.pkg'')
     (pkg_parser_parse (demo_env (tiny_pkg 0x2000 [])) ''/data/a.pkg'')"
proof (rule share_parses_like_file [where f = "tiny_pkg 0x2000 []" and mt = 0 and rd = "\<lambda>off n. take n (drop off (tiny_pkg 0x2000 []))"])
  show "starts_with ''smb://'' ''smb://nas/a.pkg''" "\<not> starts_with ''smb://'' ''/data/a.pkg''"
    by (simp_all add: starts_with_def)
  show "take 8 (tiny_pkg 0x2000 []) \<noteq> MULTIPART_MAGIC" by code_simp
  show "length (tiny_pkg 0x2000 []) < 2 ^ 63" by (simp add: tiny_pkg_def CNT_MAGIC_def chars_bytes_def)
qed (simp_all add: demo_env_def serves_def)

lemma live_prefix_accepts_same_witness:
  "map_option (\<lambda>r. verdict (pm_detail r))
      (pkg_parser_parse_mem (tiny_pkg 0x2000 [] @ 0 # []) (length (tiny_pkg 0x2000 [])) (length (tiny_pkg 0x2000 [])) ''live:a'') =
    map_option verdict (pkg_parser_parse (demo_env (tiny_pkg 0x2000 [])) ''/data/a.pkg'')"
proof (rule live_prefix_accepts_same)
  show "\<not> starts_with ''smb://'' ''/data/a.pkg''" by (simp add: starts_with_def)
  show "length (tiny_pkg 0x2000 []) < 2 ^ 63" by (simp add: tiny_pkg_def CNT_MAGIC_def chars_bytes_def)
qed (simp_all add: demo_env_def)

section \<open>A prefix without a NUL behind it\<close>

text \<open>Text that ends with its block, has no NUL and does not hold the quoted key.\<close>

definition unended_without :: "string \<Rightarrow> string \<Rightarrow> bool" where
  "unended_without key js = (NUL \<notin> set js \<and> (\<forall>k. \<not> starts_with (json_pattern key) (drop k js)))"

lemma strstr_m_runs_out: "NUL \<notin> set js \<Longrightarrow> (\<And>k. \<not> starts_with pat (drop k js)) \<Longrightarrow> strstr_m pat js = None"
proof (induction js)
  case (Cons c js)
  have "\<not> starts_with pat (drop k js)" for k using Cons.prems(2) [of "Suc k"] by simp
  then show ?case using Cons.IH Cons.prems(1) Cons.prems(2) [of 0] by auto
qed simp

lemma json_extract_key_runs_out: "unended_without key js \<Longrightarrow> 0 < n \<Longrightarrow> json_extract_key js n key m = None"
  by (simp add: json_extract_key.simps [of js n] unended_without_def strstr_m_runs_out)

text \<open>The keys every param.json is searched for first.\<close>

definition searched_keys :: "string list" where
  "searched_keys = [''titleId'', ''titleName'', ''category'', ''contentVersion'']"

lemma mem_json_runs_out:
  assumes "unended_without key js" and "key \<in> set searched_keys" and "0 < n"
  shows "mem_json js n S = None"
proof -
  note k = json_extract_key_runs_out [OF assms(1,3)]
  consider "key = ''titleId''" | "key = ''titleName''" | "key = ''category''" | "key = ''contentVersion''"
    using assms(2) by (auto simp: searched_keys_def)
  then show ?thesis
    using k by cases (auto simp: mem_json_def json_version_def bind_eq_None_conv split: prod.split)
qed

lemma each_entry_None: "e \<in> set es \<Longrightarrow> (\<And>S. f e S = None) \<Longrightarrow> each_entry f es S = None"
proof (induction es arbitrary: S)
  case (Cons x es)
  then show ?case by (cases "x = e"; cases "f x S") auto
qed simp

lemma mem_reader_inside:
  "0 < n \<Longrightarrow> off + n \<le> length mem \<Longrightarrow> mem_reader mem (length mem) off n = Some (Some (take n (drop off mem)))"
  by (simp add: mem_reader_def mem_slice_def bytes_at_def)

text \<open>
  C24: without a NUL behind the prefix the parser of the live prefix leaves its buffer. For every
  package in memory whose header and table of entries are there, if the data of an entry of type
  param.json end the memory, hold no NUL and lack one of the four keys that are always looked
  for, the search for that key runs past the end of the memory, whatever the other entries, the
  name and the announced size are. The installer allocates exactly the prefix and calls it so.
\<close>
theorem live_prefix_overrun:
  assumes len: "0x80 \<le> length mem" "length mem < 2 ^ 63" "take 8 mem \<noteq> MULTIPART_MAGIC"
    and cnt: "find_cnt (mem_reader mem (length mem)) (\<lambda>x. total_size = 0 \<or> x < total_size) (take 0x200 mem) = Some (Some cnt)"
    and hdr: "cnt + 0x80 \<le> length mem" "take 4 (drop cnt mem) = CNT_MAGIC"
    and n: "be32_at mem (cnt + 0x10) = Some n" "0 < n" "n \<le> 2048"
    and toff: "be32_at mem (cnt + 0x18) = Some toff" "toff \<le> 0x200000" "cnt + toff + n * 32 \<le> length mem"
    and e: "entries_of (take (n * 32) (drop (cnt + toff) mem)) n = Some es" "e \<in> set es" "ce_type e = 0x2000"
      "0 < ce_data_sz e" "ce_data_sz e < 262144" "cnt + ce_data_off e + ce_data_sz e = length mem"
    and key: "key \<in> set searched_keys" "unended_without key (chars_of (drop (cnt + ce_data_off e) mem))"
  shows "pkg_parser_parse_mem mem (length mem) total_size filename = None"
proof -
  let ?h = "take 0x80 (drop cnt mem)" and ?rd = "mem_reader mem (length mem)"
  have h: "?rd cnt 0x80 = Some (Some ?h)" "length ?h = 0x80" using hdr(1) by (simp_all add: mem_reader_inside)
  have be: "read_be32 (drop i ?h) = v" if "be32_at mem (cnt + i) = Some v" "i + 4 \<le> 0x80" for i v
  proof -
    have "read_be32 (drop i ?h) = read_be32 (drop (cnt + i) mem)"
      using that(2) hdr(1) by (simp add: read_be32_def add.assoc)
    then show ?thesis using that hdr(1) by (simp add: be32_at_Some)
  qed
  have nt: "read_be32 (drop 16 ?h) = n" "read_be32 (drop 24 ?h) = toff" using be [of 16 n] be [of 24 toff] n(1) toff(1) by simp_all
  have w: "u64_add cnt toff = cnt + toff" "u64_add cnt (ce_data_off e) = cnt + ce_data_off e" "u64_add cnt 0x40 = cnt + 0x40"
    using toff(3) e(6) len(2) hdr(1) by (intro u64_add_small; simp)+
  have t: "?rd (u64_add cnt toff) (n * 32) = Some (Some (take (n * 32) (drop (cnt + toff) mem)))"
    unfolding w using n(2) toff(3) by (intro mem_reader_inside) simp_all
  have bad: "mem_entry mem (length mem) cnt str sz e S = None" for str sz S
  proof -
    have "mem_slice (length mem) (u64_add cnt (ce_data_off e)) (ce_data_sz e) = Some (cnt + ce_data_off e)"
      unfolding w using e(4,6) by (simp add: mem_slice_def)
    then have "mem_json_entry mem (length mem) cnt e T = None" for T
      using mem_json_runs_out [OF key(2,1) e(4)] by (simp add: mem_json_entry_def)
    moreover have "is_json_entry e name" for name using e(3-5) by (simp add: is_json_entry_def)
    ultimately show ?thesis by (simp add: mem_entry_def Let_def bind_eq_None_conv)
  qed
  have "mem_table mem (length mem) cnt ?h D = None" for D
    unfolding mem_table_full [OF h(2)] Let_def nt t
    using n(2,3) toff(2) e(1) each_entry_None [OF e(2), of "mem_entry mem (length mem) cnt str sz" for str sz] bad
    by (simp add: case_prod_unfold)
  moreover have "?rd (u64_add cnt 0x40) 48 = Some (Some (take 48 (drop (cnt + 0x40) mem)))"
    unfolding w using hdr(1) by (intro mem_reader_inside) simp_all
  ultimately have c: "mem_cnt mem (length mem) cnt D = None" for D
    using h(1) hdr by (simp add: mem_cnt_def)
  have "mem \<noteq> []" using len(1) by auto
  moreover have "?rd 0 0x80 = Some (Some (take 0x80 mem))" using len(1) by (simp add: mem_reader_inside)
  moreover have "?rd 0 (min (length mem) 0x200) = Some (Some (take 0x200 mem))"
    using mem_reader_inside [of "min (length mem) 0x200" 0 mem] \<open>mem \<noteq> []\<close> by (simp add: min_def)
  moreover have "take 8 (take 0x80 mem) = take 8 mem" by (simp add: min_def)
  ultimately show ?thesis
    unfolding pkg_parser_parse_mem_def Let_def using len(3) cnt c by simp
qed

text \<open>A package of 162 bytes whose param.json is an empty object.\<close>

lemma live_prefix_overrun_witness:
  "pkg_parser_parse_mem (tiny_pkg 0x2000 (chars_bytes ''{}'')) (length (tiny_pkg 0x2000 (chars_bytes ''{}''))) 162 ''live:a'' = None"
proof (rule live_prefix_overrun [where n = 1 and toff = 128 and cnt = 0 and key = "''titleId''"
    and e = "\<lparr>ce_type = 0x2000, ce_name_off = 0, ce_data_off = 0xA0, ce_data_sz = 2\<rparr>"])
  let ?m = "tiny_pkg 0x2000 (chars_bytes ''{}'')"
  have l: "length ?m = 162" by code_simp
  show "0x80 \<le> length ?m" "length ?m < 2 ^ 63" unfolding l by simp_all
  show "take 8 ?m \<noteq> MULTIPART_MAGIC" "take 4 (drop 0 ?m) = CNT_MAGIC" by code_simp+
  have "take 4 (take 0x200 ?m) = CNT_MAGIC" by code_simp
  then show "find_cnt (mem_reader ?m (length ?m)) (\<lambda>x. 162 = 0 \<or> x < 162) (take 0x200 ?m) = Some (Some 0)"
    by (simp add: find_cnt_def)
  show "be32_at ?m (0 + 0x10) = Some 1" "be32_at ?m (0 + 0x18) = Some 128" by code_simp+
  show "entries_of (take (1 * 32) (drop (0 + 128) ?m)) 1 =
      Some [\<lparr>ce_type = 0x2000, ce_name_off = 0, ce_data_off = 0xA0, ce_data_sz = 2\<rparr>]" by code_simp
  have d: "chars_of (drop 0xA0 ?m) = ''{}''" by code_simp
  have "\<not> starts_with (json_pattern ''titleId'') (drop k ''{}'')" for k
    by (cases k; cases "k - 1"; cases "k - 2") (simp_all add: starts_with_def json_pattern_def c_trunc_def QUOTE_def)
  then show "unended_without ''titleId'' (chars_of (drop (0 + ce_data_off
      \<lparr>ce_type = 0x2000, ce_name_off = 0, ce_data_off = 0xA0, ce_data_sz = 2\<rparr>) ?m))"
    by (simp add: d unended_without_def NUL_def)
  show "''titleId'' \<in> set searched_keys" by (simp add: searched_keys_def)
  show "0 + 0x80 \<le> length ?m" "0 + 128 + 1 * 32 \<le> length ?m" unfolding l by simp_all
  show "0 + ce_data_off \<lparr>ce_type = 0x2000, ce_name_off = 0, ce_data_off = 0xA0, ce_data_sz = 2\<rparr> +
      ce_data_sz \<lparr>ce_type = 0x2000, ce_name_off = 0, ce_data_off = 0xA0, ce_data_sz = 2\<rparr> = length ?m" unfolding l by simp
qed simp_all

text \<open>param.json of a game in two languages, the default one last.\<close>

definition demo_json :: string where
  "demo_json = map (\<lambda>c. if c = CHR 0x60 then QUOTE else c)
     ''{`localizedParameters`:{`defaultLanguage`:`de-DE`,`en-US`:{`titleName`:`Game`},`de-DE`:{`titleName`:`Spiel`}}}''"

text \<open>
  the parser of the live prefix is documented to find the same fields as the parser of files,
  but takes the first titleName it meets: for a game in two languages it reports another title
  than the default language's, and no localised titles.
\<close>
theorem live_prefix_title_differs:
  "map_option (\<lambda>M. (m_title M, m_lang M))
     (pkg_parser_parse_param_json (demo_json @ [NUL]) (length demo_json) detail_sizes no_meta) = Some (''Spiel'', ''de-DE'') \<and>
   map_option (\<lambda>S. (m_title (pd_meta (fst S)), m_localized (pd_meta (fst S))))
     (mem_json (demo_json @ [NUL]) (length demo_json) (no_detail, no_flags)) = Some (''Game'', [])"
proof (rule conjI)
  show "map_option (\<lambda>M. (m_title M, m_lang M))
     (pkg_parser_parse_param_json (demo_json @ [NUL]) (length demo_json) detail_sizes no_meta) = Some (''Spiel'', ''de-DE'')"
    by code_simp
  show "map_option (\<lambda>S. (m_title (pd_meta (fst S)), m_localized (pd_meta (fst S))))
     (mem_json (demo_json @ [NUL]) (length demo_json) (no_detail, no_flags)) = Some (''Game'', [])"
    by code_simp
qed

end
