(* ===== verification/PkgIcon.thy ===== *)
theory PkgIcon
  imports PkgParity
begin

text \<open>
  The icon of a package: pkg_parser_get_icon (src/src/pkg_parser.c) and smb_client_get_icon
  (src/src/smb_client.c), which fetch the bytes at the place a parser found, and the proof that
  the parser of files only reports places where the whole icon can be fetched.
\<close>

definition MAX_ICON :: nat where "MAX_ICON = 10 * 1024 * 1024"

text \<open>smb_client_pread: a session of its own for one read; None is a session that does not open.\<close>

definition smb_client_pread :: "parse_env \<Rightarrow> string \<Rightarrow> nat \<Rightarrow> nat \<Rightarrow> u8 list option" where
  "smb_client_pread E url n off = map_option (\<lambda>(sz, mt, rd). rd off n) (pe_smb E url)"

text \<open>A buffer that is handed out only when it was filled.\<close>

definition smb_fetch :: "parse_env \<Rightarrow> string \<Rightarrow> nat \<Rightarrow> nat \<Rightarrow> u8 list option" where
  "smb_fetch E url n off =
     (if \<not> pe_malloc E n then None
      else case smb_client_pread E url n off of None \<Rightarrow> None
      | Some bs \<Rightarrow> (if length bs = n then Some bs else None))"

definition smb_client_get_icon :: "parse_env \<Rightarrow> string \<Rightarrow> u8 list option option" where
  "smb_client_get_icon E url =
     do { r \<leftarrow> smb_client_parse_pkg E url;
          Some (case r of None \<Rightarrow> None
                | Some D \<Rightarrow> (if pd_has_icon D \<and> 0 < pd_icon_size D
                             then smb_fetch E url (pd_icon_size D) (pd_icon_offset D) else None)) }"

text \<open>The inner None is -1. fstat is taken to succeed on an open file.\<close>

definition pkg_parser_get_icon :: "parse_env \<Rightarrow> string \<Rightarrow> nat \<Rightarrow> nat \<Rightarrow> u8 list option option" where
  "pkg_parser_get_icon E path off n =
     (if starts_with ''smb://'' path
      then (if 0 < off \<and> 0 < n \<and> n < MAX_ICON
            then (if \<not> pe_malloc E n then Some None
                  else case smb_client_pread E path n off of
                    None \<Rightarrow> smb_client_get_icon E path
                  | Some bs \<Rightarrow> (if length bs = n then Some (Some bs) else smb_client_get_icon E path))
            else smb_client_get_icon E path)
      else if off = 0 \<or> n = 0 \<or> MAX_ICON \<le> n then Some None
      else case pe_files E path of None \<Rightarrow> Some None
      | Some f \<Rightarrow> (if length f = 0 \<or> length f \<le> off \<or> length f - off < n \<or> \<not> pe_malloc E n then Some None
                   else file_reader f off n))"

section \<open>The places the parser of files reports\<close>

definition icon_place :: "pkg_detail \<Rightarrow> nat \<times> nat \<times> bool" where
  "icon_place D = (pd_icon_offset D, pd_icon_size D, pd_has_icon D)"

definition icon_inside :: "u8 list \<Rightarrow> pkg_detail \<Rightarrow> bool" where
  "icon_inside f D =
     (pd_has_icon D \<longrightarrow> 0 < pd_icon_size D \<and> pd_icon_size D < MAX_ICON \<and> pd_icon_offset D + pd_icon_size D \<le> length f)"

lemma icon_inside_cong: "icon_place D = icon_place D' \<Longrightarrow> icon_inside f D = icon_inside f D'"
  by (simp add: icon_place_def icon_inside_def)

lemma json_entry_icon: "json_entry rd malloc has cnt e S = Some T \<Longrightarrow> icon_place (fst T) = icon_place (fst S)"
  by (cases S) (auto simp: json_entry_def icon_place_def bind_eq_Some_conv Let_def split: if_splits option.splits)

lemma sfo_entry_icon: "sfo_entry_of_reader rd malloc cnt e S = Some T \<Longrightarrow> icon_place (fst T) = icon_place (fst S)"
  by (cases S) (auto simp: sfo_entry_of_reader_def icon_place_def bind_eq_Some_conv Let_def split: if_splits option.splits)

lemma finish_icon: "icon_place (finish_detail t F D) = icon_place D"
  by (simp add: finish_detail_def fallback_titles_def icon_place_def Let_def)

lemma set_icon_inside:
  assumes "icon_in_file (length f) cnt e" and "0 < length f" and "length f < 2 ^ 63" and "cnt < 2 ^ 63"
    and "ce_data_off e < 2 ^ 32"
  shows "icon_inside f (set_icon cnt e D)"
proof -
  have w: "u64_add cnt (ce_data_off e) = cnt + ce_data_off e" using assms(4,5) by (simp add: u64_add_def)
  have "u64_add (cnt + ce_data_off e) (ce_data_sz e) = cnt + ce_data_off e + ce_data_sz e"
    using assms(1,4,5) by (simp add: u64_add_def icon_in_file_def)
  then show ?thesis
    using assms(1,2) w by (simp add: icon_inside_def set_icon_def icon_in_file_def MAX_ICON_def)
qed

lemma reader_entry_icon:
  assumes "reader_entry rd malloc has (icon_in_file (length f) cnt) cnt name e S = Some T"
    and "0 < length f" and "length f < 2 ^ 63" and "cnt < 2 ^ 63" and "ce_data_off e < 2 ^ 32"
    and "icon_inside f (fst S)"
  shows "icon_inside f (fst T)"
proof -
  obtain A B where A: "(if is_json_entry e name then json_entry rd malloc has cnt e (fst S, patch_flags (ce_type e) name (snd S))
        else Some (fst S, patch_flags (ce_type e) name (snd S))) = Some A"
    and B: "(if is_sfo_entry e name then sfo_entry_of_reader rd malloc cnt e A else Some A) = Some B"
    and T: "T = (if is_icon_entry e name \<and> icon_in_file (length f) cnt e then (set_icon cnt e (fst B), snd B) else B)"
    using assms(1) by (auto simp: reader_entry_def Let_def bind_eq_Some_conv)
  have "icon_place (fst A) = icon_place (fst S)" using A by (auto dest: json_entry_icon split: if_splits)
  moreover have "icon_place (fst B) = icon_place (fst A)" using B by (auto dest: sfo_entry_icon split: if_splits)
  ultimately have "icon_inside f (fst B)" using icon_inside_cong [of "fst B" "fst S"] assms(6) by simp
  then show ?thesis using T set_icon_inside [OF _ assms(2-5)] by auto
qed

lemma each_entry_inv:
  assumes "\<And>e S T. e \<in> set es \<Longrightarrow> f e S = Some T \<Longrightarrow> P S \<Longrightarrow> P T"
  shows "each_entry f es S = Some T \<Longrightarrow> P S \<Longrightarrow> P T"
  using assms
proof (induction es arbitrary: S)
  case (Cons e es)
  then obtain S' where "f e S = Some S'" "each_entry f es S' = Some T" by (auto simp: bind_eq_Some_conv)
  with Cons show ?case by (metis list.set_intros)
qed simp

lemma read_be32_less: "read_be32 p < 2 ^ 32"
  unfolding read_be32_def by (rule order_less_le_trans [OF unsigned_less]) simp

lemma entries_of_off: "entries_of t n = Some es \<Longrightarrow> e \<in> set es \<Longrightarrow> ce_data_off e < 2 ^ 32"
proof -
  assume "entries_of t n = Some es" "e \<in> set es"
  then have "Some e \<in> set (map (entry_of t) [0..<n])" unfolding entries_of_def by (rule those_in)
  then obtain i where "entry_of t i = Some e" by auto
  then show "ce_data_off e < 2 ^ 32"
    using read_be32_less by (auto simp: entry_of_def be32_at_def bind_eq_Some_conv)
qed

lemma find_cnt_plausible:
  assumes "find_cnt rd (\<lambda>x. x < m) hdr = Some (Some c)"
  shows "c = 0 \<or> c < m"
proof -
  have scan: "scan_cnt rd (\<lambda>x. x < m) hdr offs = Some (Some c) \<Longrightarrow> c < m" for offs
    by (induction offs) (auto simp: bind_eq_Some_conv split: if_splits)
  show ?thesis
    using assms scan by (auto simp: find_cnt_def Let_def bind_eq_Some_conv split: if_splits)
qed

lemma parse_table_icon:
  assumes "parse_table rd malloc has (icon_in_file (length f)) fits' cnt h D = Some (Some E)"
    and "0 < length f" and "length f < 2 ^ 63" and "cnt < 2 ^ 63" and "\<not> pd_has_icon D"
  shows "icon_inside f E"
proof -
  obtain t n es ty D0 where es: "entries_of t n = Some es"
    and e: "parse_entries rd malloc has (icon_in_file (length f) cnt) cnt ty es D0 = Some E" and D0: "\<not> pd_has_icon D0"
    using assms(1,5) by (fastforce simp: parse_table_def bind_eq_Some_conv split: if_splits option.splits)
  obtain str T where r: "each_entry (\<lambda>e S. do { name \<leftarrow> table_name str (snd (string_table_at es)) (ce_name_off e);
        reader_entry rd malloc has (icon_in_file (length f) cnt) cnt name e S }) es (D0, no_flags) = Some T"
    and E: "E = finish_detail ty (snd T) (fst T)"
    using e by (auto simp: parse_entries_def bind_eq_Some_conv Let_def split: prod.splits)
  have "icon_inside f (fst T)"
  proof (rule each_entry_inv [where P = "\<lambda>S. icon_inside f (fst S)", OF _ r])
    show "icon_inside f (fst (D0, no_flags))" using D0 by (simp add: icon_inside_def)
  qed (auto simp: bind_eq_Some_conv intro: reader_entry_icon [OF _ assms(2-4) entries_of_off [OF es]])
  then show ?thesis using icon_inside_cong [OF finish_icon] by (simp add: E)
qed

lemma parse_cnt_icon:
  assumes "parse_cnt rd malloc has (icon_in_file (length f)) fits' hdr D = Some (Some E)"
    and "pd_file_size D = length f" and "0 < length f" and "length f < 2 ^ 63" and "\<not> pd_has_icon D"
  shows "icon_inside f E"
proof -
  obtain cnt h where "find_cnt rd (\<lambda>x. x < length f) hdr = Some (Some cnt)"
    and t: "parse_table rd malloc has (icon_in_file (length f)) fits' cnt h D = Some (Some E)"
    using assms(1,2) by (auto simp: parse_cnt_def bind_eq_Some_conv split: option.splits if_splits)
  then have "cnt < 2 ^ 63" using find_cnt_plausible assms(3,4) by fastforce
  then show ?thesis using parse_table_icon [OF t assms(3,4) _ assms(5)] by blast
qed

text \<open>
  what the parser of files says of an icon can be acted upon: for a package that is no part
  of a multi-part archive, pkg_parser_get_icon at the reported offset (0, where only the header
  is, apart) and size hands out exactly those bytes of the file, all of them inside it.
\<close>
theorem reported_icon_fetched:
  assumes "\<not> starts_with ''smb://'' path" and "pe_files E path = Some f" and "length f < 2 ^ 63"
    and "pkg_parser_parse E path = Some (Some D)" and "take 8 f \<noteq> MULTIPART_MAGIC"
    and "pd_has_icon D" and "0 < pd_icon_offset D" and "pe_malloc E (pd_icon_size D)"
  shows "pkg_parser_get_icon E path (pd_icon_offset D) (pd_icon_size D) =
      Some (Some (take (pd_icon_size D) (drop (pd_icon_offset D) f))) \<and>
    pd_icon_offset D + pd_icon_size D \<le> length f"
proof -
  define D0 where "D0 = no_detail\<lparr>pd_path := c_trunc PKG_PATH_LEN path, pd_filename := c_trunc 256 (base_name path),
    pd_file_size := length f, pd_total_pkg_size := length f, pd_mtime := pe_mtime E path\<rparr>"
  have D0: "pd_file_size D0 = length f" "\<not> pd_has_icon D0" by (simp_all add: D0_def no_detail_def)
  have p: "parse_file (pe_malloc E) f D0 = Some (Some D)"
    using assms(1,2,4) by (simp add: pkg_parser_parse_def flip: D0_def)
  then have c: "parse_cnt (file_reader f) (pe_malloc E) json_has_key (icon_in_file (length f)) (table_in_file (length f))
      (take 0x200 f) D0 = Some (Some D)" and "0 < length f"
    using assms(5) D0(1) by (auto simp: parse_file_def split: if_splits)
  then have "icon_inside f D" by (rule parse_cnt_icon [OF _ D0(1) _ assms(3) D0(2)])
  then have i: "0 < pd_icon_size D" "pd_icon_size D < MAX_ICON" "pd_icon_offset D + pd_icon_size D \<le> length f"
    using assms(6) by (simp_all add: icon_inside_def)
  then show ?thesis
    using assms(1,2,3,7,8) \<open>0 < length f\<close> by (auto simp: pkg_parser_get_icon_def file_reader_def)
qed

lemma reported_icon_fetched_witness:
  "pkg_parser_get_icon (demo_env (tiny_pkg 0x1200 [7, 9])) ''/data/a.pkg'' 0xA0 2 = Some (Some [7, 9])"
proof -
  let ?f = "tiny_pkg 0x1200 [7, 9]"
  let ?E = "demo_env ?f"
  have "map_option (map_option icon_place) (pkg_parser_parse ?E ''/data/a.pkg'') = Some (Some (0xA0, 2, True))" by code_simp
  then obtain D where D: "pkg_parser_parse ?E ''/data/a.pkg'' = Some (Some D)" "icon_place D = (0xA0, 2, True)" by auto
  have "\<not> starts_with ''smb://'' ''/data/a.pkg''" by (simp add: starts_with_def)
  moreover have "pe_files ?E ''/data/a.pkg'' = Some ?f" "pe_malloc ?E (pd_icon_size D)" by (simp_all add: demo_env_def)
  moreover have "length ?f < 2 ^ 63" by (simp add: tiny_pkg_def CNT_MAGIC_def chars_bytes_def)
  moreover have "take 8 ?f \<noteq> MULTIPART_MAGIC" "take 2 (drop 0xA0 ?f) = [7, 9]" by code_simp+
  ultimately show ?thesis
    using reported_icon_fetched [of "''/data/a.pkg''" ?E ?f D] D by (simp add: icon_place_def)
qed

end
