(* ===== verification/SmbRead.thy ===== *)
theory SmbRead
  imports ByteSource "HOL-Library.Monad_Syntax"
begin

text \<open>
  smb_file_session_read of src/src/smb_client.c: up to eight reads of one file are in flight at
  once; their callbacks fill a ring of slots in any order, and the slots are taken from the ring
  in the order of their offsets. libsmb2 and poll are parameters (record smb2): what they answer
  when the call asks them, as functions of the state of the call.
\<close>

section \<open>The state of one call\<close>

definition SMB_PIPELINE_DEPTH :: nat where "SMB_PIPELINE_DEPTH = 8"
definition SMB_PIPELINE_CHUNK :: nat where "SMB_PIPELINE_CHUNK = 512 * 1024"

text \<open>A slot with what the request says: smb_slot_cb_t, slot_bufs (from dst), slot_sizes, the offset.\<close>

record slot =
  sl_done :: bool
  sl_result :: int
  sl_buf :: nat
  sl_size :: nat
  sl_off :: nat

text \<open>
  The local variables; p_buf is the caller's buffer, p_live says that session->ctx is not NULL,
  p_time counts what was asked of libsmb2 and poll.
\<close>

record pipe =
  p_slots :: "slot list"
  p_head :: nat
  p_tail :: nat
  p_in_flight :: nat
  p_issue_off :: nat
  p_total :: nat
  p_stop :: bool
  p_discard :: bool
  p_error :: int
  p_buf :: mem
  p_live :: bool
  p_time :: nat

text \<open>
  What a callback reports: the slot, the status, and the bytes libsmb2 put into the slot's
  buffer. One round of the event loop: poll fails or is interrupted, or smb2_service runs (after
  a timeout or on an event) with its success and the callbacks it made.
\<close>

type_synonym completion = "nat \<times> int \<times> u8 list"

datatype wait_ev =
    PollInterrupted
  | PollFailed
  | PollInvalid
  | TimedOut bool "completion list"
  | Ready bool "completion list"

record smb2 =
  x_max_read :: nat                         \<comment> \<open>smb2_get_max_read_size\<close>
  x_large_mtu :: bool                       \<comment> \<open>dialect > SMB2_VERSION_0202\<close>
  x_credits :: "pipe \<Rightarrow> int"               \<comment> \<open>credits not yet used by queued PDUs\<close>
  x_pread_async :: "pipe \<Rightarrow> nat \<Rightarrow> int"    \<comment> \<open>its return code for a request of that size\<close>
  x_wait :: "pipe \<Rightarrow> wait_ev"              \<comment> \<open>poll and smb2_service\<close>

definition ring :: "nat \<Rightarrow> nat" where
  "ring i = i mod SMB_PIPELINE_DEPTH"

definition pipeline_chunk :: "smb2 \<Rightarrow> nat" where
  "pipeline_chunk E =
     (if 0 < x_max_read E \<and> x_max_read E < SMB_PIPELINE_CHUNK then x_max_read E else SMB_PIPELINE_CHUNK)"

text \<open>smb_pipeline_cb, and the bytes that came with it.\<close>

definition deliver :: "completion \<Rightarrow> pipe \<Rightarrow> pipe" where
  "deliver c P =
     (case c of (i, res, bs) \<Rightarrow>
        P\<lparr>p_slots := (p_slots P)[i := (p_slots P ! i)\<lparr>sl_done := True, sl_result := res\<rparr>],
          p_buf := memcpy (p_buf P) (sl_buf (p_slots P ! i)) (mem_of bs) 0 (length bs)\<rparr>)"

text \<open>smb_file_session_abort_transport with what its callers set beside it.\<close>

definition abort_read :: "pipe \<Rightarrow> pipe" where
  "abort_read P = P\<lparr>p_error := - 1, p_stop := True, p_live := False, p_in_flight := 0\<rparr>"

section \<open>Issuing requests\<close>

text \<open>The size of the next request; 0 where the loop is left.\<close>

definition next_size :: "smb2 \<Rightarrow> nat \<Rightarrow> nat \<Rightarrow> pipe \<Rightarrow> nat" where
  "next_size E off target P =
     (let n = min (target - u64_sub (p_issue_off P) off) (pipeline_chunk E) in
      if x_large_mtu E
      then (if x_credits E P \<le> 0 then 0 else min n (nat (x_credits E P) * 65536))
      else n)"

definition new_slot :: "nat \<Rightarrow> nat \<Rightarrow> pipe \<Rightarrow> slot" where
  "new_slot off n P =
     \<lparr>sl_done = False, sl_result = 0, sl_buf = u64_sub (p_issue_off P) off, sl_size = n, sl_off = p_issue_off P\<rparr>"

definition set_slot :: "nat \<Rightarrow> nat \<Rightarrow> pipe \<Rightarrow> pipe" where
  "set_slot off n P = P\<lparr>p_slots := (p_slots P)[ring (p_tail P) := new_slot off n P], p_time := p_time P + 1\<rparr>"

function issue :: "smb2 \<Rightarrow> nat \<Rightarrow> nat \<Rightarrow> pipe \<Rightarrow> pipe" where
  "issue E off target P =
     (if \<not> p_stop P \<and> p_in_flight P < SMB_PIPELINE_DEPTH \<and> u64_sub (p_issue_off P) off < target
      then let n = next_size E off target P; Q = set_slot off n P; rc = x_pread_async E Q n in
           if n = 0 then P
           else if rc < 0 then Q\<lparr>p_error := rc, p_stop := True\<rparr>
           else issue E off target
                  (Q\<lparr>p_issue_off := u64_add (p_issue_off Q) n, p_in_flight := p_in_flight Q + 1, p_tail := p_tail Q + 1\<rparr>)
      else P)"
  by pat_completeness auto
termination
  by (relation "measure (\<lambda>(E, off, target, P). SMB_PIPELINE_DEPTH - p_in_flight P)") (auto simp: set_slot_def)

declare issue.simps [simp del]

section \<open>Waiting for the oldest request\<close>

text \<open>One round: whether the loop goes on, and the state.\<close>

definition wait_round :: "smb2 \<Rightarrow> pipe \<Rightarrow> bool \<times> pipe" where
  "wait_round E P =
     (let Q = P\<lparr>p_time := p_time P + 1\<rparr> in
      case x_wait E P of
        PollInterrupted \<Rightarrow> (True, Q)
      | PollFailed \<Rightarrow> (False, abort_read Q)
      | PollInvalid \<Rightarrow> (False, abort_read Q)
      | TimedOut ok cs \<Rightarrow> (if ok then (True, fold deliver cs Q) else (False, abort_read (fold deliver cs Q)))
      | Ready ok cs \<Rightarrow> (if ok then (True, fold deliver cs Q) else (False, abort_read (fold deliver cs Q))))"

text \<open>None is an event loop that never ends.\<close>

partial_function (option) wait_oldest :: "smb2 \<Rightarrow> pipe \<Rightarrow> pipe option" where
  "wait_oldest E P =
     (if sl_done (p_slots P ! ring (p_head P)) then Some P
      else case wait_round E P of (go, Q) \<Rightarrow> if go then wait_oldest E Q else Some Q)"

section \<open>Taking completed slots\<close>

definition consume_one :: "pipe \<Rightarrow> pipe" where
  "consume_one P =
     (let s = p_slots P ! ring (p_head P); res = sl_result s;
          Q = P\<lparr>p_in_flight := p_in_flight P - 1, p_head := p_head P + 1\<rparr> in
      if p_discard P then Q
      else if res < 0 then Q\<lparr>p_error := res, p_stop := True, p_discard := True\<rparr>
      else if res = 0 then Q\<lparr>p_stop := True, p_discard := True\<rparr>
      else let R = Q\<lparr>p_total := p_total Q + nat res\<rparr> in
           if nat res < sl_size s then R\<lparr>p_stop := True, p_discard := True\<rparr> else R)"

lemma consume_one_flight [simp]: "p_in_flight (consume_one P) = p_in_flight P - 1"
  by (simp add: consume_one_def Let_def)

function consume :: "pipe \<Rightarrow> pipe" where
  "consume P =
     (if 0 < p_in_flight P \<and> sl_done (p_slots P ! ring (p_head P)) then consume (consume_one P) else P)"
  by pat_completeness auto
termination
  by (relation "measure p_in_flight") auto

declare consume.simps [simp del]

section \<open>The read\<close>

partial_function (option) pipeline :: "smb2 \<Rightarrow> nat \<Rightarrow> nat \<Rightarrow> pipe \<Rightarrow> pipe option" where
  "pipeline E off target P =
     (if (\<not> p_stop P \<and> p_total P < target) \<or> 0 < p_in_flight P
      then let Q = issue E off target P in
           if p_in_flight Q = 0 then Some Q
           else do { R \<leftarrow> wait_oldest E Q;
                     if p_error R \<noteq> 0 \<and> \<not> p_live R then Some R else pipeline E off target (consume R) }
      else Some P)"

definition target_count :: "nat \<Rightarrow> nat \<Rightarrow> nat \<Rightarrow> nat" where
  "target_count size' off count =
     (if 0 < size' then (if size' \<le> off then 0 else if size' - off < count then size' - off else count) else count)"

definition fresh_pipe :: "nat \<Rightarrow> mem \<Rightarrow> nat \<Rightarrow> pipe" where
  "fresh_pipe off buf t =
     \<lparr>p_slots = replicate SMB_PIPELINE_DEPTH \<lparr>sl_done = False, sl_result = 0, sl_buf = 0, sl_size = 0, sl_off = 0\<rparr>,
      p_head = 0, p_tail = 0, p_in_flight = 0, p_issue_off = off, p_total = 0, p_stop = False, p_discard = False,
      p_error = 0, p_buf = buf, p_live = True, p_time = t\<rparr>"

text \<open>
  The session (struct smb_file_session): the file behind local_fd, or whether ctx and fh are
  there; ss_time goes on from call to call.
\<close>

record smb_session =
  ss_local :: "u8 list option"
  ss_live :: bool
  ss_size :: nat
  ss_time :: nat

definition read_result :: "pipe \<Rightarrow> int" where
  "read_result P = (if 0 < p_total P then int (p_total P) else p_error P)"

text \<open>pread on the descriptor of a local file: the session, the buffer, the count.\<close>

definition local_read :: "u8 list \<Rightarrow> mem \<Rightarrow> nat \<Rightarrow> nat \<Rightarrow> mem \<times> int" where
  "local_read f buf count off =
     (if 2 ^ 63 \<le> off then (buf, - 1)
      else let bs = take count (drop off f) in (memcpy buf 0 (mem_of bs) 0 (length bs), int (length bs)))"

definition smb_file_session_read ::
    "smb2 \<Rightarrow> smb_session \<Rightarrow> mem \<Rightarrow> nat \<Rightarrow> nat \<Rightarrow> (smb_session \<times> mem \<times> int) option" where
  "smb_file_session_read E S buf count off =
     (if count = 0 then Some (S, buf, 0)
      else case ss_local S of
        Some f \<Rightarrow> (case local_read f buf count off of (buf', n) \<Rightarrow> Some (S, buf', n))
      | None \<Rightarrow>
          (if \<not> ss_live S then Some (S, buf, - 1)
           else do { P \<leftarrow> pipeline E off (target_count (ss_size S) off count) (fresh_pipe off buf (ss_time S));
                     Some (S\<lparr>ss_live := p_live P, ss_time := p_time P\<rparr>, p_buf P, read_result P) }))"

end
