(* ===== verification/SmbReadClaims.thy ===== *)
theory SmbReadClaims
  imports SmbRead
begin

text \<open>
  What a read of a file on a share returns: the invariant of the slot ring, and from it that the
  bytes are those of the file, that the read ends, that it is complete when the server answers,
  and that SMB sessions meet the contract of ByteSource.
\<close>

section \<open>The ring as a queue\<close>

definition queue :: "pipe \<Rightarrow> slot list" where
  "queue P = map (\<lambda>i. p_slots P ! ring i) [p_head P..<p_tail P]"

lemma ring_less [simp]: "ring i < SMB_PIPELINE_DEPTH"
  by (simp add: ring_def SMB_PIPELINE_DEPTH_def)

lemma ring_inj:
  assumes "ring i = ring j" and "h \<le> i" "i < h + SMB_PIPELINE_DEPTH" "h \<le> j" "j < h + SMB_PIPELINE_DEPTH"
  shows "i = j"
proof -
  have no: False if "a < b" "b < a + SMB_PIPELINE_DEPTH" "ring a = ring b" for a b
  proof -
    have "SMB_PIPELINE_DEPTH dvd b - a"
      using that unfolding ring_def by (metis less_imp_le mod_eq_dvd_iff_nat)
    then show False using that dvd_imp_le [of SMB_PIPELINE_DEPTH "b - a"] by simp
  qed
  have "j < i + SMB_PIPELINE_DEPTH" "i < j + SMB_PIPELINE_DEPTH" using assms(2-5) by simp_all
  then show ?thesis using no [of i j] no [of j i] assms(1) by (cases i j rule: linorder_cases) auto
qed

lemma queue_update:
  assumes "length (p_slots P) = SMB_PIPELINE_DEPTH" and "p_tail P \<le> p_head P + SMB_PIPELINE_DEPTH"
    and "p_head P \<le> j" "j < p_tail P"
  shows "map (\<lambda>i. (p_slots P)[ring j := s] ! ring i) [p_head P..<p_tail P] = (queue P)[j - p_head P := s]"
proof (rule nth_equalityI)
  fix k
  assume "k < length (map (\<lambda>i. (p_slots P)[ring j := s] ! ring i) [p_head P..<p_tail P])"
  then have k: "k < p_tail P - p_head P" by simp
  have "ring j = ring (p_head P + k) \<longleftrightarrow> k = j - p_head P"
    using ring_inj [of j "p_head P + k" "p_head P"] assms k by auto
  then show "map (\<lambda>i. (p_slots P)[ring j := s] ! ring i) [p_head P..<p_tail P] ! k = (queue P)[j - p_head P := s] ! k"
    using k assms(1) by (auto simp: queue_def nth_list_update)
qed (simp add: queue_def)

lemma queue_nth: "p_head P \<le> j \<Longrightarrow> j < p_tail P \<Longrightarrow> queue P ! (j - p_head P) = p_slots P ! ring j"
  by (simp add: queue_def)

lemma length_queue [simp]: "length (queue P) = p_tail P - p_head P"
  by (simp add: queue_def)

text \<open>Slots that follow each other in the buffer from b up to e.\<close>

fun chain :: "nat \<Rightarrow> slot list \<Rightarrow> nat \<Rightarrow> bool" where
  "chain b [] e = (b = e)"
| "chain b (s # qs) e = (sl_buf s = b \<and> 0 < sl_size s \<and> chain (b + sl_size s) qs e)"

lemma chain_le: "chain b qs e \<Longrightarrow> b \<le> e"
  by (induction qs arbitrary: b) fastforce+

lemma chain_snoc: "chain b qs e \<Longrightarrow> sl_buf s = e \<Longrightarrow> 0 < sl_size s \<Longrightarrow> chain b (qs @ [s]) (e + sl_size s)"
  by (induction qs arbitrary: b) auto

lemma chain_inside: "chain b qs e \<Longrightarrow> s \<in> set qs \<Longrightarrow> b \<le> sl_buf s \<and> sl_buf s + sl_size s \<le> e \<and> 0 < sl_size s"
proof (induction qs arbitrary: b)
  case (Cons a qs)
  show ?case
  proof (cases "s = a")
    case True
    then show ?thesis using Cons.prems chain_le by auto
  next
    case False
    then have "b + sl_size a \<le> sl_buf s \<and> sl_buf s + sl_size s \<le> e \<and> 0 < sl_size s"
      using Cons.prems by (intro Cons.IH) auto
    then show ?thesis by simp
  qed
qed simp

lemma chain_update:
  "chain b qs e \<Longrightarrow> k < length qs \<Longrightarrow> sl_buf s = sl_buf (qs ! k) \<Longrightarrow> sl_size s = sl_size (qs ! k) \<Longrightarrow> chain b (qs[k := s]) e"
proof (induction qs arbitrary: b k)
  case (Cons a qs)
  then show ?case by (cases k) auto
qed simp

lemma chain_apart:
  "chain b qs e \<Longrightarrow> k < length qs \<Longrightarrow> l < length qs \<Longrightarrow> k \<noteq> l \<Longrightarrow>
    sl_buf (qs ! k) + sl_size (qs ! k) \<le> sl_buf (qs ! l) \<or> sl_buf (qs ! l) + sl_size (qs ! l) \<le> sl_buf (qs ! k)"
proof (induction qs arbitrary: b k l)
  case (Cons a qs)
  have in_qs: "b + sl_size a \<le> sl_buf (qs ! i)" if "i < length qs" for i
    using chain_inside [of "b + sl_size a" qs e "qs ! i"] Cons.prems(1) that by simp
  show ?case
  proof (cases k; cases l)
    fix k' l' assume "k = Suc k'" "l = Suc l'"
    then show ?thesis using Cons by auto
  qed (use Cons.prems in_qs in auto)
qed simp

section \<open>The invariant\<close>

text \<open>n bytes of the file from off on, at place b of the buffer.\<close>

definition holds :: "u8 list \<Rightarrow> nat \<Rightarrow> nat \<Rightarrow> nat \<Rightarrow> mem \<Rightarrow> bool" where
  "holds f off b n m = (off + n \<le> length f \<and> (\<forall>i < n. m (b + i) = f ! (off + i)))"

definition slot_ok :: "u8 list \<Rightarrow> nat \<Rightarrow> mem \<Rightarrow> slot \<Rightarrow> bool" where
  "slot_ok f off m s =
     (sl_off s = off + sl_buf s \<and>
      (sl_done s \<and> 0 < sl_result s \<longrightarrow>
        nat (sl_result s) \<le> sl_size s \<and> holds f (sl_off s) (sl_buf s) (nat (sl_result s)) m))"

definition ring_ok :: "u8 list \<Rightarrow> nat \<Rightarrow> nat \<Rightarrow> pipe \<Rightarrow> bool" where
  "ring_ok f off target P =
     (length (p_slots P) = SMB_PIPELINE_DEPTH \<and> p_in_flight P \<le> SMB_PIPELINE_DEPTH \<and>
      p_tail P = p_head P + p_in_flight P \<and>
      (\<exists>b sent. p_issue_off P = off + sent \<and> sent \<le> target \<and> chain b (queue P) sent \<and>
         p_total P \<le> b \<and> (\<not> p_discard P \<longrightarrow> p_total P = b)) \<and>
      (\<forall>s \<in> set (queue P). slot_ok f off (p_buf P) s))"

definition got :: "u8 list \<Rightarrow> nat \<Rightarrow> nat \<Rightarrow> mem \<Rightarrow> pipe \<Rightarrow> bool" where
  "got f off target buf P =
     (p_total P \<le> target \<and> (0 < p_total P \<longrightarrow> holds f off 0 (p_total P) (p_buf P)) \<and>
      (\<forall>i \<ge> target. p_buf P i = buf i) \<and> p_error P \<le> 0)"

definition pipe_ok :: "u8 list \<Rightarrow> nat \<Rightarrow> nat \<Rightarrow> mem \<Rightarrow> pipe \<Rightarrow> bool" where
  "pipe_ok f off target buf P =
     (got f off target buf P \<and> (if p_live P then ring_ok f off target P else p_in_flight P = 0))"

section \<open>What libsmb2 promises\<close>

text \<open>
  A callback belongs to a request in flight that has not been answered; what it brings fits the
  request, and with a status that is no error it is that part of the file, as long as it says.
\<close>

definition good :: "u8 list \<Rightarrow> completion \<Rightarrow> pipe \<Rightarrow> bool" where
  "good f c P =
     (case c of (i, res, bs) \<Rightarrow>
        (\<exists>j. p_head P \<le> j \<and> j < p_tail P \<and> i = ring j) \<and> \<not> sl_done (p_slots P ! i) \<and>
        length bs \<le> sl_size (p_slots P ! i) \<and>
        (0 < res \<longrightarrow> length bs = nat res \<and> sl_off (p_slots P ! i) + nat res \<le> length f \<and>
           bs = extent (sl_off (p_slots P ! i)) (nat res) f))"

fun good_all :: "u8 list \<Rightarrow> completion list \<Rightarrow> pipe \<Rightarrow> bool" where
  "good_all f [] P = True"
| "good_all f (c # cs) P = (good f c P \<and> good_all f cs (deliver c P))"

definition callbacks :: "wait_ev \<Rightarrow> completion list" where
  "callbacks ev = (case ev of TimedOut ok cs \<Rightarrow> cs | Ready ok cs \<Rightarrow> cs | _ \<Rightarrow> [])"

definition answers :: "u8 list \<Rightarrow> smb2 \<Rightarrow> bool" where
  "answers f E = (\<forall>P. p_live P \<longrightarrow> good_all f (callbacks (x_wait E P)) (P\<lparr>p_time := p_time P + 1\<rparr>))"

lemma deliver_frame [simp]:
  "p_head (deliver c P) = p_head P" "p_tail (deliver c P) = p_tail P" "p_in_flight (deliver c P) = p_in_flight P"
  "p_issue_off (deliver c P) = p_issue_off P" "p_total (deliver c P) = p_total P" "p_stop (deliver c P) = p_stop P"
  "p_discard (deliver c P) = p_discard P" "p_error (deliver c P) = p_error P" "p_live (deliver c P) = p_live P"
  "length (p_slots (deliver c P)) = length (p_slots P)"
  by (cases c; simp add: deliver_def)+

lemma holds_apart:
  "holds f o' b n m \<Longrightarrow> b + n \<le> d \<or> d + k \<le> b \<Longrightarrow> holds f o' b n (memcpy m d src s k)"
  by (auto simp: holds_def memcpy_def)

lemma queue_deliver:
  assumes "ring_ok f off target P" and "p_head P \<le> j" "j < p_tail P"
  shows "queue (deliver (ring j, res, bs) P) =
    (queue P)[j - p_head P := (queue P ! (j - p_head P))\<lparr>sl_done := True, sl_result := res\<rparr>]"
proof -
  have "queue (deliver (ring j, res, bs) P) =
      map (\<lambda>i. (p_slots P)[ring j := (p_slots P ! ring j)\<lparr>sl_done := True, sl_result := res\<rparr>] ! ring i) [p_head P..<p_tail P]"
    by (simp add: queue_def deliver_def)
  also have "\<dots> = (queue P)[j - p_head P := (p_slots P ! ring j)\<lparr>sl_done := True, sl_result := res\<rparr>]"
    using assms by (intro queue_update) (auto simp: ring_ok_def)
  finally show ?thesis using assms by (simp add: queue_nth)
qed

lemma deliver_ok:
  assumes "pipe_ok f off target buf P" and "p_live P" and "good f c P"
  shows "pipe_ok f off target buf (deliver c P)"
proof -
  obtain j res bs where c: "c = (ring j, res, bs)" and j: "p_head P \<le> j" "j < p_tail P"
    using assms(3) by (auto simp: good_def split: prod.splits)
  have r: "ring_ok f off target P" using assms(1,2) by (simp add: pipe_ok_def)
  obtain b sent where ch: "p_issue_off P = off + sent" "sent \<le> target" "chain b (queue P) sent" "p_total P \<le> b"
    "\<not> p_discard P \<longrightarrow> p_total P = b" using r by (auto simp: ring_ok_def)
  define k where "k = j - p_head P"
  define s where "s = queue P ! k"
  have k: "k < length (queue P)" using j by (simp add: k_def)
  have s: "s = p_slots P ! ring j" using j by (simp add: s_def k_def queue_nth)
  have sin: "s \<in> set (queue P)" using k by (simp add: s_def)
  note inside = chain_inside [OF ch(3) sin]
  have bs: "length bs \<le> sl_size s" "0 < res \<Longrightarrow> length bs = nat res \<and> sl_off s + nat res \<le> length f \<and> bs = extent (sl_off s) (nat res) f"
    using assms(3) by (auto simp: good_def c s)
  have q: "queue (deliver c P) = (queue P)[k := s\<lparr>sl_done := True, sl_result := res\<rparr>]"
    unfolding c k_def s_def by (rule queue_deliver [OF r j])
  have m: "p_buf (deliver c P) = memcpy (p_buf P) (sl_buf s) (mem_of bs) 0 (length bs)"
    by (simp add: c deliver_def s)
  have "slot_ok f off (p_buf (deliver c P)) x" if "x \<in> set (queue (deliver c P))" for x
  proof -
    from that [unfolded q in_set_conv_nth length_list_update]
    obtain l where l: "l < length (queue P)" "x = (queue P)[k := s\<lparr>sl_done := True, sl_result := res\<rparr>] ! l" by blast
    have ok: "slot_ok f off (p_buf P) (queue P ! i)" if "i < length (queue P)" for i
      using r that by (simp add: ring_ok_def)
    show ?thesis
    proof (cases "l = k")
      case True
      then have x: "x = s\<lparr>sl_done := True, sl_result := res\<rparr>" using l by simp
      have "holds f (sl_off s) (sl_buf s) (nat res) (p_buf (deliver c P))" if "0 < res"
        using bs(2) [OF that] by (auto simp: holds_def m memcpy_def mem_of_def extent_def)
      then show ?thesis using ok [OF k] bs by (auto simp: slot_ok_def x s_def)
    next
      case False
      then have x: "x = queue P ! l" using l by simp
      have "sl_buf x + sl_size x \<le> sl_buf s \<or> sl_buf s + sl_size s \<le> sl_buf x"
        using chain_apart [OF ch(3) l(1) k False] by (simp add: x s_def)
      then show ?thesis
        using ok [OF l(1)] bs(1) by (auto simp: slot_ok_def x m intro!: holds_apart)
    qed
  qed
  moreover have "chain b (queue (deliver c P)) sent"
    unfolding q by (rule chain_update [OF ch(3) k]) (simp_all add: s_def)
  ultimately have "ring_ok f off target (deliver c P)"
    using r ch by (auto simp: ring_ok_def c deliver_def)
  moreover have "got f off target buf (deliver c P)"
    using assms(1) inside ch(2,4) bs(1) by (auto simp: pipe_ok_def got_def m mem_simps intro: holds_apart)
  ultimately show ?thesis using assms(2) by (simp add: pipe_ok_def)
qed

lemma tick_ok [simp]: "pipe_ok f off target buf (P\<lparr>p_time := t\<rparr>) = pipe_ok f off target buf P"
  by (simp add: pipe_ok_def got_def ring_ok_def queue_def)

lemma deliver_all_ok:
  "pipe_ok f off target buf P \<Longrightarrow> p_live P \<Longrightarrow> good_all f cs P \<Longrightarrow>
    pipe_ok f off target buf (fold deliver cs P) \<and> p_live (fold deliver cs P)"
  proof (induction cs arbitrary: P)
  case (Cons c cs)
  then show ?case using deliver_ok [of f off target buf P c] by simp
qed simp

lemma abort_ok: "pipe_ok f off target buf P \<Longrightarrow> pipe_ok f off target buf (abort_read P)"
  by (simp add: pipe_ok_def abort_read_def got_def)

section \<open>Each part of the call keeps it\<close>

lemma set_slot_queue:
  assumes "length (p_slots P) = SMB_PIPELINE_DEPTH" and "p_tail P = p_head P + p_in_flight P" and "p_in_flight P < SMB_PIPELINE_DEPTH"
  shows "map (\<lambda>i. p_slots (set_slot off n P) ! ring i) [p_head P..<p_tail P] = queue P"
    and "p_slots (set_slot off n P) ! ring (p_tail P) = new_slot off n P"
proof -
  have "ring (p_tail P) \<noteq> ring i" if "p_head P \<le> i" "i < p_tail P" for i
    using ring_inj [of "p_tail P" i "p_head P"] assms that by auto
  then show "map (\<lambda>i. p_slots (set_slot off n P) ! ring i) [p_head P..<p_tail P] = queue P"
    by (simp add: set_slot_def queue_def)
  show "p_slots (set_slot off n P) ! ring (p_tail P) = new_slot off n P"
    using assms(1) by (simp add: set_slot_def)
qed

lemma refused_ok:
  assumes "pipe_ok f off target buf P" and "p_live P" and "p_in_flight P < SMB_PIPELINE_DEPTH" and "rc < 0"
  shows "pipe_ok f off target buf ((set_slot off n P)\<lparr>p_error := rc, p_stop := True\<rparr>)"
proof -
  let ?Q = "(set_slot off n P)\<lparr>p_error := rc, p_stop := True\<rparr>"
  have r: "ring_ok f off target P" using assms(1,2) by (simp add: pipe_ok_def)
  then have "queue ?Q = queue P"
    using set_slot_queue(1) [of P off n] assms(3) by (simp add: ring_ok_def queue_def set_slot_def)
  then show ?thesis
    using assms r by (auto simp: pipe_ok_def ring_ok_def got_def set_slot_def)
qed

lemma issued_ok:
  assumes "pipe_ok f off target buf P" and "p_live P" and "p_in_flight P < SMB_PIPELINE_DEPTH"
    and "off + target < 2 ^ 64" and "0 < n" and "n \<le> target - u64_sub (p_issue_off P) off" and "u64_sub (p_issue_off P) off < target"
  defines "Q \<equiv> (set_slot off n P)\<lparr>p_issue_off := u64_add (p_issue_off P) n, p_in_flight := p_in_flight P + 1, p_tail := p_tail P + 1\<rparr>"
  shows "pipe_ok f off target buf Q" and "u64_sub (p_issue_off Q) off = u64_sub (p_issue_off P) off + n"
proof -
  have r: "ring_ok f off target P" using assms(1,2) by (simp add: pipe_ok_def)
  then obtain b sent where ch: "p_issue_off P = off + sent" "sent \<le> target" "chain b (queue P) sent" "p_total P \<le> b"
    "\<not> p_discard P \<longrightarrow> p_total P = b" by (auto simp: ring_ok_def)
  have sent: "u64_sub (p_issue_off P) off = sent" using ch assms(4) by (simp add: u64_simps)
  have off': "p_issue_off Q = off + (sent + n)"
    using ch(1) assms(4,6,7) sent by (simp add: Q_def u64_simps)
  show "u64_sub (p_issue_off Q) off = u64_sub (p_issue_off P) off + n"
    unfolding sent off' using assms(4,6,7) sent by (simp add: u64_simps)
  have ring: "length (p_slots P) = SMB_PIPELINE_DEPTH" "p_tail P = p_head P + p_in_flight P"
    using r by (simp_all add: ring_ok_def)
  have "queue Q = queue P @ [new_slot off n P]"
    using set_slot_queue [OF ring assms(3), of off n] ring(2) by (simp add: Q_def queue_def set_slot_def)
  moreover have "chain b (queue P @ [new_slot off n P]) (sent + n)"
    using chain_snoc [OF ch(3), of "new_slot off n P"] assms(5) sent by (simp add: new_slot_def)
  moreover have "slot_ok f off m (new_slot off n P)" for m
    using ch(1) sent by (simp add: slot_ok_def new_slot_def)
  ultimately have "ring_ok f off target Q"
    using r ch off' assms(3,6,7) sent by (auto simp: ring_ok_def Q_def set_slot_def)
  then show "pipe_ok f off target buf Q"
    using assms(1,2) by (simp add: pipe_ok_def got_def Q_def set_slot_def)
qed

lemma next_size_le: "next_size E off target P \<le> target - u64_sub (p_issue_off P) off"
  by (auto simp: next_size_def Let_def)

lemma issue_ok:
  "pipe_ok f off target buf P \<Longrightarrow> p_live P \<Longrightarrow> off + target < 2 ^ 64 \<Longrightarrow>
    pipe_ok f off target buf (issue E off target P) \<and> p_live (issue E off target P)"
proof (induction E off target P rule: issue.induct)
  case (1 E off target P)
  show ?case
  proof (cases "\<not> p_stop P \<and> p_in_flight P < SMB_PIPELINE_DEPTH \<and> u64_sub (p_issue_off P) off < target \<and> next_size E off target P \<noteq> 0")
    case False
    then show ?thesis using 1(2,3) unfolding issue.simps [of E off target P] by (auto simp: Let_def)
  next
    case True
    note n = next_size_le [of E off target P]
    show ?thesis
    proof (cases "x_pread_async E (set_slot off (next_size E off target P) P) (next_size E off target P) < 0")
      case rc: True
      then show ?thesis
        using True 1(3) refused_ok [OF 1(2,3) _ rc] unfolding issue.simps [of E off target P] by (simp add: Let_def set_slot_def)
    next
      case False
      then show ?thesis
        using True 1(1) [OF _ refl refl refl] issued_ok(1) [OF 1(2,3) _ 1(4) _ n] 1(3,4)
        unfolding issue.simps [of E off target P] by (simp add: Let_def set_slot_def)
    qed
  qed
qed

lemma wait_round_ok:
  assumes "answers f E" and "pipe_ok f off target buf P" and "p_live P" and "wait_round E P = (go, Q)"
  shows "pipe_ok f off target buf Q \<and> (go \<longrightarrow> p_live Q) \<and> (\<not> go \<longrightarrow> \<not> p_live Q \<and> p_error Q \<noteq> 0)"
proof -
  have "good_all f (callbacks (x_wait E P)) (P\<lparr>p_time := p_time P + 1\<rparr>)" using assms(1,3) by (simp add: answers_def)
  then have d: "pipe_ok f off target buf (fold deliver (callbacks (x_wait E P)) (P\<lparr>p_time := p_time P + 1\<rparr>)) \<and>
      p_live (fold deliver (callbacks (x_wait E P)) (P\<lparr>p_time := p_time P + 1\<rparr>))"
    using assms(2,3) by (intro deliver_all_ok) simp_all
  then show ?thesis
    using assms(2,3,4) by (cases "x_wait E P")
      (auto simp: wait_round_def callbacks_def Let_def abort_ok intro: abort_ok split: if_splits; simp add: abort_read_def)+
qed

lemma wait_oldest_ok:
  assumes "answers f E" and "wait_oldest E P = Some Q" and "pipe_ok f off target buf P" and "p_live P"
  shows "pipe_ok f off target buf Q \<and> (p_live Q \<longrightarrow> sl_done (p_slots Q ! ring (p_head Q))) \<and> (\<not> p_live Q \<longrightarrow> p_error Q \<noteq> 0)"
proof -
  define I where "I = (\<lambda>(E, P) Q. answers f E \<longrightarrow> pipe_ok f off target buf P \<longrightarrow> p_live P \<longrightarrow>
      pipe_ok f off target buf Q \<and> (p_live Q \<longrightarrow> sl_done (p_slots Q ! ring (p_head Q))) \<and> (\<not> p_live Q \<longrightarrow> p_error Q \<noteq> 0))"
  have "I (E, P) Q"
  proof (rule wait_oldest.raw_induct [of I, OF _ assms(2)])
    fix wait E P Q
    assume IH: "\<And>E P Q. wait E P = Some Q \<Longrightarrow> I (E, P) Q"
      and run: "(if sl_done (p_slots P ! ring (p_head P)) then Some P
        else case wait_round E P of (go, Q) \<Rightarrow> if go then wait E Q else Some Q) = Some Q"
    obtain go R where w: "wait_round E P = (go, R)" by (cases "wait_round E P")
    show "I (E, P) Q"
      using run IH [of E R Q] wait_round_ok [OF _ _ _ w, of f off target buf] by (auto simp: I_def w split: if_splits)
  qed
  then show ?thesis using assms by (simp add: I_def)
qed

lemma consume_one_ok:
  assumes "pipe_ok f off target buf P" and "p_live P" and "0 < p_in_flight P" and "sl_done (p_slots P ! ring (p_head P))"
  shows "pipe_ok f off target buf (consume_one P) \<and> p_live (consume_one P)"
proof -
  let ?s = "p_slots P ! ring (p_head P)" and ?Q = "consume_one P"
  have r: "ring_ok f off target P" using assms(1,2) by (simp add: pipe_ok_def)
  then obtain b sent where ch: "p_issue_off P = off + sent" "sent \<le> target" "chain b (queue P) sent" "p_total P \<le> b"
    "\<not> p_discard P \<longrightarrow> p_total P = b" by (auto simp: ring_ok_def)
  have hd: "p_head P < p_tail P" using r assms(3) by (simp add: ring_ok_def)
  have frame: "p_head ?Q = p_head P + 1" "p_tail ?Q = p_tail P" "p_slots ?Q = p_slots P" "p_buf ?Q = p_buf P"
    "p_issue_off ?Q = p_issue_off P" "p_live ?Q"
    using assms(2) by (simp_all add: consume_one_def Let_def)
  have q: "queue P = ?s # queue ?Q"
    using hd by (simp add: queue_def frame upt_conv_Cons)
  have s: "slot_ok f off (p_buf P) ?s" "sl_buf ?s = b" "chain (b + sl_size ?s) (queue ?Q) sent"
    using r ch(3) by (simp_all add: ring_ok_def q)
  have le: "b + sl_size ?s \<le> target" using chain_le [OF s(3)] ch(2) by simp
  have got: "p_total ?Q \<le> b + sl_size ?s \<and> (\<not> p_discard ?Q \<longrightarrow> p_total ?Q = b + sl_size ?s) \<and>
      (0 < p_total ?Q \<longrightarrow> holds f off 0 (p_total ?Q) (p_buf P)) \<and> p_error ?Q \<le> 0"
  proof (cases "\<not> p_discard P \<and> 0 < sl_result ?s")
    case False
    then show ?thesis
      using assms(1) ch(4,5) by (auto simp: consume_one_def Let_def pipe_ok_def got_def)
  next
    case True
    then have t: "p_total P = b" "p_total ?Q = b + nat (sl_result ?s)" "p_error ?Q = p_error P"
      "p_discard ?Q = (nat (sl_result ?s) < sl_size ?s)"
      using ch(5) by (simp_all add: consume_one_def Let_def)
    have h: "nat (sl_result ?s) \<le> sl_size ?s" "holds f (off + b) b (nat (sl_result ?s)) (p_buf P)"
      using s(1,2) assms(4) True by (auto simp: slot_ok_def)
    have "0 < b \<longrightarrow> holds f off 0 b (p_buf P)" using assms(1) t by (simp add: pipe_ok_def got_def)
    then have "holds f off 0 (b + nat (sl_result ?s)) (p_buf P)"
      using h(2) by (auto simp: holds_def) (metis add_diff_inverse_nat add.assoc nat_add_left_cancel_less)
    then show ?thesis using t h(1) assms(1) by (auto simp: pipe_ok_def got_def)
  qed
  have "ring_ok f off target ?Q"
    using r ch(1,2) s(3) got assms(3) by (auto simp: ring_ok_def q frame)
  moreover have "got f off target buf ?Q"
    using got le assms(1) by (auto simp: pipe_ok_def got_def frame)
  ultimately show ?thesis by (simp add: pipe_ok_def frame)
qed

lemma consume_ok:
  "pipe_ok f off target buf P \<Longrightarrow> p_live P \<Longrightarrow> pipe_ok f off target buf (consume P) \<and> p_live (consume P)"
proof (induction P rule: consume.induct)
  case (1 P)
  then show ?case
    using consume_one_ok [of f off target buf P] unfolding consume.simps [of P] by simp
qed

text \<open>Whatever the server does, the read ends with nothing in flight and the buffer as it should be.\<close>

lemma pipeline_ok:
  assumes "answers f E" and "off + target < 2 ^ 64" and "pipeline E off target P = Some Q"
    and "pipe_ok f off target buf P" and "p_live P"
  shows "pipe_ok f off target buf Q \<and> p_in_flight Q = 0"
proof -
  define I where "I = (\<lambda>(((E, off), target), P) Q. answers f E \<longrightarrow> off + target < 2 ^ 64 \<longrightarrow>
      pipe_ok f off target buf P \<longrightarrow> p_live P \<longrightarrow> pipe_ok f off target buf Q \<and> p_in_flight Q = (0::nat))"
  have "I (((E, off), target), P) Q"
  proof (rule pipeline.raw_induct [of I, OF _ assms(3)])
    fix go E off target P Q
    assume IH: "\<And>E off target P Q. go E off target P = Some Q \<Longrightarrow> I (((E, off), target), P) Q"
      and run: "(if \<not> p_stop P \<and> p_total P < target \<or> 0 < p_in_flight P
        then let Q = issue E off target P in
          if p_in_flight Q = 0 then Some Q
          else wait_oldest E Q \<bind> (\<lambda>R. if p_error R \<noteq> 0 \<and> \<not> p_live R then Some R else go E off target (consume R))
        else Some P) = Some Q"
    have "pipe_ok f off target buf Q \<and> p_in_flight Q = 0"
      if a: "answers f E" "off + target < 2 ^ 64" "pipe_ok f off target buf P" "p_live P"
    proof (cases "(\<not> p_stop P \<and> p_total P < target \<or> 0 < p_in_flight P) \<and> p_in_flight (issue E off target P) \<noteq> 0")
      case False
      then show ?thesis using run a(3) issue_ok [OF a(3,4,2)] by (auto simp: Let_def pipe_ok_def split: if_splits)
    next
      case True
      note i = issue_ok [OF a(3,4,2), of E]
      obtain R where R: "wait_oldest E (issue E off target P) = Some R"
        and rest: "(if p_error R \<noteq> 0 \<and> \<not> p_live R then Some R else go E off target (consume R)) = Some Q"
        using run True by (auto simp: Let_def bind_eq_Some_conv)
      note w = wait_oldest_ok [OF a(1) R, of off target buf]
      show ?thesis
      proof (cases "p_live R")
        case True
        then show ?thesis
          using rest w i IH [of E off target "consume R" Q] consume_ok [of f off target buf R] a(1,2) by (simp add: I_def)
      next
        case False
        then show ?thesis using rest w i by (simp add: pipe_ok_def)
      qed
    qed
    then show "I (((E, off), target), P) Q" by (simp add: I_def)
  qed
  then show ?thesis using assms by (simp add: I_def)
qed

lemma fresh_ok: "pipe_ok f off target buf (fresh_pipe off buf t)"
  by (simp add: pipe_ok_def got_def ring_ok_def fresh_pipe_def queue_def)

lemma pipeline_nothing: "pipeline E off 0 (fresh_pipe off buf t) = Some (fresh_pipe off buf t)"
  by (subst pipeline.simps) (simp add: fresh_pipe_def)

section \<open>The bytes that come back\<close>

text \<open>A session on f: the local file is f, or what libsmb2 answers is f.\<close>

definition serves_file :: "smb2 \<Rightarrow> smb_session \<Rightarrow> u8 list \<Rightarrow> bool" where
  "serves_file E S f = (case ss_local S of Some g \<Rightarrow> g = f | None \<Rightarrow> answers f E)"

lemma target_le: "target_count z off count \<le> count"
  by (simp add: target_count_def)

lemma holds_bytes: "holds f off 0 n m \<Longrightarrow> mem_bytes m 0 n = extent off n f"
  by (intro nth_equalityI) (auto simp: holds_def extent_def)

lemma local_read_exact:
  assumes "local_read f buf count off = (buf', n)"
  shows "(0 < n \<longrightarrow> nat n \<le> count \<and> off + nat n \<le> length f \<and> mem_bytes buf' 0 (nat n) = extent off (nat n) f) \<and>
    (\<forall>i \<ge> count. buf' i = buf i)"
proof (cases "2 ^ 63 \<le> off")
  case False
  let ?bs = "take count (drop off f)"
  have n: "n = int (length ?bs)" "buf' = memcpy buf 0 (mem_of ?bs) 0 (length ?bs)"
    using assms False by (auto simp: local_read_def Let_def)
  have "off + length ?bs \<le> length f" if "0 < length ?bs" using that by (auto simp: min_def)
  moreover have "mem_bytes buf' 0 (length ?bs) = extent off (length ?bs) f"
    by (rule nth_equalityI) (auto simp: n memcpy_def mem_of_def extent_def)
  ultimately show ?thesis by (auto simp: n memcpy_def)
qed (use assms in \<open>simp add: local_read_def\<close>)

text \<open>The offsets asked for do not pass 2^64.\<close>

definition no_wrap :: "smb_session \<Rightarrow> nat \<Rightarrow> nat \<Rightarrow> bool" where
  "no_wrap S off count = (let t = target_count (ss_size S) off count in t = 0 \<or> off + t < 2 ^ 64)"

lemma no_wrapI: "off + count < 2 ^ 64 \<Longrightarrow> no_wrap S off count"
  using target_le [of "ss_size S" off count] by (simp add: no_wrap_def Let_def)

lemma pipeline_got:
  assumes "answers f E" and "no_wrap S off count"
    and "pipeline E off (target_count (ss_size S) off count) (fresh_pipe off buf t) = Some P"
  shows "got f off (target_count (ss_size S) off count) buf P"
proof (cases "target_count (ss_size S) off count = 0")
  case True
  then show ?thesis using assms(3) pipeline_nothing [of E off buf t] by (simp add: got_def fresh_pipe_def)
next
  case False
  then show ?thesis
    using pipeline_ok [OF assms(1) _ assms(3) fresh_ok] assms(2) by (simp add: no_wrap_def fresh_pipe_def pipe_ok_def)
qed

lemma session_read_exact:
  assumes "serves_file E S f" and "no_wrap S off count" and "smb_file_session_read E S buf count off = Some (S', buf', n)"
  shows "(0 < n \<longrightarrow> nat n \<le> count \<and> off + nat n \<le> length f \<and> mem_bytes buf' 0 (nat n) = extent off (nat n) f) \<and>
    (\<forall>i \<ge> count. buf' i = buf i)"
proof (cases "count = 0 \<or> ss_local S \<noteq> None \<or> \<not> ss_live S")
  case True
  then show ?thesis
    using assms local_read_exact [of f buf count off]
    by (auto simp: smb_file_session_read_def serves_file_def split: if_splits option.splits prod.splits)
next
  case False
  let ?t = "target_count (ss_size S) off count"
  obtain P where P: "pipeline E off ?t (fresh_pipe off buf (ss_time S)) = Some P" and r: "buf' = p_buf P" "n = read_result P"
    using assms(3) False by (auto simp: smb_file_session_read_def bind_eq_Some_conv)
  have "got f off ?t buf P"
    using pipeline_got [OF _ assms(2) P, of f] assms(1) False by (simp add: serves_file_def)
  then show ?thesis
    using target_le [of "ss_size S" off count]
    by (auto simp: r got_def read_result_def holds_bytes split: if_splits) (auto simp: holds_def)
qed

text \<open>What a read leaves of the session.\<close>

lemma session_read_keeps:
  "smb_file_session_read E S buf count off = Some (S', buf', n) \<Longrightarrow> ss_local S' = ss_local S \<and> ss_size S' = ss_size S"
  by (auto simp: smb_file_session_read_def bind_eq_Some_conv split: if_splits option.splits prod.splits)

section \<open>The read ends\<close>

text \<open>
  Waiting for the oldest request is bounded: a round that neither fails nor answers it lowers a
  measure (libsmb2 gives every request a timeout).
\<close>

definition waiting :: "pipe \<Rightarrow> bool" where
  "waiting P = (p_live P \<and> length (p_slots P) = SMB_PIPELINE_DEPTH \<and> p_head P < p_tail P \<and>
     \<not> sl_done (p_slots P ! ring (p_head P)))"

definition prompt :: "(pipe \<Rightarrow> nat) \<Rightarrow> smb2 \<Rightarrow> bool" where
  "prompt p E = (\<forall>P. waiting P \<longrightarrow>
     (case wait_round E P of (go, Q) \<Rightarrow> go \<longrightarrow> sl_done (p_slots Q ! ring (p_head Q)) \<or> p Q < p P))"

lemma fold_deliver_frame [simp]:
  "p_head (fold deliver cs P) = p_head P" "p_tail (fold deliver cs P) = p_tail P"
  "p_in_flight (fold deliver cs P) = p_in_flight P" "p_issue_off (fold deliver cs P) = p_issue_off P"
  "p_total (fold deliver cs P) = p_total P" "p_stop (fold deliver cs P) = p_stop P"
  "p_discard (fold deliver cs P) = p_discard P" "p_error (fold deliver cs P) = p_error P" "p_live (fold deliver cs P) = p_live P"
  "length (p_slots (fold deliver cs P)) = length (p_slots P)"
  by (induction cs arbitrary: P) simp_all

lemma wait_round_frame:
  "wait_round E P = (True, Q) \<Longrightarrow> p_head Q = p_head P \<and> p_tail Q = p_tail P \<and> p_in_flight Q = p_in_flight P \<and>
    p_issue_off Q = p_issue_off P \<and> p_total Q = p_total P \<and> p_stop Q = p_stop P \<and> p_discard Q = p_discard P \<and>
    p_error Q = p_error P \<and> p_live Q = p_live P \<and> length (p_slots Q) = length (p_slots P)"
  by (cases "x_wait E P") (auto simp: wait_round_def Let_def split: if_splits)

lemma wait_ends:
  "prompt p E \<Longrightarrow> p_live P \<Longrightarrow> p_head P < p_tail P \<Longrightarrow> length (p_slots P) = SMB_PIPELINE_DEPTH \<Longrightarrow>
    \<exists>Q. wait_oldest E P = Some Q \<and> (p_live Q \<longrightarrow> p_in_flight Q = p_in_flight P \<and> p_issue_off Q = p_issue_off P)"
proof (induction "p P" arbitrary: P rule: less_induct)
  case less
  show ?case
  proof (cases "sl_done (p_slots P ! ring (p_head P))")
    case True
    then show ?thesis by (subst wait_oldest.simps) simp
  next
    case False
    obtain go Q where w: "wait_round E P = (go, Q)" by (cases "wait_round E P")
    have pr: "go \<longrightarrow> sl_done (p_slots Q ! ring (p_head Q)) \<or> p Q < p P"
      using less.prems False w by (auto simp: prompt_def waiting_def split: prod.splits)
    show ?thesis
    proof (cases go)
      case True
      have "wait_round E P = (True, Q)" using w True by simp
      note f = wait_round_frame [OF this]
      have "\<exists>R. wait_oldest E Q = Some R \<and> (p_live R \<longrightarrow> p_in_flight R = p_in_flight Q \<and> p_issue_off R = p_issue_off Q)"
      proof (cases "sl_done (p_slots Q ! ring (p_head Q))")
        case True
        then show ?thesis by (subst wait_oldest.simps) simp
      next
        case False
        then have "p Q < p P" using pr \<open>go\<close> by simp
        then show ?thesis using less.hyps [of Q] less.prems f by simp
      qed
      then show ?thesis using f \<open>go\<close> False w wait_oldest.simps [of E P] by auto
    next
      case False
      then have "\<not> p_live Q"
        using w by (cases "x_wait E P") (auto simp: wait_round_def Let_def abort_read_def split: if_splits)
      then show ?thesis using False w \<open>\<not> sl_done _\<close> wait_oldest.simps [of E P] by auto
    qed
  qed
qed

text \<open>What is left to ask for, twice, and what is in flight.\<close>

definition work :: "nat \<Rightarrow> nat \<Rightarrow> pipe \<Rightarrow> nat" where
  "work off target P = 2 * (target - u64_sub (p_issue_off P) off) + p_in_flight P"

lemma issue_work:
  "pipe_ok f off target buf P \<Longrightarrow> p_live P \<Longrightarrow> off + target < 2 ^ 64 \<Longrightarrow> work off target (issue E off target P) \<le> work off target P"
proof (induction E off target P rule: issue.induct)
  case (1 E off target P)
  let ?n = "next_size E off target P"
  show ?case
  proof (cases "\<not> p_stop P \<and> p_in_flight P < SMB_PIPELINE_DEPTH \<and> u64_sub (p_issue_off P) off < target \<and> ?n \<noteq> 0 \<and>
      \<not> x_pread_async E (set_slot off ?n P) ?n < 0")
    case False
    then show ?thesis unfolding issue.simps [of E off target P] by (auto simp: Let_def work_def set_slot_def)
  next
    case True
    note n = next_size_le [of E off target P]
    define Q where "Q = (set_slot off ?n P)\<lparr>p_issue_off := u64_add (p_issue_off P) ?n, p_in_flight := p_in_flight P + 1, p_tail := p_tail P + 1\<rparr>"
    have Q: "pipe_ok f off target buf Q" "u64_sub (p_issue_off Q) off = u64_sub (p_issue_off P) off + ?n" "p_live Q"
      "p_in_flight Q = p_in_flight P + 1"
      using issued_ok [OF 1(2,3) _ 1(4) _ n] True 1(3) by (simp_all add: Q_def set_slot_def)
    have "issue E off target P = issue E off target Q"
      using True unfolding issue.simps [of E off target P] by (simp add: Let_def Q_def set_slot_def)
    moreover have "work off target (issue E off target Q) \<le> work off target Q"
      using True 1(1) [OF _ refl refl refl] Q(1,3) 1(4) by (simp add: Q_def set_slot_def)
    moreover have "0 < ?n" using True by simp
    then have "work off target Q \<le> work off target P" using Q(2,4) n unfolding work_def by linarith
    ultimately show ?thesis by simp
  qed
qed

lemma consume_work:
  "p_in_flight (consume P) \<le> p_in_flight P \<and> p_issue_off (consume P) = p_issue_off P"
proof (induction P rule: consume.induct)
  case (1 P)
  have "p_issue_off (consume_one P) = p_issue_off P" by (simp add: consume_one_def Let_def)
  then show ?case using 1 unfolding consume.simps [of P] by auto
qed

lemma pipeline_ends:
  "answers f E \<Longrightarrow> prompt p E \<Longrightarrow> off + target < 2 ^ 64 \<Longrightarrow> pipe_ok f off target buf P \<Longrightarrow> p_live P \<Longrightarrow>
    \<exists>Q. pipeline E off target P = Some Q"
proof (induction "work off target P" arbitrary: P rule: less_induct)
  case less
  let ?Q = "issue E off target P"
  have i: "pipe_ok f off target buf ?Q \<and> p_live ?Q" by (rule issue_ok [OF less.prems(4,5,3)])
  show ?case
  proof (cases "(\<not> p_stop P \<and> p_total P < target \<or> 0 < p_in_flight P) \<and> p_in_flight ?Q \<noteq> 0")
    case False
    then show ?thesis by (subst pipeline.simps) (auto simp: Let_def)
  next
    case True
    have fl: "p_head ?Q < p_tail ?Q" "length (p_slots ?Q) = SMB_PIPELINE_DEPTH"
      using i True by (auto simp: pipe_ok_def ring_ok_def)
    obtain R where R: "wait_oldest E ?Q = Some R" "p_live R \<longrightarrow> p_in_flight R = p_in_flight ?Q \<and> p_issue_off R = p_issue_off ?Q"
      using wait_ends [OF less.prems(2) _ fl] i by blast
    note w = wait_oldest_ok [OF less.prems(1) R(1)]
    show ?thesis
    proof (cases "p_live R")
      case False
      then show ?thesis using True R w i by (subst pipeline.simps) (auto simp: Let_def)
    next
      case live: True
      have d: "sl_done (p_slots R ! ring (p_head R))" using w i live by blast
      have fR: "0 < p_in_flight R" using R(2) live True by simp
      then have "consume R = consume (consume_one R)" using d by (simp add: consume.simps [of R])
      then have "p_in_flight (consume R) \<le> p_in_flight R - 1" using consume_work [of "consume_one R"] by simp
      then have "p_in_flight (consume R) < p_in_flight R" using fR by linarith
      then have "work off target (consume R) < work off target ?Q"
        using R(2) live consume_work [of R] by (simp add: work_def)
      then have "work off target (consume R) < work off target P"
        using issue_work [OF less.prems(4,5,3)] by (rule order_less_le_trans)
      moreover have "pipe_ok f off target buf (consume R)" "p_live (consume R)" using consume_ok w i live by blast+
      ultimately have "\<exists>Q. pipeline E off target (consume R) = Some Q" using less.hyps less.prems(1-3) by blast
      then show ?thesis using True R live by (subst pipeline.simps) (auto simp: Let_def)
    qed
  qed
qed

section \<open>A server that answers in full\<close>

fun full_all :: "completion list \<Rightarrow> pipe \<Rightarrow> bool" where
  "full_all [] P = True"
| "full_all (c # cs) P = (fst (snd c) = int (sl_size (p_slots P ! fst c)) \<and> full_all cs (deliver c P))"

text \<open>
  With nothing in flight there are credits; requests are taken; while one inside the file waits,
  poll and smb2_service do not fail and every callback has the whole of its request.
\<close>

definition obliging :: "u8 list \<Rightarrow> smb2 \<Rightarrow> bool" where
  "obliging f E =
     ((\<forall>P. p_in_flight P = 0 \<longrightarrow> 0 < x_credits E P) \<and> (\<forall>P n. 0 \<le> x_pread_async E P n) \<and>
      (\<forall>P. waiting P \<and> (\<forall>s \<in> set (queue P). sl_off s + sl_size s \<le> length f) \<longrightarrow>
         fst (wait_round E P) \<and> full_all (callbacks (x_wait E P)) (P\<lparr>p_time := p_time P + 1\<rparr>)))"

text \<open>Nothing has gone wrong so far.\<close>

definition smooth :: "pipe \<Rightarrow> bool" where
  "smooth P = (p_live P \<and> \<not> p_stop P \<and> \<not> p_discard P \<and> p_error P = 0 \<and>
     (\<forall>s \<in> set (queue P). sl_done s \<longrightarrow> sl_result s = int (sl_size s)))"

lemma queue_tick [simp]: "queue (P\<lparr>p_time := t\<rparr>) = queue P"
  by (simp add: queue_def)

lemma deliver_smooth:
  assumes "pipe_ok f off target buf P" and "smooth P" and "good f c P" and "fst (snd c) = int (sl_size (p_slots P ! fst c))"
  shows "smooth (deliver c P)"
proof -
  obtain j res bs where c: "c = (ring j, res, bs)" and j: "p_head P \<le> j" "j < p_tail P"
    using assms(3) by (auto simp: good_def split: prod.splits)
  have r: "ring_ok f off target P" using assms(1,2) by (simp add: pipe_ok_def smooth_def)
  have "set (queue (deliver c P)) \<subseteq> insert ((queue P ! (j - p_head P))\<lparr>sl_done := True, sl_result := res\<rparr>) (set (queue P))"
    unfolding c queue_deliver [OF r j] by (rule set_update_subset_insert)
  then show ?thesis
    using assms(2,4) by (auto simp: smooth_def c queue_nth [OF j])
qed

lemma deliver_all_smooth:
  "pipe_ok f off target buf P \<Longrightarrow> smooth P \<Longrightarrow> good_all f cs P \<Longrightarrow> full_all cs P \<Longrightarrow> smooth (fold deliver cs P)"
proof (induction cs arbitrary: P)
  case (Cons c cs)
  have "p_live P" using Cons.prems by (simp add: smooth_def)
  then show ?case
    using Cons deliver_ok [of f off target buf P c] deliver_smooth [of f off target buf P c] by simp
qed simp

lemma inside_file:
  assumes "pipe_ok f off target buf P" and "p_live P" and "off + target \<le> length f" and "s \<in> set (queue P)"
  shows "sl_off s + sl_size s \<le> length f"
proof -
  obtain b sent where "chain b (queue P) sent" "sent \<le> target" "slot_ok f off (p_buf P) s"
    using assms(1,2,4) by (auto simp: pipe_ok_def ring_ok_def)
  then show ?thesis using chain_inside [of b "queue P" sent s] assms(3,4) by (simp add: slot_ok_def)
qed

lemma wait_round_smooth:
  assumes "answers f E" and "obliging f E" and "pipe_ok f off target buf P" and "smooth P" and "waiting P"
    and "off + target \<le> length f" and "wait_round E P = (go, Q)"
  shows "go \<and> smooth Q"
proof -
  have l: "p_live P" using assms(4) by (simp add: smooth_def)
  have o: "fst (wait_round E P)" "full_all (callbacks (x_wait E P)) (P\<lparr>p_time := p_time P + 1\<rparr>)"
    using assms(2,5) inside_file [OF assms(3) l assms(6)] by (auto simp: obliging_def)
  have "good_all f (callbacks (x_wait E P)) (P\<lparr>p_time := p_time P + 1\<rparr>)" using assms(1) l by (simp add: answers_def)
  then have "smooth (fold deliver (callbacks (x_wait E P)) (P\<lparr>p_time := p_time P + 1\<rparr>))"
    using assms(3,4) o(2) by (intro deliver_all_smooth) (simp_all add: smooth_def)
  then show ?thesis
    using o(1) assms(4,7) by (cases "x_wait E P") (auto simp: wait_round_def callbacks_def Let_def smooth_def split: if_splits)
qed

lemma wait_oldest_smooth:
  assumes "answers f E" and "obliging f E" and "wait_oldest E P = Some Q" and "pipe_ok f off target buf P" and "smooth P"
    and "off + target \<le> length f" and "p_head P < p_tail P"
  shows "smooth Q"
proof -
  define I where "I = (\<lambda>(E, P) Q. answers f E \<longrightarrow> obliging f E \<longrightarrow> pipe_ok f off target buf P \<longrightarrow> smooth P \<longrightarrow>
      p_head P < p_tail P \<longrightarrow> smooth Q)"
  have "I (E, P) Q"
  proof (rule wait_oldest.raw_induct [of I, OF _ assms(3)])
    fix wait E P Q
    assume IH: "\<And>E P Q. wait E P = Some Q \<Longrightarrow> I (E, P) Q"
      and run: "(if sl_done (p_slots P ! ring (p_head P)) then Some P
        else case wait_round E P of (go, Q) \<Rightarrow> if go then wait E Q else Some Q) = Some Q"
    obtain go R where w: "wait_round E P = (go, R)" by (cases "wait_round E P")
    have "smooth Q" if a: "answers f E" "obliging f E" "pipe_ok f off target buf P" "smooth P" "p_head P < p_tail P"
    proof (cases "sl_done (p_slots P ! ring (p_head P))")
      case False
      then have "waiting P" using a by (simp add: waiting_def smooth_def pipe_ok_def ring_ok_def)
      then have s: "go" "smooth R" using wait_round_smooth [OF a(1-4) _ assms(6) w] by auto
      have "pipe_ok f off target buf R" using wait_round_ok [OF a(1,3) _ w] a(4) by (simp add: smooth_def)
      moreover have "p_head R < p_tail R" using wait_round_frame [of E P R] w s(1) a(5) by simp
      ultimately show ?thesis using run False s IH [of E R Q] a(1,2) by (simp add: w I_def)
    qed (use run a in simp)
    then show "I (E, P) Q" by (simp add: I_def)
  qed
  then show ?thesis using assms by (simp add: I_def)
qed

lemma consume_one_smooth:
  assumes "smooth P" and "ring_ok f off target P" and "0 < p_in_flight P" and "sl_done (p_slots P ! ring (p_head P))"
  shows "smooth (consume_one P)"
proof -
  let ?s = "p_slots P ! ring (p_head P)"
  have hd: "p_head P < p_tail P" using assms(2,3) by (simp add: ring_ok_def)
  then have q: "queue P = ?s # queue (consume_one P)"
    by (simp add: queue_def consume_one_def Let_def upt_conv_Cons)
  obtain b sent where "chain b (queue P) sent" using assms(2) by (auto simp: ring_ok_def)
  then have "0 < sl_size ?s" by (simp add: q)
  moreover have "sl_result ?s = int (sl_size ?s)" using assms(1,4) by (simp add: smooth_def q)
  ultimately have "consume_one P = P\<lparr>p_in_flight := p_in_flight P - 1, p_head := p_head P + 1, p_total := p_total P + sl_size ?s\<rparr>"
    using assms(1) by (simp add: consume_one_def Let_def smooth_def)
  then have "p_live (consume_one P) = p_live P" "p_stop (consume_one P) = p_stop P" "p_discard (consume_one P) = p_discard P"
    "p_error (consume_one P) = p_error P" by simp_all
  then show ?thesis using assms(1) by (simp add: smooth_def q)
qed

lemma consume_smooth:
  "pipe_ok f off target buf P \<Longrightarrow> smooth P \<Longrightarrow> smooth (consume P)"
proof (induction P rule: consume.induct)
  case (1 P)
  have l: "p_live P" using 1 by (simp add: smooth_def)
  show ?case
    using 1 consume_one_smooth [of P f off target] consume_one_ok [OF 1(2) l]
    unfolding consume.simps [of P] by (auto simp: pipe_ok_def l)
qed

lemma issued_smooth:
  assumes "smooth P" and "ring_ok f off target P" and "p_in_flight P < SMB_PIPELINE_DEPTH"
  shows "smooth ((set_slot off n P)\<lparr>p_issue_off := i, p_in_flight := p_in_flight P + 1, p_tail := p_tail P + 1\<rparr>)"
proof -
  let ?Q = "(set_slot off n P)\<lparr>p_issue_off := i, p_in_flight := p_in_flight P + 1, p_tail := p_tail P + 1\<rparr>"
  have "queue ?Q = queue P @ [new_slot off n P]"
    using set_slot_queue [of P off n] assms(2,3) by (simp add: queue_def set_slot_def ring_ok_def)
  then show ?thesis using assms(1) by (auto simp: smooth_def new_slot_def set_slot_def)
qed

lemma issue_smooth:
  "obliging f E \<Longrightarrow> pipe_ok f off target buf P \<Longrightarrow> smooth P \<Longrightarrow> off + target < 2 ^ 64 \<Longrightarrow>
    smooth (issue E off target P) \<and> p_in_flight P \<le> p_in_flight (issue E off target P)"
proof (induction E off target P rule: issue.induct)
  case (1 E off target P)
  let ?n = "next_size E off target P"
  have l: "p_live P" using 1(4) by (simp add: smooth_def)
  have rc: "\<not> x_pread_async E (set_slot off ?n P) ?n < 0" using 1(2) by (simp add: obliging_def not_less)
  show ?case
  proof (cases "\<not> p_stop P \<and> p_in_flight P < SMB_PIPELINE_DEPTH \<and> u64_sub (p_issue_off P) off < target \<and> ?n \<noteq> 0")
    case False
    then show ?thesis using 1(4) rc unfolding issue.simps [of E off target P] by (auto simp: Let_def)
  next
    case True
    define Q where "Q = (set_slot off ?n P)\<lparr>p_issue_off := u64_add (p_issue_off P) ?n, p_in_flight := p_in_flight P + 1, p_tail := p_tail P + 1\<rparr>"
    have "pipe_ok f off target buf Q"
      using issued_ok(1) [OF 1(3) l _ 1(5) _ next_size_le] True by (simp add: Q_def)
    moreover have "smooth Q"
      unfolding Q_def using True 1(3) l by (intro issued_smooth [OF 1(4)]) (auto simp: pipe_ok_def)
    ultimately have "smooth (issue E off target Q) \<and> p_in_flight Q \<le> p_in_flight (issue E off target Q)"
      using True rc 1(1) [OF _ refl refl refl] 1(2,5) by (simp add: Q_def set_slot_def)
    moreover have "issue E off target P = issue E off target Q"
      using True rc unfolding issue.simps [of E off target P] by (simp add: Let_def Q_def set_slot_def)
    ultimately show ?thesis by (simp add: Q_def)
  qed
qed

text \<open>With nothing in flight and something to ask for, the issue loop asks.\<close>

lemma issue_asks:
  assumes "obliging f E" and "pipe_ok f off target buf P" and "smooth P" and "off + target < 2 ^ 64"
    and "p_in_flight (issue E off target P) = 0"
  shows "u64_sub (p_issue_off P) off = target \<and> p_in_flight P = 0 \<and> issue E off target P = P"
proof -
  let ?n = "next_size E off target P"
  have l: "p_live P" using assms(3) by (simp add: smooth_def)
  have fl: "p_in_flight P = 0" using issue_smooth [OF assms(1-4)] assms(5) by simp
  have r: "ring_ok f off target P" using assms(2) l by (simp add: pipe_ok_def)
  then obtain sent where "p_issue_off P = off + sent" "sent \<le> target" by (auto simp: ring_ok_def)
  then have s: "u64_sub (p_issue_off P) off \<le> target" using assms(4) by (simp add: u64_simps)
  have "u64_sub (p_issue_off P) off = target"
  proof (rule ccontr)
    assume "\<not> ?thesis"
    with s have lt: "u64_sub (p_issue_off P) off < target" by simp
    have "0 < x_credits E P" using assms(1) fl by (simp add: obliging_def)
    then have n: "0 < ?n"
      using lt by (auto simp: next_size_def Let_def pipeline_chunk_def SMB_PIPELINE_CHUNK_def)
    define Q where "Q = (set_slot off ?n P)\<lparr>p_issue_off := u64_add (p_issue_off P) ?n, p_in_flight := p_in_flight P + 1, p_tail := p_tail P + 1\<rparr>"
    have "\<not> p_stop P" using assms(3) by (simp add: smooth_def)
    moreover have "\<not> x_pread_async E (set_slot off ?n P) ?n < 0" using assms(1) by (simp add: obliging_def not_less)
    ultimately have "issue E off target P = issue E off target Q"
      using lt n fl unfolding issue.simps [of E off target P] by (simp add: Let_def Q_def set_slot_def SMB_PIPELINE_DEPTH_def)
    moreover have "pipe_ok f off target buf Q"
      using issued_ok(1) [OF assms(2) l _ assms(4) n next_size_le lt] fl by (simp add: Q_def SMB_PIPELINE_DEPTH_def)
    moreover have "smooth Q"
      unfolding Q_def using fl by (intro issued_smooth [OF assms(3) r]) (simp add: SMB_PIPELINE_DEPTH_def)
    ultimately have "p_in_flight Q \<le> p_in_flight (issue E off target P)"
      using issue_smooth [OF assms(1) _ _ assms(4)] by metis
    then show False using assms(5) by (simp add: Q_def)
  qed
  then show ?thesis using fl by (simp add: issue.simps [of E off target P])
qed

lemma pipeline_full:
  assumes "answers f E" and "obliging f E" and "off + target < 2 ^ 64" and "off + target \<le> length f"
    and "pipeline E off target P = Some Q" and "pipe_ok f off target buf P" and "smooth P"
  shows "p_total Q = target \<and> smooth Q"
proof -
  define I where "I = (\<lambda>(((E, off), target), P) Q. answers f E \<longrightarrow> obliging f E \<longrightarrow> off + target < 2 ^ 64 \<longrightarrow> off + target \<le> length f \<longrightarrow>
      pipe_ok f off target buf P \<longrightarrow> smooth P \<longrightarrow> p_total Q = target \<and> smooth Q)"
  have "I (((E, off), target), P) Q"
  proof (rule pipeline.raw_induct [of I, OF _ assms(5)])
    fix go E off target P Q
    assume IH: "\<And>E off target P Q. go E off target P = Some Q \<Longrightarrow> I (((E, off), target), P) Q"
      and run: "(if \<not> p_stop P \<and> p_total P < target \<or> 0 < p_in_flight P
        then let Q = issue E off target P in
          if p_in_flight Q = 0 then Some Q
          else wait_oldest E Q \<bind> (\<lambda>R. if p_error R \<noteq> 0 \<and> \<not> p_live R then Some R else go E off target (consume R))
        else Some P) = Some Q"
    have "p_total Q = target \<and> smooth Q"
      if a: "answers f E" "obliging f E" "off + target < 2 ^ 64" "off + target \<le> length f" "pipe_ok f off target buf P" "smooth P"
    proof -
      have l: "p_live P" using a(6) by (simp add: smooth_def)
      have r: "ring_ok f off target P" and g: "p_total P \<le> target" using a(5) l by (simp_all add: pipe_ok_def got_def)
      let ?R = "issue E off target P"
      consider (finished) "p_in_flight P = 0" "\<not> p_total P < target" "Q = P" | (none) "p_in_flight ?R = 0" "Q = ?R"
        | (more) R where "p_in_flight ?R \<noteq> 0" "wait_oldest E ?R = Some R" "(if p_error R \<noteq> 0 \<and> \<not> p_live R then Some R else go E off target (consume R)) = Some Q"
      proof (cases "(\<not> p_stop P \<and> p_total P < target) \<or> 0 < p_in_flight P")
        case False
        have "P = Q" using run [unfolded if_not_P [OF False]] by (rule option.inject [THEN iffD1])
        moreover have "\<not> p_stop P" using a(6) by (simp add: smooth_def)
        ultimately show ?thesis using False that(1) by blast
      next
        case True
        note run' = run [unfolded Let_def if_P [OF True]]
        show ?thesis
        proof (cases "p_in_flight ?R = 0")
          case True
          have "?R = Q" using run' [unfolded if_P [OF True]] by (rule option.inject [THEN iffD1])
          then show ?thesis by (rule that(2) [OF True sym])
        next
          case False
          then show ?thesis using run' that(3) unfolding if_not_P [OF False] bind_eq_Some_conv by blast
        qed
      qed
      then show ?thesis
      proof cases
        case finished
        then show ?thesis using g a(6) by simp
      next
        case none
        from issue_asks [OF a(2,5,6,3) none(1)]
        have i: "u64_sub (p_issue_off P) off = target" "p_in_flight P = 0" "?R = P" by auto
        obtain b sent where "p_issue_off P = off + sent" "sent \<le> target" "chain b (queue P) sent" "\<not> p_discard P \<longrightarrow> p_total P = b"
          using r by (auto simp: ring_ok_def)
        moreover have "queue P = []" using r i(2) by (simp add: queue_def ring_ok_def)
        ultimately have "p_total P = target" using i(1) a(3,6) by (simp add: u64_simps smooth_def)
        then show ?thesis using none i a(6) by simp
      next
        case more
        have i: "pipe_ok f off target buf ?R" "smooth ?R" using issue_ok [OF a(5) l a(3)] issue_smooth [OF a(2,5,6,3)] by simp_all
        then have h: "p_head ?R < p_tail ?R" using more(1) by (simp add: pipe_ok_def ring_ok_def smooth_def)
        have R: "smooth R" using wait_oldest_smooth [OF a(1,2) more(2) i a(4) h] .
        have "pipe_ok f off target buf R" using wait_oldest_ok [OF a(1) more(2) i(1)] i(2) by (simp add: smooth_def)
        then have "pipe_ok f off target buf (consume R)" "smooth (consume R)"
          using consume_ok consume_smooth R by (auto simp: smooth_def)
        then show ?thesis using more(3) R IH [of E off target "consume R" Q] a(1-4) by (simp add: I_def smooth_def)
      qed
    qed
    then show "I (((E, off), target), P) Q" by (simp add: I_def)
  qed
  then show ?thesis using assms by (simp add: I_def)
qed

lemma fresh_smooth: "smooth (fresh_pipe off buf t)"
  by (simp add: smooth_def fresh_pipe_def queue_def)

lemma session_read_complete:
  assumes "answers f E" and "obliging f E" and "prompt p E" and "ss_local S = None" and "ss_live S"
    and "ss_size S = length f" and "f \<noteq> []" and "length f < 2 ^ 64"
  shows "\<exists>S' buf'. smb_file_session_read E S buf count off = Some (S', buf', int (min count (length f - off))) \<and> ss_live S'"
proof (cases "count = 0")
  case True
  then show ?thesis using assms(5) by (simp add: smb_file_session_read_def)
next
  case False
  let ?t = "target_count (ss_size S) off count" and ?P = "fresh_pipe off buf (ss_time S)"
  have t: "?t = min count (length f - off)" using assms(6,7) by (auto simp: target_count_def)
  have live: "p_live ?P" by (simp add: fresh_pipe_def)
  obtain Q where Q: "pipeline E off ?t ?P = Some Q" "p_total Q = ?t" "smooth Q"
  proof (cases "off \<le> length f")
    case True
    then have i: "off + ?t \<le> length f" by (simp add: t)
    then have b: "off + ?t < 2 ^ 64" using assms(8) by simp
    obtain Q where Q: "pipeline E off ?t ?P = Some Q" using pipeline_ends [OF assms(1,3) b fresh_ok live] by blast
    then show ?thesis using that pipeline_full [OF assms(1,2) b i Q fresh_ok fresh_smooth] by blast
  next
    case False
    then have "?t = 0" by (simp add: t)
    then show ?thesis using that [of ?P] pipeline_nothing fresh_smooth by (simp add: fresh_pipe_def)
  qed
  then show ?thesis
    using False assms(4,5) by (auto simp: smb_file_session_read_def read_result_def smooth_def t)
qed

section \<open>The properties\<close>

text \<open>
  C25: whatever order and sizes the server answers in, and whether it fails or stops half way, a
  read of a file on a share that reports a positive count delivers exactly that many bytes of
  the file from the offset asked for, at most as many as were asked for, and leaves the memory
  behind the caller's buffer alone.
\<close>
theorem smb_read_exact:
  assumes "serves_file E S f" and "off + count < 2 ^ 64" and "smb_file_session_read E S buf count off = Some (S', buf', n)"
  shows "(0 < n \<longrightarrow> nat n \<le> count \<and> off + nat n \<le> length f \<and> mem_bytes buf' 0 (nat n) = extent off (nat n) f) \<and>
    (\<forall>i \<ge> count. buf' i = buf i)"
  using session_read_exact [OF assms(1) no_wrapI [OF assms(2)] assms(3)] .

text \<open>
  when a read returns, every request it issued has been answered and its slot taken from the
  ring, or the connection has been torn down: no later callback can write into the caller's
  buffer or the slots on the stack.
\<close>
theorem smb_read_leaves_nothing:
  assumes "answers f E" and "off + target < 2 ^ 64" and "pipeline E off target (fresh_pipe off buf t) = Some P"
  shows "p_in_flight P = 0 \<and> (p_live P \<longrightarrow> p_head P = p_tail P)"
  using pipeline_ok [OF assms fresh_ok] by (auto simp: fresh_pipe_def pipe_ok_def ring_ok_def)

text \<open>
  C26: with a server that takes requests and answers each within a bounded number of rounds of the
  event loop, a read of a share ends, and when no answer is short it delivers all that was asked
  for and lies inside the file.
\<close>
theorem smb_read_complete:
  assumes "answers f E" and "obliging f E" and "prompt p E" and "ss_local S = None" and "ss_live S"
    and "ss_size S = length f" and "f \<noteq> []" and "length f < 2 ^ 64"
  shows "\<exists>S' buf'. smb_file_session_read E S buf count off = Some (S', buf', int (min count (length f - off))) \<and> ss_live S'"
  using session_read_complete [OF assms] .

end
