(* ===== verification/SmbSource.thy ===== *)
theory SmbSource
  imports SmbReadClaims StreamBody
begin

text \<open>
  SMB sessions as package sources: the contract of ByteSource is interpreted on
  smb_file_session_read, so that what the range server's body loop does with a source holds for
  the private session of a connection. A small server that answers makes the hypotheses concrete.
\<close>

section \<open>Sessions meet the contract\<close>

text \<open>A session with the buffer its caller reads into; a read that never ends blocks.\<close>

definition smb_source_read :: "smb2 \<Rightarrow> smb_session \<times> mem \<Rightarrow> nat \<Rightarrow> nat \<Rightarrow> (smb_session \<times> mem) \<times> vs_result" where
  "smb_source_read E s off n =
     (case smb_file_session_read E (fst s) (snd s) n off of
        None \<Rightarrow> (s, VBlocked)
      | Some (S, buf, k) \<Rightarrow> ((S, buf), VRet k (mem_bytes buf 0 (nat k))))"

definition session_good :: "smb2 \<Rightarrow> u8 list \<Rightarrow> smb_session \<times> mem \<Rightarrow> bool" where
  "session_good E f s =
     (serves_file E (fst s) f \<and> ss_size (fst s) = length f \<and> f \<noteq> [] \<and> length f < 2 ^ 63)"

lemma session_no_wrap: "ss_size S = length f \<Longrightarrow> f \<noteq> [] \<Longrightarrow> length f < 2 ^ 63 \<Longrightarrow> no_wrap S off n"
  by (auto simp: no_wrap_def target_count_def Let_def)

lemma session_good_keeps:
  assumes "session_good E f s" and "smb_source_read E s off n = (s', r)"
  shows "session_good E f s'"
  using assms by (auto simp: session_good_def smb_source_read_def serves_file_def split: option.splits prod.splits
      dest: session_read_keeps)

interpretation smb_session_source: byte_source "smb_source_read E" "session_good E f" f for E f
proof unfold_locales
  fix s off n s' r k bs
  assume g: "session_good E f s"
  show "session_good E f s'" if "smb_source_read E s off n = (s', r)" by (rule session_good_keeps [OF g that])
  assume "smb_source_read E s off n = (s', VRet k bs)" and k: "0 < k"
  then obtain S buf where r: "smb_file_session_read E (fst s) (snd s) n off = Some (S, buf, k)" and bs: "bs = mem_bytes buf 0 (nat k)"
    by (auto simp: smb_source_read_def split: option.splits)
  have "serves_file E (fst s) f" "no_wrap (fst s) off n" using g by (simp_all add: session_good_def session_no_wrap)
  from session_read_exact [OF this r] k
  show "k = int (length bs) \<and> length bs \<le> n \<and> off + length bs \<le> length f \<and> bs = extent off (length bs) f"
    by (auto simp: bs length_extent)
qed

definition session_willing :: "(pipe \<Rightarrow> nat) \<Rightarrow> smb2 \<Rightarrow> u8 list \<Rightarrow> smb_session \<times> mem \<Rightarrow> bool" where
  "session_willing p E f s =
     (session_good E f s \<and> obliging f E \<and> prompt p E \<and> ss_local (fst s) = None \<and> ss_live (fst s))"

lemma willing_read:
  assumes "session_willing p E f s"
  obtains S buf where "smb_file_session_read E (fst s) (snd s) n off = Some (S, buf, int (min n (length f - off)))" "ss_live S"
  using session_read_complete [of f E p "fst s" "snd s" n off] assms
  by (auto simp: session_willing_def session_good_def serves_file_def)

interpretation willing_session: full_source "smb_source_read E" "session_willing p E f" f for p E f
proof unfold_locales
  fix s off n s' r k bs
  assume w: "session_willing p E f s"
  then have g: "session_good E f s" by (simp add: session_willing_def)
  show "session_willing p E f s'" if r: "smb_source_read E s off n = (s', r)"
    using session_good_keeps [OF g r] w r
    by (rule_tac n = n and off = off in willing_read [OF w])
      (auto simp: session_willing_def smb_source_read_def dest: session_read_keeps)
  show "k = int (length bs) \<and> length bs \<le> n \<and> off + length bs \<le> length f \<and> bs = extent off (length bs) f"
    if "n < 2 ^ 64" "smb_source_read E s off n = (s', VRet k bs)" "0 < k"
    by (rule smb_session_source.rd_exact [OF g that])
  show "\<exists>s' k bs. smb_source_read E s off n = (s', VRet k bs) \<and> 0 < k" if "off < length f" "0 < n"
    using that by (rule_tac n = n and off = off in willing_read [OF w]) (auto simp: smb_source_read_def)
qed

text \<open>
  C27: the body of a range that is read over a connection's private SMB session is sent whole and
  is the range of the file, byte for byte, when the server keeps answering, the peer accepts and
  nobody stops the stream.
\<close>
theorem smb_range_streamed:
  assumes "session_willing p E f (S, buf)" and "start \<le> end" and "end < length f"
    and "keeps_running N" and "sends_ok N"
  shows "\<exists>N' s'. body_loop (smb_source_read E) end N (S, buf) sbuf start = Some (N', s', At (end + 1)) \<and>
    nt_out N' = nt_out N @ extent start (end + 1 - start) f"
proof -
  have g: "session_good E f (S, buf)" and l: "length f < 2 ^ 63" using assms(1) by (simp_all add: session_willing_def session_good_def)
  obtain N' s' where r: "body_loop (smb_source_read E) end N (S, buf) sbuf start = Some (N', s', At (end + 1))"
    using willing_session.body_loop_complete [OF assms(1,3) l _ assms(4,5), of start sbuf] assms(2) by auto
  moreover from smb_session_source.body_loop_exact [OF g assms(3) l, of start N sbuf] assms(2) r
  have "nt_out N' = nt_out N @ extent start (end + 1 - start) f" by auto
  ultimately show ?thesis by blast
qed

section \<open>A server\<close>

text \<open>It answers the oldest request in flight, two bytes at a time.\<close>

definition demo_smb :: "u8 list \<Rightarrow> smb2" where
  "demo_smb f =
     \<lparr>x_max_read = 2, x_large_mtu = True, x_credits = (\<lambda>_. 4), x_pread_async = (\<lambda>_ _. 0),
      x_wait = (\<lambda>P. let i = ring (p_head P); s = p_slots P ! i in
        if p_head P < p_tail P \<and> \<not> sl_done s \<and> sl_off s + sl_size s \<le> length f
        then Ready True [(i, int (sl_size s), extent (sl_off s) (sl_size s) f)] else Ready False [])\<rparr>"

definition demo_smb_session :: "nat \<Rightarrow> smb_session" where
  "demo_smb_session n = \<lparr>ss_local = None, ss_live = True, ss_size = n, ss_time = 0\<rparr>"

lemma demo_answers: "answers f (demo_smb f)"
  by (auto simp: answers_def demo_smb_def callbacks_def good_def Let_def extent_def)

lemma demo_obliging: "obliging f (demo_smb f)"
proof -
  have "p_slots P ! ring (p_head P) \<in> set (queue P)" if "waiting P" for P
    using that by (force simp: waiting_def queue_def)
  then show ?thesis
    by (auto simp: obliging_def demo_smb_def wait_round_def callbacks_def Let_def waiting_def)
qed

lemma demo_prompt: "prompt (\<lambda>_. 0) (demo_smb f)"
  by (auto simp: prompt_def waiting_def demo_smb_def wait_round_def deliver_def Let_def)

lemma demo_willing: "f \<noteq> [] \<Longrightarrow> length f < 2 ^ 63 \<Longrightarrow> session_willing (\<lambda>_. 0) (demo_smb f) f (demo_smb_session (length f), buf)"
  by (simp add: session_willing_def session_good_def serves_file_def demo_smb_session_def demo_answers demo_obliging demo_prompt)

definition demo_bytes :: "u8 list" where
  "demo_bytes = [10, 20, 30, 40, 50]"

lemma smb_read_complete_witness:
  "\<exists>S' buf'. smb_file_session_read (demo_smb demo_bytes) (demo_smb_session 5) (\<lambda>_. 0) 9 1 = Some (S', buf', 4) \<and> ss_live S'"
  using smb_read_complete [OF demo_answers demo_obliging demo_prompt, of "demo_smb_session 5" demo_bytes "\<lambda>_. 0" 9 1]
  by (simp add: demo_smb_session_def demo_bytes_def)

lemma demo_session_read:
  "\<exists>S' buf'. smb_file_session_read (demo_smb demo_bytes) (demo_smb_session 5) (\<lambda>_. 0) 9 1 = Some (S', buf', 4)"
  using session_read_complete [OF demo_answers demo_obliging demo_prompt, of "demo_smb_session 5" demo_bytes "\<lambda>_. 0" 9 1]
  by (auto simp: demo_smb_session_def demo_bytes_def)

lemma smb_read_exact_witness:
  "\<exists>S' buf'. smb_file_session_read (demo_smb demo_bytes) (demo_smb_session 5) (\<lambda>_. 0) 9 1 = Some (S', buf', 4) \<and>
     mem_bytes buf' 0 4 = [20, 30, 40, 50]"
proof -
  obtain S' buf' where r: "smb_file_session_read (demo_smb demo_bytes) (demo_smb_session 5) (\<lambda>_. 0) 9 1 = Some (S', buf', 4)"
    using demo_session_read by blast
  have "serves_file (demo_smb demo_bytes) (demo_smb_session 5) demo_bytes"
    by (simp add: serves_file_def demo_smb_session_def demo_answers)
  from smb_read_exact [OF this _ r] have "mem_bytes buf' 0 4 = [20, 30, 40, 50]"
    by (simp add: extent_def demo_bytes_def)
  with r show ?thesis by blast
qed

lemma smb_read_leaves_nothing_witness:
  "\<exists>P. pipeline (demo_smb demo_bytes) 1 4 (fresh_pipe 1 (\<lambda>_. 0) 0) = Some P \<and> p_in_flight P = 0"
proof -
  have "\<exists>P. pipeline (demo_smb demo_bytes) 1 4 (fresh_pipe 1 (\<lambda>_. 0) 0) = Some P"
    by (rule pipeline_ends [OF demo_answers demo_prompt _ fresh_ok]) (simp_all add: fresh_pipe_def)
  then obtain P where P: "pipeline (demo_smb demo_bytes) 1 4 (fresh_pipe 1 (\<lambda>_. 0) 0) = Some P" by blast
  with smb_read_leaves_nothing [OF demo_answers _ P] show ?thesis by auto
qed

lemma smb_range_streamed_witness:
  "\<exists>N' s'. body_loop (smb_source_read (demo_smb demo_bytes)) 3 \<lparr>nt_recv = [], nt_send = [], nt_run = [], nt_out = [], nt_streamed = 0\<rparr>
      (demo_smb_session 5, \<lambda>_. 0) [] 1 = Some (N', s', At 4) \<and> nt_out N' = [20, 30, 40]"
proof -
  have d: "length demo_bytes = 5" "demo_bytes \<noteq> []" "extent (Suc 0) 3 demo_bytes = [20, 30, 40]"
    by (simp_all add: demo_bytes_def extent_def)
  have "session_willing (\<lambda>_. 0) (demo_smb demo_bytes) demo_bytes (demo_smb_session 5, \<lambda>_. 0)"
    using demo_willing [of demo_bytes "\<lambda>_. 0"] by (simp add: d)
  from smb_range_streamed [OF this, of 1 3 "\<lparr>nt_recv = [], nt_send = [], nt_run = [], nt_out = [], nt_streamed = 0\<rparr>" "[]"]
  show ?thesis by (simp add: d keeps_running_def sends_ok_def)
qed

end
