(* ===== verification/SmbUrl.thy ===== *)
theory SmbUrl
  imports PkgJson
begin

text \<open>
  Names of shares and of files on them (src/src/smb_client.c): share configurations and how they
  are cleaned, smb:// URLs, and which configuration belongs to a URL. Strings are C strings.
\<close>

section \<open>Configurations\<close>

definition SMB_DEFAULT_PORT :: int where "SMB_DEFAULT_PORT = 445"

record smb_share_config =
  sc_enabled :: bool
  sc_browse_only :: bool
  sc_id :: string
  sc_label :: string
  sc_server :: string
  sc_port :: int
  sc_share :: string
  sc_path :: string
  sc_username :: string
  sc_password :: string
  sc_workgroup :: string
  sc_read_only :: bool

definition blank4 :: "char \<Rightarrow> bool" where
  "blank4 c = (c = CHR '' '' \<or> c = CHR 0x09 \<or> c = CHR 0x0D \<or> c = CHR 0x0A)"

definition separator :: "char \<Rightarrow> bool" where
  "separator c = (c = CHR ''/'' \<or> c = BSLASH)"

definition trimmed :: "char \<Rightarrow> bool" where
  "trimmed c = (blank4 c \<or> separator c)"

definition strip_end :: "(char \<Rightarrow> bool) \<Rightarrow> string \<Rightarrow> string" where
  "strip_end P s = rev (dropWhile P (rev s))"

text \<open>atoi: strtol cut to an int.\<close>

definition atoi :: "string \<Rightarrow> int" where
  "atoi s = to_int (strtol s)"

section \<open>Cleaning a configuration\<close>

definition clean_server :: "string \<Rightarrow> string" where
  "clean_server srv =
     (let s = dropWhile blank4 srv;
          s = (if iprefix ''smb://'' s then drop 6 s else s)
      in strip_end trimmed (c_trunc 128 (dropWhile separator s)))"

text \<open>What follows the host in a server field: a share and a path, each empty when missing.\<close>

definition server_host :: "string \<Rightarrow> string" where
  "server_host srv = takeWhile (\<lambda>c. \<not> separator c) srv"

definition server_extra :: "string \<Rightarrow> string" where
  "server_extra srv = dropWhile separator (dropWhile (\<lambda>c. \<not> separator c) srv)"

definition extra_share :: "string \<Rightarrow> string" where
  "extra_share srv = c_trunc 128 (takeWhile (\<lambda>c. \<not> separator c) (server_extra srv))"

definition extra_path :: "string \<Rightarrow> string" where
  "extra_path srv = c_trunc 256 (dropWhile separator (dropWhile (\<lambda>c. \<not> separator c) (server_extra srv)))"

text \<open>The host and the text behind the colon of the port, when there is one.\<close>

definition count_colons :: "string \<Rightarrow> nat" where
  "count_colons s = length (filter (\<lambda>c. c = CHR '':'') s)"

definition after_last_colon :: "string \<Rightarrow> string" where
  "after_last_colon s = rev (takeWhile (\<lambda>c. c \<noteq> CHR '':'') (rev s))"

definition port_text :: "string \<Rightarrow> (string \<times> string) option" where
  "port_text host =
     (let t = after_last_colon host; h = take (length host - length t - 1) host in
      if count_colons host = 0 \<or> h = [] then None
      else if count_colons host = 1 then Some (h, t)
      else if CHR '']'' \<in> set host \<and> CHR '']'' \<notin> set t then Some (h, t) else None)"

definition clean_host :: "string \<Rightarrow> int \<Rightarrow> string \<times> int" where
  "clean_host host port =
     (case port_text host of
        None \<Rightarrow> (host, port)
      | Some (h, t) \<Rightarrow>
          (if t \<noteq> [] \<and> list_all is_digit t
           then (h, if 0 < atoi t \<and> (port \<le> 0 \<or> port = SMB_DEFAULT_PORT) then atoi t else port)
           else (host, port)))"

definition clean_share :: "string \<Rightarrow> string" where
  "clean_share s = strip_end trimmed (dropWhile trimmed s)"

text \<open>The copy loop of a path: backslashes become slashes, one slash for several, n places left.\<close>

fun copy_path :: "nat \<Rightarrow> bool \<Rightarrow> string \<Rightarrow> string" where
  "copy_path n after_slash [] = []"
| "copy_path n after_slash (c # s) =
     (if n = 0 then []
      else let ch = (if c = BSLASH then CHR ''/'' else c) in
           if ch = CHR ''/'' \<and> after_slash then copy_path n after_slash s
           else ch # copy_path (n - 1) (ch = CHR ''/'') s)"

definition clean_path :: "string \<Rightarrow> string" where
  "clean_path s = strip_end trimmed (copy_path 255 False (dropWhile trimmed s))"

definition join_path :: "string \<Rightarrow> string \<Rightarrow> string" where
  "join_path sub path =
     (if sub = [] then path else if path = [] then c_trunc 256 sub else c_trunc 256 (sub @ CHR ''/'' # path))"

definition clean_name :: "string \<Rightarrow> string" where
  "clean_name s = strip_end blank4 (dropWhile (\<lambda>c. c = CHR '' '' \<or> c = CHR 0x09) s)"

definition smb_client_sanitize_config :: "smb_share_config \<Rightarrow> smb_share_config" where
  "smb_client_sanitize_config c =
     (let srv = clean_server (sc_server c);
          (host, port) = clean_host (server_host srv) (sc_port c);
          share = (if sc_share c = [] then extra_share srv else sc_share c);
          wg = clean_name (sc_workgroup c)
      in c\<lparr>sc_server := host, sc_share := clean_share share,
           sc_path := join_path (clean_path (extra_path srv)) (clean_path (sc_path c)),
           sc_username := clean_name (sc_username c),
           sc_workgroup := (if wg = [] then ''WORKGROUP'' else wg),
           sc_port := (if port \<le> 0 then SMB_DEFAULT_PORT else port)\<rparr>)"

section \<open>URLs\<close>

text \<open>The parts of a URL as they end up in buffers of 128, 128 and 256 characters; None is -1.\<close>

record smb_url =
  su_server :: string
  su_port :: int
  su_share :: string
  su_path :: string

definition split_at :: "char \<Rightarrow> string \<Rightarrow> string \<times> string option" where
  "split_at c s = (case strchr s c of None \<Rightarrow> (s, None) | Some t \<Rightarrow> (take (length s - length t) s, Some (tl t)))"

definition smb_client_parse_url :: "string \<Rightarrow> smb_url option" where
  "smb_client_parse_url url =
     (if \<not> starts_with ''smb://'' url then None
      else let (hp, rest) = split_at CHR ''/'' (drop 6 url);
               p = (case rest of None \<Rightarrow> [] | Some p \<Rightarrow> p);
               (host, prt) = split_at CHR '':'' (c_trunc 160 hp);
               port = (case prt of None \<Rightarrow> SMB_DEFAULT_PORT | Some t \<Rightarrow> if 0 < atoi t then atoi t else SMB_DEFAULT_PORT);
               (share, more) = split_at CHR ''/'' p
           in Some \<lparr>su_server = c_trunc 128 host, su_port = port, su_share = c_trunc 128 share,
                    su_path = (case more of None \<Rightarrow> [] | Some t \<Rightarrow> c_trunc 256 (dropWhile (\<lambda>c. c = CHR ''/'') t))\<rparr>)"

text \<open>The URL a scan reports for a file (into a buffer of 1024 characters).\<close>

definition package_url :: "smb_share_config \<Rightarrow> string \<Rightarrow> string" where
  "package_url c child =
     c_trunc 1024
       (if 0 < sc_port c \<and> sc_port c \<noteq> SMB_DEFAULT_PORT
        then ''smb://'' @ sc_server c @ '':'' @ show_int (sc_port c) @ ''/'' @ sc_share c @ ''/'' @ child
        else ''smb://'' @ sc_server c @ ''/'' @ sc_share c @ ''/'' @ child)"

section \<open>The configuration of a URL\<close>

definition url_matches :: "smb_url \<Rightarrow> smb_share_config \<Rightarrow> bool" where
  "url_matches u c =
     (let k = smb_client_sanitize_config c in
      sc_enabled c \<and> (ieq (sc_server k) (su_server u) \<and> ieq (sc_share k) (su_share u) \<or> ieq (sc_id k) (su_server u)))"

definition guest_config :: "smb_url \<Rightarrow> smb_share_config" where
  "guest_config u =
     \<lparr>sc_enabled = True, sc_browse_only = False, sc_id = [],
      sc_label = c_trunc 64 (take 30 (su_server u) @ ''/'' @ take 30 (su_share u)),
      sc_server = su_server u, sc_port = su_port u, sc_share = su_share u, sc_path = [],
      sc_username = [], sc_password = [], sc_workgroup = ''WORKGROUP'', sc_read_only = False\<rparr>"

text \<open>The settings are those of pkg_cache_get_settings.\<close>

definition smb_client_find_share_cfg :: "smb_share_config list \<Rightarrow> string \<Rightarrow> smb_share_config option" where
  "smb_client_find_share_cfg settings url =
     (case smb_client_parse_url url of None \<Rightarrow> None
      | Some u \<Rightarrow> (case List.find (url_matches u) settings of Some c \<Rightarrow> Some c | None \<Rightarrow> Some (guest_config u)))"

text \<open>What smb_file_session_open opens: the cleaned configuration smb_connect uses, and the path.\<close>

definition opened_file :: "smb_share_config list \<Rightarrow> string \<Rightarrow> (smb_share_config \<times> string) option" where
  "opened_file settings url =
     (case (smb_client_find_share_cfg settings url, smb_client_parse_url url) of
        (Some c, Some u) \<Rightarrow> Some (smb_client_sanitize_config c, dropWhile (\<lambda>c. c = CHR ''/'') (su_path u))
      | _ \<Rightarrow> None)"

section \<open>What a clean configuration looks like\<close>

definition plain_path :: "string \<Rightarrow> bool" where
  "plain_path s = (BSLASH \<notin> set s \<and> (\<forall>a b. s \<noteq> a @ ''//'' @ b) \<and> (s \<noteq> [] \<longrightarrow> hd s \<noteq> CHR ''/''))"

end
