(* ===== verification/SmbDir.thy ===== *)
theory SmbDir
  imports SmbUrl "HOL-Library.List_Lexorder" "HOL-Library.Product_Lexorder" "HOL-Library.Char_ord"
begin

text \<open>
  Directories of a share (src/src/smb_client.c): one page of a sorted listing for the browser,
  and the recursive scan for packages. What smb2_opendir and smb2_readdir give is a parameter: the
  entries of a path, or None for a directory that does not open.
\<close>

datatype dirent_type = SMB2_TYPE_FILE | SMB2_TYPE_DIRECTORY | SMB2_TYPE_LINK

record smb2dirent =
  dn_name :: string
  dn_type :: dirent_type
  dn_size :: nat
  dn_mtime :: nat

definition MAX_SMB_BROWSE_ENTRIES :: nat where "MAX_SMB_BROWSE_ENTRIES = 256"

definition pkg_name :: "string \<Rightarrow> bool" where
  "pkg_name name = (4 < length name \<and> ieq (drop (length name - 4) name) ''.pkg'')"

section \<open>The order of a listing\<close>

record smb_dir_entry =
  de_name :: string
  de_is_dir :: bool
  de_size :: nat
  de_mtime :: nat

text \<open>strcmp as a difference of characters; strcasecmp is strcmp of the lower case.\<close>

fun strcmp :: "string \<Rightarrow> string \<Rightarrow> int" where
  "strcmp [] [] = 0"
| "strcmp [] (d # t) = - of_char d"
| "strcmp (c # s) [] = of_char c"
| "strcmp (c # s) (d # t) = (if c = d then strcmp s t else of_char c - of_char d)"

definition strcasecmp :: "string \<Rightarrow> string \<Rightarrow> int" where
  "strcasecmp a b = strcmp (map lower a) (map lower b)"

definition smb_dir_entry_cmp :: "smb_dir_entry \<Rightarrow> smb_dir_entry \<Rightarrow> int" where
  "smb_dir_entry_cmp a b =
     (if de_is_dir a \<noteq> de_is_dir b then of_bool (de_is_dir b) - of_bool (de_is_dir a)
      else if strcasecmp (de_name a) (de_name b) \<noteq> 0 then strcasecmp (de_name a) (de_name b)
      else strcmp (de_name a) (de_name b))"

text \<open>The order as a key of the library's linear orders, and qsort by it.\<close>

definition entry_rank :: "smb_dir_entry \<Rightarrow> bool \<times> string \<times> string" where
  "entry_rank e = (\<not> de_is_dir e, map lower (de_name e), de_name e)"

definition qsort_entries :: "smb_dir_entry list \<Rightarrow> smb_dir_entry list" where
  "qsort_entries = sort_key entry_rank"

section \<open>One page\<close>

text \<open>The cursor "D:name" or "F:name": None for one that is refused, Some None for none.\<close>

definition page_cursor :: "string \<Rightarrow> smb_dir_entry option option" where
  "page_cursor after =
     (if after = [] then Some None
      else if (hd after = CHR ''D'' \<or> hd after = CHR ''F'') \<and> take 1 (tl after) = '':'' \<and> length (drop 2 after) < 256
      then Some (Some \<lparr>de_name = drop 2 after, de_is_dir = (hd after = CHR ''D''), de_size = 0, de_mtime = 0\<rparr>)
      else None)"

text \<open>The directory asked for, below the root of the share.\<close>

definition browse_target :: "string \<Rightarrow> string" where
  "browse_target raw =
     strip_end (\<lambda>c. c = CHR ''/'') (copy_path 511 False (dropWhile separator raw))"

function path_ok :: "string \<Rightarrow> bool" where
  "path_ok s =
     (if s = [] then True
      else let seg = takeWhile (\<lambda>c. c \<noteq> CHR ''/'') s; rest = dropWhile (\<lambda>c. c \<noteq> CHR ''/'') s in
           if seg = ''.'' \<or> seg = ''..'' then False
           else if rest = [] then True else path_ok (tl rest))"
  by pat_completeness auto
termination
proof (relation "measure length", simp)
  fix s :: string and seg rest
  assume s: "s \<noteq> []" "rest = dropWhile (\<lambda>c. c \<noteq> CHR ''/'') s" "rest \<noteq> []"
  have "length rest \<le> length s" unfolding s(2) by (rule length_dropWhile_le)
  then have "length (tl rest) < length s" using s(3) by (cases rest) auto
  then show "(tl rest, s) \<in> measure length" by simp
qed

declare path_ok.simps [simp del]

text \<open>An entry as it is listed, when it is.\<close>

definition listed :: "smb2dirent \<Rightarrow> smb_dir_entry option" where
  "listed e =
     (if dn_name e = ''.'' \<or> dn_name e = ''..'' \<or> take 1 (dn_name e) = ''.'' \<or> dn_name e = [] then None
      else if dn_type e \<noteq> SMB2_TYPE_DIRECTORY \<and> \<not> pkg_name (dn_name e) then None
      else Some \<lparr>de_name = c_trunc 256 (dn_name e), de_is_dir = (dn_type e = SMB2_TYPE_DIRECTORY),
                 de_size = dn_size e, de_mtime = dn_mtime e\<rparr>)"

text \<open>The insertion into out[max_out], and has_more.\<close>

definition insert_listed :: "nat \<Rightarrow> smb_dir_entry \<Rightarrow> smb_dir_entry list \<times> bool \<Rightarrow> smb_dir_entry list \<times> bool" where
  "insert_listed m e st =
     (case st of (out, has_more) \<Rightarrow>
        let pos = length (takeWhile (\<lambda>x. smb_dir_entry_cmp x e < 0) out) in
        if m \<le> pos then (out, has_more \<or> length out = m)
        else (take m (take pos out @ e # drop pos out), has_more \<or> length out = m))"

definition page_entry :: "nat \<Rightarrow> smb_dir_entry option \<Rightarrow> smb2dirent \<Rightarrow> smb_dir_entry list \<times> bool \<Rightarrow> smb_dir_entry list \<times> bool" where
  "page_entry m cursor e st =
     (case listed e of None \<Rightarrow> st
      | Some d \<Rightarrow>
          (case cursor of
             Some c \<Rightarrow> (if smb_dir_entry_cmp d c \<le> 0 then st else insert_listed m d st)
           | None \<Rightarrow> insert_listed m d st))"

text \<open>
  The answer: None is -1 (a bad cursor, arguments, path or directory); dirs is the share the
  cleaned configuration connects to, None when it does not.
\<close>

type_synonym share = "string \<Rightarrow> smb2dirent list option"

definition smb_client_list_dir_page ::
    "(smb_share_config \<Rightarrow> share option) \<Rightarrow> smb_share_config \<Rightarrow> string \<Rightarrow> string \<Rightarrow> nat \<Rightarrow> (smb_dir_entry list \<times> bool) option" where
  "smb_client_list_dir_page connect cfg subpath after max_out =
     (case page_cursor after of None \<Rightarrow> None
      | Some cursor \<Rightarrow>
          (let m = min max_out MAX_SMB_BROWSE_ENTRIES; c = smb_client_sanitize_config cfg;
               target = browse_target (if subpath \<noteq> [] then subpath else sc_path c) in
           if max_out = 0 \<or> sc_server c = [] \<or> sc_share c = [] \<or> \<not> path_ok target then None
           else case connect c of None \<Rightarrow> None
           | Some dirs \<Rightarrow>
               (case dirs target of None \<Rightarrow> None
                | Some es \<Rightarrow> Some (apfst qsort_entries (fold (page_entry m cursor) es ([], False))))))"

section \<open>The scan for packages\<close>

record found_pkg =
  fp_url :: string
  fp_name :: string
  fp_size :: nat
  fp_mtime :: nat

definition child_path :: "string \<Rightarrow> string \<Rightarrow> string" where
  "child_path dir name = c_trunc 512 (if dir \<noteq> [] then dir @ CHR ''/'' # name else name)"

definition found_at :: "smb_share_config \<Rightarrow> string \<Rightarrow> smb2dirent \<Rightarrow> found_pkg" where
  "found_at c child e = \<lparr>fp_url = package_url c child, fp_name = dn_name e, fp_size = dn_size e, fp_mtime = dn_mtime e\<rparr>"

text \<open>
  The loop over a directory: the packages reported to the callback, and the count or -1. The
  scan of a subdirectory is its argument; skip is skip_unreadable_subdirs.
\<close>

fun scan_entries ::
    "(string \<Rightarrow> found_pkg list \<times> int) \<Rightarrow> smb_share_config \<Rightarrow> bool \<Rightarrow> string \<Rightarrow> smb2dirent list \<Rightarrow> int \<Rightarrow> found_pkg list \<times> int" where
  "scan_entries sub c skip dir [] count = ([], count)"
| "scan_entries sub c skip dir (e # es) count =
     (if take 1 (dn_name e) = ''.'' then scan_entries sub c skip dir es count
      else case dn_type e of
        SMB2_TYPE_DIRECTORY \<Rightarrow>
          (case sub (child_path dir (dn_name e)) of (found, n) \<Rightarrow>
             if n < 0
             then (if skip then (case scan_entries sub c skip dir es count of (later, k) \<Rightarrow> (found @ later, k))
                   else (found, - 1))
             else (case scan_entries sub c skip dir es (count + n) of (later, k) \<Rightarrow> (found @ later, k)))
      | SMB2_TYPE_FILE \<Rightarrow>
          (if pkg_name (dn_name e)
           then (case scan_entries sub c skip dir es (count + 1) of (later, k) \<Rightarrow>
                   (found_at c (child_path dir (dn_name e)) e # later, k))
           else scan_entries sub c skip dir es count)
      | SMB2_TYPE_LINK \<Rightarrow> scan_entries sub c skip dir es count)"

text \<open>The first argument is how many levels are left: 5 at the start, where depth is 0.\<close>

fun scan_smb_dir :: "nat \<Rightarrow> share \<Rightarrow> smb_share_config \<Rightarrow> bool \<Rightarrow> string \<Rightarrow> found_pkg list \<times> int" where
  "scan_smb_dir 0 dirs c skip sub_dir = ([], 0)"
| "scan_smb_dir (Suc n) dirs c skip sub_dir =
     (let dir = dropWhile (\<lambda>ch. ch = CHR ''/'') sub_dir in
      case dirs dir of None \<Rightarrow> ([], - 1)
      | Some es \<Rightarrow> scan_entries (scan_smb_dir n dirs c skip) c skip dir es 0)"

definition smb_client_scan_share ::
    "(smb_share_config \<Rightarrow> share option) \<Rightarrow> smb_share_config \<Rightarrow> found_pkg list \<times> int" where
  "smb_client_scan_share connect cfg =
     (if \<not> sc_enabled cfg then ([], 0)
      else let c = smb_client_sanitize_config cfg in
           case connect c of None \<Rightarrow> ([], - 1)
           | Some dirs \<Rightarrow> scan_smb_dir 5 dirs c (sc_path c = []) (sc_path c))"

definition smb_client_count_pkg_files :: "(smb_share_config \<Rightarrow> share option) \<Rightarrow> smb_share_config \<Rightarrow> int" where
  "smb_client_count_pkg_files connect cfg = snd (smb_client_scan_share connect cfg)"

end
