(* ===== verification/SmbDirClaims.thy ===== *)
theory SmbDirClaims
  imports SmbDir "HOL-Library.Multiset"
begin

text \<open>
  What the listings, scans and names of shares promise: pages are consecutive pieces of one sorted
  listing, a browser stays below the root of the share, a scan finds exactly the packages of the
  first five levels, and the URL it reports opens the file it was made for.
\<close>

section \<open>The order\<close>

lemma of_char_pos: "c \<noteq> NUL \<Longrightarrow> 0 < (of_char c :: int)"
proof -
  assume "c \<noteq> NUL"
  have "of_char c \<noteq> (0::nat)"
  proof
    assume "of_char c = (0::nat)"
    then have "char_of (of_char c :: nat) = (char_of (0::nat) :: char)" by (rule arg_cong)
    then have "c = NUL" unfolding char_of_char by (simp add: NUL_def char_of_def)
    with \<open>c \<noteq> NUL\<close> show False by simp
  qed
  then have "0 < int (of_char c)" by simp
  then show ?thesis unfolding of_nat_of_char .
qed

lemma strcmp_order:
  "NUL \<notin> set a \<Longrightarrow> NUL \<notin> set b \<Longrightarrow> (strcmp a b < 0 \<longleftrightarrow> a < b) \<and> (strcmp a b = 0 \<longleftrightarrow> a = b)"
proof (induction a b rule: strcmp.induct)
  case (4 c s d t)
  have "(of_char c :: int) < of_char d \<longleftrightarrow> c < d"
  proof -
    have "(of_char c :: int) < of_char d \<longleftrightarrow> int (of_char c) < int (of_char d)" by (simp only: of_nat_of_char)
    also have "\<dots> \<longleftrightarrow> (of_char c :: nat) < of_char d" by (rule of_nat_less_iff)
    finally show ?thesis by (simp only: less_char_def)
  qed
  moreover have "(of_char c :: int) = of_char d \<longleftrightarrow> c = d" by simp
  ultimately show ?case using 4 by auto
next
  case (2 d t)
  then show ?case using of_char_pos [of d] by auto
next
  case (3 c s)
  then show ?case using of_char_pos [of c] by auto
qed simp

lemma lower_NUL: "c \<noteq> NUL \<Longrightarrow> lower c \<noteq> NUL"
  using lower_punct [of c NUL] by (auto simp: NUL_def)

lemma lower_no_NUL: "NUL \<notin> set s \<Longrightarrow> NUL \<notin> set (map lower s)"
  using lower_NUL by (metis (mono_tags) imageE list.set_map)

definition named :: "smb_dir_entry \<Rightarrow> bool" where
  "named e = (NUL \<notin> set (de_name e))"

lemma entry_cmp:
  assumes "named a" and "named b"
  shows "smb_dir_entry_cmp a b < 0 \<longleftrightarrow> entry_rank a < entry_rank b"
    and "smb_dir_entry_cmp a b \<le> 0 \<longleftrightarrow> entry_rank a \<le> entry_rank b"
proof -
  have n: "(strcmp (de_name a) (de_name b) < 0 \<longleftrightarrow> de_name a < de_name b) \<and> (strcmp (de_name a) (de_name b) = 0 \<longleftrightarrow> de_name a = de_name b)"
    using assms by (intro strcmp_order) (simp_all add: named_def)
  have l: "(strcasecmp (de_name a) (de_name b) < 0 \<longleftrightarrow> map lower (de_name a) < map lower (de_name b)) \<and>
      (strcasecmp (de_name a) (de_name b) = 0 \<longleftrightarrow> map lower (de_name a) = map lower (de_name b))"
    unfolding strcasecmp_def using assms lower_no_NUL by (intro strcmp_order) (simp_all add: named_def)
  show lt: "smb_dir_entry_cmp a b < 0 \<longleftrightarrow> entry_rank a < entry_rank b"
    using n l by (auto simp: smb_dir_entry_cmp_def entry_rank_def less_prod_def less_le)
  have "smb_dir_entry_cmp a b = 0 \<longleftrightarrow> entry_rank a = entry_rank b"
    using n l by (auto simp: smb_dir_entry_cmp_def entry_rank_def of_bool_def)
  then show "smb_dir_entry_cmp a b \<le> 0 \<longleftrightarrow> entry_rank a \<le> entry_rank b" using lt by (auto simp: le_less)
qed

section \<open>Filling a page\<close>

lemma insort_key_place:
  "insort_key f x ys = takeWhile (\<lambda>y. f y < f x) ys @ x # dropWhile (\<lambda>y. f y < f x) ys"
  by (induction ys) (auto simp: not_le)

lemma take_insort_take: "take m (insort_key f x (take m ys)) = take m (insort_key f x ys)"
proof (induction ys arbitrary: m)
  case (Cons y ys)
  have t: "take n (y # take n ys) = take n (y # ys)" for n by (cases n) (simp_all add: min_def)
  show ?case using Cons t by (cases m) auto
qed simp

lemma insert_listed_insort:
  assumes "list_all named out" and "named e" and "length out \<le> m"
  shows "insert_listed m e (out, h) = (take m (insort_key entry_rank e out), h \<or> length out = m)"
proof -
  have tw: "takeWhile (\<lambda>x. smb_dir_entry_cmp x e < 0) out = takeWhile (\<lambda>x. entry_rank x < entry_rank e) out"
    using assms(1,2) entry_cmp(1) by (intro takeWhile_cong) (auto simp: list_all_iff)
  define p where "p = takeWhile (\<lambda>x. entry_rank x < entry_rank e) out"
  have o': "out = p @ dropWhile (\<lambda>x. entry_rank x < entry_rank e) out" by (simp add: p_def)
  have i: "insort_key entry_rank e out = take (length p) out @ e # drop (length p) out"
    unfolding insort_key_place p_def by (metis dropWhile_eq_drop takeWhile_eq_take)
  show ?thesis
  proof (cases "m \<le> length p")
    case True
    have "length p \<le> length out" unfolding p_def by (rule length_takeWhile_le)
    then have "length p = m" "length out = m" using True assms(3) by simp_all
    then show ?thesis using True by (simp add: insert_listed_def tw flip: p_def) (simp add: i)
  qed (simp add: insert_listed_def Let_def tw i flip: p_def)
qed

lemma named_insort: "list_all named ys \<Longrightarrow> named x \<Longrightarrow> list_all named (insort_key f x ys)"
  by (simp add: list_all_iff set_insort_key)

lemma fold_insert_listed:
  assumes "list_all named cs"
  shows "fold (insert_listed m) cs ([], False) = (take m (fold (insort_key entry_rank) cs []), m < length cs)"
  using assms
proof (induction cs rule: rev_induct)
  case (snoc c cs)
  let ?F = "fold (insort_key entry_rank) cs []"
  have len: "length ?F = length cs" by (induction cs rule: rev_induct) simp_all
  have nm: "list_all named cs \<Longrightarrow> list_all named ?F" by (induction cs rule: rev_induct) (auto intro: named_insort)
  have "list_all named (take m ?F)" using nm snoc.prems by (auto simp: list_all_iff dest: in_set_takeD)
  then have "insert_listed m c (take m ?F, m < length cs) =
      (take m (insort_key entry_rank c (take m ?F)), m < length cs \<or> length (take m ?F) = m)"
    using snoc.prems by (intro insert_listed_insort) simp_all
  then show ?case using snoc len by (auto simp: take_insort_take)
qed simp

lemma fold_insort: "fold (insort_key f) xs [] = sort_key f (rev xs)"
  by (simp add: sort_key_def foldr_conv_fold)

lemma sort_key_rev: "inj_on f (set xs) \<Longrightarrow> sort_key f (rev xs) = sort_key f xs"
  by (rule sort_key_inj_key_eq) simp_all

text \<open>The entries that are listed, and those behind a cursor.\<close>

definition listing :: "smb2dirent list \<Rightarrow> smb_dir_entry list" where
  "listing es = List.map_filter listed es"

definition after_cursor :: "smb_dir_entry option \<Rightarrow> smb_dir_entry \<Rightarrow> bool" where
  "after_cursor cursor d = (case cursor of None \<Rightarrow> True | Some c \<Rightarrow> 0 < smb_dir_entry_cmp d c)"

lemma fold_page_entry:
  "fold (page_entry m cursor) es st = fold (insert_listed m) (filter (after_cursor cursor) (listing es)) st"
  by (induction es arbitrary: st)
    (auto simp: listing_def map_filter_simps page_entry_def after_cursor_def split: option.splits)

lemma listing_named: "\<forall>e \<in> set es. NUL \<notin> set (dn_name e) \<Longrightarrow> list_all named (listing es)"
  by (auto simp: listing_def list_all_iff map_filter_def listed_def named_def c_trunc_def split: if_splits dest: in_set_takeD)

lemma filter_behind:
  assumes "sorted (map f L)" and "inj_on f (set L)" and "distinct L" and "0 < k" and "k \<le> length L"
  shows "filter (\<lambda>d. f (L ! (k - 1)) < f d) L = drop k L"
proof -
  let ?x = "L ! (k - 1)"
  have st: "sorted_wrt (\<lambda>a b. f a \<le> f b) L" using assms(1) by (simp add: sorted_map)
  have "\<not> f ?x < f d" if "d \<in> set (take k L)" for d
  proof -
    obtain i where i: "i < k" "d = L ! i" using \<open>d \<in> set (take k L)\<close> assms(5) by (auto simp: in_set_conv_nth)
    then have "f d \<le> f ?x" using sorted_nth_mono [OF assms(1), of i "k - 1"] assms(5) by simp
    then show ?thesis by simp
  qed
  moreover have "f ?x < f d" if "d \<in> set (drop k L)" for d
  proof -
    from that obtain i where "i < length (drop k L)" "d = drop k L ! i" unfolding in_set_conv_nth by blast
    then have i: "i < length L - k" "d = L ! (k + i)" using assms(5) by simp_all
    then have "f ?x \<le> f d" using sorted_nth_mono [OF assms(1), of "k - 1" "k + i"] assms(5) by simp
    moreover have "?x \<noteq> d" using assms(3,4,5) i by (simp add: nth_eq_iff_index_eq)
    then have "f ?x \<noteq> f d" using assms(2,5) i assms(4) by (auto dest!: inj_onD [where x = ?x and y = d])
    ultimately show ?thesis by simp
  qed
  ultimately have "filter (\<lambda>d. f ?x < f d) (take k L @ drop k L) = drop k L"
    unfolding filter_append by (simp add: filter_empty_conv)
  then show ?thesis by simp
qed

text \<open>The cursor the browser sends to go on behind an entry.\<close>

definition cursor_text :: "smb_dir_entry \<Rightarrow> string" where
  "cursor_text e = (if de_is_dir e then ''D:'' else ''F:'') @ de_name e"

lemma listed_short: "d \<in> set (listing es) \<Longrightarrow> length (de_name d) < 256"
  by (auto simp: listing_def map_filter_def listed_def c_trunc_def split: if_splits)

lemma page_cursor_text:
  assumes "length (de_name e) < 256"
  obtains c where "page_cursor (cursor_text e) = Some (Some c)" and "entry_rank c = entry_rank e" and "de_name c = de_name e"
  using assms that by (cases "de_is_dir e") (auto simp: page_cursor_def cursor_text_def entry_rank_def)

text \<open>What a page is, from the arguments the code computes.\<close>

lemma page_of_listing:
  assumes "list_all named (listing es)" and "inj_on entry_rank (set (listing es))"
  shows "apfst qsort_entries (fold (page_entry m cursor) es ([], False)) =
    (take m (qsort_entries (filter (after_cursor cursor) (listing es))), m < length (filter (after_cursor cursor) (listing es)))"
proof -
  let ?cs = "filter (after_cursor cursor) (listing es)"
  have n: "list_all named ?cs" using assms(1) by (simp add: list_all_iff)
  have "inj_on entry_rank (set ?cs)" using assms(2) by (rule inj_on_subset) auto
  then have "fold (page_entry m cursor) es ([], False) = (take m (sort_key entry_rank ?cs), m < length ?cs)"
    by (simp add: fold_page_entry fold_insert_listed [OF n] fold_insort sort_key_rev)
  moreover have "sorted (map entry_rank (take m (sort_key entry_rank ?cs)))"
    unfolding take_map [symmetric] by (rule sorted_wrt_take) (rule sorted_sort_key)
  then have "qsort_entries (take m (sort_key entry_rank ?cs)) = take m (sort_key entry_rank ?cs)"
    unfolding qsort_entries_def by (rule sort_key_id_if_sorted)
  ultimately show ?thesis by (simp add: qsort_entries_def)
qed

lemma behind_entry:
  assumes "list_all named (listing es)" and "inj_on entry_rank (set (listing es))" and "distinct (listing es)"
    and "0 < k" and "k \<le> length (listing es)" and "named c"
    and "entry_rank c = entry_rank (qsort_entries (listing es) ! (k - 1))"
  shows "qsort_entries (filter (after_cursor (Some c)) (listing es)) = drop k (qsort_entries (listing es))"
proof -
  let ?L = "qsort_entries (listing es)"
  have "after_cursor (Some c) d \<longleftrightarrow> entry_rank (?L ! (k - 1)) < entry_rank d" if "d \<in> set (listing es)" for d
    using entry_cmp(2) [of d c] assms(1,6,7) that by (auto simp: after_cursor_def list_all_iff not_less not_le)
  then have "filter (after_cursor (Some c)) (listing es) = filter (\<lambda>d. entry_rank (?L ! (k - 1)) < entry_rank d) (listing es)"
    by (intro filter_cong) auto
  then have "qsort_entries (filter (after_cursor (Some c)) (listing es)) = filter (\<lambda>d. entry_rank (?L ! (k - 1)) < entry_rank d) ?L"
    by (simp add: qsort_entries_def filter_sort)
  also have "\<dots> = drop k ?L"
    using assms(2-5) by (intro filter_behind) (simp_all add: qsort_entries_def)
  finally show ?thesis .
qed

text \<open>
  C28: the pages of a directory are consecutive pieces of one listing, sorted by directories first
  and then by name: the page behind the k-th entry holds the next entries, as many as were asked
  for (256 at most), none twice and none left out, and has_more says whether any follow.
\<close>
theorem pages_of_one_listing:
  assumes "connect (smb_client_sanitize_config cfg) = Some dirs"
    and "sc_server (smb_client_sanitize_config cfg) \<noteq> []" and "sc_share (smb_client_sanitize_config cfg) \<noteq> []"
    and "target = browse_target (if subpath \<noteq> [] then subpath else sc_path (smb_client_sanitize_config cfg))"
    and "path_ok target" and "dirs target = Some es" and "\<forall>e \<in> set es. NUL \<notin> set (dn_name e)"
    and "distinct (map entry_rank (listing es))" and "0 < n"
    and "L = qsort_entries (listing es)" and "k \<le> length L" and "after = (if k = 0 then [] else cursor_text (L ! (k - 1)))"
  shows "smb_client_list_dir_page connect cfg subpath after n = Some (take (min n 256) (drop k L), min n 256 < length L - k)"
proof -
  have inj: "inj_on entry_rank (set (listing es))" and dis: "distinct (listing es)" using assms(8) by (simp_all add: distinct_map)
  have nm: "list_all named (listing es)" by (rule listing_named [OF assms(7)])
  have len: "length L = length (listing es)" "set L = set (listing es)" by (simp_all add: assms(10) qsort_entries_def)
  obtain cursor where c: "page_cursor after = Some cursor" and f: "qsort_entries (filter (after_cursor cursor) (listing es)) = drop k L"
  proof (cases "k = 0")
    case True
    have "filter (after_cursor None) (listing es) = listing es" by (simp add: after_cursor_def)
    then show ?thesis using that [of None] True assms(10,12) by (simp add: page_cursor_def)
  next
    case False
    let ?e = "L ! (k - 1)"
    have e: "?e \<in> set (listing es)" using False assms(11) len by (metis diff_less gr0I less_le_trans nth_mem zero_less_one)
    obtain c where c: "page_cursor (cursor_text ?e) = Some (Some c)" "entry_rank c = entry_rank ?e" "de_name c = de_name ?e"
      using page_cursor_text [OF listed_short [OF e]] by blast
    have "named c" using nm e c(3) by (auto simp: named_def list_all_iff)
    then have "qsort_entries (filter (after_cursor (Some c)) (listing es)) = drop k L"
      using behind_entry [OF nm inj dis, of k c] c(2) False assms(10,11) len(1) by simp
    then show ?thesis using that c(1) False assms(12) by simp
  qed
  have "length (filter (after_cursor cursor) (listing es)) = length (drop k L)"
    unfolding f [symmetric] by (simp add: qsort_entries_def)
  then have l: "length (filter (after_cursor cursor) (listing es)) = length L - k" by simp
  show ?thesis
    using page_of_listing [OF nm inj, of "min n 256" cursor] assms(1,2,3,5,6,9)
    by (simp add: smb_client_list_dir_page_def c MAX_SMB_BROWSE_ENTRIES_def f l flip: assms(4))
qed

section \<open>Below the root\<close>

text \<open>No slash follows a slash; b says that one stands before the text.\<close>

fun single_slashes :: "bool \<Rightarrow> string \<Rightarrow> bool" where
  "single_slashes b [] = True"
| "single_slashes b (c # s) = (\<not> (b \<and> c = CHR ''/'') \<and> single_slashes (c = CHR ''/'') s)"

lemma single_slashes_append:
  "single_slashes b (s @ t) = (single_slashes b s \<and> single_slashes (if s = [] then b else last s = CHR ''/'') t)"
  by (induction b s rule: single_slashes.induct) auto

lemma single_slashes_take: "single_slashes b s \<Longrightarrow> single_slashes b (take k s)"
  using single_slashes_append [of b "take k s" "drop k s"] by simp

lemma strip_end_take: "\<exists>k. strip_end P s = take k s"
proof -
  have "s = strip_end P s @ rev (takeWhile P (rev s))"
    unfolding strip_end_def by (metis rev_append rev_rev_ident takeWhile_dropWhile_id)
  then show ?thesis by (metis append_eq_conv_conj)
qed

lemma strip_end_last: "strip_end P s \<noteq> [] \<Longrightarrow> \<not> P (last (strip_end P s))"
  unfolding strip_end_def by (metis hd_dropWhile last_rev rev_is_Nil_conv rev_rev_ident)

lemma copy_path_single: "single_slashes b (copy_path n b s)"
  by (induction n b s rule: copy_path.induct) (auto simp: Let_def)

lemma copy_path_no_bslash: "BSLASH \<notin> set (copy_path n b s)"
  by (induction n b s rule: copy_path.induct) (auto simp: Let_def BSLASH_def)

lemma copy_path_start: "s = [] \<or> \<not> separator (hd s) \<Longrightarrow> single_slashes True (copy_path n False s)"
  using copy_path_single by (cases s) (auto simp: separator_def Let_def)

lemma plain_pathI: "single_slashes True s \<Longrightarrow> BSLASH \<notin> set s \<Longrightarrow> plain_path s"
  by (cases s) (auto simp: plain_path_def single_slashes_append dest: arg_cong [where f = "single_slashes True"])

lemma dropWhile_start: "(\<And>c. separator c \<Longrightarrow> P c) \<Longrightarrow> dropWhile P s = [] \<or> \<not> separator (hd (dropWhile P s))"
  by (metis hd_dropWhile)

lemma copied_path:
  assumes "\<And>c. separator c \<Longrightarrow> P c"
  shows "single_slashes True (strip_end Q (copy_path n False (dropWhile P s)))"
    and "BSLASH \<notin> set (strip_end Q (copy_path n False (dropWhile P s)))"
proof -
  obtain k where k: "strip_end Q (copy_path n False (dropWhile P s)) = take k (copy_path n False (dropWhile P s))"
    using strip_end_take by blast
  show "single_slashes True (strip_end Q (copy_path n False (dropWhile P s)))"
    unfolding k by (rule single_slashes_take [OF copy_path_start [OF dropWhile_start]]) (rule assms)
  show "BSLASH \<notin> set (strip_end Q (copy_path n False (dropWhile P s)))"
    unfolding k using copy_path_no_bslash by (meson in_set_takeD)
qed

lemma browse_target_plain: "plain_path (browse_target raw)"
  unfolding browse_target_def by (intro plain_pathI copied_path)

function segments :: "string \<Rightarrow> string list" where
  "segments s =
     (if s = [] then []
      else takeWhile (\<lambda>c. c \<noteq> CHR ''/'') s #
             (if dropWhile (\<lambda>c. c \<noteq> CHR ''/'') s = [] then [] else segments (tl (dropWhile (\<lambda>c. c \<noteq> CHR ''/'') s))))"
  by pat_completeness auto
termination
proof (relation "measure length", simp)
  fix s :: string
  assume "dropWhile (\<lambda>c. c \<noteq> CHR ''/'') s \<noteq> []"
  moreover have "length (dropWhile (\<lambda>c. c \<noteq> CHR ''/'') s) \<le> length s" by (rule length_dropWhile_le)
  ultimately have "length (tl (dropWhile (\<lambda>c. c \<noteq> CHR ''/'') s)) < length s"
    by (cases "dropWhile (\<lambda>c. c \<noteq> CHR ''/'') s") auto
  then show "(tl (dropWhile (\<lambda>c. c \<noteq> CHR ''/'') s), s) \<in> measure length" by simp
qed

declare segments.simps [simp del]

lemma path_ok_segments: "path_ok s \<longleftrightarrow> ''.'' \<notin> set (segments s) \<and> ''..'' \<notin> set (segments s)"
proof (induction s rule: path_ok.induct)
  case (1 s)
  then show ?case unfolding path_ok.simps [of s] segments.simps [of s] by (auto simp: Let_def)
qed

text \<open>
  C29: whatever path a browser asks for, the only directory a listing opens is one below the root
  of the share: its path has no leading slash, no backslash, no empty part and no part "." or
  "..", and the answer depends on nothing else of the share.
\<close>
theorem browse_stays_below:
  assumes "smb_client_list_dir_page connect cfg subpath after n = Some r"
  shows "\<exists>dirs t. connect (smb_client_sanitize_config cfg) = Some dirs \<and> dirs t \<noteq> None \<and> plain_path t \<and>
    ''.'' \<notin> set (segments t) \<and> ''..'' \<notin> set (segments t) \<and>
    (\<forall>other. other t = dirs t \<longrightarrow> smb_client_list_dir_page (\<lambda>_. Some other) cfg subpath after n = Some r)"
proof -
  let ?c = "smb_client_sanitize_config cfg"
  let ?t = "browse_target (if subpath \<noteq> [] then subpath else sc_path ?c)"
  obtain dirs es where d: "connect ?c = Some dirs" "dirs ?t = Some es" "path_ok ?t"
    using assms by (auto simp: smb_client_list_dir_page_def Let_def split: option.splits if_splits)
  moreover have "smb_client_list_dir_page (\<lambda>_. Some other) cfg subpath after n = Some r" if "other ?t = dirs ?t" for other
    using assms d that by (auto simp: smb_client_list_dir_page_def Let_def split: option.splits if_splits)
  ultimately show ?thesis using browse_target_plain path_ok_segments by (intro exI [of _ dirs] exI [of _ ?t]) auto
qed

section \<open>The scan\<close>

text \<open>A package e at path child, at most n levels from the directory d.\<close>

inductive package_in :: "share \<Rightarrow> nat \<Rightarrow> string \<Rightarrow> string \<Rightarrow> smb2dirent \<Rightarrow> bool" for dirs where
  here: "dirs (dropWhile (\<lambda>c. c = CHR ''/'') d) = Some es \<Longrightarrow> e \<in> set es \<Longrightarrow> take 1 (dn_name e) \<noteq> ''.'' \<Longrightarrow>
    dn_type e = SMB2_TYPE_FILE \<Longrightarrow> pkg_name (dn_name e) \<Longrightarrow>
    package_in dirs (Suc n) d (child_path (dropWhile (\<lambda>c. c = CHR ''/'') d) (dn_name e)) e"
| below: "dirs (dropWhile (\<lambda>c. c = CHR ''/'') d) = Some es \<Longrightarrow> s \<in> set es \<Longrightarrow> take 1 (dn_name s) \<noteq> ''.'' \<Longrightarrow>
    dn_type s = SMB2_TYPE_DIRECTORY \<Longrightarrow>
    package_in dirs n (child_path (dropWhile (\<lambda>c. c = CHR ''/'') d) (dn_name s)) child e \<Longrightarrow>
    package_in dirs (Suc n) d child e"

inductive_simps package_in_0: "package_in dirs 0 d child e"
inductive_simps package_in_Suc: "package_in dirs (Suc n) d child e"

definition packages_in :: "share \<Rightarrow> smb_share_config \<Rightarrow> nat \<Rightarrow> string \<Rightarrow> found_pkg set" where
  "packages_in dirs c n d = {found_at c child e | child e. package_in dirs n d child e}"

text \<open>The packages one entry of a directory stands for.\<close>

definition of_entry :: "share \<Rightarrow> smb_share_config \<Rightarrow> nat \<Rightarrow> string \<Rightarrow> smb2dirent \<Rightarrow> found_pkg set" where
  "of_entry dirs c n dir e =
     (if take 1 (dn_name e) = ''.'' then {}
      else case dn_type e of
        SMB2_TYPE_DIRECTORY \<Rightarrow> packages_in dirs c n (child_path dir (dn_name e))
      | SMB2_TYPE_FILE \<Rightarrow> (if pkg_name (dn_name e) then {found_at c (child_path dir (dn_name e)) e} else {})
      | SMB2_TYPE_LINK \<Rightarrow> {})"

lemma packages_in_0: "packages_in dirs c 0 d = {}"
  by (simp add: packages_in_def package_in_0)

lemma packages_in_Suc:
  assumes "dirs (dropWhile (\<lambda>c. c = CHR ''/'') d) = Some es"
  shows "packages_in dirs c (Suc n) d = (\<Union>e \<in> set es. of_entry dirs c n (dropWhile (\<lambda>c. c = CHR ''/'') d) e)"
proof (rule set_eqI, rule iffI)
  fix x
  assume "x \<in> packages_in dirs c (Suc n) d"
  then obtain child e where x: "x = found_at c child e" and p: "package_in dirs (Suc n) d child e"
    by (auto simp: packages_in_def)
  from p show "x \<in> (\<Union>e \<in> set es. of_entry dirs c n (dropWhile (\<lambda>c. c = CHR ''/'') d) e)"
  proof cases
    case (here es')
    then have "e \<in> set es" "x \<in> of_entry dirs c n (dropWhile (\<lambda>c. c = CHR ''/'') d) e"
      using assms x by (simp_all add: of_entry_def)
    then show ?thesis by (rule UN_I)
  next
    case (below es' s)
    then have "s \<in> set es" "x \<in> of_entry dirs c n (dropWhile (\<lambda>c. c = CHR ''/'') d) s"
      using assms x by (auto simp: of_entry_def packages_in_def)
    then show ?thesis by (rule UN_I)
  qed
next
  fix x
  assume "x \<in> (\<Union>e \<in> set es. of_entry dirs c n (dropWhile (\<lambda>c. c = CHR ''/'') d) e)"
  then obtain s where s: "s \<in> set es" "x \<in> of_entry dirs c n (dropWhile (\<lambda>c. c = CHR ''/'') d) s" by blast
  then have h: "take 1 (dn_name s) \<noteq> ''.''" by (auto simp: of_entry_def)
  show "x \<in> packages_in dirs c (Suc n) d"
  proof (cases "dn_type s")
    case SMB2_TYPE_FILE
    then have "pkg_name (dn_name s)" "x = found_at c (child_path (dropWhile (\<lambda>c. c = CHR ''/'') d) (dn_name s)) s"
      using s(2) h by (auto simp: of_entry_def split: if_splits)
    then show ?thesis
      using package_in.here [of dirs d, OF assms s(1) h SMB2_TYPE_FILE, of n] by (auto simp: packages_in_def)
  next
    case SMB2_TYPE_DIRECTORY
    then obtain child e where "package_in dirs n (child_path (dropWhile (\<lambda>c. c = CHR ''/'') d) (dn_name s)) child e" "x = found_at c child e"
      using s(2) h by (auto simp: of_entry_def packages_in_def)
    then have "package_in dirs (Suc n) d child e" "x = found_at c child e"
      using package_in.below [of dirs d, OF assms s(1) h SMB2_TYPE_DIRECTORY] by blast+
    then show ?thesis unfolding packages_in_def by blast
  qed (use s(2) h in \<open>simp add: of_entry_def\<close>)
qed

lemma packages_in_unreadable: "dirs (dropWhile (\<lambda>c. c = CHR ''/'') d) = None \<Longrightarrow> packages_in dirs c n d = {}"
  by (cases n) (auto simp: packages_in_def package_in_0 package_in_Suc)

text \<open>The subdirectory's scan is right when it succeeds, and empty when it is skipped.\<close>

lemma scan_entries_exact:
  assumes sub: "\<And>child found k. sub child = (found, k) \<Longrightarrow> 0 \<le> k \<Longrightarrow> set found = packages_in dirs c n child \<and> k = int (length found)"
    and skipped: "\<And>child found k. skip \<Longrightarrow> sub child = (found, k) \<Longrightarrow> k < 0 \<Longrightarrow> found = [] \<and> packages_in dirs c n child = {}"
    and "scan_entries sub c skip dir es cnt = (found, k)" and "0 \<le> k"
  shows "set found = (\<Union>e \<in> set es. of_entry dirs c n dir e) \<and> k = cnt + int (length found)"
  using assms(3,4)
proof (induction es arbitrary: cnt found k)
  case (Cons e es)
  show ?case
  proof (cases "take 1 (dn_name e) = ''.''")
    case True
    then show ?thesis using Cons by (simp add: of_entry_def)
  next
    case False
    show ?thesis
    proof (cases "dn_type e")
      case SMB2_TYPE_FILE
      then show ?thesis using Cons False by (fastforce simp: of_entry_def split: if_splits prod.splits)
    next
      case SMB2_TYPE_LINK
      then show ?thesis using Cons False by (simp add: of_entry_def)
    next
      case SMB2_TYPE_DIRECTORY
      obtain f j where s: "sub (child_path dir (dn_name e)) = (f, j)" by (cases "sub (child_path dir (dn_name e))")
      show ?thesis
      proof (cases "j < 0")
        case True
        then have sk: "skip" using Cons.prems False SMB2_TYPE_DIRECTORY s by (auto split: if_splits)
        then show ?thesis
          using Cons.IH [of cnt found k] Cons.prems False SMB2_TYPE_DIRECTORY s True skipped [OF sk s True]
          by (auto simp: of_entry_def split: prod.splits)
      next
        case j: False
        then have f: "set f = packages_in dirs c n (child_path dir (dn_name e))" "j = int (length f)"
          using sub [OF s] by simp_all
        obtain g where "scan_entries sub c skip dir es (cnt + j) = (g, k)" "found = f @ g"
          using Cons.prems(1) False SMB2_TYPE_DIRECTORY s j by (auto split: prod.splits)
        then show ?thesis using Cons.IH [of "cnt + j" g k] Cons.prems(2) False SMB2_TYPE_DIRECTORY f by (simp add: of_entry_def)
      qed
    qed
  qed
qed simp

lemma scan_entries_skips: "scan_entries sub c True dir es cnt = (found, k) \<Longrightarrow> 0 \<le> cnt \<Longrightarrow> 0 \<le> k"
  by (induction es arbitrary: cnt found k) (fastforce split: if_splits prod.splits dirent_type.splits)+

lemma scan_exact:
  "scan_smb_dir n dirs c skip d = (found, k) \<Longrightarrow>
    (0 \<le> k \<longrightarrow> set found = packages_in dirs c n d \<and> k = int (length found)) \<and>
    (skip \<and> k < 0 \<longrightarrow> found = [] \<and> packages_in dirs c n d = {})"
proof (induction n arbitrary: d found k)
  case (Suc n)
  let ?d = "dropWhile (\<lambda>c. c = CHR ''/'') d"
  show ?case
  proof (cases "dirs ?d")
    case None
    then show ?thesis using Suc.prems packages_in_unreadable [of dirs d c "Suc n"] by simp
  next
    case (Some es)
    then have r: "scan_entries (scan_smb_dir n dirs c skip) c skip ?d es 0 = (found, k)" using Suc.prems by simp
    have "set found = (\<Union>e \<in> set es. of_entry dirs c n ?d e) \<and> k = 0 + int (length found)" if "0 \<le> k"
      using Suc.IH by (intro scan_entries_exact [OF _ _ r that]) blast+
    moreover have "skip \<Longrightarrow> 0 \<le> k" using scan_entries_skips r by simp
    ultimately show ?thesis using packages_in_Suc [of dirs d es c n] Some by auto
  qed
qed (simp add: packages_in_0)

lemma scan_share_exact:
  assumes "smb_client_scan_share connect cfg = (found, k)" and "0 \<le> k" and "sc_enabled cfg"
  shows "\<exists>dirs. connect (smb_client_sanitize_config cfg) = Some dirs \<and>
    set found = packages_in dirs (smb_client_sanitize_config cfg) 5 (sc_path (smb_client_sanitize_config cfg)) \<and> k = int (length found)"
  using assms scan_exact [of 5 _ "smb_client_sanitize_config cfg"]
  by (fastforce simp: smb_client_scan_share_def Let_def split: option.splits)

lemma scan_succeeds: "dirs (dropWhile (\<lambda>ch. ch = CHR ''/'') d) \<noteq> None \<Longrightarrow> scan_smb_dir n dirs c True d = (found, k) \<Longrightarrow> 0 \<le> k"
  by (cases n) (auto simp: Let_def dest: scan_entries_skips)

text \<open>
  C30: a scan of a share that succeeds reports exactly the packages in the first five levels below
  the configured folder, hidden names left out, and returns how many it reported; and when the
  root of the share is scanned it succeeds whatever folders below do not open.
\<close>
theorem scan_finds_packages:
  assumes "smb_client_scan_share connect cfg = (found, k)" and "sc_enabled cfg"
    and "connect (smb_client_sanitize_config cfg) = Some dirs"
  shows "(0 \<le> k \<longrightarrow> k = int (length found) \<and>
      set found = packages_in dirs (smb_client_sanitize_config cfg) 5 (sc_path (smb_client_sanitize_config cfg))) \<and>
    (sc_path (smb_client_sanitize_config cfg) = [] \<and> dirs [] \<noteq> None \<longrightarrow> 0 \<le> k)"
proof (rule conjI)
  show "0 \<le> k \<longrightarrow> k = int (length found) \<and>
      set found = packages_in dirs (smb_client_sanitize_config cfg) 5 (sc_path (smb_client_sanitize_config cfg))"
    using scan_share_exact [OF assms(1) _ assms(2)] assms(3) by auto
  show "sc_path (smb_client_sanitize_config cfg) = [] \<and> dirs [] \<noteq> None \<longrightarrow> 0 \<le> k"
    using assms scan_succeeds [of dirs "[]" 5 "smb_client_sanitize_config cfg" found k]
    by (auto simp: smb_client_scan_share_def Let_def)
qed

section \<open>A share\<close>

definition demo_config :: smb_share_config where
  "demo_config =
     \<lparr>sc_enabled = True, sc_browse_only = False, sc_id = ''smb0'', sc_label = ''NAS'',
      sc_server = '' smb://10.0.0.2:1445/'', sc_port = 445, sc_share = ''/pkgs/'', sc_path = [],
      sc_username = ''guest '', sc_password = [], sc_workgroup = [], sc_read_only = True\<rparr>"

definition demo_clean :: smb_share_config where
  "demo_clean = demo_config\<lparr>sc_server := ''10.0.0.2'', sc_port := 1445, sc_share := ''pkgs'',
     sc_username := ''guest'', sc_workgroup := ''WORKGROUP''\<rparr>"

definition demo_pkg_file :: "string \<Rightarrow> smb2dirent" where
  "demo_pkg_file name = \<lparr>dn_name = name, dn_type = SMB2_TYPE_FILE, dn_size = 100, dn_mtime = 7\<rparr>"

definition demo_folder :: "string \<Rightarrow> smb2dirent" where
  "demo_folder name = \<lparr>dn_name = name, dn_type = SMB2_TYPE_DIRECTORY, dn_size = 0, dn_mtime = 7\<rparr>"

definition demo_root :: "smb2dirent list" where
  "demo_root = [demo_folder ''.'', demo_pkg_file ''b.pkg'', demo_pkg_file ''notes'', demo_folder ''sub'', demo_pkg_file ''A.PKG'', demo_folder ''locked'']"

text \<open>The folder ''locked'' does not open.\<close>

definition demo_share :: share where
  "demo_share d = (if d = [] then Some demo_root else if d = ''sub'' then Some [demo_pkg_file ''c.pkg''] else None)"

lemma demo_sanitized: "smb_client_sanitize_config demo_config = demo_clean"
  by code_simp

lemma demo_names: "demo_share d = Some es \<Longrightarrow> e \<in> set es \<Longrightarrow> CHR ''/'' \<notin> set (dn_name e) \<and> NUL \<notin> set (dn_name e)"
  by (auto simp: demo_share_def demo_root_def demo_pkg_file_def demo_folder_def NUL_def split: if_splits)

lemma demo_scan:
  "smb_client_scan_share (\<lambda>_. Some demo_share) demo_config =
    ([found_at demo_clean ''b.pkg'' (demo_pkg_file ''b.pkg''), found_at demo_clean ''sub/c.pkg'' (demo_pkg_file ''c.pkg''),
      found_at demo_clean ''A.PKG'' (demo_pkg_file ''A.PKG'')], 3)"
  by code_simp

lemma demo_ranks: "distinct (map entry_rank (listing demo_root))"
  by code_simp

lemma demo_order: "map de_name (qsort_entries (listing demo_root)) = [''locked'', ''sub'', ''A.PKG'', ''b.pkg'']"
  by code_simp

lemma demo_target: "browse_target [] = []" "path_ok []"
  by code_simp+

text \<open>The second page of two entries, behind the cursor D:sub.\<close>

theorem pages_of_one_listing_witness:
  "smb_client_list_dir_page (\<lambda>_. Some demo_share) demo_config [] ''D:sub'' 2 =
    Some (drop 2 (qsort_entries (listing demo_root)), False)"
proof -
  let ?L = "qsort_entries (listing demo_root)"
  have len: "length ?L = 4" using arg_cong [OF demo_order, of length] by simp
  have c: "''D:sub'' = cursor_text (?L ! (2 - 1))" by code_simp
  have t: "[] = browse_target (if [] \<noteq> [] then [] else sc_path (smb_client_sanitize_config demo_config))"
    by (simp add: demo_sanitized demo_target, simp add: demo_clean_def demo_config_def demo_target)
  have "smb_client_list_dir_page (\<lambda>_. Some demo_share) demo_config [] ''D:sub'' 2 =
    Some (take (min 2 256) (drop 2 ?L), min 2 256 < length ?L - 2)"
  proof (rule pages_of_one_listing [OF refl _ _ t])
    show "sc_server (smb_client_sanitize_config demo_config) \<noteq> []" "sc_share (smb_client_sanitize_config demo_config) \<noteq> []"
      by (simp_all add: demo_sanitized demo_clean_def)
    show "demo_share [] = Some demo_root" by (simp add: demo_share_def)
    show "\<forall>e \<in> set demo_root. NUL \<notin> set (dn_name e)" using demo_names [of "[]"] by (simp add: demo_share_def)
    show "''D:sub'' = (if 2 = (0::nat) then [] else cursor_text (?L ! (2 - 1)))" using c by simp
  qed (use len demo_ranks demo_target in simp_all)
  then show ?thesis using len by simp
qed

theorem browse_stays_below_witness:
  "\<exists>dirs t. Some demo_share = Some dirs \<and> dirs t \<noteq> None \<and> plain_path t \<and> ''.'' \<notin> set (segments t) \<and> ''..'' \<notin> set (segments t)"
proof -
  have "smb_client_list_dir_page (\<lambda>_. Some demo_share) demo_config [BSLASH, CHR ''s'', CHR ''u'', CHR ''b'', CHR ''/'', CHR ''/''] [] 9 =
    Some ([\<lparr>de_name = ''c.pkg'', de_is_dir = False, de_size = 100, de_mtime = 7\<rparr>], False)"
    by code_simp
  from browse_stays_below [OF this] show ?thesis by blast
qed

theorem scan_finds_packages_witness:
  "packages_in demo_share demo_clean 5 [] =
    {found_at demo_clean ''b.pkg'' (demo_pkg_file ''b.pkg''), found_at demo_clean ''sub/c.pkg'' (demo_pkg_file ''c.pkg''),
     found_at demo_clean ''A.PKG'' (demo_pkg_file ''A.PKG'')}"
  using scan_finds_packages [OF demo_scan, of demo_share] by (simp add: demo_sanitized) (simp add: demo_clean_def demo_config_def)

end
