(* ===== verification/SmbUrlClaims.thy ===== *)
theory SmbUrlClaims
  imports SmbDirClaims
begin

text \<open>
  From a scan to the file it found: a cleaned configuration is in a normal form, and the URL a scan
  reports for a package, parsed again, leads to the configuration it came from and to the
  package's path, cut to the 255 characters the parser has room for.
\<close>

section \<open>Splitting\<close>

lemma dropWhile_to: "d \<notin> set a \<Longrightarrow> dropWhile (\<lambda>x. x \<noteq> d) (a @ d # b) = d # b"
  by (induction a) auto

lemma dropWhile_none: "d \<notin> set a \<Longrightarrow> dropWhile (\<lambda>x. x \<noteq> d) a = []"
  by (induction a) auto

lemma split_at_found: "d \<notin> set a \<Longrightarrow> split_at d (a @ d # b) = (a, Some b)"
  by (simp add: split_at_def strchr_def dropWhile_to)

lemma split_at_missing: "d \<notin> set a \<Longrightarrow> split_at d a = (a, None)"
  by (simp add: split_at_def strchr_def dropWhile_none)

lemma strtol_show_nat: "n < 2 ^ 63 \<Longrightarrow> strtol (show_nat n) = int n"
proof -
  assume n: "n < 2 ^ 63"
  have ne: "show_nat n \<noteq> []" and d: "\<And>x. x \<in> set (show_nat n) \<Longrightarrow> is_digit x"
    using show_nat_digits [of n] by auto
  have h: "is_digit (hd (show_nat n))" using ne d [of "hd (show_nat n)"] by simp
  then have dw: "dropWhile is_space (show_nat n) = show_nat n"
    by (cases "show_nat n") (simp_all add: is_digit_not_space)
  have tw: "takeWhile is_digit (show_nat n) = show_nat n" using d by (simp add: takeWhile_eq_all_conv)
  have ns: "hd (show_nat n) \<noteq> CHR ''-''" "hd (show_nat n) \<noteq> CHR ''+''"
    using h by (auto simp: is_digit_def)
  show ?thesis using n by (simp add: strtol_def Let_def dw tw ns digits_val_show_nat)
qed

lemma atoi_show_int: "0 < p \<Longrightarrow> p < 2 ^ 31 \<Longrightarrow> atoi (show_int p) = p"
  by (simp add: atoi_def show_int_def strtol_show_nat to_int_def)

lemma show_int_no: "0 < p \<Longrightarrow> \<not> is_digit d \<Longrightarrow> d \<notin> set (show_int p)"
  using show_nat_digits [of "nat p"] by (auto simp: show_int_def)

lemma length_show_int: "0 < p \<Longrightarrow> p < 2 ^ 31 \<Longrightarrow> length (show_int p) \<le> 10"
  using length_show_nat [of "nat p" 10] by (simp add: show_int_def)

section \<open>A cleaned configuration\<close>

lemma clean_host_part: "\<exists>k. fst (clean_host host port) = take k host"
proof (cases "port_text host")
  case None
  then show ?thesis by (auto simp: clean_host_def intro: exI [of _ "length host"])
next
  case (Some q)
  then obtain h t where q: "q = (h, t)" by (cases q)
  then have "\<exists>k. h = take k host" using Some by (auto simp: port_text_def Let_def split: if_splits)
  moreover have "\<exists>k. host = take k host" by (rule exI [of _ "length host"]) simp
  ultimately show ?thesis using Some q by (simp add: clean_host_def)
qed

lemma sanitize_fields:
  "sc_server (smb_client_sanitize_config c) = fst (clean_host (server_host (clean_server (sc_server c))) (sc_port c))"
  "sc_share (smb_client_sanitize_config c) =
     clean_share (if sc_share c = [] then extra_share (clean_server (sc_server c)) else sc_share c)"
  "sc_path (smb_client_sanitize_config c) =
     join_path (clean_path (extra_path (clean_server (sc_server c)))) (clean_path (sc_path c))"
  "0 < sc_port (smb_client_sanitize_config c)"
  "sc_workgroup (smb_client_sanitize_config c) \<noteq> []"
  "sc_enabled (smb_client_sanitize_config c) = sc_enabled c" "sc_id (smb_client_sanitize_config c) = sc_id c"
  by (simp_all add: smb_client_sanitize_config_def Let_def SMB_DEFAULT_PORT_def split: prod.split)

lemma server_no_separator: "x \<in> set (sc_server (smb_client_sanitize_config c)) \<Longrightarrow> \<not> separator x"
proof -
  assume x: "x \<in> set (sc_server (smb_client_sanitize_config c))"
  obtain k where "sc_server (smb_client_sanitize_config c) = take k (server_host (clean_server (sc_server c)))"
    using clean_host_part unfolding sanitize_fields by blast
  then have "x \<in> set (server_host (clean_server (sc_server c)))" using x by (auto dest: in_set_takeD)
  then show ?thesis unfolding server_host_def by (auto dest: set_takeWhileD)
qed

lemma length_strip_end: "length (strip_end P s) \<le> length s"
  using strip_end_take [of P s] by (auto simp: min_def)

lemma length_server: "length (sc_server (smb_client_sanitize_config c)) < 128"
proof -
  obtain k where k: "sc_server (smb_client_sanitize_config c) = take k (server_host (clean_server (sc_server c)))"
    using clean_host_part unfolding sanitize_fields by blast
  have "length (server_host s) \<le> length s" for s unfolding server_host_def by (rule length_takeWhile_le)
  moreover have "length (clean_server s) < 128" for s
    unfolding clean_server_def Let_def by (rule le_less_trans [OF length_strip_end]) (rule length_c_trunc, simp)
  ultimately show ?thesis unfolding k by (metis (no_types) length_take le_less_trans min.cobounded1)
qed

lemma clean_path_plain: "single_slashes True (clean_path s)" "BSLASH \<notin> set (clean_path s)"
  unfolding clean_path_def by (rule copied_path, simp add: trimmed_def)+

lemma clean_path_last: "clean_path s \<noteq> [] \<Longrightarrow> last (clean_path s) \<noteq> CHR ''/''"
  using strip_end_last [of trimmed "copy_path 255 False (dropWhile trimmed s)"]
  by (auto simp: clean_path_def trimmed_def separator_def)

lemma plain_path_take: "single_slashes True s \<Longrightarrow> BSLASH \<notin> set s \<Longrightarrow> plain_path (take n s)"
  by (intro plain_pathI single_slashes_take) (auto dest: in_set_takeD)

lemma join_path_plain:
  assumes "single_slashes True a" "single_slashes True b" "a \<noteq> [] \<Longrightarrow> last a \<noteq> CHR ''/''" "BSLASH \<notin> set a" "BSLASH \<notin> set b"
  shows "plain_path (join_path a b)"
proof -
  have j: "single_slashes True (a @ CHR ''/'' # b)" if "a \<noteq> []"
    using that assms by (simp add: single_slashes_append)
  moreover have "BSLASH \<notin> set (a @ CHR ''/'' # b)" using assms by (simp add: BSLASH_def)
  ultimately show ?thesis
    unfolding join_path_def c_trunc_def using assms by (simp add: plain_path_take plain_pathI del: take_append)
qed

lemma clean_config_path: "plain_path (sc_path (smb_client_sanitize_config c))"
  unfolding sanitize_fields by (intro join_path_plain clean_path_plain clean_path_last)

section \<open>From the scan to the file\<close>

text \<open>The URL of a package as it is when the buffer holds it, and its parts.\<close>

lemma package_url_parsed:
  assumes host: "CHR ''/'' \<notin> set (sc_server k)" "CHR '':'' \<notin> set (sc_server k)" "length (sc_server k) < 128"
    and share: "CHR ''/'' \<notin> set (sc_share k)" "length (sc_share k) < 128"
    and port: "0 < sc_port k" "sc_port k < 2 ^ 31"
    and child: "child \<noteq> []" "hd child \<noteq> CHR ''/''" "length child < 512"
  shows "smb_client_parse_url (package_url k child) =
    Some \<lparr>su_server = sc_server k, su_port = sc_port k, su_share = sc_share k, su_path = c_trunc 256 child\<rparr>"
proof -
  have start: "dropWhile (\<lambda>c. c = CHR ''/'') child = child" using child by (cases child) auto
  define hp where "hp = (if sc_port k \<noteq> SMB_DEFAULT_PORT then sc_server k @ CHR '':'' # show_int (sc_port k) else sc_server k)"
  have len: "length hp \<le> length (sc_server k) + 11"
    using length_show_int [OF port] by (simp add: hp_def)
  have url: "package_url k child = ''smb://'' @ hp @ CHR ''/'' # sc_share k @ CHR ''/'' # child"
  proof -
    have "length (''smb://'' @ hp @ CHR ''/'' # sc_share k @ CHR ''/'' # child) < 1024" using len host share child by simp
    then have "c_trunc 1024 (''smb://'' @ hp @ CHR ''/'' # sc_share k @ CHR ''/'' # child) =
      ''smb://'' @ hp @ CHR ''/'' # sc_share k @ CHR ''/'' # child" by (rule c_trunc_short)
    then show ?thesis using port by (cases "sc_port k = SMB_DEFAULT_PORT") (simp_all add: package_url_def hp_def)
  qed
  have no: "CHR ''/'' \<notin> set hp" using host show_int_no [OF port(1), of "CHR ''/''"] by (auto simp: hp_def is_digit_def)
  have more: "split_at CHR ''/'' (sc_share k @ CHR ''/'' # child) = (sc_share k, Some child)" using share(1) by (rule split_at_found)
  have "split_at CHR '':'' hp = (sc_server k, if sc_port k \<noteq> SMB_DEFAULT_PORT then Some (show_int (sc_port k)) else None)"
    using host(2) by (auto simp: hp_def split_at_found split_at_missing)
  then show ?thesis
    using len host share port atoi_show_int [OF port]
    by (auto simp: smb_client_parse_url_def url starts_with_def split_at_found [OF no] more start c_trunc_short)
qed

lemma package_child:
  "package_in dirs n d child e \<Longrightarrow> (\<And>p es e. dirs p = Some es \<Longrightarrow> e \<in> set es \<Longrightarrow> CHR ''/'' \<notin> set (dn_name e)) \<Longrightarrow>
    child \<noteq> [] \<and> hd child \<noteq> CHR ''/'' \<and> length child < 512"
proof (induction rule: package_in.induct)
  case (here d es e n)
  have ne: "dn_name e \<noteq> []" using here.hyps(5) by (auto simp: pkg_name_def)
  have "hd (dn_name e) \<noteq> CHR ''/''" using ne here.prems [OF here.hyps(1,2)] hd_in_set by metis
  moreover have "dropWhile (\<lambda>c. c = CHR ''/'') d = [] \<or> hd (dropWhile (\<lambda>c. c = CHR ''/'') d) \<noteq> CHR ''/''"
    using hd_dropWhile [of "\<lambda>c. c = CHR ''/''" d] by blast
  ultimately show ?case
    using ne by (cases "dn_name e"; cases "dropWhile (\<lambda>c. c = CHR ''/'') d") (simp_all add: child_path_def c_trunc_def)
next
  case (below d es s n child e)
  show ?case by (rule below.IH) (rule below.prems)
qed

text \<open>A configuration that is taken for the server and the share of another.\<close>

definition stands_in_for :: "smb_share_config \<Rightarrow> smb_share_config \<Rightarrow> bool" where
  "stands_in_for x k =
     (let y = smb_client_sanitize_config x in
      sc_enabled x \<and> (ieq (sc_server y) (sc_server k) \<and> ieq (sc_share y) (sc_share k) \<or> ieq (sc_id y) (sc_server k)))"

lemma first_match: "P c \<Longrightarrow> \<exists>x. List.find P (pre @ c # post) = Some x \<and> (x = c \<or> x \<in> set pre \<and> P x)"
  by (induction pre) auto

text \<open>
  C31: every package a scan reports can be opened by the URL it is reported under: the URL leads
  back to the path of the package, of which the parser keeps 255 characters, and to the
  configuration that was scanned, or to an earlier one of the settings that is enabled and has
  the same server and share (or has the server for its id), which then takes its place. What it
  takes: a server without a colon (an IPv6 address is cut), a share and directory entries
  without a slash, a share of fewer than 128 characters and a port below 2^31.
\<close>
theorem scanned_package_opens:
  assumes "smb_client_scan_share connect c = (found, n)" and "0 \<le> n" and "p \<in> set found" and "sc_enabled c"
    and "k = smb_client_sanitize_config c" and "settings = pre @ c # post"
    and "CHR '':'' \<notin> set (sc_server k)" and "CHR ''/'' \<notin> set (sc_share k)" and "length (sc_share k) < 128"
    and "sc_port k < 2 ^ 31"
    and "\<And>dirs d es e. connect k = Some dirs \<Longrightarrow> dirs d = Some es \<Longrightarrow> e \<in> set es \<Longrightarrow> CHR ''/'' \<notin> set (dn_name e)"
  shows "\<exists>dirs child e k'. connect k = Some dirs \<and> package_in dirs 5 (sc_path k) child e \<and> p = found_at k child e \<and>
    opened_file settings (fp_url p) = Some (k', c_trunc 256 child) \<and>
    (k' = k \<or> (\<exists>x \<in> set pre. stands_in_for x k \<and> k' = smb_client_sanitize_config x))"
proof -
  obtain dirs where d: "connect k = Some dirs" "set found = packages_in dirs k 5 (sc_path k)"
    using scan_share_exact [OF assms(1,2,4)] unfolding assms(5) by blast
  then obtain child e where p: "package_in dirs 5 (sc_path k) child e" "p = found_at k child e"
    using assms(3) by (auto simp: packages_in_def)
  have ch: "child \<noteq> []" "hd child \<noteq> CHR ''/''" "length child < 512"
    using package_child [OF p(1)] assms(11) [OF d(1)] by blast+
  have sep: "CHR ''/'' \<notin> set (sc_server k)"
    using server_no_separator unfolding assms(5) by (auto simp: separator_def)
  let ?u = "\<lparr>su_server = sc_server k, su_port = sc_port k, su_share = sc_share k, su_path = c_trunc 256 child\<rparr>"
  have u: "smb_client_parse_url (package_url k child) = Some ?u"
    using sep assms(7) _ assms(8,9) _ assms(10) ch
    by (rule package_url_parsed) (use length_server [of c] sanitize_fields(4) [of c] in \<open>simp_all add: assms(5)\<close>)
  have start: "dropWhile (\<lambda>c. c = CHR ''/'') (c_trunc 256 child) = c_trunc 256 child"
    using ch by (cases child) (auto simp: c_trunc_def)
  have m: "url_matches ?u x = stands_in_for x k" for x by (simp add: url_matches_def stands_in_for_def Let_def)
  have "stands_in_for c k" using assms(4) by (simp add: stands_in_for_def Let_def ieq_def assms(5))
  then obtain x where x: "List.find (url_matches ?u) settings = Some x" "x = c \<or> x \<in> set pre \<and> stands_in_for x k"
    using first_match [of "url_matches ?u" c pre post] m unfolding assms(6) by blast
  have "opened_file settings (package_url k child) = Some (smb_client_sanitize_config x, c_trunc 256 child)"
    using start x(1) by (simp add: opened_file_def smb_client_find_share_cfg_def u)
  then show ?thesis using d(1) p x(2) assms(5)
    by (intro exI [of _ dirs] exI [of _ child] exI [of _ e] exI [of _ "smb_client_sanitize_config x"])
      (auto simp: found_at_def)
qed

lemma demo_clean_fields:
  "sc_enabled demo_config" "sc_path demo_clean = []" "sc_port demo_clean < 2 ^ 31" "length (sc_share demo_clean) < 128"
  "CHR '':'' \<notin> set (sc_server demo_clean)" "CHR ''/'' \<notin> set (sc_share demo_clean)"
  by (simp_all add: demo_clean_def demo_config_def)

theorem scanned_package_opens_witness:
  "\<exists>child e. package_in demo_share 5 [] child e \<and> found_at demo_clean ''sub/c.pkg'' (demo_pkg_file ''c.pkg'') = found_at demo_clean child e \<and>
    opened_file [demo_config\<lparr>sc_server := ''other''\<rparr>, demo_config] ''smb://10.0.0.2:1445/pkgs/sub/c.pkg'' =
      Some (demo_clean, c_trunc 256 child)"
proof -
  let ?p = "found_at demo_clean ''sub/c.pkg'' (demo_pkg_file ''c.pkg'')"
  let ?s = "[demo_config\<lparr>sc_server := ''other''\<rparr>, demo_config]"
  have u: "fp_url ?p = ''smb://10.0.0.2:1445/pkgs/sub/c.pkg''" by code_simp
  have pre: "\<not> stands_in_for (demo_config\<lparr>sc_server := ''other''\<rparr>) demo_clean" by code_simp
  have "\<exists>dirs child e k'. Some demo_share = Some dirs \<and> package_in dirs 5 (sc_path demo_clean) child e \<and> ?p = found_at demo_clean child e \<and>
    opened_file ?s (fp_url ?p) = Some (k', c_trunc 256 child) \<and>
    (k' = demo_clean \<or> (\<exists>x \<in> set [demo_config\<lparr>sc_server := ''other''\<rparr>]. stands_in_for x demo_clean \<and> k' = smb_client_sanitize_config x))"
  proof (rule scanned_package_opens [OF demo_scan])
    show "demo_clean = smb_client_sanitize_config demo_config" by (rule demo_sanitized [symmetric])
    show "CHR ''/'' \<notin> set (dn_name e)" if "Some demo_share = Some dirs" "dirs d = Some es" "e \<in> set es" for dirs d es e
      using that demo_names by blast
  qed (use demo_clean_fields in simp_all)
  then show ?thesis using pre unfolding u demo_clean_fields(2) by auto
qed

section \<open>Where the way back is lost\<close>

text \<open>A server with an IPv6 address is cut at its first colon, and so is not found again.\<close>

lemma ipv6_host_cut:
  "opened_file [demo_config\<lparr>sc_server := ''[fe80::1]''\<rparr>] (package_url (smb_client_sanitize_config (demo_config\<lparr>sc_server := ''[fe80::1]''\<rparr>)) ''a.pkg'')
    = Some (smb_client_sanitize_config (guest_config \<lparr>su_server = ''[fe80'', su_port = 445, su_share = ''pkgs'', su_path = ''a.pkg''\<rparr>), ''a.pkg'')"
  by code_simp

text \<open>Of two servers of one host the first is taken, whatever port the URL names.\<close>

lemma port_ignored:
  "map_option (sc_port o fst) (opened_file [demo_config\<lparr>sc_server := ''10.0.0.2''\<rparr>, demo_config] ''smb://10.0.0.2:1445/pkgs/a.pkg'') = Some 445"
  by code_simp

end
