(* ===== verification/PartFinder.thy ===== *)
theory PartFinder
  imports VirtualClaims
begin

text \<open>
  The finder of part files (the end of src/src/pkg_scanner.c), which installer_init sets as the
  part finder of virtual streams: the places it looks in, in their order, and the test of a file.
  Directories, stat, mounts and the environment are a record; files are those of Multipart.
\<close>

section \<open>The drives\<close>

datatype file_kind = Regular | Directory | OtherKind

record drives =
  dr_dir :: "string \<Rightarrow> string list option"     \<comment> \<open>opendir and readdir\<close>
  dr_kind :: "string \<Rightarrow> file_kind option"      \<comment> \<open>stat\<close>
  dr_files :: files
  dr_mounted :: "string \<Rightarrow> bool"               \<comment> \<open>is_drive_mounted\<close>
  dr_scan_dir :: "string option"               \<comment> \<open>PKG_SCAN_DIR\<close>
  dr_disc_dir :: "string option"               \<comment> \<open>PKG_DISC_DIR\<close>

text \<open>What is asked for: the uuid unless NULL, the name of the package (empty for NULL), the part.\<close>

record query =
  qu_uuid :: "u8 list option"
  qu_name :: string
  qu_part :: nat

section \<open>One file\<close>

definition part_matches :: "query \<Rightarrow> mp_header \<Rightarrow> bool" where
  "part_matches q h =
     (if qu_uuid q = Some (mh_uuid h) then True
      else if qu_name q \<noteq> [] \<and> ieq (header_name h) (qu_name q) then True
      else qu_uuid q = None \<and> qu_name q = [])"

text \<open>The path found, cut to the caller's buffer of m, and out_detected_part (0 for none).\<close>

definition check_part_file :: "files \<Rightarrow> query \<Rightarrow> nat \<Rightarrow> string \<Rightarrow> nat \<Rightarrow> string option \<times> nat" where
  "check_part_file F q m full det =
     (if \<not> fst (multipart_is_part_filename full 0) then (None, det)
      else case multipart_read_header F full of
        Inl _ \<Rightarrow> (None, det)
      | Inr h \<Rightarrow>
          (if \<not> part_matches q h then (None, det)
           else (if mh_part_index h = qu_part q then Some (c_trunc m full) else None,
                 if det = 0 \<and> mh_part_index h \<noteq> qu_part q then mh_part_index h else det)))"

section \<open>The search\<close>

text \<open>A loop that ends at the first hit; the detected part goes through it.\<close>

fun first_of :: "('a \<Rightarrow> nat \<Rightarrow> string option \<times> nat) \<Rightarrow> 'a list \<Rightarrow> nat \<Rightarrow> string option \<times> nat" where
  "first_of f [] det = (None, det)"
| "first_of f (x # xs) det =
     (case f x det of (Some r, d) \<Rightarrow> (Some r, d) | (None, d) \<Rightarrow> first_of f xs d)"

definition hidden :: "string \<Rightarrow> bool" where
  "hidden n = (take 1 n = ''.'')"

definition entry_path :: "string \<Rightarrow> string \<Rightarrow> string" where
  "entry_path dir n = c_trunc 1024 (dir @ CHR ''/'' # n)"

text \<open>The first argument is how many levels are left: six, for the depths 0 to 5.\<close>

fun scan_find_part_recursive :: "nat \<Rightarrow> drives \<Rightarrow> query \<Rightarrow> nat \<Rightarrow> string \<Rightarrow> nat \<Rightarrow> string option \<times> nat" where
  "scan_find_part_recursive 0 E q m dir det = (None, det)"
| "scan_find_part_recursive (Suc k) E q m dir det =
     (case dr_dir E dir of
        None \<Rightarrow> (None, det)
      | Some ns \<Rightarrow>
          first_of (\<lambda>n d.
            if hidden n then (None, d)
            else case dr_kind E (entry_path dir n) of
              Some Directory \<Rightarrow> scan_find_part_recursive k E q m (entry_path dir n) d
            | Some Regular \<Rightarrow> check_part_file (dr_files E) q m (entry_path dir n) d
            | _ \<Rightarrow> (None, d)) ns det)"

definition scan_find_part_in_location :: "drives \<Rightarrow> query \<Rightarrow> nat \<Rightarrow> string \<Rightarrow> nat \<Rightarrow> string option \<times> nat" where
  "scan_find_part_in_location E q m dir det =
     (case dr_dir E dir of
        None \<Rightarrow> (None, det)
      | Some ns \<Rightarrow>
          first_of (\<lambda>n d.
            if hidden n then (None, d)
            else case dr_kind E (entry_path dir n) of
              Some Regular \<Rightarrow> check_part_file (dr_files E) q m (entry_path dir n) d
            | Some Directory \<Rightarrow>
                (if n = ''pkg'' then scan_find_part_recursive 6 E q m (entry_path dir n) d else (None, d))
            | _ \<Rightarrow> (None, d)) ns det)"

text \<open>The places in the order they are searched.\<close>

definition usb_path :: "nat \<Rightarrow> string" where
  "usb_path i = ''/mnt/usb'' @ show_nat i"

definition part_locations :: "drives \<Rightarrow> string list" where
  "part_locations E =
     (case dr_scan_dir E of
        None \<Rightarrow> []
      | Some d \<Rightarrow>
          (if d = [] then []
           else d # (case dr_disc_dir E of None \<Rightarrow> [] | Some c \<Rightarrow> if c = [] then [] else [c]))) @
     ''/mnt/disc'' # filter (dr_mounted E) (map usb_path [0..<8])"

definition pkg_scanner_find_part_ex :: "drives \<Rightarrow> query \<Rightarrow> nat \<Rightarrow> string option \<times> nat" where
  "pkg_scanner_find_part_ex E q m =
     (if m = 0 then (None, 0) else first_of (scan_find_part_in_location E q m) (part_locations E) 0)"

definition pkg_scanner_find_part :: "drives \<Rightarrow> query \<Rightarrow> nat \<Rightarrow> string option" where
  "pkg_scanner_find_part E q m = fst (pkg_scanner_find_part_ex E q m)"

section \<open>What it is meant to find\<close>

text \<open>A regular file at most k levels below a directory, on no hidden path.\<close>

inductive part_at :: "drives \<Rightarrow> nat \<Rightarrow> string \<Rightarrow> string \<Rightarrow> bool" for E where
  here: "dr_dir E dir = Some ns \<Longrightarrow> n \<in> set ns \<Longrightarrow> \<not> hidden n \<Longrightarrow> dr_kind E (entry_path dir n) = Some Regular \<Longrightarrow>
    part_at E (Suc k) dir (entry_path dir n)"
| below: "dr_dir E dir = Some ns \<Longrightarrow> n \<in> set ns \<Longrightarrow> \<not> hidden n \<Longrightarrow> dr_kind E (entry_path dir n) = Some Directory \<Longrightarrow>
    part_at E k (entry_path dir n) full \<Longrightarrow> part_at E (Suc k) dir full"

inductive_simps part_at_0: "part_at E 0 dir full"
inductive_simps part_at_Suc: "part_at E (Suc k) dir full"

text \<open>A file in scope: at the top of a place, or in its folder pkg.\<close>

definition in_scope :: "drives \<Rightarrow> string \<Rightarrow> bool" where
  "in_scope E full =
     (\<exists>dir ns n. dir \<in> set (part_locations E) \<and> dr_dir E dir = Some ns \<and> n \<in> set ns \<and> \<not> hidden n \<and>
        (dr_kind E (entry_path dir n) = Some Regular \<and> full = entry_path dir n \<or>
         dr_kind E (entry_path dir n) = Some Directory \<and> n = ''pkg'' \<and> part_at E 6 (entry_path dir n) full))"

text \<open>A file that passes for part i of what is asked for.\<close>

definition candidate :: "files \<Rightarrow> query \<Rightarrow> nat \<Rightarrow> string \<Rightarrow> bool" where
  "candidate F q i full =
     (fst (multipart_is_part_filename full 0) \<and>
      (\<exists>h. multipart_read_header F full = Inr h \<and> part_matches q h \<and> mh_part_index h = i))"

text \<open>What a search may answer: a hit among the files S, no hit when there is none, and what it noticed.\<close>

definition answers_for :: "files \<Rightarrow> query \<Rightarrow> nat \<Rightarrow> string set \<Rightarrow> (nat \<Rightarrow> string option \<times> nat) \<Rightarrow> bool" where
  "answers_for F q m S g =
     (\<forall>det. (case g det of
        (Some r, d) \<Rightarrow> (\<exists>full \<in> S. candidate F q (qu_part q) full \<and> r = c_trunc m full) \<and>
                        (d = det \<or> d \<noteq> qu_part q \<and> (\<exists>full \<in> S. candidate F q d full))
      | (None, d) \<Rightarrow> (\<forall>full \<in> S. \<not> candidate F q (qu_part q) full) \<and>
                      (d = det \<or> d \<noteq> qu_part q \<and> (\<exists>full \<in> S. candidate F q d full))))"

lemma answers_forI:
  assumes "\<And>det r d. g det = (Some r, d) \<Longrightarrow> \<exists>full \<in> S. candidate F q (qu_part q) full \<and> r = c_trunc m full"
    and "\<And>det d. g det = (None, d) \<Longrightarrow> \<forall>full \<in> S. \<not> candidate F q (qu_part q) full"
    and "\<And>det. snd (g det) \<noteq> det \<Longrightarrow> snd (g det) \<noteq> qu_part q \<and> (\<exists>full \<in> S. candidate F q (snd (g det)) full)"
  shows "answers_for F q m S g"
  unfolding answers_for_def
proof (rule allI)
  fix det
  obtain r d where g: "g det = (r, d)" by (cases "g det")
  show "case g det of
        (Some r, d) \<Rightarrow> (\<exists>full \<in> S. candidate F q (qu_part q) full \<and> r = c_trunc m full) \<and>
                        (d = det \<or> d \<noteq> qu_part q \<and> (\<exists>full \<in> S. candidate F q d full))
      | (None, d) \<Rightarrow> (\<forall>full \<in> S. \<not> candidate F q (qu_part q) full) \<and>
                      (d = det \<or> d \<noteq> qu_part q \<and> (\<exists>full \<in> S. candidate F q d full))"
    using g assms(1,2)[of det] assms(3) [of det] by (cases r) auto
qed

lemma answers_forD:
  assumes "answers_for F q m S g"
  shows "g det = (Some r, d) \<Longrightarrow> \<exists>full \<in> S. candidate F q (qu_part q) full \<and> r = c_trunc m full"
    and "g det = (None, d) \<Longrightarrow> full \<in> S \<Longrightarrow> \<not> candidate F q (qu_part q) full"
    and "g det = (r', d) \<Longrightarrow> d \<noteq> det \<Longrightarrow> d \<noteq> qu_part q \<and> (\<exists>full \<in> S. candidate F q d full)"
  using assms [unfolded answers_for_def, rule_format, of det] by (auto split: option.splits prod.splits)

lemma answers_nothing: "answers_for F q m {} (\<lambda>d. (None, d))"
  by (simp add: answers_for_def)

lemma check_answers: "answers_for F q m {full} (check_part_file F q m full)"
  by (auto simp: answers_for_def check_part_file_def candidate_def split: sum.splits)

lemma first_of_answers:
  assumes "\<And>x. x \<in> set xs \<Longrightarrow> answers_for F q m (S x) (f x)"
  shows "answers_for F q m (\<Union>x \<in> set xs. S x) (first_of f xs)"
  using assms
proof (induction xs)
  case Nil
  then show ?case by (simp add: answers_for_def)
next
  case (Cons x xs)
  let ?U = "\<Union>y \<in> set xs. S y"
  have x: "answers_for F q m (S x) (f x)" and later: "answers_for F q m ?U (first_of f xs)"
    using Cons by simp_all
  show ?case
  proof (rule answers_forI)
    fix det r d
    assume r: "first_of f (x # xs) det = (Some r, d)"
    obtain r1 d1 where f: "f x det = (r1, d1)" by (cases "f x det")
    show "\<exists>full \<in> \<Union>y \<in> set (x # xs). S y. candidate F q (qu_part q) full \<and> r = c_trunc m full"
    proof (cases r1)
      case None
      then show ?thesis using r f answers_forD(1) [OF later, of d1 r d] by auto
    next
      case (Some r')
      then show ?thesis using r f answers_forD(1) [OF x, of det r d] by auto
    qed
  next
    fix det d
    assume r: "first_of f (x # xs) det = (None, d)"
    obtain d1 where f: "f x det = (None, d1)" "first_of f xs d1 = (None, d)"
      using r by (cases "f x det") (auto split: option.splits)
    then show "\<forall>full \<in> \<Union>y \<in> set (x # xs). S y. \<not> candidate F q (qu_part q) full"
      using answers_forD(2) [OF x f(1)] answers_forD(2) [OF later f(2)] by auto
  next
    fix det
    assume n: "snd (first_of f (x # xs) det) \<noteq> det"
    obtain r1 d1 where f: "f x det = (r1, d1)" by (cases "f x det")
    obtain r2 d2 where g: "first_of f xs d1 = (r2, d2)" by (cases "first_of f xs d1")
    show "snd (first_of f (x # xs) det) \<noteq> qu_part q \<and>
        (\<exists>full \<in> \<Union>y \<in> set (x # xs). S y. candidate F q (snd (first_of f (x # xs) det)) full)"
      using n f g answers_forD(3) [OF x f] answers_forD(3) [OF later g] by (cases r1; cases "d2 = d1") auto
  qed
qed

text \<open>The files a directory's search looks at.\<close>

lemma recursive_answers:
  "answers_for (dr_files E) q m {full. part_at E k dir full} (scan_find_part_recursive k E q m dir)"
proof (induction k arbitrary: dir)
  case 0
  have "{full. part_at E 0 dir full} = {}" by (simp add: part_at_0)
  then show ?case using answers_nothing by (simp add: fun_eq_iff answers_for_def)
next
  case (Suc k)
  show ?case
  proof (cases "dr_dir E dir")
    case None
    then have "{full. part_at E (Suc k) dir full} = {}" by (auto simp: part_at_Suc)
    then show ?thesis using None by (simp add: answers_for_def)
  next
    case (Some ns)
    let ?f = "\<lambda>n d. if hidden n then (None, d)
            else case dr_kind E (entry_path dir n) of
              Some Directory \<Rightarrow> scan_find_part_recursive k E q m (entry_path dir n) d
            | Some Regular \<Rightarrow> check_part_file (dr_files E) q m (entry_path dir n) d
            | _ \<Rightarrow> (None, d)"
    let ?S = "\<lambda>n. if hidden n then {}
            else case dr_kind E (entry_path dir n) of
              Some Directory \<Rightarrow> {full. part_at E k (entry_path dir n) full}
            | Some Regular \<Rightarrow> {entry_path dir n}
            | _ \<Rightarrow> {}"
    have "{full. part_at E (Suc k) dir full} = (\<Union>n \<in> set ns. ?S n)"
      using Some by (auto simp: part_at_Suc split: if_splits option.splits file_kind.splits)
    moreover have "answers_for (dr_files E) q m (?S n) (?f n)" for n
      using Suc.IH [of "entry_path dir n"] check_answers [of "dr_files E" q m "entry_path dir n"] answers_nothing
      by (cases "hidden n"; cases "dr_kind E (entry_path dir n)"; cases "the (dr_kind E (entry_path dir n))") auto
    ultimately show ?thesis using Some first_of_answers [of ns "dr_files E" q m ?S ?f]
      by (simp add: answers_for_def)
  qed
qed

end
