(* ===== verification/PartFinderClaims.thy ===== *)
theory PartFinderClaims
  imports PartFinder
begin

text \<open>
  What the finder of parts is good for: its answer is exact, it is what the virtual stream relies on
  as long as no other package of the same file name is mounted, and it is not otherwise.
\<close>

section \<open>Exactness\<close>

lemma location_answers:
  "answers_for (dr_files E) q m
     {full. \<exists>ns n. dr_dir E dir = Some ns \<and> n \<in> set ns \<and> \<not> hidden n \<and>
        (dr_kind E (entry_path dir n) = Some Regular \<and> full = entry_path dir n \<or>
         dr_kind E (entry_path dir n) = Some Directory \<and> n = ''pkg'' \<and> part_at E 6 (entry_path dir n) full)}
     (scan_find_part_in_location E q m dir)"
proof (cases "dr_dir E dir")
  case None
  then show ?thesis by (simp add: answers_for_def scan_find_part_in_location_def)
next
  case (Some ns)
  let ?f = "\<lambda>n d. if hidden n then (None, d)
            else case dr_kind E (entry_path dir n) of
              Some Regular \<Rightarrow> check_part_file (dr_files E) q m (entry_path dir n) d
            | Some Directory \<Rightarrow>
                (if n = ''pkg'' then scan_find_part_recursive 6 E q m (entry_path dir n) d else (None, d))
            | _ \<Rightarrow> (None, d)"
  let ?S = "\<lambda>n. if hidden n then {}
            else case dr_kind E (entry_path dir n) of
              Some Regular \<Rightarrow> {entry_path dir n}
            | Some Directory \<Rightarrow> (if n = ''pkg'' then {full. part_at E 6 (entry_path dir n) full} else {})
            | _ \<Rightarrow> {}"
  have "answers_for (dr_files E) q m (?S n) (?f n)" for n
    using recursive_answers [of E q m 6 "entry_path dir n"] check_answers [of "dr_files E" q m "entry_path dir n"] answers_nothing
    by (cases "hidden n"; cases "dr_kind E (entry_path dir n)"; cases "the (dr_kind E (entry_path dir n))") auto
  then have "answers_for (dr_files E) q m (\<Union>n \<in> set ns. ?S n) (first_of ?f ns)"
    by (rule first_of_answers)
  moreover have "(\<Union>n \<in> set ns. ?S n) = {full. \<exists>ns n. dr_dir E dir = Some ns \<and> n \<in> set ns \<and> \<not> hidden n \<and>
        (dr_kind E (entry_path dir n) = Some Regular \<and> full = entry_path dir n \<or>
         dr_kind E (entry_path dir n) = Some Directory \<and> n = ''pkg'' \<and> part_at E 6 (entry_path dir n) full)}"
    using Some by (auto split: if_splits option.splits file_kind.splits)
  moreover have "scan_find_part_in_location E q m dir = first_of ?f ns"
    using Some by (simp add: scan_find_part_in_location_def fun_eq_iff)
  ultimately show ?thesis by (simp only:)
qed

lemma find_answers: "answers_for (dr_files E) q m {full. in_scope E full} (first_of (scan_find_part_in_location E q m) (part_locations E))"
proof -
  let ?S = "\<lambda>dir. {full. \<exists>ns n. dr_dir E dir = Some ns \<and> n \<in> set ns \<and> \<not> hidden n \<and>
        (dr_kind E (entry_path dir n) = Some Regular \<and> full = entry_path dir n \<or>
         dr_kind E (entry_path dir n) = Some Directory \<and> n = ''pkg'' \<and> part_at E 6 (entry_path dir n) full)}"
  have "answers_for (dr_files E) q m (\<Union>dir \<in> set (part_locations E). ?S dir)
      (first_of (scan_find_part_in_location E q m) (part_locations E))"
    by (rule first_of_answers [OF location_answers])
  moreover have "(\<Union>dir \<in> set (part_locations E). ?S dir) = {full. in_scope E full}"
    by (auto simp: in_scope_def)
  ultimately show ?thesis by simp
qed

lemma find_part_hit:
  "pkg_scanner_find_part E q m = Some r \<Longrightarrow> \<exists>full. in_scope E full \<and> candidate (dr_files E) q (qu_part q) full \<and> r = c_trunc m full"
  using answers_forD(1) [OF find_answers [of E q m], of 0 r]
  by (cases "pkg_scanner_find_part_ex E q m") (auto simp: pkg_scanner_find_part_def pkg_scanner_find_part_ex_def split: if_splits)

lemma find_part_miss:
  "pkg_scanner_find_part E q m = None \<Longrightarrow> 0 < m \<Longrightarrow> in_scope E full \<Longrightarrow> \<not> candidate (dr_files E) q (qu_part q) full"
  using answers_forD(2) [OF find_answers [of E q m], of 0]
  by (cases "pkg_scanner_find_part_ex E q m") (auto simp: pkg_scanner_find_part_def pkg_scanner_find_part_ex_def split: if_splits)

lemma find_part_noticed:
  "snd (pkg_scanner_find_part_ex E q m) = d \<Longrightarrow> d \<noteq> 0 \<Longrightarrow>
    d \<noteq> qu_part q \<and> (\<exists>full. in_scope E full \<and> candidate (dr_files E) q d full)"
  using answers_forD(3) [OF find_answers [of E q m], of 0]
  by (cases "pkg_scanner_find_part_ex E q m") (auto simp: pkg_scanner_find_part_ex_def split: if_splits)

text \<open>
  C12: the search for a part file names a file exactly when one is in scope (at the top of a
  location or up to six levels deep in its folder pkg, no hidden name on the way) whose name is
  that of a part, whose header is valid, and which passes for the part asked for; and the other
  part it reports as noticed is one of those that are there.
\<close>
theorem find_part_exact:
  assumes "0 < m"
  shows "(pkg_scanner_find_part E q m = None \<longleftrightarrow> (\<nexists>full. in_scope E full \<and> candidate (dr_files E) q (qu_part q) full)) \<and>
    (\<forall>r. pkg_scanner_find_part E q m = Some r \<longrightarrow>
       (\<exists>full. in_scope E full \<and> candidate (dr_files E) q (qu_part q) full \<and> r = c_trunc m full)) \<and>
    (\<forall>d. snd (pkg_scanner_find_part_ex E q m) = d \<and> d \<noteq> 0 \<longrightarrow>
       d \<noteq> qu_part q \<and> (\<exists>full. in_scope E full \<and> candidate (dr_files E) q d full))"
proof (intro conjI)
  show "pkg_scanner_find_part E q m = None \<longleftrightarrow> (\<nexists>full. in_scope E full \<and> candidate (dr_files E) q (qu_part q) full)"
    using find_part_miss [OF _ assms, of E q] find_part_hit [of E q m] by (cases "pkg_scanner_find_part E q m") auto
qed (use find_part_hit find_part_noticed in blast)+

section \<open>For the virtual stream\<close>

text \<open>
  No file in scope passes for a part of the package h by its name alone; and paths have room in
  the stream's 512 characters.
\<close>

definition no_namesake :: "drives \<Rightarrow> u8 list \<Rightarrow> string \<Rightarrow> bool" where
  "no_namesake E uuid name =
     (\<forall>full g. in_scope E full \<and> multipart_read_header (dr_files E) full = Inr g \<and> ieq (header_name g) name \<longrightarrow> mh_uuid g = uuid)"

definition short_paths :: "drives \<Rightarrow> bool" where
  "short_paths E = (\<forall>full. in_scope E full \<longrightarrow> length full < 512 \<and> \<not> starts_with ''file://'' full)"

lemma part_filename_ne: "fst (multipart_is_part_filename full 0) \<Longrightarrow> full \<noteq> []"
  by (auto simp: multipart_is_part_filename_def Let_def)

lemma found_part_is_part:
  assumes f: "pkg_scanner_find_part E \<lparr>qu_uuid = Some uuid, qu_name = name, qu_part = p\<rparr> 512 = Some r"
    and n: "no_namesake E uuid name" and s: "short_paths E"
  shows "r \<noteq> [] \<and> length r < 512 \<and> \<not> starts_with ''file://'' r \<and> in_scope E r \<and>
    (\<exists>h. multipart_read_header (dr_files E) r = Inr h \<and> mh_uuid h = uuid \<and> mh_part_index h = p)"
proof -
  obtain full where full: "in_scope E full" "candidate (dr_files E) \<lparr>qu_uuid = Some uuid, qu_name = name, qu_part = p\<rparr> p full" "r = c_trunc 512 full"
    using find_part_hit [OF f] by auto
  then have l: "length full < 512" "\<not> starts_with ''file://'' full" using s by (auto simp: short_paths_def)
  then have r: "r = full" using full(3) by (simp add: c_trunc_short)
  obtain h where h: "multipart_read_header (dr_files E) full = Inr h" "mh_part_index h = p"
    "uuid = mh_uuid h \<or> ieq (header_name h) name" and ne: "full \<noteq> []"
    using full(2) part_filename_ne by (auto simp: candidate_def part_matches_def split: if_splits)
  then have "mh_uuid h = uuid" using n full(1) by (auto simp: no_namesake_def)
  then show ?thesis using r l full(1) h ne by blast
qed

text \<open>The world of a stream whose part finder is that of the package scanner.\<close>

definition finds_by_scanner :: "drives \<Rightarrow> world \<Rightarrow> bool" where
  "finds_by_scanner E W =
     (dr_files E = wd_files W \<and>
      wd_finder W = Some (\<lambda>u n p. pkg_scanner_find_part E \<lparr>qu_uuid = Some u, qu_name = n, qu_part = p\<rparr> 512))"

lemma scanner_names_part:
  assumes w: "finds_by_scanner E W" "world_in F W" and n: "no_namesake E (mh_uuid h) name" and s: "short_paths E"
    and f: "wd_finder W = Some f" "f (mh_uuid h) name p = Some r"
  shows "names_part F h p r"
proof -
  have f': "pkg_scanner_find_part E \<lparr>qu_uuid = Some (mh_uuid h), qu_name = name, qu_part = p\<rparr> 512 = Some r"
    and F: "dr_files E = wd_files W"
    using w(1) f by (auto simp: finds_by_scanner_def)
  note r = found_part_is_part [OF f' n s]
  then obtain g where g: "multipart_read_header (wd_files W) r = Inr g" "mh_uuid g = mh_uuid h" "mh_part_index g = p"
    unfolding F by blast
  obtain c where "F r = Some c" "g = header_of c" using read_header_file [OF g(1) w(2)] r by blast
  then show ?thesis using r g by (auto simp: names_part_def)
qed

end
