(* ===== verification/DiscWaiter.thy ===== *)
theory DiscWaiter
  imports PartFinderClaims InstallerState WsCodec
begin

text \<open>
  installer_wait_for_part of src/src/installer.c, which installer_init sets as the disc waiter of
  virtual streams: every 250 ms the part finder is asked, for an hour at most, while the prompt
  counts down. What the drives hold at each round, and what other threads do to the status
  between the rounds and during a search, are parameters. Notifications and the log are left out.
\<close>

section \<open>The prompt\<close>

definition show_02u :: "nat \<Rightarrow> string" where
  "show_02u n = (if n < 10 then CHR ''0'' # show_nat n else show_nat n)"

definition is_disc_path :: "string \<Rightarrow> bool" where
  "is_disc_path p = (strstr p ''/mnt/disc'' \<noteq> None \<or> strstr p ''/disc'' \<noteq> None \<or> strstr p ''_disc'' \<noteq> None)"

definition time_left :: "nat \<Rightarrow> string" where
  "time_left ticks =
     (let s = ticks div 4 in '' ('' @ show_nat (s div 60) @ '':'' @ show_02u (s mod 60) @ '' left)'')"

definition wait_prompt :: "bool \<Rightarrow> nat \<Rightarrow> nat \<Rightarrow> nat \<Rightarrow> string \<Rightarrow> nat \<Rightarrow> string" where
  "wait_prompt disc part parts noticed name ticks =
     c_trunc 256
       (if disc
        then (if noticed \<noteq> 0
              then ''Disc '' @ show_nat noticed @ '' detected! Please insert Disc '' @ show_nat part @ '' of '' @ show_nat parts
              else ''Please insert Disc '' @ show_nat part @ '' of '' @ show_nat parts) @ time_left ticks
        else if noticed \<noteq> 0
        then ''Part '' @ show_nat noticed @ '' detected! Waiting for Part '' @ show_nat part @ '' of '' @ show_nat parts @ time_left ticks
        else if name \<noteq> []
        then ''Waiting for Part '' @ show_nat part @ '' of '' @ show_nat parts @ '' for '' @ name @ time_left ticks
        else ''Waiting for Part '' @ show_nat part @ '' of '' @ show_nat parts @ time_left ticks)"

definition set_wait_prompt :: "bool \<Rightarrow> nat \<Rightarrow> nat \<Rightarrow> nat \<Rightarrow> string \<Rightarrow> nat \<Rightarrow> inst \<Rightarrow> inst" where
  "set_wait_prompt disc part parts noticed name ticks I = I\<lparr>in_prompt := wait_prompt disc part parts noticed name ticks\<rparr>"

definition installer_on_part_changed :: "nat \<Rightarrow> nat \<Rightarrow> inst \<Rightarrow> inst" where
  "installer_on_part_changed part parts I =
     (if in_installing I \<and> in_multipart I
      then I\<lparr>in_part := part,
             in_prompt := c_trunc 256 ((if is_disc_path (in_path I) then ''Streaming Disc '' else ''Streaming Part '') @
               show_nat part @ '' of '' @ show_nat parts @ ''...'')\<rparr>
      else I)"

section \<open>The wait\<close>

record wait_env =
  we_drives :: "nat \<Rightarrow> drives"          \<comment> \<open>what the search of round t finds mounted\<close>
  we_monitor :: "nat \<Rightarrow> bool"           \<comment> \<open>g_monitor_running\<close>
  we_before :: "nat \<Rightarrow> inst \<Rightarrow> inst"    \<comment> \<open>what other threads do before round t\<close>
  we_during :: "nat \<Rightarrow> inst \<Rightarrow> inst"    \<comment> \<open>and during its search\<close>

definition max_timeout_ticks :: nat where
  "max_timeout_ticks = 60 * 60 * 4"

definition prompted :: "nat \<Rightarrow> inst \<Rightarrow> inst" where
  "prompted part I = I\<lparr>in_waiting_disc := True, in_part := part, in_status := ''waiting_disc''\<rparr>"

definition detected :: "bool \<Rightarrow> nat \<Rightarrow> inst \<Rightarrow> inst" where
  "detected disc part I =
     I\<lparr>in_waiting_disc := False, in_part := part, in_status := ''transferring'',
       in_prompt := (if disc then ''Disc '' else ''Part '') @ show_nat part @ '' detected! Installing...''\<rparr>"

definition timed_out :: "bool \<Rightarrow> nat \<Rightarrow> inst \<Rightarrow> inst" where
  "timed_out disc part I =
     I\<lparr>in_installing := False, in_failed := True, in_error := - 22, in_status := ''error'',
       in_prompt := ''Timed out waiting for '' @ (if disc then ''Disc '' else ''Part '') @ show_nat part\<rparr>"

text \<open>A call: what is asked, of how many parts, the size of out_path, and whether discs are spoken of.\<close>

record wait_call =
  wc_query :: query
  wc_total :: nat
  wc_max :: nat
  wc_disc :: bool

definition wc_prompt :: "wait_call \<Rightarrow> nat \<Rightarrow> nat \<Rightarrow> inst \<Rightarrow> inst" where
  "wc_prompt C noticed ticks = set_wait_prompt (wc_disc C) (qu_part (wc_query C)) (wc_total C) noticed (qu_name (wc_query C)) ticks"

text \<open>The end of round t, after a search without a hit: the prompt, and the timeout.\<close>

definition round_end :: "wait_call \<Rightarrow> nat \<Rightarrow> nat \<Rightarrow> nat \<Rightarrow> inst \<Rightarrow> inst \<times> nat" where
  "round_end C t noticed wrong I =
     (let new = noticed \<noteq> 0 \<and> noticed \<noteq> qu_part (wc_query C) \<and> noticed \<noteq> wrong;
          wrong' = (if new then noticed else wrong);
          I1 = (if new then wc_prompt C noticed (max_timeout_ticks - t) I else I);
          I2 = (if (t + 1) mod 20 = 0 then wc_prompt C wrong' (max_timeout_ticks - (t + 1)) I1 else I1)
      in (I2, wrong'))"

text \<open>From round t on; wrong is last_wrong_part.\<close>

function wait_rounds :: "wait_env \<Rightarrow> wait_call \<Rightarrow> nat \<Rightarrow> nat \<Rightarrow> inst \<Rightarrow> inst \<times> int \<times> string option" where
  "wait_rounds E C t wrong I =
     (let I1 = we_before E t I in
      if \<not> we_monitor E t \<or> in_cancel_stream I1 \<or> \<not> in_installing I1 then (I1, - 1, None)
      else case pkg_scanner_find_part_ex (we_drives E t) (wc_query C) (wc_max C) of
        (Some r, noticed) \<Rightarrow> (detected (wc_disc C) (qu_part (wc_query C)) (we_during E t I1), 0, Some r)
      | (None, noticed) \<Rightarrow>
          (case round_end C t noticed wrong (we_during E t I1) of
             (I2, wrong') \<Rightarrow>
               (if max_timeout_ticks \<le> t + 1 then (timed_out (wc_disc C) (qu_part (wc_query C)) I2, - 22, None)
                else wait_rounds E C (t + 1) wrong' I2)))"
  by pat_completeness auto
termination
  by (relation "measure (\<lambda>(E, C, t, wrong, I). max_timeout_ticks - t)") auto

declare wait_rounds.simps [simp del]

definition installer_wait_for_part ::
    "wait_env \<Rightarrow> u8 list option \<Rightarrow> string \<Rightarrow> nat \<Rightarrow> nat \<Rightarrow> nat \<Rightarrow> inst \<Rightarrow> inst \<times> int \<times> string option" where
  "installer_wait_for_part E uuid name part parts m I =
     (let C = \<lparr>wc_query = \<lparr>qu_uuid = uuid, qu_name = name, qu_part = part\<rparr>, wc_total = parts, wc_max = m,
               wc_disc = is_disc_path (c_trunc 512 (in_path I))\<rparr>
      in wait_rounds E C 0 0 (wc_prompt C 0 max_timeout_ticks (prompted part I)))"

end
