(* ===== verification/DiscWaiterClaims.thy ===== *)
theory DiscWaiterClaims
  imports DiscWaiter PartNames
begin

text \<open>
  What a wait for a disc comes to: the part when it is mounted in time, the timeout, or the end of the
  installation; and that the part it names is the one the stream needs.
\<close>

section \<open>How a wait ends\<close>

text \<open>The installation goes on, whatever the other threads do up to round n.\<close>

definition undisturbed :: "wait_env \<Rightarrow> nat \<Rightarrow> bool" where
  "undisturbed E n =
     (\<forall>t < n. we_monitor E t \<and>
        (\<forall>I. in_installing I \<and> \<not> in_cancel_stream I \<longrightarrow>
           in_installing (we_before E t I) \<and> \<not> in_cancel_stream (we_before E t I) \<and>
           in_installing (we_during E t I) \<and> \<not> in_cancel_stream (we_during E t I)))"

definition ongoing :: "inst \<Rightarrow> bool" where
  "ongoing I = (in_installing I \<and> \<not> in_cancel_stream I)"

lemma ongoing_prompt [simp]: "ongoing (wc_prompt C w k I) = ongoing I" "ongoing (prompted p I) = ongoing I"
  by (simp_all add: ongoing_def wc_prompt_def set_wait_prompt_def prompted_def)

lemma ongoing_end: "round_end C t d w I = (J, w') \<Longrightarrow> ongoing J = ongoing I"
  by (auto simp: round_end_def Let_def split: if_splits)

lemma wait_round_unfold:
  assumes "undisturbed E n" and "t < n" and "ongoing I"
  shows "wait_rounds E C t w I =
    (case pkg_scanner_find_part_ex (we_drives E t) (wc_query C) (wc_max C) of
        (Some r, noticed) \<Rightarrow> (detected (wc_disc C) (qu_part (wc_query C)) (we_during E t (we_before E t I)), 0, Some r)
      | (None, noticed) \<Rightarrow>
          (case round_end C t noticed w (we_during E t (we_before E t I)) of
             (I2, w') \<Rightarrow>
               (if max_timeout_ticks \<le> t + 1 then (timed_out (wc_disc C) (qu_part (wc_query C)) I2, - 22, None)
                else wait_rounds E C (t + 1) w' I2)))"
    and "ongoing (we_during E t (we_before E t I))"
  using assms by (simp_all add: wait_rounds.simps [of E C t w I] undisturbed_def ongoing_def Let_def)

text \<open>The first round whose search hits ends the wait with its answer.\<close>

lemma wait_hit:
  assumes u: "undisturbed E (Suc n)" and n: "n < max_timeout_ticks"
    and hit: "pkg_scanner_find_part (we_drives E n) (wc_query C) (wc_max C) = Some r"
    and miss: "\<And>t. t < n \<Longrightarrow> pkg_scanner_find_part (we_drives E t) (wc_query C) (wc_max C) = None"
  shows "t \<le> n \<Longrightarrow> ongoing I \<Longrightarrow>
    \<exists>J. wait_rounds E C t w I = (detected (wc_disc C) (qu_part (wc_query C)) J, 0, Some r) \<and> ongoing J"
proof (induction "n - t" arbitrary: t w I)
  case 0
  then have t: "t = n" by simp
  obtain d where f: "pkg_scanner_find_part_ex (we_drives E n) (wc_query C) (wc_max C) = (Some r, d)"
    using hit by (cases "pkg_scanner_find_part_ex (we_drives E n) (wc_query C) (wc_max C)") (auto simp: pkg_scanner_find_part_def)
  have "ongoing (we_during E n (we_before E n I))" using wait_round_unfold(2) [OF u _ 0(3), of n] by simp
  then show ?case using wait_round_unfold(1) [OF u _ 0(3), of n C w] f by (auto simp: t)
next
  case (Suc k)
  then have t: "t < n" by simp
  obtain d where f: "pkg_scanner_find_part_ex (we_drives E t) (wc_query C) (wc_max C) = (None, d)"
    using miss [OF t] by (cases "pkg_scanner_find_part_ex (we_drives E t) (wc_query C) (wc_max C)") (auto simp: pkg_scanner_find_part_def)
  have on: "ongoing (we_during E t (we_before E t I))" using wait_round_unfold(2) [OF u _ Suc(4), of t] t by simp
  obtain J w' where J: "round_end C t d w (we_during E t (we_before E t I)) = (J, w')" by (metis prod.exhaust)
  have "wait_rounds E C t w I = wait_rounds E C (t + 1) w' J"
    using wait_round_unfold(1) [OF u _ Suc(4), of t C w] t n f J by simp
  then show ?case using Suc.hyps(1) [of "t + 1" J w'] Suc.hyps(2) t ongoing_end [OF J] on by simp
qed

text \<open>Without a hit the wait ends after the last round.\<close>

lemma wait_timeout:
  assumes u: "undisturbed E max_timeout_ticks"
    and miss: "\<And>t. t < max_timeout_ticks \<Longrightarrow> pkg_scanner_find_part (we_drives E t) (wc_query C) (wc_max C) = None"
  shows "t < max_timeout_ticks \<Longrightarrow> ongoing I \<Longrightarrow>
    \<exists>J. wait_rounds E C t w I = (timed_out (wc_disc C) (qu_part (wc_query C)) J, - 22, None)"
proof (induction "max_timeout_ticks - t" arbitrary: t w I)
  case (Suc k)
  obtain d where f: "pkg_scanner_find_part_ex (we_drives E t) (wc_query C) (wc_max C) = (None, d)"
    using miss [OF Suc(3)] by (cases "pkg_scanner_find_part_ex (we_drives E t) (wc_query C) (wc_max C)") (auto simp: pkg_scanner_find_part_def)
  obtain J w' where J: "round_end C t d w (we_during E t (we_before E t I)) = (J, w')" by (metis prod.exhaust)
  have on: "ongoing J" using wait_round_unfold(2) [OF u Suc(3,4)] ongoing_end [OF J] by simp
  show ?case
  proof (cases "max_timeout_ticks \<le> t + 1")
    case True
    then show ?thesis using wait_round_unfold(1) [OF u Suc(3,4), of C w] f J by auto
  next
    case False
    then have "wait_rounds E C t w I = wait_rounds E C (t + 1) w' J"
      using wait_round_unfold(1) [OF u Suc(3,4), of C w] f J by simp
    then show ?thesis using Suc.hyps(1) [of "t + 1" J w'] Suc.hyps(2) False on by simp
  qed
qed simp

text \<open>Whatever happens, a path comes with 0 and is the answer of some round's search.\<close>

lemma wait_answer:
  "wait_rounds E C t w I = (J, k, Some r) \<Longrightarrow> \<exists>n. k = 0 \<and> pkg_scanner_find_part (we_drives E n) (wc_query C) (wc_max C) = Some r"
proof (induction E C t w I rule: wait_rounds.induct)
  case (1 E C t w I)
  let ?I = "we_before E t I"
  have go: "we_monitor E t" "\<not> in_cancel_stream ?I" "in_installing ?I"
    using "1.prems"(1) by (auto simp: wait_rounds.simps [of E C t w I] Let_def split: if_splits)
  obtain f d where f: "pkg_scanner_find_part_ex (we_drives E t) (wc_query C) (wc_max C) = (f, d)" by (metis prod.exhaust)
  show ?case
  proof (cases f)
    case (Some r')
    then have "pkg_scanner_find_part (we_drives E t) (wc_query C) (wc_max C) = Some r" "k = 0"
      using "1.prems" go f by (auto simp: wait_rounds.simps [of E C t w I] Let_def pkg_scanner_find_part_def)
    then show ?thesis by blast
  next
    case None
    obtain J' w' where J: "round_end C t d w (we_during E t ?I) = (J', w')" by (metis prod.exhaust)
    have lt: "t + 1 < max_timeout_ticks" and r: "wait_rounds E C (t + 1) w' J' = (J, k, Some r)"
      using "1.prems"(1) go f None J by (auto simp: wait_rounds.simps [of E C t w I] Let_def split: if_splits)
    show ?thesis
      using "1.IH" [OF refl _ f [symmetric] None J [symmetric] _ r] go lt by simp
  qed
qed

lemma part_wait_ends:
  assumes "undisturbed E max_timeout_ticks" and "in_installing I" and "\<not> in_cancel_stream I"
  shows "(\<forall>n r. n < max_timeout_ticks \<and> pkg_scanner_find_part (we_drives E n) \<lparr>qu_uuid = uuid, qu_name = name, qu_part = p\<rparr> m = Some r \<and>
        (\<forall>t < n. pkg_scanner_find_part (we_drives E t) \<lparr>qu_uuid = uuid, qu_name = name, qu_part = p\<rparr> m = None) \<longrightarrow>
        (\<exists>J. installer_wait_for_part E uuid name p parts m I = (J, 0, Some r) \<and> in_installing J \<and> \<not> in_waiting_disc J \<and>
           in_part J = p \<and> in_status J = ''transferring'')) \<and>
    ((\<forall>t < max_timeout_ticks. pkg_scanner_find_part (we_drives E t) \<lparr>qu_uuid = uuid, qu_name = name, qu_part = p\<rparr> m = None) \<longrightarrow>
        (\<exists>J. installer_wait_for_part E uuid name p parts m I = (J, - 22, None) \<and> \<not> in_installing J \<and> in_failed J \<and>
           in_error J = - 22 \<and> in_status J = ''error''))"
proof -
  define C where "C = \<lparr>wc_query = \<lparr>qu_uuid = uuid, qu_name = name, qu_part = p\<rparr>, wc_total = parts, wc_max = m,
    wc_disc = is_disc_path (c_trunc 512 (in_path I))\<rparr>"
  have C: "wc_query C = \<lparr>qu_uuid = uuid, qu_name = name, qu_part = p\<rparr>" "wc_max C = m" by (simp_all add: C_def)
  define I0 where "I0 = wc_prompt C 0 max_timeout_ticks (prompted p I)"
  have on: "ongoing I0" using assms(2,3) by (simp add: I0_def ongoing_def [of I])
  have w: "installer_wait_for_part E uuid name p parts m I = wait_rounds E C 0 0 I0"
    by (simp add: installer_wait_for_part_def C_def I0_def Let_def)
  have u: "undisturbed E (Suc n)" if "n < max_timeout_ticks" for n using assms(1) that by (simp add: undisturbed_def)
  have z: "0 < max_timeout_ticks" by (simp add: max_timeout_ticks_def)
  show ?thesis
    unfolding w C(1) [symmetric]
  proof (intro conjI allI impI, elim conjE)
    fix n r
    assume n: "n < max_timeout_ticks" and f: "pkg_scanner_find_part (we_drives E n) (wc_query C) m = Some r"
      and b: "\<forall>t < n. pkg_scanner_find_part (we_drives E t) (wc_query C) m = None"
    obtain J where "wait_rounds E C 0 0 I0 = (detected (wc_disc C) (qu_part (wc_query C)) J, 0, Some r)" "ongoing J"
      using wait_hit [OF u [OF n] n, of C r 0 I0 0] f b on C(2) by auto
    then show "\<exists>J. wait_rounds E C 0 0 I0 = (J, 0, Some r) \<and> in_installing J \<and> \<not> in_waiting_disc J \<and>
        in_part J = p \<and> in_status J = ''transferring''"
      by (simp add: detected_def ongoing_def C(1))
  next
    assume "\<forall>t < max_timeout_ticks. pkg_scanner_find_part (we_drives E t) (wc_query C) m = None"
    then obtain J where "wait_rounds E C 0 0 I0 = (timed_out (wc_disc C) (qu_part (wc_query C)) J, - 22, None)"
      using wait_timeout [OF assms(1), of C 0 I0 0] on z C(2) by auto
    then show "\<exists>J. wait_rounds E C 0 0 I0 = (J, - 22, None) \<and> \<not> in_installing J \<and> in_failed J \<and>
        in_error J = - 22 \<and> in_status J = ''error''"
      by (simp add: timed_out_def)
  qed
qed

text \<open>
  C11: while nothing stops the installation, a wait for a part ends with the part as soon as a
  search of one of the first 14400 rounds finds it mounted, and the installation goes on
  (status "transferring", no longer waiting); when no search finds it the wait ends after the
  last round with -22 and a failed installation.
\<close>
theorem wait_outcome:
  assumes "undisturbed E max_timeout_ticks" and "in_installing I" and "\<not> in_cancel_stream I"
  shows "(\<forall>n r. n < max_timeout_ticks \<and> pkg_scanner_find_part (we_drives E n) \<lparr>qu_uuid = uuid, qu_name = name, qu_part = p\<rparr> m = Some r \<and>
        (\<forall>t < n. pkg_scanner_find_part (we_drives E t) \<lparr>qu_uuid = uuid, qu_name = name, qu_part = p\<rparr> m = None) \<longrightarrow>
        (\<exists>J. installer_wait_for_part E uuid name p parts m I = (J, 0, Some r) \<and> in_installing J \<and> \<not> in_waiting_disc J \<and>
           in_part J = p \<and> in_status J = ''transferring'')) \<and>
    ((\<forall>t < max_timeout_ticks. pkg_scanner_find_part (we_drives E t) \<lparr>qu_uuid = uuid, qu_name = name, qu_part = p\<rparr> m = None) \<longrightarrow>
        (\<exists>J. installer_wait_for_part E uuid name p parts m I = (J, - 22, None) \<and> \<not> in_installing J \<and> in_failed J \<and>
           in_error J = - 22 \<and> in_status J = ''error''))"
  using part_wait_ends [OF assms] .

section \<open>The stream over the finder and the waiter\<close>

lemma header_in_files:
  assumes "multipart_read_header G q = Inr g" and "\<And>q c. G q = Some c \<Longrightarrow> F q = Some c" and "\<not> starts_with ''file://'' q"
  shows "\<exists>c. F q = Some c \<and> g = header_of c \<and> MULTIPART_HEADER_SIZE \<le> length c \<and> multipart_is_valid_header g"
  using assms by (auto simp: multipart_read_header_def local_path_def split: if_splits option.splits)

text \<open>The drives hold files of F, none of another package of that name, under short paths.\<close>

definition fair_drives :: "files \<Rightarrow> u8 list \<Rightarrow> string \<Rightarrow> drives \<Rightarrow> bool" where
  "fair_drives F uuid name E =
     ((\<forall>q c. dr_files E q = Some c \<longrightarrow> F q = Some c) \<and> no_namesake E uuid name \<and> short_paths E)"

text \<open>What the waiter answers a stream of the package for each part.\<close>

definition waiter_answer :: "wait_env \<Rightarrow> u8 list \<Rightarrow> string \<Rightarrow> nat \<Rightarrow> inst \<Rightarrow> nat \<Rightarrow> string option" where
  "waiter_answer E uuid name parts I n =
     (case installer_wait_for_part E (Some uuid) name n parts 512 I of (J, k, r) \<Rightarrow> if k = 0 then r else None)"

lemma waiter_answers_ok:
  assumes d: "\<And>t. fair_drives F uuid name (we_drives E t)" and g: "genuine F uuid pkg" and w: "world_in F W"
  shows "answers_ok F pkg [(waiter_answer E uuid name parts I, W)]"
proof -
  have "q \<noteq> [] \<and> length q < 512 \<and> \<not> starts_with ''file://'' q \<and>
      (F q = Some c \<longrightarrow> mh_part_index (header_of c) = n \<and> slice_ok pkg c)"
    if a: "waiter_answer E uuid name parts I n = Some q" for n q c
  proof -
    obtain J k where "installer_wait_for_part E (Some uuid) name n parts 512 I = (J, k, Some q)"
      using a by (auto simp: waiter_answer_def split: prod.splits if_splits)
    then obtain t where f: "pkg_scanner_find_part (we_drives E t) \<lparr>qu_uuid = Some uuid, qu_name = name, qu_part = n\<rparr> 512 = Some q"
      by (auto simp: installer_wait_for_part_def Let_def dest!: wait_answer)
    have s: "no_namesake (we_drives E t) uuid name" "short_paths (we_drives E t)"
      and F: "\<And>q c. dr_files (we_drives E t) q = Some c \<Longrightarrow> F q = Some c"
      using d [of t] by (auto simp: fair_drives_def)
    note r = found_part_is_part [OF f s]
    then obtain h where h: "multipart_read_header (dr_files (we_drives E t)) q = Inr h" "mh_uuid h = uuid" "mh_part_index h = n"
      by blast
    obtain c' where c': "F q = Some c'" "h = header_of c'" "MULTIPART_HEADER_SIZE \<le> length c'" "multipart_is_valid_header h"
      using header_in_files [OF h(1), of F] F r by blast
    then have "slice_ok pkg c'" using g h(2) unfolding genuine_def by blast
    then show ?thesis using r c' h(3) by auto
  qed
  then show ?thesis using w by (auto simp: answers_ok_def)
qed

text \<open>
  C10: a read of a multi-part stream that has to wait for a disc, with the installer's waiter and the
  scanner's search behind it, delivers the package's own bytes whenever it delivers any, whatever
  is mounted, swapped and cancelled meanwhile, provided no file of another package has the same
  file name.
\<close>
theorem disc_swap_exact:
  assumes "stream_good F pkg vs" and "length pkg < 2 ^ 63" and "world_in F W" and "world_in F W'" and "genuine F uuid pkg"
    and "\<And>t. fair_drives F uuid name (we_drives E t)" and "n < 2 ^ 64"
    and "source_read ([(waiter_answer E uuid name parts I, W')], W, vs) off n = (s', VRet k bs)" and "0 < k"
  shows "k = int (length bs) \<and> length bs \<le> n \<and> off + length bs \<le> length pkg \<and> bs = extent off (length bs) pkg"
proof -
  have "source_good F pkg ([(waiter_answer E uuid name parts I, W')], W, vs)"
    using assms(1-3) waiter_answers_ok [OF assms(6,5,4)] by (simp add: source_good_def)
  from source_read_good [OF this assms(7,8)] show ?thesis using assms(9) by simp
qed

text \<open>
  a multi-part package opened with the scanner as part finder gives a stream in good shape,
  whichever of its parts are mounted, provided no other package of the same file name is.
\<close>
theorem scanner_opens_parts:
  assumes o: "virtual_stream_open W L path = (vs, L', 0)" and h: "multipart_read_header (wd_files W) path = Inr h"
    and w: "world_in F W" and gen: "genuine F (mh_uuid h) pkg" and f: "finds_by_scanner E W"
    and n: "no_namesake E (mh_uuid h) (clamped_name h)" "short_paths E"
    and e: "part_env F h (W\<lparr>wd_finder := None\<rparr>)"
    and size: "mh_total_pkg_size h = length pkg" "length pkg < 2 ^ 63"
    and path: "path \<noteq> []" "length path < 512" "\<not> starts_with ''live:'' path" "\<not> starts_with ''file://'' path"
  shows "stream_good F pkg vs \<and> vs_total_parts vs = mh_total_parts h"
proof -
  have "tmp_candidate (W\<lparr>wd_finder := None\<rparr>) p = tmp_candidate W p" for p by (simp add: tmp_candidate_def)
  then have "part_env F h W"
    using e scanner_names_part [OF f w n] by (auto simp: part_env_def)
  from open_parts_good [OF o h w gen this size path] show ?thesis by simp
qed

section \<open>A part of another package\<close>

text \<open>
  C13: the search falls back to the file name although it is given the package's uuid: when the
  only files in scope that pass for a part are those of another package of the same file name,
  one of them is named, and a stream that waits for the part takes it as its own.
\<close>
theorem foreign_part_taken:
  assumes "in_scope E full" and "candidate (dr_files E) \<lparr>qu_uuid = Some uuid, qu_name = name, qu_part = p\<rparr> p full"
    and "\<And>full h. in_scope E full \<Longrightarrow> multipart_read_header (dr_files E) full = Inr h \<Longrightarrow> mh_uuid h \<noteq> uuid"
    and "short_paths E" and "wd_files W = dr_files E"
  shows "\<exists>r h. pkg_scanner_find_part E \<lparr>qu_uuid = Some uuid, qu_name = name, qu_part = p\<rparr> 512 = Some r \<and>
    multipart_read_header (wd_files W) r = Inr h \<and> mh_uuid h \<noteq> uuid \<and> mh_part_index h = p \<and>
    (\<forall>vs i. i < length (vs_parts vs) \<longrightarrow>
       snd (swap_disc W vs i r) \<and> vp_fd (vs_parts (fst (swap_disc W vs i r)) ! i) = wd_files W r)"
proof -
  let ?q = "\<lparr>qu_uuid = Some uuid, qu_name = name, qu_part = p\<rparr>"
  obtain r where r: "pkg_scanner_find_part E ?q 512 = Some r"
    using find_part_miss [of E ?q 512 full] assms(1,2) by (cases "pkg_scanner_find_part E ?q 512") auto
  obtain f where f: "in_scope E f" "candidate (dr_files E) ?q p f" "r = c_trunc 512 f"
    using find_part_hit [OF r] by auto
  then have s: "length f < 512" "\<not> starts_with ''file://'' f" using assms(4) by (auto simp: short_paths_def)
  then have rf: "r = f" using f(3) by (simp add: c_trunc_short)
  obtain h where h: "multipart_read_header (dr_files E) f = Inr h" "mh_part_index h = p"
    using f(2) by (auto simp: candidate_def)
  obtain c where "dr_files E f = Some c" using header_in_files [OF h(1) _ s(2), of "dr_files E"] by blast
  then have "snd (swap_disc W vs i r) \<and> vp_fd (vs_parts (fst (swap_disc W vs i r)) ! i) = wd_files W r"
    if "i < length (vs_parts vs)" for vs i
    using that h(1) assms(5) by (simp add: swap_disc_def set_part_def close_others_def rf)
  then show ?thesis using r h rf assms(3) [OF f(1) h(1)] assms(5) by auto
qed

section \<open>A package on a drive\<close>

definition demo_drives :: "files \<Rightarrow> drives" where
  "demo_drives F =
     \<lparr>dr_dir = (\<lambda>d. if d = ''/d'' then Some [''a.pkg.part1'', ''a.pkg.part2''] else None),
      dr_kind = (\<lambda>q. if F q \<noteq> None then Some Regular else None), dr_files = F, dr_mounted = (\<lambda>_. False),
      dr_scan_dir = Some ''/d'', dr_disc_dir = None\<rparr>"

lemma demo_drives_fields:
  "dr_files (demo_drives F) = F" "part_locations (demo_drives F) = [''/d'', ''/mnt/disc'']"
  "dr_dir (demo_drives F) ''/d'' = Some [''a.pkg.part1'', ''a.pkg.part2'']" "dr_dir (demo_drives F) ''/mnt/disc'' = None"
  by (simp_all add: demo_drives_def part_locations_def)

lemma demo_entries: "entry_path ''/d'' ''a.pkg.part1'' = demo_p1" "entry_path ''/d'' ''a.pkg.part2'' = demo_p2"
  by (simp_all add: entry_path_def c_trunc_def demo_p1_def demo_p2_def)

lemma demo_scope: "in_scope (demo_drives F) full \<longleftrightarrow> full \<in> {demo_p1, demo_p2} \<and> F full \<noteq> None"
proof -
  have k: "dr_kind (demo_drives F) q = (if F q \<noteq> None then Some Regular else None)" for q by (simp add: demo_drives_def)
  show ?thesis unfolding in_scope_def demo_drives_fields k
    using demo_entries by (auto simp: hidden_def demo_drives_def split: if_splits)
qed

lemma demo_short: "short_paths (demo_drives F)"
  unfolding short_paths_def demo_scope using demo_paths by auto

lemma demo_part_names: "fst (multipart_is_part_filename demo_p1 0)" "fst (multipart_is_part_filename demo_p2 0)"
proof -
  have "demo_p1 = ''/d'' @ CHR ''/'' # ''a.pkg'' @ ''.part'' @ show_nat 1 @ []"
    "demo_p2 = ''/d'' @ CHR ''/'' # ''a.pkg'' @ ''.part'' @ show_nat 2 @ []"
    unfolding demo_p1_def demo_p2_def by code_simp+
  then show "fst (multipart_is_part_filename demo_p1 0)" "fst (multipart_is_part_filename demo_p2 0)"
    using part_name_recognised [of 1 "''a.pkg''" "[]" "''/d''" 0] part_name_recognised [of 2 "''a.pkg''" "[]" "''/d''" 0]
    by (simp_all add: MAX_MULTIPART_PARTS_def)
qed

lemma demo_indices: "mh_part_index demo_h1 = 1" "mh_part_index demo_h2 = 2"
  by (simp_all add: demo_h1_def demo_h2_def slice_header_def)

abbreviation demo_query :: query where
  "demo_query \<equiv> \<lparr>qu_uuid = Some (replicate 16 7), qu_name = [], qu_part = 2\<rparr>"

lemma demo_reads: "multipart_read_header demo_F demo_p1 = Inr demo_h1" "multipart_read_header demo_F demo_p2 = Inr demo_h2"
  using demo_read_headers [of demo_F] by simp_all

lemma demo_candidate: "candidate demo_F demo_query 2 demo_p2" "\<not> candidate demo_F demo_query 2 demo_p1"
  by (simp_all add: candidate_def demo_reads demo_indices demo_part_names part_matches_def demo_uuid)

lemma demo_find: "pkg_scanner_find_part (demo_drives demo_F) demo_query 512 = Some demo_p2"
proof (cases "pkg_scanner_find_part (demo_drives demo_F) demo_query 512")
  case None
  have "in_scope (demo_drives demo_F) demo_p2" by (simp add: demo_scope demo_F_simps)
  from find_part_miss [OF None _ this] show ?thesis using demo_candidate(1) by (simp add: demo_drives_fields)
next
  case (Some r)
  obtain full where f: "in_scope (demo_drives demo_F) full" "candidate demo_F demo_query 2 full" "r = c_trunc 512 full"
    using find_part_hit [OF Some] by (auto simp: demo_drives_fields)
  then have "full = demo_p2" using demo_candidate(2) by (auto simp: demo_scope)
  then show ?thesis using Some f(3) demo_paths by (simp add: c_trunc_short)
qed

theorem find_part_exact_witness:
  "\<exists>full. in_scope (demo_drives demo_F) full \<and> candidate demo_F demo_query 2 full \<and> demo_p2 = c_trunc 512 full"
  using find_part_exact [of 512 "demo_drives demo_F" demo_query] demo_find by (simp add: demo_drives_fields)

definition demo_wait :: wait_env where
  "demo_wait = \<lparr>we_drives = (\<lambda>_. demo_drives demo_F), we_monitor = (\<lambda>_. True), we_before = (\<lambda>_ I. I), we_during = (\<lambda>_ I. I)\<rparr>"

lemma demo_undisturbed: "undisturbed demo_wait n"
  by (simp add: undisturbed_def demo_wait_def)

lemma demo_hit:
  "0 < max_timeout_ticks \<and> pkg_scanner_find_part (we_drives demo_wait 0) demo_query 512 = Some demo_p2 \<and>
    (\<forall>t < 0. pkg_scanner_find_part (we_drives demo_wait t) demo_query 512 = None)"
  by (simp add: demo_wait_def demo_find max_timeout_ticks_def)

lemma demo_installing:
  "in_installing (installer_idle\<lparr>in_installing := True\<rparr>)" "\<not> in_cancel_stream (installer_idle\<lparr>in_installing := True\<rparr>)"
  by (simp_all add: installer_idle_def)

lemma demo_waited:
  "\<exists>J. installer_wait_for_part demo_wait (Some (replicate 16 7)) [] 2 2 512 (installer_idle\<lparr>in_installing := True\<rparr>) = (J, 0, Some demo_p2)"
  using part_wait_ends [OF demo_undisturbed demo_installing, THEN conjunct1, rule_format, OF demo_hit, of 2] by blast

theorem wait_outcome_witness:
  "\<exists>J. installer_wait_for_part demo_wait (Some (replicate 16 7)) [] 2 2 512 (installer_idle\<lparr>in_installing := True\<rparr>) = (J, 0, Some demo_p2) \<and>
    in_status J = ''transferring''"
  using wait_outcome [OF demo_undisturbed demo_installing, THEN conjunct1, rule_format, OF demo_hit, of 2] by blast

text \<open>
  A cancel while the last search runs is not seen: the wait answers 0 and puts "transferring" over
  the status the cancel left.
\<close>

lemma cancel_overwritten:
  "\<exists>J. installer_wait_for_part (demo_wait\<lparr>we_during := \<lambda>_ I. fst (installer_cancel I live_init)\<rparr>) (Some (replicate 16 7)) [] 2 2 512
      (installer_idle\<lparr>in_installing := True\<rparr>) = (J, 0, Some demo_p2) \<and>
    \<not> in_installing J \<and> in_cancel_stream J \<and> in_status J = ''transferring''"
proof -
  obtain d where d: "pkg_scanner_find_part_ex (demo_drives demo_F) demo_query 512 = (Some demo_p2, d)"
    using demo_find by (cases "pkg_scanner_find_part_ex (demo_drives demo_F) demo_query 512") (auto simp: pkg_scanner_find_part_def)
  show ?thesis
    unfolding installer_wait_for_part_def Let_def wait_rounds.simps [of _ _ 0]
    by (simp add: demo_wait_def d wc_prompt_def set_wait_prompt_def prompted_def installer_idle_def installer_cancel_def detected_def)
qed

lemma demo_fair: "fair_drives demo_F (replicate 16 7) name (demo_drives demo_F)"
  using demo_short demo_reads demo_uuid
  by (auto simp: fair_drives_def demo_drives_fields no_namesake_def demo_scope)

theorem disc_swap_exact_witness:
  "\<exists>bs. length bs = 2 \<and> bs = extent 4 2 demo_pkg"
proof -
  let ?a = "waiter_answer demo_wait (replicate 16 7) [] 2 (installer_idle\<lparr>in_installing := True\<rparr>)"
  have "?a 2 = Some demo_p2" using demo_waited by (auto simp: waiter_answer_def)
  from demo_swap_found [of ?a, OF this] obtain vs' where r: "source_read ([(?a, demo_world demo_F)], demo_world demo_first, demo_vs demo_later) 4 2 =
      (([], demo_world demo_F, vs'), VRet 2 [5, 6])"
    by (auto simp: source_read_def)
  have "(2::int) = int (length [5::u8, 6]) \<and> length [5::u8, 6] \<le> 2 \<and> 4 + length [5::u8, 6] \<le> length demo_pkg \<and>
      [5, 6] = extent 4 (length [5::u8, 6]) demo_pkg"
    by (rule disc_swap_exact [OF demo_stream_good [OF demo_part2_good(2)] _ demo_world_in demo_world_in _ _ _ r])
      (use demo_genuine demo_uuid demo_fair in \<open>simp_all add: demo_pkg_def demo_wait_def\<close>)
  then show ?thesis by (metis length_Cons list.size(3) numeral_2_eq_2)
qed

definition demo_scanner_world :: world where
  "demo_scanner_world = (demo_world demo_F)\<lparr>wd_finder :=
     Some (\<lambda>u n p. pkg_scanner_find_part (demo_drives demo_F) \<lparr>qu_uuid = Some u, qu_name = n, qu_part = p\<rparr> 512)\<rparr>"

lemma demo_clamped_name: "clamped_name demo_h1 = []"
  by (simp add: clamped_name_def cstr_of_def demo_fields)

theorem scanner_opens_parts_witness: "stream_good demo_F demo_pkg (demo_vs demo_part2)"
proof -
  have f: "wd_files demo_scanner_world = demo_F" "wd_stat demo_scanner_world = wd_stat (demo_world demo_F)"
    "tmp_candidate (demo_scanner_world\<lparr>wd_finder := None\<rparr>) p = tmp_candidate (demo_world demo_F) p"
    "wd_dir demo_scanner_world = wd_dir (demo_world demo_F)" for p
    by (simp_all add: demo_scanner_world_def demo_world_def tmp_candidate_def)
  have l: "locate_part demo_scanner_world demo_p1 demo_h1 2 = Some demo_p2"
    using demo_find demo_paths by (simp add: locate_part_def demo_indices demo_scanner_world_def demo_uuid demo_clamped_name c_trunc_short)
  have o: "virtual_stream_open demo_scanner_world live_init demo_p1 = (demo_vs demo_part2, live_init, 0)"
    by (rule demo_open_in) (simp_all add: f l, simp add: demo_world_def demo_F_simps demo_headers)
  have e: "part_env demo_F demo_h1 (demo_scanner_world\<lparr>wd_finder := None\<rparr>)"
    using demo_part_env [of demo_F] by (auto simp: part_env_def f)
  have "world_in demo_F demo_scanner_world" "finds_by_scanner (demo_drives demo_F) demo_scanner_world"
    using demo_world_in [of demo_F]
    by (simp_all add: world_in_def demo_scanner_world_def finds_by_scanner_def demo_drives_fields demo_world_def)
  from scanner_opens_parts [OF o _ this(1) demo_genuine this(2) _ demo_short e]
  show ?thesis
    using demo_read_headers(1) [of demo_F] demo_fair [of "clamped_name demo_h1"] demo_uuid demo_paths
    by (simp add: f demo_fields demo_pkg_def fair_drives_def)
qed

definition foreign_h2 :: mp_header where
  "foreign_h2 = demo_h2\<lparr>mh_uuid := replicate 16 8, mh_pkg_filename := chars_bytes ''a.pkg'' @ replicate 251 0\<rparr>"

definition foreign_F :: files where
  "foreign_F = [demo_p2 \<mapsto> encode_header foreign_h2 @ [9, 9, 9]]"

theorem foreign_part_taken_witness:
  "\<exists>r h. pkg_scanner_find_part (demo_drives foreign_F) \<lparr>qu_uuid = Some (replicate 16 7), qu_name = ''a.pkg'', qu_part = 2\<rparr> 512 = Some r \<and>
    multipart_read_header foreign_F r = Inr h \<and> mh_uuid h \<noteq> replicate 16 7"
proof -
  have "header_lengths foreign_h2" "header_ranges foreign_h2"
    by (simp_all add: header_lengths_def header_ranges_def foreign_h2_def demo_h2_def slice_header_def demo_base_def length_magic chars_bytes_def)
  then have h: "header_of (encode_header foreign_h2 @ [9, 9, 9]) = foreign_h2" "length (encode_header foreign_h2) = 4096"
    using header_of_encode length_encode_header by (auto simp: MULTIPART_HEADER_SIZE_def)
  have v: "multipart_is_valid_header foreign_h2" using demo_valid by (simp add: multipart_is_valid_header_def foreign_h2_def)
  have r: "multipart_read_header foreign_F demo_p2 = Inr foreign_h2"
    using h v demo_paths by (simp add: multipart_read_header_def local_path_def foreign_F_def MULTIPART_HEADER_SIZE_def)
  have n: "ieq (header_name foreign_h2) ''a.pkg''" by (simp add: foreign_h2_def header_name_def chars_bytes_def) code_simp
  have u: "mh_uuid foreign_h2 \<noteq> replicate 16 7" "mh_part_index foreign_h2 = 2"
    by (simp_all add: foreign_h2_def demo_indices numeral_eq_Suc)
  have only: "full = demo_p2" if "in_scope (demo_drives foreign_F) full" for full
    using that by (auto simp: demo_scope foreign_F_def split: if_splits)
  have "in_scope (demo_drives foreign_F) demo_p2" by (simp add: demo_scope foreign_F_def)
  moreover have "candidate foreign_F \<lparr>qu_uuid = Some (replicate 16 7), qu_name = ''a.pkg'', qu_part = 2\<rparr> 2 demo_p2"
    using r u n demo_part_names by (simp add: candidate_def part_matches_def)
  ultimately show ?thesis
    using foreign_part_taken [of "demo_drives foreign_F" demo_p2 "replicate 16 7" "''a.pkg''" 2 "demo_world foreign_F"] only r u demo_short
    by (fastforce simp: demo_drives_fields demo_world_def)
qed

end
