(* ===== verification/PkgOrder.thy ===== *)
theory PkgOrder
  imports PkgParser SmbDir
begin

text \<open>
  Versions (src/src/app_info.c), which packages may be installed and in what order they are listed
  (the start of src/src/pkg_scanner.c). Differences of ints are taken without overflow.
\<close>

section \<open>Versions\<close>

text \<open>sscanf with "%d.%d.%d": the numbers it matches.\<close>

definition scan_dotted :: "string \<Rightarrow> (int \<times> string) option" where
  "scan_dotted s = do { t \<leftarrow> scan_dot s; scan_int t }"

definition scan_numbers :: "string \<Rightarrow> int list" where
  "scan_numbers s =
     (case scan_int s of None \<Rightarrow> []
      | Some (a, t) \<Rightarrow>
          (case scan_dotted t of None \<Rightarrow> [a]
           | Some (b, u) \<Rightarrow> (case scan_dotted u of None \<Rightarrow> [a, b] | Some (c, w) \<Rightarrow> [a, b, c])))"

definition version_start :: "string \<Rightarrow> string" where
  "version_start = dropWhile (\<lambda>c. c = CHR ''v'' \<or> c = CHR ''V'' \<or> is_space c)"

definition app_info_normalize_version :: "string \<Rightarrow> nat \<Rightarrow> string" where
  "app_info_normalize_version ver m =
     (if m = 0 \<or> ver = [] then []
      else let s = version_start ver in
        if s = [] then c_trunc m ''v1.00''
        else c_trunc m (case scan_numbers s of
            [maj, mn, patch] \<Rightarrow>
              (if mn = 0 \<and> 0 < patch then ''v'' @ show_int maj @ ''.'' @ show_02 patch
               else if patch = 0 then ''v'' @ show_int maj @ ''.'' @ show_02 mn
               else ''v'' @ show_int maj @ ''.'' @ show_int mn @ ''.'' @ show_int patch)
          | [maj, mn] \<Rightarrow>
              (if c_at s 0 = CHR ''0'' \<or> c_at s 1 \<noteq> CHR ''.'' \<and> c_at s 1 \<noteq> NUL \<and> c_at s 2 = CHR ''.''
               then ''v'' @ show_02 maj @ ''.'' @ show_02 mn
               else ''v'' @ show_int maj @ ''.'' @ show_02 mn)
          | [maj] \<Rightarrow> ''v'' @ show_int maj @ ''.00''
          | _ \<Rightarrow> ''v'' @ s))"

definition parse_version_parts :: "string \<Rightarrow> int \<times> int \<times> int" where
  "parse_version_parts v =
     (case scan_numbers (version_start v) of
        [a, b, c] \<Rightarrow> (if b = 0 \<and> 0 < c then (a, c, 0) else (a, b, c))
      | [a, b] \<Rightarrow> (a, b, 0)
      | [a] \<Rightarrow> (a, 0, 0)
      | _ \<Rightarrow> (0, 0, 0))"

definition app_info_compare_versions :: "string \<Rightarrow> string \<Rightarrow> int" where
  "app_info_compare_versions a b =
     (case (parse_version_parts a, parse_version_parts b) of
        ((maj_a, min_a, patch_a), (maj_b, min_b, patch_b)) \<Rightarrow>
          if maj_a \<noteq> maj_b then maj_a - maj_b else if min_a \<noteq> min_b then min_a - min_b else patch_a - patch_b)"

section \<open>What may be installed\<close>

record eligibility =
  el_can_install :: bool
  el_reason :: string        \<comment> \<open>disabled_reason\<close>
  el_installed :: bool
  el_version :: string       \<comment> \<open>installed_version\<close>

text \<open>can_install and disabled_reason as the branches for a base package and for an add-on leave them.\<close>

definition base_verdict :: "bool \<Rightarrow> string \<Rightarrow> string \<Rightarrow> bool \<times> string" where
  "base_verdict installed inst_ver ver =
     (if installed
      then (if inst_ver \<noteq> [] \<and> ver \<noteq> []
            then (if app_info_compare_versions inst_ver ver < 0 then (True, [])
                  else (False, ''Installed version is same or newer''))
            else (False, ''Application is already installed''))
      else (True, []))"

definition addon_verdict :: "pkg_type \<Rightarrow> bool \<Rightarrow> string \<Rightarrow> string \<Rightarrow> bool \<Rightarrow> bool \<Rightarrow> bool \<times> string" where
  "addon_verdict t installed inst_ver ver dlc_installed aborted =
     (if \<not> installed
      then (False, if aborted then ''Base package installation was aborted. Reinstall base package first.''
                   else ''Base package is not installed'')
      else if t = PKG_TYPE_UPDATE \<and> inst_ver \<noteq> [] \<and> ver \<noteq> [] \<and> 0 \<le> app_info_compare_versions inst_ver ver
      then (False, ''Installed version is same or newer'')
      else if t = PKG_TYPE_DLC \<and> dlc_installed then (False, ''DLC is already installed'')
      else (True, []))"

definition evaluate_install_eligibility ::
    "pkg_detail \<Rightarrow> bool \<Rightarrow> string \<Rightarrow> bool \<Rightarrow> bool \<Rightarrow> bool \<Rightarrow> eligibility" where
  "evaluate_install_eligibility D installed inst_ver dlc_installed leftover aborted =
     (let v = c_trunc 32 inst_ver; ver = m_version (pd_meta D);
          (can, reason) =
            (if pd_is_multipart D \<and> starts_with ''smb://'' (pd_path D)
             then (False, ''Multi-part packages are only supported on USB/Disc'')
             else if leftover
             then (False, ''Leftovers detected on console. Clean up leftovers before installing.'')
             else if pd_pkg_type D = PKG_TYPE_BASE \<or> pd_pkg_type D = PKG_TYPE_UNKNOWN
             then base_verdict installed v ver
             else if pd_pkg_type D = PKG_TYPE_UPDATE \<or> pd_pkg_type D = PKG_TYPE_DLC
             then addon_verdict (pd_pkg_type D) installed v ver dlc_installed aborted
             else (True, []))
      in \<lparr>el_can_install = can, el_reason = reason, el_installed = installed, el_version = v\<rparr>)"

text \<open>
  What the console's databases say of a title (app_info.c): the installed version unless it is not
  installed, whether the DLC is, and leftovers and aborted installations.
\<close>

record app_info =
  ai_installed :: "string \<Rightarrow> string option"
  ai_dlc :: "string \<Rightarrow> string \<Rightarrow> bool"
  ai_leftover :: "string \<Rightarrow> bool"
  ai_aborted :: "string \<Rightarrow> bool"

definition pkg_scanner_check_install_eligibility :: "app_info \<Rightarrow> pkg_detail \<Rightarrow> eligibility" where
  "pkg_scanner_check_install_eligibility A D =
     (let t = m_title_id (pd_meta D); inst = ai_installed A t in
      evaluate_install_eligibility D (inst \<noteq> None) (case inst of None \<Rightarrow> [] | Some v \<Rightarrow> c_trunc 32 v)
        (pd_pkg_type D = PKG_TYPE_DLC \<and> pd_content_id D \<noteq> [] \<and> ai_dlc A t (pd_content_id D))
        (inst = None \<and> ai_leftover A t) (inst = None \<and> ai_aborted A t))"

section \<open>The order of the catalog\<close>

fun type_rank :: "pkg_type \<Rightarrow> int" where
  "type_rank PKG_TYPE_UNKNOWN = 0"
| "type_rank PKG_TYPE_BASE = 1"
| "type_rank PKG_TYPE_UPDATE = 2"
| "type_rank PKG_TYPE_DLC = 3"

definition listed_name :: "pkg_detail \<Rightarrow> string" where
  "listed_name D = (if m_title (pd_meta D) = [] then ''Unknown Package'' else m_title (pd_meta D))"

definition compare_pkg_by_title_name :: "pkg_detail \<Rightarrow> pkg_detail \<Rightarrow> int" where
  "compare_pkg_by_title_name a b =
     (let va = m_version (pd_meta a); vb = m_version (pd_meta b) in
      if strcasecmp (listed_name a) (listed_name b) \<noteq> 0 then strcasecmp (listed_name a) (listed_name b)
      else if pd_pkg_type a \<noteq> pd_pkg_type b then type_rank (pd_pkg_type a) - type_rank (pd_pkg_type b)
      else if va \<noteq> [] \<and> vb \<noteq> [] \<and> app_info_compare_versions va vb \<noteq> 0 then app_info_compare_versions va vb
      else strcmp (pd_path a) (pd_path b))"

end
