(* ===== verification/PkgOrderClaims.thy ===== *)
theory PkgOrderClaims
  imports PkgOrder SmbUrlClaims
begin

text \<open>
  Versions are compared as triples of numbers, in whatever form they are written; what may be
  installed; and the catalog's order, which is one only while all versions are known.
\<close>

section \<open>Numbers in text\<close>

definition int32 :: "int \<Rightarrow> bool" where
  "int32 i = (- (2 ^ 31) \<le> i \<and> i < 2 ^ 31)"

lemma to_int_range: "int32 (to_int z)"
proof -
  have "0 \<le> (z + 2 ^ 31) mod 2 ^ 32" "(z + 2 ^ 31) mod 2 ^ 32 < (2 ^ 32 :: int)" by simp_all
  then show ?thesis unfolding int32_def to_int_def by auto
qed

lemma to_int_id: "int32 i \<Longrightarrow> to_int i = i"
  by (simp add: int32_def to_int_def)

definition ends_number :: "string \<Rightarrow> bool" where
  "ends_number s = (s = [] \<or> \<not> is_digit (hd s))"

lemma takeWhile_digits: "\<forall>c \<in> set d. is_digit c \<Longrightarrow> ends_number s \<Longrightarrow> takeWhile is_digit (d @ s) = d \<and> dropWhile is_digit (d @ s) = s"
  by (cases s) (auto simp: ends_number_def)

lemma scan_digits:
  assumes d: "\<forall>c \<in> set d. is_digit c" "d \<noteq> []" and s: "ends_number s" and v: "digits_val 0 d < 2 ^ 63"
  shows "scan_int (d @ s) = Some (to_int (int (digits_val 0 d)), s)"
    and "scan_int (CHR ''-'' # d @ s) = Some (to_int (- int (digits_val 0 d)), s)"
proof -
  have h: "is_digit (hd (d @ s))" "d @ s \<noteq> []" using d by (cases d; simp)+
  then have sp: "dropWhile is_space (d @ s) = d @ s" by (cases "d @ s") (simp_all add: is_digit_not_space)
  have sg: "hd (d @ s) \<noteq> CHR ''-''" "hd (d @ s) \<noteq> CHR ''+''" using h(1) by (auto simp: is_digit_def)
  have sp': "dropWhile is_space (CHR ''-'' # d @ s) = CHR ''-'' # d @ s" by (simp add: is_space_def)
  show "scan_int (d @ s) = Some (to_int (int (digits_val 0 d)), s)"
    using h sp sg takeWhile_digits [OF d(1) s] d(2) v by (simp add: scan_int_def strtol_def Let_def)
  show "scan_int (CHR ''-'' # d @ s) = Some (to_int (- int (digits_val 0 d)), s)"
    unfolding scan_int_def strtol_def sp' Let_def using takeWhile_digits [OF d(1) s] d(2) v by simp
qed

lemma scan_show_nat:
  assumes "int n < 2 ^ 31" and "ends_number s"
  shows "scan_int (show_nat n @ s) = Some (int n, s)"
  using scan_digits(1) [of "show_nat n" s] show_nat_digits [of n] assms to_int_id [of "int n"]
  by (simp add: digits_val_show_nat int32_def)

lemma scan_show_int: "int32 i \<Longrightarrow> ends_number s \<Longrightarrow> scan_int (show_int i @ s) = Some (i, s)"
  using scan_show_nat [of "nat i" s] scan_digits(2) [of "show_nat (nat (- i))" s] show_nat_digits [of "nat (- i)"] to_int_id [of i]
  by (auto simp: show_int_def int32_def digits_val_show_nat)

lemma scan_show_02: "int32 i \<Longrightarrow> ends_number s \<Longrightarrow> scan_int (show_02 i @ s) = Some (i, s)"
proof (cases "0 \<le> i \<and> i < 10")
  case True
  assume s: "ends_number s"
  let ?d = "CHR ''0'' # show_nat (nat i)"
  have "\<forall>c \<in> set ?d. is_digit c" using show_nat_digits [of "nat i"] by (simp add: is_digit_def)
  moreover have v: "digits_val 0 ?d = nat i" by (simp add: digits_val_show_nat digit_val_def)
  ultimately show ?thesis
    using scan_digits(1) [of ?d s] s True to_int_id [of i]
    by (simp add: show_02_def show_int_def int32_def nat_less_iff)
next
  case False
  assume "int32 i" "ends_number s"
  then show ?thesis using False scan_show_int by (auto simp: show_02_def)
qed

lemma scan_int_range: "scan_int s = Some (i, t) \<Longrightarrow> int32 i"
  using to_int_range by (auto simp: scan_int_def Let_def split: if_splits)

lemma scan_dotted_range: "scan_dotted s = Some (i, t) \<Longrightarrow> int32 i"
  using scan_int_range by (auto simp: scan_dotted_def bind_eq_Some_conv)

lemma scan_dotted_show: "int32 i \<Longrightarrow> ends_number s \<Longrightarrow> scan_dotted (CHR ''.'' # show_int i @ s) = Some (i, s)"
    "int32 i \<Longrightarrow> ends_number s \<Longrightarrow> scan_dotted (CHR ''.'' # show_02 i @ s) = Some (i, s)"
  by (simp_all add: scan_dotted_def scan_dot_def scan_show_int scan_show_02)

lemma scan_dotted_Nil [simp]: "scan_dotted [] = None"
  by (simp add: scan_dotted_def scan_dot_def)

lemma ends_number_dot [simp]: "ends_number (CHR ''.'' # s)" "ends_number []"
  by (simp_all add: ends_number_def is_digit_def)

lemma scan_numbers_Nil: "scan_numbers [] = []"
  by code_simp

text \<open>The numbers found in a version, and those of a version written out.\<close>

lemma scan_numbers_range: "scan_numbers s = ns \<Longrightarrow> length ns \<le> 3 \<and> (\<forall>i \<in> set ns. int32 i)"
  using scan_int_range scan_dotted_range by (fastforce simp: scan_numbers_def split: option.splits)

lemma scan_numbers_written:
  assumes "int32 a" and "int32 b"
  shows "scan_numbers (show_int a @ ''.'' @ show_int b) = [a, b]" "scan_numbers (show_int a @ ''.'' @ show_02 b) = [a, b]"
    "scan_numbers (show_02 a @ ''.'' @ show_02 b) = [a, b]"
    "int32 c \<Longrightarrow> scan_numbers (show_int a @ ''.'' @ show_int b @ ''.'' @ show_int c) = [a, b, c]"
  using assms scan_show_int [of a "CHR ''.'' # _"] scan_show_02 [of a "CHR ''.'' # _"] scan_dotted_show [of b "[]"]
    scan_dotted_show(1) [of b "CHR ''.'' # _"] scan_dotted_show(1) [of c "[]"]
  by (simp_all add: scan_numbers_def)

lemma version_start_written: "c \<noteq> CHR ''v'' \<and> c \<noteq> CHR ''V'' \<and> \<not> is_space c \<Longrightarrow> version_start (CHR ''v'' # c # s) = c # s"
  by (simp add: version_start_def)

lemma shown_start: "show_int i = c # t \<Longrightarrow> c \<noteq> CHR ''v'' \<and> c \<noteq> CHR ''V'' \<and> \<not> is_space c"
    "show_02 i = c # t \<Longrightarrow> c \<noteq> CHR ''v'' \<and> c \<noteq> CHR ''V'' \<and> \<not> is_space c"
proof -
  have d: "c \<noteq> CHR ''v'' \<and> c \<noteq> CHR ''V'' \<and> \<not> is_space c" if "is_digit c \<or> c = CHR ''-''" for c
    using that is_digit_not_space [of c] by (auto simp: is_digit_def is_space_def)
  have i: "\<forall>x \<in> set (show_int i). is_digit x \<or> x = CHR ''-''"
    using show_nat_digits [of "nat i"] show_nat_digits [of "nat (- i)"] by (simp add: show_int_def)
  then have o: "\<forall>x \<in> set (show_02 i). is_digit x \<or> x = CHR ''-''"
    by (simp add: show_02_def is_digit_def)
  show "show_int i = c # t \<Longrightarrow> c \<noteq> CHR ''v'' \<and> c \<noteq> CHR ''V'' \<and> \<not> is_space c"
    by (rule d) (use i in simp)
  show "show_02 i = c # t \<Longrightarrow> c \<noteq> CHR ''v'' \<and> c \<noteq> CHR ''V'' \<and> \<not> is_space c"
    by (rule d) (use o in simp)
qed

lemma shown_ne: "show_int i \<noteq> []" "show_02 i \<noteq> []"
  using show_nat_digits by (auto simp: show_int_def show_02_def)

lemma version_start_shown: "version_start (CHR ''v'' # show_int i @ s) = show_int i @ s" "version_start (CHR ''v'' # show_02 i @ s) = show_02 i @ s"
proof -
  obtain c t where i: "show_int i = c # t" using shown_ne(1) by (cases "show_int i") auto
  obtain d u where o: "show_02 i = d # u" using shown_ne(2) by (cases "show_02 i") auto
  show "version_start (CHR ''v'' # show_int i @ s) = show_int i @ s"
    unfolding i append_Cons by (rule version_start_written [OF shown_start(1) [OF i]])
  show "version_start (CHR ''v'' # show_02 i @ s) = show_02 i @ s"
    unfolding o append_Cons by (rule version_start_written [OF shown_start(2) [OF o]])
qed

lemma version_start_again: "version_start (CHR ''v'' # version_start s) = version_start s"
  by (simp add: version_start_def)

section \<open>Versions\<close>

definition parts_of :: "int list \<Rightarrow> int \<times> int \<times> int" where
  "parts_of ns =
     (case ns of [a, b, c] \<Rightarrow> (if b = 0 \<and> 0 < c then (a, c, 0) else (a, b, c))
      | [a, b] \<Rightarrow> (a, b, 0) | [a] \<Rightarrow> (a, 0, 0) | _ \<Rightarrow> (0, 0, 0))"

lemma parse_version_parts_eq: "parse_version_parts v = parts_of (scan_numbers (version_start v))"
  by (simp add: parse_version_parts_def parts_of_def)

lemma length_shown: "int32 i \<Longrightarrow> length (show_int i) \<le> 11 \<and> length (show_02 i) \<le> 11"
  using length_show_nat [of "nat i" 10] length_show_nat [of "nat (- i)" 10] length_show_nat [of "nat i" 1]
  by (auto simp: int32_def show_int_def show_02_def nat_less_iff)

lemma list_to_three: "length ns \<le> 3 \<Longrightarrow> ns = [] \<or> (\<exists>a. ns = [a]) \<or> (\<exists>a b. ns = [a, b]) \<or> (\<exists>a b c. ns = [a, b, c])"
  by (cases ns; cases "tl ns"; cases "tl (tl ns)") auto

text \<open>The normal form of a version that says something, and where it fits.\<close>

lemma normalized_parts:
  assumes vs: "version_start v \<noteq> []"
    and fits: "length (app_info_normalize_version v m) + 1 < m \<or> 40 \<le> m \<and> length v + 1 < m"
  shows "parse_version_parts (app_info_normalize_version v m) = parse_version_parts v"
proof -
  define s where "s = version_start v"
  define w where "w = (case scan_numbers s of
            [maj, mn, patch] \<Rightarrow>
              (if mn = 0 \<and> 0 < patch then ''v'' @ show_int maj @ ''.'' @ show_02 patch
               else if patch = 0 then ''v'' @ show_int maj @ ''.'' @ show_02 mn
               else ''v'' @ show_int maj @ ''.'' @ show_int mn @ ''.'' @ show_int patch)
          | [maj, mn] \<Rightarrow>
              (if c_at s 0 = CHR ''0'' \<or> c_at s 1 \<noteq> CHR ''.'' \<and> c_at s 1 \<noteq> NUL \<and> c_at s 2 = CHR ''.''
               then ''v'' @ show_02 maj @ ''.'' @ show_02 mn
               else ''v'' @ show_int maj @ ''.'' @ show_02 mn)
          | [maj] \<Rightarrow> ''v'' @ show_int maj @ ''.00''
          | _ \<Rightarrow> ''v'' @ s)"
  have p: "parse_version_parts v = parts_of (scan_numbers s)" by (simp add: parse_version_parts_eq s_def)
  have r: "\<forall>i \<in> set (scan_numbers s). int32 i" and l3: "length (scan_numbers s) \<le> 3"
    using scan_numbers_range by blast+
  have sl: "length s \<le> length v" unfolding s_def version_start_def by (rule length_dropWhile_le)
  have "(length w < 40 \<or> length w \<le> length v + 1) \<and> parts_of (scan_numbers (version_start w)) = parts_of (scan_numbers s)"
  proof -
    consider "scan_numbers s = []" | a where "scan_numbers s = [a]" | a b where "scan_numbers s = [a, b]"
      | a b c where "scan_numbers s = [a, b, c]"
      using list_to_three [OF l3] by blast
    then show ?thesis
    proof cases
      case 1
      then show ?thesis using sl version_start_again [of v] by (simp add: w_def s_def)
    next
      case (2 a)
      then have a: "int32 a" using r by simp
      have "show_02 0 = ''00''" by code_simp
      then have w: "w = CHR ''v'' # show_int a @ ''.'' @ show_02 0" by (simp add: w_def 2)
      have z: "int32 0" "length (show_02 0) \<le> 11" using length_shown [of 0] by (simp_all add: int32_def)
      have "scan_numbers (show_int a @ ''.'' @ show_02 0) = [a, 0]" by (rule scan_numbers_written(2) [OF a z(1)])
      then have "scan_numbers (version_start w) = [a, 0]" unfolding w version_start_shown .
      then show ?thesis using length_shown [OF a] z(2) by (simp add: 2 w parts_of_def)
    next
      case (3 a b)
      then have ab: "int32 a" "int32 b" using r by simp_all
      then show ?thesis using length_shown [OF ab(1)] length_shown [OF ab(2)]
        using scan_numbers_written(1-3) [OF ab, simplified]
        by (simp add: w_def 3 version_start_shown parts_of_def)
    next
      case (4 a b c)
      then have abc: "int32 a" "int32 b" "int32 c" using r by simp_all
      then show ?thesis using length_shown [OF abc(1)] length_shown [OF abc(2)] length_shown [OF abc(3)]
        using scan_numbers_written(2) [OF abc(1,2), simplified] scan_numbers_written(2) [OF abc(1,3), simplified]
          scan_numbers_written(4) [OF abc, simplified]
        by (simp add: w_def 4 version_start_shown parts_of_def)
    qed
  qed
  note w = this
  have n: "app_info_normalize_version v m = c_trunc m w"
  proof -
    have "m \<noteq> 0" "v \<noteq> []" "s \<noteq> []" using vs fits by (auto simp: version_start_def s_def)
    then show ?thesis unfolding app_info_normalize_version_def Let_def s_def [symmetric] w_def by simp
  qed
  have "length w < m" using fits w unfolding n by (auto simp: c_trunc_def)
  with w n show ?thesis by (simp add: c_trunc_short parse_version_parts_eq s_def)
qed

text \<open>C14: Writing a version in the normal form does not change what it is compared as, so long as
  the buffer holds it (any buffer the written form fits in, or one of 40 bytes that is longer
  than the version by two): the numbers read from the normal form are those read from the
  original, and the two compare as equal. The exception is a version of nothing but blanks and
  the letter v: it is written v1.00 and so compares as newer than itself.\<close>

theorem normalized_compares_same:
  assumes fits: "length (app_info_normalize_version v m) + 1 < m \<or> 40 \<le> m \<and> length v + 1 < m"
  shows "parse_version_parts (app_info_normalize_version v m) =
      (if v \<noteq> [] \<and> version_start v = [] then (1, 0, 0) else parse_version_parts v) \<and>
    (v = [] \<or> version_start v \<noteq> [] \<longrightarrow> app_info_compare_versions (app_info_normalize_version v m) v = 0) \<and>
    (v \<noteq> [] \<and> version_start v = [] \<longrightarrow> 0 < app_info_compare_versions (app_info_normalize_version v m) v)"
proof -
  consider "v = []" | "v \<noteq> []" "version_start v = []" | "version_start v \<noteq> []" by blast
  then show ?thesis
  proof cases
    case 1
    then show ?thesis
      by (simp add: app_info_normalize_version_def app_info_compare_versions_def split: prod.split)
  next
    case 2
    have p: "parse_version_parts v = (0, 0, 0)"
      using 2 by (simp add: parse_version_parts_eq scan_numbers_Nil parts_of_def)
    have n: "app_info_normalize_version v m = ''v1.00''"
      using 2 fits by (auto simp: app_info_normalize_version_def c_trunc_def min_def split: if_splits)
    have "parse_version_parts ''v1.00'' = (1, 0, 0)" by code_simp
    then show ?thesis using 2 p unfolding n by (simp add: app_info_compare_versions_def)
  next
    case 3
    then have e: "parse_version_parts (app_info_normalize_version v m) = parse_version_parts v"
      using normalized_parts [OF _ fits] by simp
    then have "app_info_compare_versions (app_info_normalize_version v m) v = 0"
      by (simp add: app_info_compare_versions_def split: prod.split)
    with e 3 show ?thesis by simp
  qed
qed

text \<open>The comparison is that of the triples.\<close>

lemma compare_versions_parts:
  "app_info_compare_versions a b < 0 \<longleftrightarrow> parse_version_parts a < parse_version_parts b"
  "app_info_compare_versions a b = 0 \<longleftrightarrow> parse_version_parts a = parse_version_parts b"
  by (auto simp: app_info_compare_versions_def less_prod_def split: prod.splits)

section \<open>What may be installed\<close>

text \<open>What the versions v of an installed title and w of a package say, as far as both are known.\<close>

definition known_older :: "string \<Rightarrow> string \<Rightarrow> bool" where
  "known_older v w = (v \<noteq> [] \<and> w \<noteq> [] \<and> parse_version_parts v < parse_version_parts w)"

definition known_not_older :: "string \<Rightarrow> string \<Rightarrow> bool" where
  "known_not_older v w = (v \<noteq> [] \<and> w \<noteq> [] \<and> parse_version_parts w \<le> parse_version_parts v)"

lemma base_verdict: "base_verdict inst v w = (can, reason) \<Longrightarrow> (can \<longleftrightarrow> \<not> inst \<or> known_older v w) \<and> (reason = [] \<longleftrightarrow> can)"
  by (auto simp: base_verdict_def known_older_def compare_versions_parts split: if_splits)

lemma addon_verdict:
  "addon_verdict t inst v w dlc ab = (can, reason) \<Longrightarrow> t = PKG_TYPE_UPDATE \<or> t = PKG_TYPE_DLC \<Longrightarrow>
    (can \<longleftrightarrow> inst \<and> (if t = PKG_TYPE_UPDATE then \<not> known_not_older v w else \<not> dlc)) \<and> (reason = [] \<longleftrightarrow> can)"
  using compare_versions_parts(1) [of v w] not_less [of "parse_version_parts v" "parse_version_parts w"]
  by (auto simp: addon_verdict_def known_not_older_def not_less split: if_splits)

text \<open>
  a package may be installed exactly when no leftovers are in the way, it is not an archive in
  parts on a share, and: a base package is not installed, or in a version known to be older than
  this one; an update or DLC has its base installed, the update is not known to be the same or
  older, and the DLC is not there yet. A reason is shown exactly when it may not.
\<close>
theorem install_allowed_iff:
  "(el_can_install (pkg_scanner_check_install_eligibility A D) \<longleftrightarrow>
      \<not> (pd_is_multipart D \<and> starts_with ''smb://'' (pd_path D)) \<and>
      \<not> (ai_installed A (m_title_id (pd_meta D)) = None \<and> ai_leftover A (m_title_id (pd_meta D))) \<and>
      (case ai_installed A (m_title_id (pd_meta D)) of
         None \<Rightarrow> pd_pkg_type D = PKG_TYPE_BASE \<or> pd_pkg_type D = PKG_TYPE_UNKNOWN
       | Some v \<Rightarrow>
           (case pd_pkg_type D of
              PKG_TYPE_UPDATE \<Rightarrow> \<not> known_not_older (c_trunc 32 v) (m_version (pd_meta D))
            | PKG_TYPE_DLC \<Rightarrow> \<not> (pd_content_id D \<noteq> [] \<and> ai_dlc A (m_title_id (pd_meta D)) (pd_content_id D))
            | _ \<Rightarrow> known_older (c_trunc 32 v) (m_version (pd_meta D))))) \<and>
   (el_reason (pkg_scanner_check_install_eligibility A D) = [] \<longleftrightarrow> el_can_install (pkg_scanner_check_install_eligibility A D))"
proof -
  let ?v = "case ai_installed A (m_title_id (pd_meta D)) of None \<Rightarrow> [] | Some v \<Rightarrow> c_trunc 32 v"
  let ?w = "m_version (pd_meta D)" and ?inst = "ai_installed A (m_title_id (pd_meta D)) \<noteq> None"
  let ?dlc = "pd_pkg_type D = PKG_TYPE_DLC \<and> pd_content_id D \<noteq> [] \<and> ai_dlc A (m_title_id (pd_meta D)) (pd_content_id D)"
  let ?ab = "ai_installed A (m_title_id (pd_meta D)) = None \<and> ai_aborted A (m_title_id (pd_meta D))"
  have tt: "c_trunc 32 ?v = ?v" by (simp add: c_trunc_def split: option.split)
  obtain cb rb where b: "base_verdict ?inst ?v ?w = (cb, rb)" by (metis prod.exhaust)
  obtain ca ra where a: "addon_verdict (pd_pkg_type D) ?inst ?v ?w ?dlc ?ab = (ca, ra)" by (metis prod.exhaust)
  have e: "pkg_scanner_check_install_eligibility A D =
      (let (can, reason) =
         (if pd_is_multipart D \<and> starts_with ''smb://'' (pd_path D)
          then (False, ''Multi-part packages are only supported on USB/Disc'')
          else if \<not> ?inst \<and> ai_leftover A (m_title_id (pd_meta D))
          then (False, ''Leftovers detected on console. Clean up leftovers before installing.'')
          else if pd_pkg_type D = PKG_TYPE_BASE \<or> pd_pkg_type D = PKG_TYPE_UNKNOWN then (cb, rb)
          else if pd_pkg_type D = PKG_TYPE_UPDATE \<or> pd_pkg_type D = PKG_TYPE_DLC then (ca, ra) else (True, []))
       in \<lparr>el_can_install = can, el_reason = reason, el_installed = ?inst, el_version = ?v\<rparr>)"
    unfolding pkg_scanner_check_install_eligibility_def evaluate_install_eligibility_def Let_def tt b a by simp
  show ?thesis
  proof (cases "ai_installed A (m_title_id (pd_meta D))")
    case None
    then show ?thesis unfolding e using base_verdict [OF b] addon_verdict [OF a]
      by (cases "pd_pkg_type D") auto
  next
    case (Some v)
    then show ?thesis unfolding e using base_verdict [OF b] addon_verdict [OF a]
      by (cases "pd_pkg_type D") auto
  qed
qed

section \<open>The order of the catalog\<close>

text \<open>The order as a key, which fits where every version is known.\<close>

definition catalog_rank :: "pkg_detail \<Rightarrow> string \<times> int \<times> (int \<times> int \<times> int) \<times> string" where
  "catalog_rank D =
     (map lower (listed_name D), type_rank (pd_pkg_type D), parse_version_parts (m_version (pd_meta D)), pd_path D)"

definition c_texts :: "pkg_detail \<Rightarrow> bool" where
  "c_texts D = (NUL \<notin> set (m_title (pd_meta D)) \<and> NUL \<notin> set (pd_path D))"

lemma type_rank_inj: "type_rank t = type_rank u \<longleftrightarrow> t = u"
  by (cases t; cases u) simp_all

lemma versioned_order:
  assumes c: "c_texts a" "c_texts b" and v: "m_version (pd_meta a) \<noteq> []" "m_version (pd_meta b) \<noteq> []"
  shows "compare_pkg_by_title_name a b < 0 \<longleftrightarrow> catalog_rank a < catalog_rank b"
    and "compare_pkg_by_title_name a b = 0 \<longleftrightarrow> catalog_rank a = catalog_rank b"
proof -
  have p: "(strcmp (pd_path a) (pd_path b) < 0 \<longleftrightarrow> pd_path a < pd_path b) \<and> (strcmp (pd_path a) (pd_path b) = 0 \<longleftrightarrow> pd_path a = pd_path b)"
    using c by (intro strcmp_order) (simp_all add: c_texts_def)
  have "NUL \<notin> set (listed_name a)" "NUL \<notin> set (listed_name b)"
    using c by (simp_all add: listed_name_def c_texts_def NUL_def)
  then have n: "(strcasecmp (listed_name a) (listed_name b) < 0 \<longleftrightarrow> map lower (listed_name a) < map lower (listed_name b)) \<and>
      (strcasecmp (listed_name a) (listed_name b) = 0 \<longleftrightarrow> map lower (listed_name a) = map lower (listed_name b))"
    unfolding strcasecmp_def using lower_no_NUL by (intro strcmp_order) simp_all
  note w = compare_versions_parts [of "m_version (pd_meta a)" "m_version (pd_meta b)"]
  show "compare_pkg_by_title_name a b < 0 \<longleftrightarrow> catalog_rank a < catalog_rank b"
    using n p v w type_rank_inj [of "pd_pkg_type a" "pd_pkg_type b"]
    by (auto simp: compare_pkg_by_title_name_def catalog_rank_def Let_def less_prod_simp)
  show "compare_pkg_by_title_name a b = 0 \<longleftrightarrow> catalog_rank a = catalog_rank b"
    using n p v w type_rank_inj [of "pd_pkg_type a" "pd_pkg_type b"]
    by (auto simp: compare_pkg_by_title_name_def catalog_rank_def Let_def)
qed

text \<open>
  among packages whose version is known the catalog's comparison is a linear order: by title
  without regard to case, base before update before DLC, older before newer, and by path; so a
  list sorted by it is determined by its packages.
\<close>
theorem catalog_order_linear:
  assumes "c_texts a" and "c_texts b" and "m_version (pd_meta a) \<noteq> []" and "m_version (pd_meta b) \<noteq> []"
  shows "(compare_pkg_by_title_name a b < 0 \<longleftrightarrow> catalog_rank a < catalog_rank b) \<and>
    (compare_pkg_by_title_name a b = 0 \<longleftrightarrow> catalog_rank a = catalog_rank b)"
  using versioned_order [OF assms] by blast

definition listed_pkg :: "string \<Rightarrow> string \<Rightarrow> pkg_detail" where
  "listed_pkg path ver =
     no_detail\<lparr>pd_path := path, pd_pkg_type := PKG_TYPE_BASE,
       pd_meta := no_meta\<lparr>m_title := ''Game'', m_version := ver\<rparr>\<rparr>"

text \<open>
  with a package of unknown version among them the comparison is no order: of three packages
  of one title each comes before the next in a circle, so what qsort makes of the catalog depends
  on the order it was found in.
\<close>
theorem catalog_order_cyclic:
  "compare_pkg_by_title_name (listed_pkg ''a'' ''2.00'') (listed_pkg ''b'' []) < 0 \<and>
   compare_pkg_by_title_name (listed_pkg ''b'' []) (listed_pkg ''c'' ''1.00'') < 0 \<and>
   compare_pkg_by_title_name (listed_pkg ''c'' ''1.00'') (listed_pkg ''a'' ''2.00'') < 0"
  by (intro conjI) code_simp+

theorem catalog_order_linear_witness:
  "compare_pkg_by_title_name (listed_pkg ''a'' ''v1.05'') (listed_pkg ''b'' ''1.0.5'') < 0"
proof -
  have "c_texts (listed_pkg ''a'' ''v1.05'')" "c_texts (listed_pkg ''b'' ''1.0.5'')"
    "m_version (pd_meta (listed_pkg ''a'' ''v1.05'')) \<noteq> []" "m_version (pd_meta (listed_pkg ''b'' ''1.0.5'')) \<noteq> []"
    by (simp_all add: c_texts_def listed_pkg_def NUL_def)
  moreover have "catalog_rank (listed_pkg ''a'' ''v1.05'') < catalog_rank (listed_pkg ''b'' ''1.0.5'')" by code_simp
  ultimately show ?thesis using catalog_order_linear by blast
qed

theorem normalized_compares_same_witness:
  "parse_version_parts (app_info_normalize_version '' V01.0.5'' 32) = (1, 5, 0) \<and>
   0 < app_info_compare_versions (app_info_normalize_version ''v '' 32) ''v ''"
proof -
  have l: "length (app_info_normalize_version '' V01.0.5'' 32) + 1 < 32" "length (app_info_normalize_version ''v '' 32) + 1 < 32"
    by code_simp+
  have s: "version_start '' V01.0.5'' \<noteq> []" "version_start ''v '' = []" by code_simp+
  have p: "parse_version_parts '' V01.0.5'' = (1, 5, 0)" by code_simp
  show ?thesis
    using normalized_compares_same [of "'' V01.0.5''" 32] normalized_compares_same [of "''v ''" 32] l s p by simp
qed

end
