(* ===== verification/Spec2Isabelle.thy ===== *)
theory Spec2Isabelle
  imports WsClaims MultipartClaims PartNames Crc32 VirtualClaims StreamClaims RangeClaims StreamSystem
    PkgSfoFormat PkgTitles PkgShare PkgIcon SmbSource SmbUrlClaims
    DiscWaiterClaims PkgOrderClaims
begin

text \<open>
  PKG Manager runs on the console, takes packages from local discs, part files, SMB shares or a
  browser, and hands them to the console's installer as HTTP ranges. This development models
  the path a package's bytes take, from the listing and reading of shares and files to the ranges
  the installer is sent, and proves that the installer gets the package's own bytes.

  \<^bold>\<open>The parts and the theories that model them.\<close>
  \<^item> Live session (src/src/ws_stream.c): the segments of a package a browser is uploading.
    LiveSession holds the state (record live, the file's g_lv) with create, abort, destroy, the slot
    table and the eviction policy; LiveIO the write, read, seek, header and info calls;
    LiveSystem the interleaving of uploader, readers, evictions and aborts as a step relation.
    LiveStore and LiveRead hold the lemmas on stores and reads, LiveClaims the properties.
  \<^item> Upload server (src/src/ws_upload.c): WsCodec is SHA-1, base64 and the frames; WsUpload the
    owner of a session, the text protocol, chunks and fragments, the receive loop, the handshake.
    WsFrames and WsClaims hold the properties. InstallerState is what these calls change of
    src/src/installer.c (cancel and detach), DiscWaiter the installer's wait for a part. HttpText is the header and request-line reading
    that ws_upload.c and stream_server.c have in common.
  \<^item> Multi-part archives (src/src/multipart.c): Multipart has the header layout, the names of part
    files and the assembler; MultipartClaims, PartNames and Crc32 the properties.
  \<^item> Virtual stream (src/src/multipart.c, virtual_stream_*): VirtualStream opens and reads a package at
    any offset, whether it is one file, parts on several discs, an SMB file or a live session.
    ByteSource is the contract (two locales) between a source and its reader; VirtualClaims
    interprets it on the model's read function.
  \<^item> Package scanner (src/src/pkg_scanner.c): PartFinder is the search for part files, which the
    installer sets as the part finder of virtual streams and asks again while it waits;
    PartFinderClaims and DiscWaiterClaims show the search exact, how a wait ends, and that a
    stream over the two reads the package's own bytes. PkgOrder has the versions of
    src/src/app_info.c, which packages may be installed and the order of the catalog.
  \<^item> Range server (src/src/stream_server.c): StreamServer has requests, ranges, answers, keep-alive
    connections, start and stop; StreamBody proves the body loop inside the locales of
    ByteSource, StreamClaims and RangeClaims use it; StreamSystem is the interleaving of the
    threads that start and stop the session with those that pin its stream.
  \<^item> Package parser (src/src/pkg_parser.c): CText are reads of memory that stop at an array's end;
    PkgJson reads param.json and titles, PkgSfo param.sfo, PkgParser the headers, entry tables
    and icons of files, of shares (smb_client_parse_pkg in smb_client.c) and of the prefix of a
    live upload (pkg_parser_parse_mem). Every read of a header field, an entry, a name or a text
    is bounded by what was read or allocated, and answers None outside it; PkgSafe, PkgReader and
    PkgClaims show that no parse does that, PkgTitles and PkgSfoFormat what is read back, PkgShare and
    PkgParity that the three parsers agree, PkgIcon that a reported icon can be fetched.
  \<^item> SMB client (src/src/smb_client.c): SmbRead is the pipelined read of a file on a share,
    SmbReadClaims its invariant, exactness and termination; SmbSource gives the contracts of
    ByteSource for it, so the range server's body loop is correct over it too. SmbUrl has the
    cleaning of configurations, URLs and the choice of a configuration, SmbDir the paged
    listing and the recursive scan; SmbDirClaims and SmbUrlClaims hold the properties.

  \<^bold>\<open>How they fit together.\<close> The upload server writes into the live session; the virtual
  stream attaches to it, or opens files; the range server reads the virtual stream. So
  live_read_exact (what a live read returns) is what VirtualClaims uses of a live source,
  stream_read_exact is what the range server's body loop uses, and connection_answers is the
  end of the chain: everything sent on a connection is the specified answers over the bytes of
  the package. A connection with a private SMB session reads that instead of the virtual stream
  (smb_range_streamed). The path a package has on a share comes from a scan and comes back as a
  URL (scanned_package_opens); what the parser says of it is checked against the bytes a share
  serves (share_parses_like_file). Cancelling runs the other way: a lost uploader cancels the installation.

  \<^bold>\<open>Conventions.\<close> uint64_t and size_t values are natural numbers; each addition, subtraction and
  product that can wrap is u64_add, u64_sub or u64_mul. Bytes are 8-bit words, SHA-1 and CRC
  registers 32-bit words. A C string is the list of its characters before the NUL. Errors are
  the code's return values. PkgPrelude has these and the string and number functions of libc.

  \<^bold>\<open>Parameters.\<close> What code outside src/src decides is an argument: the answers of recv and send
  (recv_ev, send_ev, recv_result), malloc, the clock, the file system (files, world, and parse_env for
  the parser), mz_uncompress, what drives hold at each round of a wait and what other threads do meanwhile
  (record wait_env), the part finder of VirtualStream (PartFinder in the installer), libsmb2 and poll
  (record smb2: what they answer in each state of a read; share: the entries of a folder; connect:
  the share of a configuration), what the console says of a title (app_info), and the settings of
  pkg_cache_get_settings. Virtual streams and the
  parser take reads over SMB as an argument; that these reads are exact is SmbReadClaims. What the properties
  rely on is named: genuine and part_env (files that carry a package's uuid hold its slices),
  answers_ok (the waiter names the part asked for), smb_source and conn_good (a positive SMB
  read delivers that part of the file), answers (libsmb2 puts the bytes it reports into the buffer
  of a request in flight, and reports each request once), prompt (each is answered within p
  rounds of the event loop) and obliging (requests are taken, and answered whole); the
  witnesses instantiate them. fstat of an open file is taken to succeed.

  \<^bold>\<open>Loops and bounds.\<close> Loops over data are functions with a measure. sha1_pad and the SHA-1 rounds
  are bounded by the block size of 64, the keep-alive loop by its 100 requests. The body loop of
  the range server is a partial function in the option monad, since a misbehaving source could
  keep it going; connection_answers and request_answered_in_full prove that it returns. The
  event loop and the rounds of a read over SMB are partial functions too, and smb_read_complete
  proves their end; p_time in their state tells calls apart, so that libsmb2 may answer the same
  request differently at another time. A scan has 5 levels, the code's own bound. A read
  that waits for a disc which never comes is the answer VBlocked (InRead, ConnInRead above it).

  \<^bold>\<open>What the groups of lemmas show.\<close> live_inv, live_ok and sys_inv: the slot table of a live session is
  consistent in every reachable state. stream_good and mounted: the parts of a stream cover their
  slices; covers_slice: each part, the ones still missing included, has its place in the package.
  carries: what the assembler needs of a part file, whatever its layout. answered and exchange: what is on the wire is a beginning of the right answer.
  srv_inv: the reference count of the range server is exact; inevitable: every run of the steps
  a stop waits for comes to its end. pipe_ok: the slots in flight of a read
  over SMB are a chain of adjacent pieces of the buffer, and the bytes counted are the file's.
  packages_in is what a scan of a share should find, listing what a folder should show. The
  lemmas named unchecked, hang, wraps, outlives, interrupts, served, overrun, cut, ignored, taken,
  overwritten and cyclic state behaviour of the code that falls short of its aim.

  \<^bold>\<open>Simplifications.\<close> A blocking writer of the live session that is woken (step_write_wake) still
  writes bytes of the current file: a writer that sleeps through a destroy and the create of
  another session is left out. A write of the assembler is all or nothing (dc_write), and the
  file is what was written: that fclose may still fail is not seen, as in the code. A connection
  of the range server sees one state of the session (conn_loop); a worker that lives through a
  stop and the next start is covered only as far as its pins go, in StreamSystem. A name that an
  entry has in the string table is read up to its NUL, where the code compares as far as needed.

  \<^bold>\<open>Not modelled.\<close> Log output, clocks, mutexes and thread creation of the modelled files, the accept
  loop of the range server, the blurhash of an icon. Of the SMB client: connecting and its test,
  the enumeration of a server's shares, error messages, and the single-file helpers that only
  forward to libsmb2. Of the scanner: full and quick scans and the manifest. The HTTP API, the
  cache of metadata, the queries of the console's databases, leftovers and the helper process are calls of libraries and services
  from end to end. Vendored SQLite, miniz (but for mz_crc32) and stb_image are other projects' code.
\<close>

end
